(* ===== verification/Mu_Prelude.thy ===== *)
theory Mu_Prelude
  imports Main "HOL-Library.Word"
begin

text \<open>
  Shared vocabulary of the development: bytes, the error codes the modelled functions
  return, the calling convention of a transcoder (\<open>struct mu_filter_io\<close> and the enums of
  \<open>include/mailutils/filter.h\<close>), and the loop rules all transcoder proofs use.
\<close>

unbundle bit_operations_syntax

named_theorems xcode_simps \<open>definitions unfolded when a transcoder call is evaluated\<close>

section \<open>Bytes\<close>

text \<open>A C \<open>char\<close> or \<open>unsigned char\<close> in memory is an 8-bit word.\<close>

type_synonym byte = "8 word"
type_synonym bytes = "8 word list"

abbreviation (input) NUL :: byte where "NUL \<equiv> 0"
abbreviation (input) TAB :: byte where "TAB \<equiv> 9"
abbreviation (input) LF :: byte where "LF \<equiv> 10"
abbreviation (input) CR :: byte where "CR \<equiv> 13"
abbreviation (input) SPC :: byte where "SPC \<equiv> 32"
abbreviation (input) DQUOTE :: byte where "DQUOTE \<equiv> 34"
abbreviation (input) PERCENT :: byte where "PERCENT \<equiv> 37"
abbreviation (input) AMP :: byte where "AMP \<equiv> 38"
abbreviation (input) DOT :: byte where "DOT \<equiv> 46"
abbreviation (input) LT_C :: byte where "LT_C \<equiv> 60"
abbreviation (input) EQ_C :: byte where "EQ_C \<equiv> 61"
abbreviation (input) GT_C :: byte where "GT_C \<equiv> 62"
abbreviation (input) BSLASH :: byte where "BSLASH \<equiv> 92"
abbreviation (input) USCORE :: byte where "USCORE \<equiv> 95"

text \<open>The bytes of a string literal of the source.\<close>

definition bytes_of :: "string \<Rightarrow> bytes" where
  "bytes_of s = map (of_char :: char \<Rightarrow> byte) s"

lemma bytes_of_append [simp]: "bytes_of (s @ t) = bytes_of s @ bytes_of t"
  by (simp add: bytes_of_def)

text \<open>What \<open>%lu\<close> prints.\<close>

fun decimal :: "nat \<Rightarrow> bytes" where
  "decimal n = (if n < 10 then [48 + of_nat n] else decimal (n div 10) @ [48 + of_nat (n mod 10)])"

declare decimal.simps [simp del]

lemma decimal_not_empty [simp]: "decimal n \<noteq> []"
  by (cases "n < 10") (simp_all add: decimal.simps[of n])

section \<open>Errors\<close>

text \<open>The \<open>errno\<close> values and \<open>MU_ERR_*\<close> codes (\<open>include/mailutils/errno.h\<close>) that the
  modelled functions return. A C function returning 0 or an error is a value of
  \<open>mu_error + 'a\<close>. \<open>OUT_OF_BOUNDS\<close> is not a code of the library: it is the value the model
  gives to a read or write outside an array, whose C behaviour is undefined;
  \<open>SIGNED_OVERFLOW\<close> likewise stands for the overflow of an \<open>int\<close>.\<close>

datatype mu_error =
    EINVAL | ENOMEM | ENOENT | ERANGE | ESPIPE | ENOSYS | EEXIST
  | MU_ERR_FAILURE | MU_ERR_NOENT | MU_ERR_EXISTS | MU_ERR_BUFSPACE
  | MU_ERR_BASE64 | MU_ERR_PARSE | MU_ERR_OUT_PTR_NULL | MU_ERR_NOT_OPEN
  | MU_ERR_INVALID_EMAIL | MU_ERR_FORMAT | MU_ERR_MALFORMED_URL
  | MU_ERR_FAMILY | MU_ERR_NONAME | MU_ERR_INFO_UNAVAILABLE
  | MU_ERR_EMPTY_ADDRESS | OUT_OF_BOUNDS | SIGNED_OVERFLOW

text \<open>The largest value of type \<open>int\<close>.\<close>

definition INT_MAX :: int where "INT_MAX = 2 ^ 31 - 1"

section \<open>The calling convention of a transcoder\<close>

datatype filter_command =
  mu_filter_init | mu_filter_done | mu_filter_xcode | mu_filter_lastbuf | mu_filter_flush

datatype filter_result =
  mu_filter_ok | mu_filter_failure | mu_filter_moreinput | mu_filter_moreoutput | mu_filter_again

text \<open>
  What a call \<open>xcode (xdata, cmd, &iobuf)\<close> leaves behind: the transcoder state, the result,
  and the fields of \<open>iobuf\<close>: \<open>xisize\<close> and \<open>xosize\<close> are its \<open>isize\<close> and \<open>osize\<close> on return
  (bytes consumed and written when the result is ok or again, the requested sizes when
  it is moreinput or moreoutput), \<open>xout\<close> the first \<open>osize\<close> bytes at \<open>output\<close>.
\<close>

record 's xcoded =
  xst :: 's
  xres :: filter_result
  xisize :: nat
  xosize :: nat
  xout :: bytes
  xeof :: bool
  xerr :: mu_error

type_synonym 's xcoder = "'s \<Rightarrow> filter_command \<Rightarrow> bytes \<Rightarrow> nat \<Rightarrow> 's xcoded"

definition x_ret :: "filter_result \<Rightarrow> 's \<Rightarrow> nat \<Rightarrow> bytes \<Rightarrow> 's xcoded" where
  "x_ret res st i out =
     \<lparr>xst = st, xres = res, xisize = i, xosize = length out, xout = out,
      xeof = False, xerr = MU_ERR_FAILURE\<rparr>"

abbreviation x_ok :: "'s \<Rightarrow> nat \<Rightarrow> bytes \<Rightarrow> 's xcoded" where
  "x_ok \<equiv> x_ret mu_filter_ok"

text \<open>\<open>iobuf->eof = 1\<close> and then the ordinary return.\<close>

definition x_eof :: "'s \<Rightarrow> nat \<Rightarrow> bytes \<Rightarrow> 's xcoded" where
  "x_eof st i out = (x_ok st i out)\<lparr>xeof := True\<rparr>"

text \<open>\<open>iobuf->osize = n; return mu_filter_moreoutput\<close>, with \<open>isize\<close> as it came in.\<close>

definition x_moreoutput :: "'s \<Rightarrow> nat \<Rightarrow> nat \<Rightarrow> 's xcoded" where
  "x_moreoutput st isize n =
     \<lparr>xst = st, xres = mu_filter_moreoutput, xisize = isize, xosize = n, xout = [],
      xeof = False, xerr = MU_ERR_FAILURE\<rparr>"

definition x_moreinput :: "'s \<Rightarrow> nat \<Rightarrow> nat \<Rightarrow> 's xcoded" where
  "x_moreinput st n osize =
     \<lparr>xst = st, xres = mu_filter_moreinput, xisize = n, xosize = osize, xout = [],
      xeof = False, xerr = MU_ERR_FAILURE\<rparr>"

definition x_failure :: "'s \<Rightarrow> mu_error \<Rightarrow> 's xcoded" where
  "x_failure st e =
     \<lparr>xst = st, xres = mu_filter_failure, xisize = 0, xosize = 0, xout = [],
      xeof = False, xerr = e\<rparr>"

text \<open>The answer to \<open>mu_filter_init\<close> and \<open>mu_filter_done\<close>: ok, with \<open>iobuf\<close> untouched.\<close>

definition x_quiet :: "'s \<Rightarrow> bytes \<Rightarrow> nat \<Rightarrow> 's xcoded" where
  "x_quiet st inp osize =
     \<lparr>xst = st, xres = mu_filter_ok, xisize = length inp, xosize = osize, xout = [],
      xeof = False, xerr = MU_ERR_FAILURE\<rparr>"

lemmas x_defs [xcode_simps] =
  x_ret_def x_eof_def x_moreoutput_def x_moreinput_def x_failure_def x_quiet_def

section \<open>Following a reference transducer\<close>

text \<open>
  \<open>spec st bs\<close> is what a transcoder owes for the input \<open>bs\<close> that is still to come when its
  state is \<open>st\<close>, up to the end of the stream. A loop at \<open>(i, out)\<close> with input \<open>inp\<close> left in
  the buffer \<open>follows\<close> it when the result it stops with has consumed some \<open>n\<close> bytes more and
  written some bytes more, and what was written together with what the new state owes for
  the unconsumed input and any further input is what was owed before. A request for a
  larger buffer is only made before anything has been consumed, keeps the state, and asks for
  more input than there is. The end is only announced when nothing is owed (an empty window
  apart), and the answer \<open>again\<close> is kept for the last buffer.
\<close>

definition follows ::
  "('s \<Rightarrow> bytes \<Rightarrow> bytes) \<Rightarrow> nat \<Rightarrow> 's \<Rightarrow> nat \<Rightarrow> bytes \<Rightarrow> bytes \<Rightarrow> 's xcoded \<Rightarrow> bool" where
  "follows spec osize st i out inp r \<longleftrightarrow>
     xres r \<noteq> mu_filter_again \<and>
     (xres r = mu_filter_ok \<longrightarrow>
        (\<exists>n w. xisize r = i + n \<and> n \<le> length inp \<and> xout r = out @ w \<and>
           xosize r = length (xout r) \<and>
           (length out \<le> osize \<longrightarrow> length (xout r) \<le> osize) \<and>
           (\<forall>rest. spec st (inp @ rest) = w @ spec (xst r) (drop n inp @ rest)) \<and>
           (xeof r \<longrightarrow> 0 < i + length inp \<longrightarrow> (\<forall>rest. spec (xst r) (drop n inp @ rest) = [])))) \<and>
     (xres r \<in> {mu_filter_moreinput, mu_filter_moreoutput} \<longrightarrow> i = 0 \<and> xst r = st) \<and>
     (xres r = mu_filter_moreinput \<longrightarrow> length inp < xisize r)"

lemma follows_stop:
  "follows spec osize st i out inp (x_ok st i out)"
  by (auto simp: follows_def x_defs)

lemma follows_moreoutput: "follows spec osize st 0 out inp (x_moreoutput st m n)"
  by (auto simp: follows_def x_defs)

lemma follows_moreinput: "length inp < m \<Longrightarrow> follows spec osize st 0 out inp (x_moreinput st m n)"
  by (auto simp: follows_def x_defs)

lemma follows_failure: "follows spec osize st i out inp (x_failure st' e)"
  by (auto simp: follows_def x_defs)

text \<open>One turn of a loop: \<open>k\<close> bytes consumed, \<open>w\<close> written, then the rest of the loop.\<close>

lemma follows_steps:
  assumes rest: "follows spec osize st' (i + k) (out @ w) inp' r"
    and inp: "length inp = k + length inp'" "drop k inp = inp'"
    and pos: "0 < k \<or> st' = st"
    and owed: "\<And>rest. spec st (inp @ rest) = w @ spec st' (inp' @ rest)"
    and room: "length (out @ w) \<le> osize"
  shows "follows spec osize st i out inp r"
  unfolding follows_def
proof (intro conjI impI)
  show "xres r \<noteq> mu_filter_again" using rest by (simp add: follows_def)
  assume ok: "xres r = mu_filter_ok"
  from rest[unfolded follows_def] ok obtain n w' where
    n: "xisize r = i + k + n" "n \<le> length inp'" "xout r = (out @ w) @ w'"
       "xosize r = length (xout r)" "length (xout r) \<le> osize"
       "\<forall>rest. spec st' (inp' @ rest) = w' @ spec (xst r) (drop n inp' @ rest)"
       "xeof r \<longrightarrow> 0 < i + k + length inp' \<longrightarrow> (\<forall>rest. spec (xst r) (drop n inp' @ rest) = [])"
    using room by blast
  have "drop (k + n) inp = drop n inp'"
    using inp(2) by (metis add.commute drop_drop)
  with n inp show "\<exists>n w. xisize r = i + n \<and> n \<le> length inp \<and> xout r = out @ w \<and>
           xosize r = length (xout r) \<and>
           (length out \<le> osize \<longrightarrow> length (xout r) \<le> osize) \<and>
           (\<forall>rest. spec st (inp @ rest) = w @ spec (xst r) (drop n inp @ rest)) \<and>
           (xeof r \<longrightarrow> 0 < i + length inp \<longrightarrow> (\<forall>rest. spec (xst r) (drop n inp @ rest) = []))"
    by (intro exI[of _ "k + n"] exI[of _ "w @ w'"]) (simp add: owed add.assoc)
next
  assume "xres r \<in> {mu_filter_moreinput, mu_filter_moreoutput}"
  with rest pos show "i = 0" and "xst r = st"
    by (auto simp: follows_def)
next
  assume "xres r = mu_filter_moreinput"
  with rest pos inp show "length inp < xisize r"
    by (auto simp: follows_def)
qed

lemma follows_step:
  assumes "follows spec osize st' (Suc i) (out @ w) inp' r"
    and "\<And>rest. spec st (c # inp' @ rest) = w @ spec st' (inp' @ rest)"
    and "length (out @ w) \<le> osize"
  shows "follows spec osize st i out (c # inp') r"
  using assms follows_steps[of spec osize st' i 1 out w inp' r "c # inp'" st] by simp

lemma follows_skip:
  assumes "follows spec osize st' (Suc i) out inp' r"
    and "\<And>rest. spec st (c # inp' @ rest) = spec st' (inp' @ rest)"
    and "length out \<le> osize"
  shows "follows spec osize st i out (c # inp') r"
  using assms follows_steps[of spec osize st' i 1 out "[]" inp' r "c # inp'" st] by simp

text \<open>The loop has found the end of the stream: nothing is owed any more.\<close>

lemma follows_eof:
  assumes "\<And>rest. spec st (inp @ rest) = []" "\<And>rest. spec st' (inp @ rest) = []"
  shows "follows spec osize st i out inp (x_eof st' i out)"
  using assms by (auto simp: follows_def x_defs)

end
