(* ===== verification/Xcoder.thy ===== *)
theory Xcoder
  imports Mu_Prelude
begin

text \<open>
  The contract between a transcoder (\<open>mu_filter_xcode_t\<close>, \<open>include/mailutils/filter.h\<close>) and
  the filter stream that calls it, as a locale. The client part proves, once for all
  transcoders, what any sequence of calls over buffers of any sizes produces.
\<close>

section \<open>Sequences of calls\<close>

text \<open>
  One call of the transcoder over a window of the input and an output buffer, the way the
  filter stream makes it: on ok or again the consumed bytes leave the input and the written
  bytes join the output; on a request for a larger buffer nothing moves.
\<close>

fun feed :: "'s xcoder \<Rightarrow> 's \<times> bytes \<times> bytes \<Rightarrow> nat \<times> nat \<Rightarrow> 's \<times> bytes \<times> bytes" where
  "feed x (st, inp, out) (isize, osize) =
     (let r = x st mu_filter_xcode (take isize inp) osize
      in if xres r \<in> {mu_filter_ok, mu_filter_again}
         then (xst r, drop (xisize r) inp, out @ xout r)
         else (xst r, inp, out))"

fun feeds :: "'s xcoder \<Rightarrow> 's \<times> bytes \<times> bytes \<Rightarrow> (nat \<times> nat) list \<Rightarrow> 's \<times> bytes \<times> bytes" where
  "feeds x c [] = c"
| "feeds x c (w # ws) = feeds x (feed x c w) ws"

section \<open>The contract\<close>

locale xcoder =
  fixes xcode :: "'s xcoder"
    and spec :: "'s \<Rightarrow> bytes \<Rightarrow> bytes"
    and wf :: "'s \<Rightarrow> bool"
  assumes xcode_follows:
      "wf st \<Longrightarrow> follows spec osize st 0 [] inp (xcode st mu_filter_xcode inp osize)"
    and xcode_wf: "wf st \<Longrightarrow> wf (xst (xcode st cmd inp osize))"
begin

lemma xcode_ok:
  assumes "wf st" "xres (xcode st mu_filter_xcode inp osize) = mu_filter_ok"
  defines "r \<equiv> xcode st mu_filter_xcode inp osize"
  shows "xisize r \<le> length inp" "xosize r = length (xout r)" "length (xout r) \<le> osize"
    "spec st (inp @ rest) = xout r @ spec (xst r) (drop (xisize r) inp @ rest)"
    "xeof r \<Longrightarrow> inp \<noteq> [] \<Longrightarrow> spec (xst r) (drop (xisize r) inp @ rest) = []"
  using xcode_follows[OF assms(1), of osize inp] assms(2)
  unfolding r_def follows_def by auto

lemma xcode_not_again: "wf st \<Longrightarrow> xres (xcode st mu_filter_xcode inp osize) \<noteq> mu_filter_again"
  using xcode_follows[of st osize inp] by (simp add: follows_def)

lemma xcode_moreinput:
  "wf st \<Longrightarrow> xres (xcode st mu_filter_xcode inp osize) = mu_filter_moreinput \<Longrightarrow>
   length inp < xisize (xcode st mu_filter_xcode inp osize)"
  using xcode_follows[of st osize inp] by (simp add: follows_def)

lemma xcode_retry:
  assumes "wf st"
    and "xres (xcode st mu_filter_xcode inp osize) \<in> {mu_filter_moreinput, mu_filter_moreoutput}"
  shows "xst (xcode st mu_filter_xcode inp osize) = st"
  using xcode_follows[OF assms(1), of osize inp] assms(2) by (auto simp: follows_def)

text \<open>Whatever the windows are, what has been written and what is still owed add up to
  what was owed before.\<close>

lemma feed_owed:
  assumes "wf st" "feed xcode (st, inp, out) w = (st', inp', out')"
    and "xres (xcode st mu_filter_xcode (take (fst w) inp) (snd w)) \<noteq> mu_filter_failure"
  shows "wf st' \<and> out' @ spec st' inp' = out @ spec st inp"
proof (cases w)
  case (Pair isize osize)
  let ?r = "xcode st mu_filter_xcode (take isize inp) osize"
  show ?thesis
  proof (cases "xres ?r = mu_filter_ok")
    case True
    note ok = xcode_ok[OF assms(1) True]
    have "spec st inp = xout ?r @ spec (xst ?r) (drop (xisize ?r) (take isize inp) @ drop isize inp)"
      using ok(4)[of "drop isize inp"] by simp
    moreover have "drop (xisize ?r) (take isize inp) @ drop isize inp = drop (xisize ?r) inp"
    proof -
      have "drop (xisize ?r) (take isize inp @ drop isize inp)
          = drop (xisize ?r) (take isize inp) @ drop isize inp"
        using ok(1) by (simp only: drop_append) simp
      then show ?thesis by simp
    qed
    ultimately show ?thesis
      using True assms(1,2) Pair by (auto simp: Let_def xcode_wf)
  next
    case False
    with assms(3) Pair have "xres ?r \<in> {mu_filter_moreinput, mu_filter_moreoutput}"
      using xcode_not_again[OF assms(1)] by (cases "xres ?r") auto
    with False assms(1,2) Pair show ?thesis
      by (auto simp: Let_def xcode_retry)
  qed
qed

end

section \<open>The last buffer\<close>

text \<open>
  With \<open>mu_filter_lastbuf\<close> the window holds all the input there is. A transcoder that
  consumes it all and answers ok has written all it owes, trailing material included; if
  it answers again, or ok with input left, it still owes the rest.
\<close>

definition finishes :: "('s \<Rightarrow> bytes \<Rightarrow> bytes) \<Rightarrow> nat \<Rightarrow> 's \<Rightarrow> bytes \<Rightarrow> 's xcoded \<Rightarrow> bool" where
  "finishes spec osize st inp r \<longleftrightarrow>
     (xres r \<in> {mu_filter_ok, mu_filter_again} \<longrightarrow>
        xisize r \<le> length inp \<and> xosize r = length (xout r) \<and> length (xout r) \<le> osize \<and>
        (xeof r \<longrightarrow> xres r = mu_filter_ok \<longrightarrow> spec st inp = xout r) \<and>
        (if xres r = mu_filter_ok \<and> xisize r = length inp then spec st inp = xout r
         else spec st inp = xout r @ spec (xst r) (drop (xisize r) inp))) \<and>
     (xres r \<in> {mu_filter_moreinput, mu_filter_moreoutput} \<longrightarrow> xst r = st)"

lemma follows_finishes:
  assumes "follows spec osize st 0 [] inp r" "\<And>s. spec s [] = []"
  shows "finishes spec osize st inp r"
proof -
  have "xisize r \<le> length inp \<and> xosize r = length (xout r) \<and> length (xout r) \<le> osize \<and>
     spec st inp = xout r @ spec (xst r) (drop (xisize r) inp) \<and>
     (xeof r \<longrightarrow> spec (xst r) (drop (xisize r) inp) = [])"
    if "xres r = mu_filter_ok"
  proof -
    from assms(1) that obtain n w where
      "xisize r = n" "n \<le> length inp" "xout r = w" "xosize r = length (xout r)"
      "length (xout r) \<le> osize"
      and sp: "\<forall>rest. spec st (inp @ rest) = w @ spec (xst r) (drop n inp @ rest)"
      and ef: "xeof r \<longrightarrow> inp \<noteq> [] \<longrightarrow> (\<forall>rest. spec (xst r) (drop n inp @ rest) = [])"
      unfolding follows_def by auto
    moreover have "xeof r \<longrightarrow> spec (xst r) (drop n inp) = []"
      using ef[THEN mp, THEN mp, THEN spec, of "[]"] assms(2) by (cases "inp = []") auto
    ultimately show ?thesis using sp[THEN spec, of "[]"] by simp
  qed
  moreover have "xres r \<in> {mu_filter_moreinput, mu_filter_moreoutput} \<longrightarrow> xst r = st"
    using assms(1) by (simp add: follows_def)
  moreover have "xres r \<noteq> mu_filter_again" using assms(1) by (simp add: follows_def)
  ultimately show ?thesis
    unfolding finishes_def by (auto simp: assms(2))
qed

locale full_xcoder = xcoder +
  assumes last_finishes:
    "wf st \<Longrightarrow> finishes spec osize st inp (xcode st mu_filter_lastbuf inp osize)"

text \<open>
  Most transcoders treat the last buffer like any other and owe nothing once the input has
  ended; for these the law of the last buffer follows.
\<close>

locale plain_xcoder = xcoder +
  assumes last_same: "xcode st mu_filter_lastbuf = xcode st mu_filter_xcode"
    and spec_nil: "spec st [] = []"

sublocale plain_xcoder \<subseteq> full_xcoder xcode spec wf
  by unfold_locales (auto simp: last_same intro!: follows_finishes xcode_follows spec_nil)

text \<open>Transcoders that never fail: the law extends to all sequences of windows.\<close>

locale total_xcoder = full_xcoder +
  assumes never_fails: "wf st \<Longrightarrow> xres (xcode st mu_filter_xcode inp osize) \<noteq> mu_filter_failure"
begin

lemma feeds_owed:
  assumes "wf st" "feeds xcode (st, inp, out) ws = (st', inp', out')"
  shows "wf st' \<and> out' @ spec st' inp' = out @ spec st inp"
  using assms
proof (induction ws arbitrary: st inp out)
  case Nil
  then show ?case by simp
next
  case (Cons w ws)
  obtain st1 inp1 out1 where step: "feed xcode (st, inp, out) w = (st1, inp1, out1)"
    by (metis prod_cases3)
  have one: "wf st1 \<and> out1 @ spec st1 inp1 = out @ spec st inp"
    using feed_owed[OF Cons.prems(1) step] never_fails[OF Cons.prems(1)] by blast
  with Cons.IH[of st1 inp1 out1] Cons.prems(2) step show ?case by simp
qed

text \<open>Two runs over the same input that both take all of it write the same bytes, provided
  nothing is owed when the input has ended.\<close>

lemma feeds_chunking:
  assumes "wf st" "\<And>s. wf s \<Longrightarrow> spec s [] = []"
    and "feeds xcode (st, inp, []) ws = (st1, [], out1)"
  shows "out1 = spec st inp"
  using feeds_owed[OF assms(1,3)] assms(2)[of st1] by simp

end

section \<open>Progress\<close>

text \<open>
  The filter stream never offers less room than \<open>MU_FILTER_BUF_SIZE\<close>. A live transcoder is
  content with that and moves something in each call, unless it waits for more input: then
  the window is shorter than \<open>lim\<close>, or it says so with \<open>moreinput\<close>. On the last buffer an
  answer \<open>again\<close> comes with some progress, and nothing is written only when nothing is owed.
\<close>

definition MU_FILTER_BUF_SIZE :: nat where "MU_FILTER_BUF_SIZE = 2048"

definition lively :: "nat \<Rightarrow> bytes \<Rightarrow> 's xcoded \<Rightarrow> bool" where
  "lively lim inp r \<longleftrightarrow>
     (xres r = mu_filter_ok \<longrightarrow> length inp < lim \<or> 0 < xisize r \<or> 0 < xosize r \<or> xeof r) \<and>
     (xres r = mu_filter_moreinput \<longrightarrow> lim \<le> xisize r) \<and>
     xres r \<noteq> mu_filter_moreoutput"

definition lively_last :: "'s xcoded \<Rightarrow> bool" where
  "lively_last r \<longleftrightarrow>
     (xres r = mu_filter_again \<longrightarrow> 0 < xisize r \<or> 0 < xosize r) \<and> xres r \<noteq> mu_filter_moreoutput"

locale live_xcoder = full_xcoder +
  fixes lim :: nat
  assumes lim_le: "lim \<le> MU_FILTER_BUF_SIZE"
    and xcode_live: "wf st \<Longrightarrow> inp \<noteq> [] \<Longrightarrow> MU_FILTER_BUF_SIZE \<le> osize \<Longrightarrow>
      lively lim inp (xcode st mu_filter_xcode inp osize)"
    and last_live: "wf st \<Longrightarrow> MU_FILTER_BUF_SIZE \<le> osize \<Longrightarrow>
      lively_last (xcode st mu_filter_lastbuf inp osize)"
    and last_speaks: "wf st \<Longrightarrow> MU_FILTER_BUF_SIZE \<le> osize \<Longrightarrow>
      xres (xcode st mu_filter_lastbuf inp osize) \<in> {mu_filter_ok, mu_filter_again} \<Longrightarrow>
      xout (xcode st mu_filter_lastbuf inp osize) = [] \<Longrightarrow> spec st inp = []"

text \<open>A plain transcoder is live when each call moves something or waits for more input.\<close>

locale live_plain_xcoder = plain_xcoder +
  fixes lim :: nat
  assumes plain_lim: "lim \<le> MU_FILTER_BUF_SIZE"
    and plain_live: "wf st \<Longrightarrow> inp \<noteq> [] \<Longrightarrow> MU_FILTER_BUF_SIZE \<le> osize \<Longrightarrow>
      lively lim inp (xcode st mu_filter_xcode inp osize)"
    and plain_empty: "wf st \<Longrightarrow> xres (xcode st mu_filter_xcode [] osize) \<noteq> mu_filter_moreoutput"
    and plain_speaks: "wf st \<Longrightarrow> inp \<noteq> [] \<Longrightarrow> MU_FILTER_BUF_SIZE \<le> osize \<Longrightarrow>
      xres (xcode st mu_filter_xcode inp osize) = mu_filter_ok \<Longrightarrow>
      xout (xcode st mu_filter_xcode inp osize) = [] \<Longrightarrow> spec st inp = []"

sublocale live_plain_xcoder \<subseteq> live_xcoder xcode spec wf lim
proof unfold_locales
  fix st inp osize
  assume wf: "wf st" and osize: "MU_FILTER_BUF_SIZE \<le> osize"
  let ?r = "xcode st mu_filter_xcode inp osize"
  show "lively_last (xcode st mu_filter_lastbuf inp osize)"
    using plain_live[OF wf _ osize, of inp] plain_empty[OF wf, of osize] xcode_not_again[OF wf, of inp osize]
    by (cases "inp = []") (auto simp: lively_last_def lively_def last_same)
  show "xres (xcode st mu_filter_lastbuf inp osize) \<in> {mu_filter_ok, mu_filter_again} \<Longrightarrow>
      xout (xcode st mu_filter_lastbuf inp osize) = [] \<Longrightarrow> spec st inp = []"
    using plain_speaks[OF wf _ osize, of inp] xcode_not_again[OF wf, of inp osize]
    by (cases "inp = []") (auto simp: last_same spec_nil)
qed (use plain_lim plain_live in auto)

text \<open>What one turn of a loop that follows a reference already shows.\<close>

lemma follows_lively: "follows spec osize st (Suc i) out inp r \<Longrightarrow> lively lim w r"
  by (auto simp: follows_def lively_def)

lemma follows_wrote:
  "follows spec osize st i out inp r \<Longrightarrow> xres r = mu_filter_ok \<Longrightarrow> xout r = [] \<Longrightarrow> out = []"
  by (auto simp: follows_def)

lemma follows_next:
  assumes "follows spec osize st (Suc i) out inp r" "out \<noteq> [] \<or> spec' = []"
  shows "lively lim w r" "xres r = mu_filter_ok \<Longrightarrow> xout r = [] \<Longrightarrow> spec' = []"
  using follows_lively[OF assms(1)] follows_wrote[OF assms(1)] assms(2) by auto

end
