(* ===== verification/Mem_Stream.thy ===== *)
theory Mem_Stream
  imports Mu_Prelude
begin

text \<open>
  Memory streams (\<open>libmailutils/stream/memory_stream.c\<close>) read through the unbuffered path of
  \<open>mu_stream_read\<close> (\<open>libmailutils/stream/stream.c\<close>), and the contract of a stream that the
  filter stream reads from.
\<close>

section \<open>What a reader relies on\<close>

text \<open>
  \<open>tr_read t n\<close> is \<open>mu_stream_read\<close> for at most \<open>n\<close> bytes, \<open>tr_eof\<close> is \<open>mu_stream_eof\<close>,
  \<open>tr_bytes t\<close> the bytes still to be read. Reads deliver the bytes in order; a read of at
  least one byte delivers none only at the end, and the end flag is only up at the end.
\<close>

locale transport =
  fixes tr_read :: "'t \<Rightarrow> nat \<Rightarrow> mu_error + (bytes \<times> 't)"
    and tr_eof :: "'t \<Rightarrow> bool"
    and tr_bytes :: "'t \<Rightarrow> bytes"
    and tr_wf :: "'t \<Rightarrow> bool"
  assumes read_bytes:
      "tr_wf t \<Longrightarrow> tr_read t n = Inr (bs, t') \<Longrightarrow> tr_bytes t = bs @ tr_bytes t'"
    and read_bound: "tr_wf t \<Longrightarrow> tr_read t n = Inr (bs, t') \<Longrightarrow> length bs \<le> n"
    and read_wf: "tr_wf t \<Longrightarrow> tr_read t n = Inr (bs, t') \<Longrightarrow> tr_wf t'"
    and read_none: "tr_wf t \<Longrightarrow> 0 < n \<Longrightarrow> tr_read t n = Inr ([], t') \<Longrightarrow> tr_eof t'"
    and eof_end: "tr_wf t \<Longrightarrow> tr_eof t \<Longrightarrow> tr_bytes t = []"
begin

lemma read_none_bytes:
  "tr_wf t \<Longrightarrow> 0 < n \<Longrightarrow> tr_read t n = Inr ([], t') \<Longrightarrow> tr_bytes t' = []"
  using read_none read_wf eof_end by blast

end

section \<open>The memory stream\<close>

text \<open>
  \<open>ms_ptr\<close> is the allocated block, so \<open>capacity\<close> is its length, and \<open>None\<close> the null pointer.
  \<open>ms_eof\<close> is the flag \<open>_MU_STR_EOF\<close> of the enclosing stream.
\<close>

record mem_stream =
  ms_ptr :: "bytes option"
  ms_size :: nat
  ms_offset :: nat
  ms_eof :: bool

definition ms_capacity :: "mem_stream \<Rightarrow> nat" where
  "ms_capacity mfs = (case ms_ptr mfs of None \<Rightarrow> 0 | Some p \<Rightarrow> length p)"

definition MU_STREAM_MEMORY_BLOCKSIZE :: nat where "MU_STREAM_MEMORY_BLOCKSIZE = 1024"

text \<open>\<open>mu_realloc\<close>: the old contents, then bytes \<open>C\<close> leaves indeterminate, given by \<open>fill\<close>.\<close>

definition ms_realloc :: "byte \<Rightarrow> mem_stream \<Rightarrow> nat \<Rightarrow> bytes" where
  "ms_realloc fill mfs newsize =
     (let old = (case ms_ptr mfs of None \<Rightarrow> [] | Some p \<Rightarrow> p)
      in take newsize old @ replicate (newsize - length old) fill)"

definition memory_read :: "mem_stream \<Rightarrow> nat \<Rightarrow> bytes \<times> mem_stream" where
  "memory_read mfs osize =
     (case ms_ptr mfs of
        None \<Rightarrow> ([], mfs)
      | Some p \<Rightarrow>
          if ms_offset mfs \<le> ms_size mfs then
            let n = (if ms_offset mfs + osize > ms_size mfs then ms_size mfs - ms_offset mfs else osize)
            in (take n (drop (ms_offset mfs) p), mfs\<lparr>ms_offset := ms_offset mfs + n\<rparr>)
          else ([], mfs))"

text \<open>\<open>memcpy (ptr + offset, iptr, isize)\<close>.\<close>

definition mem_put :: "bytes \<Rightarrow> nat \<Rightarrow> bytes \<Rightarrow> bytes" where
  "mem_put p off bs = take off p @ bs @ drop (off + length bs) p"

definition memory_write :: "byte \<Rightarrow> mem_stream \<Rightarrow> bytes \<Rightarrow> nat \<times> mem_stream" where
  "memory_write fill mfs iptr =
     (let isize = length iptr;
          mfs = (if ms_capacity mfs < ms_offset mfs + isize then
                   let newsize = MU_STREAM_MEMORY_BLOCKSIZE *
                         ((ms_offset mfs + isize) div MU_STREAM_MEMORY_BLOCKSIZE + 1)
                   in mfs\<lparr>ms_ptr := Some (ms_realloc fill mfs newsize)\<rparr>
                 else mfs);
          mfs = mfs\<lparr>ms_ptr := map_option (\<lambda>p. mem_put p (ms_offset mfs) iptr) (ms_ptr mfs),
                    ms_offset := ms_offset mfs + isize\<rparr>;
          mfs = (if ms_offset mfs > ms_size mfs then mfs\<lparr>ms_size := ms_offset mfs\<rparr> else mfs)
      in (isize, mfs))"

text \<open>With \<open>offset > capacity\<close> the length \<open>capacity - offset\<close> wraps around and \<open>memcpy\<close> leaves
  the block.\<close>

definition fixed_size_memory_write :: "mem_stream \<Rightarrow> bytes \<Rightarrow> mu_error + (nat \<times> mem_stream)" where
  "fixed_size_memory_write mfs iptr =
     (let cap = ms_capacity mfs; off = ms_offset mfs in
      if cap < off + length iptr \<and> cap < off then Inl OUT_OF_BOUNDS
      else
        let isize = (if cap < off + length iptr then cap - off else length iptr);
            mfs = mfs\<lparr>ms_ptr := map_option (\<lambda>p. mem_put p off (take isize iptr)) (ms_ptr mfs),
                      ms_offset := off + isize\<rparr>;
            mfs = (if ms_offset mfs > ms_size mfs then mfs\<lparr>ms_size := ms_offset mfs\<rparr> else mfs)
        in Inr (isize, mfs))"

definition memory_truncate :: "byte \<Rightarrow> mem_stream \<Rightarrow> nat \<Rightarrow> mem_stream" where
  "memory_truncate fill mfs len =
     (let mfs = (if len > ms_size mfs then mfs\<lparr>ms_ptr := Some (ms_realloc fill mfs len)\<rparr> else mfs);
          mfs = mfs\<lparr>ms_size := len\<rparr>
      in if ms_offset mfs > ms_size mfs then mfs\<lparr>ms_offset := ms_size mfs\<rparr> else mfs)"

definition memory_seek :: "mem_stream \<Rightarrow> int \<Rightarrow> mu_error + mem_stream" where
  "memory_seek mfs off = (if off < 0 then Inl ESPIPE else Inr (mfs\<lparr>ms_offset := nat off\<rparr>))"

definition memory_open :: "mem_stream \<Rightarrow> mem_stream" where
  "memory_open mfs = mfs\<lparr>ms_ptr := None, ms_size := 0, ms_offset := 0\<rparr>"

definition memory_close :: "mem_stream \<Rightarrow> mem_stream" where
  "memory_close mfs = mfs\<lparr>ms_ptr := None, ms_size := 0\<rparr>"

definition mu_static_memory_stream_create :: "bytes \<Rightarrow> mem_stream" where
  "mu_static_memory_stream_create mem =
     \<lparr>ms_ptr = Some mem, ms_size = length mem, ms_offset = 0, ms_eof = False\<rparr>"

text \<open>\<open>mu_stream_read\<close> with \<open>mu_buffer_none\<close>: nothing is read at the end of the stream or into an
  empty buffer; a read that returns nothing raises the end flag.\<close>

definition ms_stream_read :: "mem_stream \<Rightarrow> nat \<Rightarrow> mu_error + (bytes \<times> mem_stream)" where
  "ms_stream_read mfs n =
     (if ms_eof mfs \<or> n = 0 then Inr ([], mfs)
      else let (bs, mfs) = memory_read mfs n
           in Inr (bs, if bs = [] then mfs\<lparr>ms_eof := True\<rparr> else mfs))"

section \<open>The block, the data and the position\<close>

definition ms_wf :: "mem_stream \<Rightarrow> bool" where
  "ms_wf mfs \<longleftrightarrow> ms_size mfs \<le> ms_capacity mfs"

definition ms_data :: "mem_stream \<Rightarrow> bytes" where
  "ms_data mfs = (case ms_ptr mfs of None \<Rightarrow> [] | Some p \<Rightarrow> take (ms_size mfs) p)"

definition ms_rest :: "mem_stream \<Rightarrow> bytes" where
  "ms_rest mfs = drop (ms_offset mfs) (ms_data mfs)"

text \<open>The end flag is only up when there is nothing left to read.\<close>

definition ms_ok :: "mem_stream \<Rightarrow> bool" where
  "ms_ok mfs \<longleftrightarrow> ms_wf mfs \<and> (ms_eof mfs \<longrightarrow> ms_rest mfs = [])"

lemmas ms_defs = ms_wf_def ms_data_def ms_rest_def ms_capacity_def ms_ok_def

lemma ms_wf_len: "ms_wf mfs \<Longrightarrow> length (ms_data mfs) = ms_size mfs"
  by (auto simp: ms_defs split: option.splits)

lemma memory_read_rest:
  assumes "ms_wf mfs" "memory_read mfs n = (bs, mfs')"
  shows "bs = take n (ms_rest mfs)" "ms_rest mfs' = drop n (ms_rest mfs)"
    "ms_wf mfs'" "ms_eof mfs' = ms_eof mfs" "ms_data mfs' = ms_data mfs"
  using assms
  by (auto simp: memory_read_def ms_defs Let_def drop_take min_def add.commute
      split: option.splits if_splits)

lemma mem_put_length: "off + length bs \<le> length p \<Longrightarrow> length (mem_put p off bs) = length p"
  by (simp add: mem_put_def)

lemma take_mem_put:
  assumes "off \<le> n" "off + length bs \<le> length p" "n \<le> length p"
  shows "take (max n (off + length bs)) (mem_put p off bs)
       = take off (take n p) @ bs @ drop (off + length bs) (take n p)"
  using assms by (auto simp: mem_put_def max_def take_drop min_def)

lemma ms_realloc_props:
  assumes "ms_wf mfs" "ms_size mfs \<le> n"
  shows "length (ms_realloc fill mfs n) = n" "take (ms_size mfs) (ms_realloc fill mfs n) = ms_data mfs"
  using assms by (auto simp: ms_realloc_def ms_defs Let_def min_def split: option.splits)

lemma block_round: "(n::nat) \<le> 1024 * (n div 1024 + 1)"
proof -
  have "n mod 1024 < 1024" by simp
  then show ?thesis using mult_div_mod_eq[of 1024 n] unfolding distrib_left by linarith
qed

text \<open>A write at or before the end of the data stores its bytes there and leaves the other
  bytes alone, whatever a reallocation puts into the fresh memory.\<close>

lemma memory_write_data:
  assumes wf: "ms_wf mfs" and off: "ms_offset mfs \<le> ms_size mfs"
    and wr: "memory_write fill mfs bs = (n, mfs')"
  shows "n = length bs \<and> ms_wf mfs' \<and> ms_offset mfs' = ms_offset mfs + length bs \<and>
    (bs \<noteq> [] \<or> ms_ptr mfs \<noteq> None \<longrightarrow>
     ms_data mfs' = take (ms_offset mfs) (ms_data mfs) @ bs
                      @ drop (ms_offset mfs + length bs) (ms_data mfs))"
proof -
  let ?off = "ms_offset mfs" and ?need = "ms_offset mfs + length bs"
  define newsize where "newsize = MU_STREAM_MEMORY_BLOCKSIZE * (?need div MU_STREAM_MEMORY_BLOCKSIZE + 1)"
  have need: "?need \<le> newsize"
    unfolding newsize_def MU_STREAM_MEMORY_BLOCKSIZE_def by (rule block_round)
  define p where "p = (if ms_capacity mfs < ?need then Some (ms_realloc fill mfs newsize) else ms_ptr mfs)"
  show ?thesis
  proof (cases p)
    case None
    then have "ms_ptr mfs = None" "bs = []" "?off = 0" "ms_size mfs = 0"
      using off wf by (auto simp: p_def ms_defs split: if_splits)
    with wr show ?thesis
      by (auto simp: memory_write_def Let_def ms_defs)
  next
    case (Some q)
    have q: "ms_size mfs \<le> length q" "take (ms_size mfs) q = ms_data mfs" "?need \<le> length q"
    proof -
      have big: "ms_size mfs \<le> newsize" if "ms_capacity mfs < ?need"
        using that wf need by (simp add: ms_wf_def)
      show "ms_size mfs \<le> length q" "take (ms_size mfs) q = ms_data mfs" "?need \<le> length q"
        using Some wf need ms_realloc_props[OF wf big, of fill]
        by (auto simp: p_def ms_defs split: if_splits)
    qed
    have res: "ms_ptr mfs' = Some (mem_put q ?off bs)" "ms_offset mfs' = ?need"
        "ms_size mfs' = max (ms_size mfs) ?need" "n = length bs"
      using wr Some by (auto simp: memory_write_def Let_def newsize_def p_def max_def
          split: if_splits)
    have "ms_data mfs' = take ?off (ms_data mfs) @ bs @ drop ?need (ms_data mfs)"
      using take_mem_put[of ?off "ms_size mfs" bs q] off q res by (simp add: ms_data_def)
    with res q show ?thesis by (simp add: ms_wf_def ms_capacity_def mem_put_length)
  qed
qed

lemma ms_stream_read_rest:
  assumes ok: "ms_ok t" and rd: "ms_stream_read t n = Inr (bs, t')"
  shows "ms_rest t = bs @ ms_rest t' \<and> length bs \<le> n \<and> ms_ok t' \<and>
    (0 < n \<longrightarrow> bs = [] \<longrightarrow> ms_rest t' = [])"
proof (cases "ms_eof t \<or> n = 0")
  case True
  with ok rd show ?thesis by (auto simp: ms_stream_read_def ms_ok_def)
next
  case False
  obtain cs u where u: "memory_read t n = (cs, u)" by fastforce
  note facts = memory_read_rest[OF _ u]
  have "bs = cs" "t' = (if bs = [] then u\<lparr>ms_eof := True\<rparr> else u)"
    using rd False u by (auto simp: ms_stream_read_def)
  moreover have "ms_rest (u\<lparr>ms_eof := True\<rparr>) = ms_rest u" "ms_wf (u\<lparr>ms_eof := True\<rparr>) = ms_wf u"
    by (simp_all add: ms_rest_def ms_data_def ms_wf_def ms_capacity_def split: option.split)
  ultimately show ?thesis
    using facts ok False by (auto simp: ms_ok_def)
qed

lemma ms_stream_read_none:
  "0 < n \<Longrightarrow> ms_stream_read t n = Inr ([], t') \<Longrightarrow> ms_eof t'"
  by (auto simp: ms_stream_read_def Let_def split: if_splits prod.splits)

interpretation mem: transport ms_stream_read ms_eof ms_rest ms_ok
proof unfold_locales
  fix t n t'
  show "0 < n \<Longrightarrow> ms_stream_read t n = Inr ([], t') \<Longrightarrow> ms_eof t'"
    by (rule ms_stream_read_none)
qed (use ms_stream_read_rest in \<open>blast+\<close>, simp add: ms_ok_def)

end
