(* ===== verification/Filter_Stream.thy ===== *)
theory Filter_Stream
  imports Xcoder Mem_Stream
begin

text \<open>
  The read side of the filter stream (\<open>libmailutils/stream/fltstream.c\<close>): the two buffers, the
  loop of \<open>filter_read\<close> that fills them and calls the transcoder, and the proof that reading
  through the stream delivers what the transcoder's reference function owes, in order and
  without loss, whatever sizes the buffers and the reads have.
\<close>

section \<open>Buffers\<close>

text \<open>\<open>fb_base\<close> holds the bytes up to \<open>level\<close>; \<open>realloc\<close> is taken to succeed.\<close>

record filter_buffer =
  fb_base :: bytes
  fb_size :: nat
  fb_pos :: nat

definition MFB_level :: "filter_buffer \<Rightarrow> nat" where
  "MFB_level buf = length (fb_base buf)"

definition MFB_rdbytes :: "filter_buffer \<Rightarrow> nat" where
  "MFB_rdbytes buf = MFB_level buf - fb_pos buf"

definition MFB_freesize :: "filter_buffer \<Rightarrow> nat" where
  "MFB_freesize buf = fb_size buf - MFB_level buf"

definition MFB_clear :: "filter_buffer \<Rightarrow> filter_buffer" where
  "MFB_clear buf = buf\<lparr>fb_base := [], fb_pos := 0\<rparr>"

definition MFB_compact :: "filter_buffer \<Rightarrow> filter_buffer" where
  "MFB_compact buf =
     (if fb_pos buf \<noteq> 0 then buf\<lparr>fb_base := drop (fb_pos buf) (fb_base buf), fb_pos := 0\<rparr> else buf)"

definition MFB_require :: "filter_buffer \<Rightarrow> nat \<Rightarrow> filter_buffer" where
  "MFB_require buf n =
     (if n > MFB_freesize buf then
        let buf = MFB_compact buf
        in if n > MFB_freesize buf then buf\<lparr>fb_size := n + MFB_level buf\<rparr> else buf
      else buf)"

definition MFB_advance_pos :: "filter_buffer \<Rightarrow> nat \<Rightarrow> filter_buffer" where
  "MFB_advance_pos buf delta =
     (let buf = buf\<lparr>fb_pos := fb_pos buf + delta\<rparr>
      in if fb_pos buf = MFB_level buf then MFB_clear buf else buf)"

text \<open>\<open>MFB_advance_level\<close>, together with the bytes that were put behind the level before.\<close>

definition MFB_advance_level :: "filter_buffer \<Rightarrow> bytes \<Rightarrow> filter_buffer" where
  "MFB_advance_level buf bs = buf\<lparr>fb_base := fb_base buf @ bs\<rparr>"

text \<open>The bytes from \<open>MFB_cur_ptr\<close> to \<open>MFB_end_ptr\<close>.\<close>

definition MFB_data :: "filter_buffer \<Rightarrow> bytes" where
  "MFB_data buf = drop (fb_pos buf) (fb_base buf)"

definition MFB_ok :: "filter_buffer \<Rightarrow> bool" where
  "MFB_ok buf \<longleftrightarrow> fb_pos buf \<le> MFB_level buf \<and> MFB_level buf \<le> fb_size buf"

lemmas MFB_defs = MFB_level_def MFB_rdbytes_def MFB_freesize_def MFB_clear_def MFB_compact_def
  MFB_require_def MFB_advance_pos_def MFB_advance_level_def MFB_data_def MFB_ok_def

lemma MFB_rdbytes_data: "MFB_rdbytes buf = length (MFB_data buf)"
  by (simp add: MFB_defs)

lemma MFB_require_data [simp]: "MFB_data (MFB_require buf n) = MFB_data buf"
  by (simp add: MFB_defs Let_def)

lemma MFB_require_ok: "MFB_ok buf \<Longrightarrow> MFB_ok (MFB_require buf n)"
  by (auto simp: MFB_defs Let_def)

lemma MFB_require_free: "n \<le> MFB_freesize (MFB_require buf n)"
  by (auto simp: MFB_defs Let_def)

lemma MFB_advance_pos_data:
  "n \<le> MFB_rdbytes buf \<Longrightarrow> MFB_ok buf \<Longrightarrow>
   MFB_data (MFB_advance_pos buf n) = drop n (MFB_data buf) \<and> MFB_ok (MFB_advance_pos buf n)"
  by (auto simp: MFB_defs Let_def add.commute)

lemma MFB_advance_level_data:
  "length bs \<le> MFB_freesize buf \<Longrightarrow> MFB_ok buf \<Longrightarrow>
   MFB_data (MFB_advance_level buf bs) = MFB_data buf @ bs \<and> MFB_ok (MFB_advance_level buf bs)"
  by (auto simp: MFB_defs)

section \<open>The stream\<close>

definition MU_FILTER_MAX_AGAIN :: nat where "MU_FILTER_MAX_AGAIN = 5"

record ('s, 't) filter_stream =
  fs_transport :: 't
  fs_disabled :: bool
  fs_eof :: bool
  fs_outbuf_size :: nat
  fs_inbuf :: filter_buffer
  fs_outbuf :: filter_buffer
  fs_stateful :: bool
  fs_xdata :: 's

text \<open>\<open>fs_stateful\<close> is the test that the pointer \<open>xdata\<close> is not null. Filters made without a state
  have a null pointer; their transcoders do not look at it, and their model has a state of type
  \<open>unit\<close>.\<close>

text \<open>\<open>init_iobuf\<close>: the room offered to the transcoder, and the stream with its output buffer
  enlarged if a size is set for it.\<close>

definition init_iobuf :: "('s, 't) filter_stream \<Rightarrow> nat \<times> ('s, 't) filter_stream" where
  "init_iobuf fs =
     (if fs_outbuf_size fs \<noteq> 0 then
        (fs_outbuf_size fs,
         if MFB_freesize (fs_outbuf fs) < fs_outbuf_size fs
         then fs\<lparr>fs_outbuf := MFB_require (fs_outbuf fs) (fs_outbuf_size fs)\<rparr> else fs)
      else (MFB_freesize (fs_outbuf fs), fs))"

definition filter_stream_init :: "'s xcoder \<Rightarrow> ('s, 't) filter_stream \<Rightarrow> ('s, 't) filter_stream \<times> (mu_error + unit)" where
  "filter_stream_init xcode fs =
     (if fs_stateful fs then
        (let r = xcode (fs_xdata fs) mu_filter_init [] 0;
             fs = fs\<lparr>fs_xdata := xst r\<rparr>
         in if xres r = mu_filter_failure then (fs, Inl (xerr r)) else (fs, Inr ()))
      else (fs, Inr ()))"

section \<open>One turn of the loop of \<open>filter_read\<close>\<close>

text \<open>The local variables. \<open>rd_buf\<close> is the caller's buffer up to \<open>total\<close>.\<close>

record ('s, 't) rdvars =
  rd_fs :: "('s, 't) filter_stream"
  rd_min_in :: nat
  rd_min_out :: nat
  rd_cmd :: filter_command
  rd_buf :: bytes
  rd_stop :: bool
  rd_again :: nat

text \<open>How a piece of the loop body ends: control goes on to the next piece, \<open>continue\<close>, \<open>break\<close>,
  or \<open>return\<close> of an error.\<close>

datatype 'a flow = Go 'a | Continue 'a | Break 'a | Return 'a mu_error

fun and_then :: "'a flow \<Rightarrow> ('a \<Rightarrow> 'a flow) \<Rightarrow> 'a flow" where
  "and_then (Go x) f = f x"
| "and_then (Continue x) f = Continue x"
| "and_then (Break x) f = Break x"
| "and_then (Return x e) f = Return x e"

text \<open>Lines 196--221: filling the input buffer.\<close>

definition rd_input ::
  "('t \<Rightarrow> nat \<Rightarrow> mu_error + bytes \<times> 't) \<Rightarrow> ('s, 't) rdvars \<Rightarrow> ('s, 't) rdvars flow" where
  "rd_input tr_read v =
     (let fs = rd_fs v in
      if fs_eof fs then Break v
      else if MFB_rdbytes (fs_inbuf fs) < rd_min_in v \<and> rd_again v = 0 then
        let inbuf = MFB_require (fs_inbuf fs) (rd_min_in v);
            fs = fs\<lparr>fs_inbuf := inbuf\<rparr>;
            v = v\<lparr>rd_fs := fs\<rparr>
        in case tr_read (fs_transport fs) (MFB_freesize inbuf) of
             Inl e \<Rightarrow> Return v e
           | Inr (bs, tr) \<Rightarrow>
               let v = v\<lparr>rd_fs := fs\<lparr>fs_transport := tr, fs_inbuf := MFB_advance_level inbuf bs\<rparr>\<rparr>
               in if bs = [] \<and> MFB_rdbytes (fs_outbuf fs) = 0 \<and> MFB_rdbytes inbuf = 0 then
                    if rd_cmd v = mu_filter_lastbuf then Break v
                    else Go (v\<lparr>rd_cmd := mu_filter_lastbuf\<rparr>)
                  else Go v
      else Go v)"

text \<open>Lines 264--308: what the call has consumed and written is accounted for.\<close>

definition rd_account :: "'s xcoded \<Rightarrow> ('s, 't) rdvars \<Rightarrow> ('s, 't) rdvars flow" where
  "rd_account r v =
     (let fs = rd_fs v in
      if xisize r > MFB_rdbytes (fs_inbuf fs) \<or> xosize r > MFB_freesize (fs_outbuf fs)
      then Return v MU_ERR_BUFSPACE
      else
        let fs = fs\<lparr>fs_outbuf := MFB_advance_level (fs_outbuf fs) (xout r),
                   fs_inbuf := MFB_advance_pos (fs_inbuf fs) (xisize r)\<rparr>;
            v = v\<lparr>rd_fs := fs\<rparr>
        in if xres r = mu_filter_ok then
             if xeof r then Go (v\<lparr>rd_fs := fs\<lparr>fs_eof := True\<rparr>, rd_stop := True\<rparr>)
             else if fs_outbuf_size fs \<noteq> 0 then
               (if xosize r = 0 then Return v MU_ERR_BUFSPACE else Go (v\<lparr>rd_stop := True\<rparr>))
             else if rd_cmd v = mu_filter_lastbuf then
               (if MFB_rdbytes (fs_inbuf fs) \<noteq> 0 then
                  let v = v\<lparr>rd_again := rd_again v + 1\<rparr>
                  in Go (if rd_again v > MU_FILTER_MAX_AGAIN then v\<lparr>rd_stop := True\<rparr> else v)
                else Go (v\<lparr>rd_fs := fs\<lparr>fs_eof := True\<rparr>, rd_stop := True\<rparr>))
             else Go (v\<lparr>rd_again := 0\<rparr>)
           else Go v)"

text \<open>Lines 240--262: what happens on each answer of the transcoder.\<close>

definition rd_answer :: "'s xcoded \<Rightarrow> ('s, 't) rdvars \<Rightarrow> ('s, 't) rdvars flow" where
  "rd_answer r v =
     (case xres r of
        mu_filter_again \<Rightarrow>
          rd_account r (v\<lparr>rd_again := (if rd_again v + 1 > MU_FILTER_MAX_AGAIN then 0
                                       else rd_again v + 1)\<rparr>)
      | mu_filter_ok \<Rightarrow> rd_account r v
      | mu_filter_failure \<Rightarrow> Return v (xerr r)
      | mu_filter_moreinput \<Rightarrow>
          if rd_cmd v = mu_filter_lastbuf then Return v MU_ERR_FAILURE
          else Continue (v\<lparr>rd_min_in := xisize r\<rparr>)
      | mu_filter_moreoutput \<Rightarrow> Continue (v\<lparr>rd_min_out := xosize r\<rparr>))"

text \<open>Lines 223--239: the call.\<close>

definition rd_xcode ::
  "'s xcoder \<Rightarrow> ('t \<Rightarrow> bool) \<Rightarrow> ('s, 't) rdvars \<Rightarrow> ('s, 't) rdvars flow" where
  "rd_xcode xcode tr_eof v =
     (let fs = rd_fs v;
          v = (if rd_min_out v < MFB_rdbytes (fs_inbuf fs)
               then v\<lparr>rd_min_out := MFB_rdbytes (fs_inbuf fs)\<rparr> else v);
          (osize, fs) = init_iobuf (fs\<lparr>fs_outbuf := MFB_require (fs_outbuf fs) (rd_min_out v)\<rparr>);
          cmd = (if rd_cmd v \<noteq> mu_filter_lastbuf
                 then (if tr_eof (fs_transport fs) then mu_filter_lastbuf else mu_filter_xcode)
                 else rd_cmd v);
          r = xcode (fs_xdata fs) cmd (MFB_data (fs_inbuf fs)) osize
      in rd_answer r (v\<lparr>rd_cmd := cmd, rd_fs := fs\<lparr>fs_xdata := xst r\<rparr>\<rparr>))"

text \<open>Lines 311--316: handing bytes to the caller, who asked for \<open>n\<close>.\<close>

definition rd_copy :: "nat \<Rightarrow> ('s, 't) rdvars \<Rightarrow> ('s, 't) rdvars" where
  "rd_copy n v =
     (let fs = rd_fs v;
          rdsize = min (n - length (rd_buf v)) (MFB_rdbytes (fs_outbuf fs))
      in v\<lparr>rd_fs := fs\<lparr>fs_outbuf := MFB_advance_pos (fs_outbuf fs) rdsize\<rparr>,
           rd_buf := rd_buf v @ take rdsize (MFB_data (fs_outbuf fs))\<rparr>)"

definition rd_turn ::
  "'s xcoder \<Rightarrow> ('t \<Rightarrow> nat \<Rightarrow> mu_error + bytes \<times> 't) \<Rightarrow> ('t \<Rightarrow> bool) \<Rightarrow> nat \<Rightarrow>
   ('s, 't) rdvars \<Rightarrow> ('s, 't) rdvars flow" where
  "rd_turn xcode tr_read tr_eof n v =
     and_then
       (if MFB_rdbytes (fs_outbuf (rd_fs v)) = 0
        then and_then (rd_input tr_read v) (rd_xcode xcode tr_eof) else Go v)
       (\<lambda>v. Go (rd_copy n v))"

section \<open>\<open>filter_read\<close>\<close>

text \<open>\<open>None\<close> when \<open>fuel\<close> turns are not enough.\<close>

fun filter_read_loop ::
  "'s xcoder \<Rightarrow> ('t \<Rightarrow> nat \<Rightarrow> mu_error + bytes \<times> 't) \<Rightarrow> ('t \<Rightarrow> bool) \<Rightarrow> nat \<Rightarrow> nat \<Rightarrow>
   ('s, 't) rdvars \<Rightarrow> (('s, 't) filter_stream \<times> (mu_error + bytes)) option" where
  "filter_read_loop xcode tr_read tr_eof n 0 v = None"
| "filter_read_loop xcode tr_read tr_eof n (Suc fuel) v =
     (case rd_turn xcode tr_read tr_eof n v of
        Return v e \<Rightarrow> Some (rd_fs v, Inl e)
      | Break v \<Rightarrow> Some (rd_fs v, Inr (rd_buf v))
      | Go v \<Rightarrow> if \<not> rd_stop v \<and> length (rd_buf v) < n then filter_read_loop xcode tr_read tr_eof n fuel v
               else Some (rd_fs v, Inr (rd_buf v))
      | Continue v \<Rightarrow> if \<not> rd_stop v \<and> length (rd_buf v) < n then filter_read_loop xcode tr_read tr_eof n fuel v
               else Some (rd_fs v, Inr (rd_buf v)))"

definition rd_start :: "('s, 't) filter_stream \<Rightarrow> ('s, 't) rdvars" where
  "rd_start fs =
     \<lparr>rd_fs = fs, rd_min_in = MU_FILTER_BUF_SIZE, rd_min_out = MU_FILTER_BUF_SIZE,
      rd_cmd = mu_filter_xcode, rd_buf = [], rd_stop = False, rd_again = 0\<rparr>"

definition filter_read ::
  "'s xcoder \<Rightarrow> ('t \<Rightarrow> nat \<Rightarrow> mu_error + bytes \<times> 't) \<Rightarrow> ('t \<Rightarrow> bool) \<Rightarrow> nat \<Rightarrow>
   ('s, 't) filter_stream \<Rightarrow> nat \<Rightarrow> (('s, 't) filter_stream \<times> (mu_error + bytes)) option" where
  "filter_read xcode tr_read tr_eof fuel fs n =
     (if fs_disabled fs then
        (case tr_read (fs_transport fs) n of
           Inl e \<Rightarrow> Some (fs, Inl e)
         | Inr (bs, tr) \<Rightarrow> Some (fs\<lparr>fs_transport := tr\<rparr>, Inr bs))
      else filter_read_loop xcode tr_read tr_eof n fuel (rd_start fs))"

text \<open>A fresh stream over a transport (\<open>mu_filter_stream_create\<close> for reading: the buffers are
  empty and the transcoder has been initialised).\<close>

definition filter_rd_open :: "'s xcoder \<Rightarrow> bool \<Rightarrow> 's \<Rightarrow> 't \<Rightarrow> ('s, 't) filter_stream" where
  "filter_rd_open xcode stateful xdata tr =
     fst (filter_stream_init xcode
       \<lparr>fs_transport = tr, fs_disabled = False, fs_eof = False, fs_outbuf_size = 0,
        fs_inbuf = \<lparr>fb_base = [], fb_size = 0, fb_pos = 0\<rparr>,
        fs_outbuf = \<lparr>fb_base = [], fb_size = 0, fb_pos = 0\<rparr>, fs_stateful = stateful, fs_xdata = xdata\<rparr>)"

text \<open>A transcoder without a state has nothing to set up, so the null pointer makes no difference.\<close>

lemma filter_rd_open_null:
  "xcode () mu_filter_init [] 0 = x_quiet () [] 0 \<Longrightarrow>
   filter_rd_open xcode False () tr = (filter_rd_open xcode True () tr)\<lparr>fs_stateful := False\<rparr>"
  by (simp add: filter_rd_open_def filter_stream_init_def x_quiet_def)

text \<open>Reading again and again until nothing comes: what a client of the stream does.\<close>

fun read_all ::
  "'s xcoder \<Rightarrow> ('t \<Rightarrow> nat \<Rightarrow> mu_error + bytes \<times> 't) \<Rightarrow> ('t \<Rightarrow> bool) \<Rightarrow> nat \<Rightarrow> nat list \<Rightarrow>
   ('s, 't) filter_stream \<Rightarrow> (('s, 't) filter_stream \<times> bytes) option" where
  "read_all xcode tr_read tr_eof fuel [] fs = Some (fs, [])"
| "read_all xcode tr_read tr_eof fuel (n # ns) fs =
     (case filter_read xcode tr_read tr_eof fuel fs n of
        Some (fs, Inr bs) \<Rightarrow> map_option (\<lambda>(fs, cs). (fs, bs @ cs)) (read_all xcode tr_read tr_eof fuel ns fs)
      | _ \<Rightarrow> None)"

section \<open>What a stream owes\<close>

definition fs_owed ::
  "('s \<Rightarrow> bytes \<Rightarrow> bytes) \<Rightarrow> ('t \<Rightarrow> bytes) \<Rightarrow> ('s, 't) filter_stream \<Rightarrow> bytes" where
  "fs_owed spec tr_bytes fs =
     MFB_data (fs_outbuf fs) @
     (if fs_eof fs then []
      else spec (fs_xdata fs) (MFB_data (fs_inbuf fs) @ tr_bytes (fs_transport fs)))"

definition fs_inv ::
  "('s \<Rightarrow> bool) \<Rightarrow> ('t \<Rightarrow> bool) \<Rightarrow> ('s, 't) filter_stream \<Rightarrow> bool" where
  "fs_inv swf tr_wf fs \<longleftrightarrow>
     MFB_ok (fs_inbuf fs) \<and> MFB_ok (fs_outbuf fs) \<and> swf (fs_xdata fs) \<and> tr_wf (fs_transport fs) \<and>
     fs_outbuf_size fs = 0 \<and> \<not> fs_disabled fs"

definition rd_inv ::
  "('s \<Rightarrow> bytes \<Rightarrow> bytes) \<Rightarrow> ('s \<Rightarrow> bool) \<Rightarrow> ('t \<Rightarrow> bytes) \<Rightarrow> ('t \<Rightarrow> bool) \<Rightarrow> nat \<Rightarrow> bytes \<Rightarrow>
   ('s, 't) rdvars \<Rightarrow> bool" where
  "rd_inv spec swf tr_bytes tr_wf n owed v \<longleftrightarrow>
     fs_inv swf tr_wf (rd_fs v) \<and> owed = rd_buf v @ fs_owed spec tr_bytes (rd_fs v) \<and>
     length (rd_buf v) \<le> n \<and> rd_cmd v \<in> {mu_filter_xcode, mu_filter_lastbuf} \<and>
     0 < rd_min_in v \<and> (rd_cmd v = mu_filter_xcode \<longrightarrow> rd_again v = 0) \<and>
     (rd_cmd v = mu_filter_lastbuf \<longrightarrow> tr_bytes (fs_transport (rd_fs v)) = [])"

fun flow_inv :: "('a \<Rightarrow> bool) \<Rightarrow> 'a flow \<Rightarrow> bool" where
  "flow_inv P (Go v) = P v"
| "flow_inv P (Continue v) = P v"
| "flow_inv P (Break v) = P v"
| "flow_inv P (Return v e) = True"

lemma flow_inv_and_then:
  "flow_inv P f \<Longrightarrow> (\<And>v. P v \<Longrightarrow> flow_inv P (g v)) \<Longrightarrow> flow_inv P (and_then f g)"
  by (cases f) auto

locale filter_rd =
  full_xcoder xcode spec swf + transport tr_read tr_eof tr_bytes tr_wf
  for xcode :: "'s xcoder" and spec swf
    and tr_read :: "'t \<Rightarrow> nat \<Rightarrow> mu_error + bytes \<times> 't" and tr_eof tr_bytes tr_wf
begin

abbreviation "balance \<equiv> rd_inv spec swf tr_bytes tr_wf"

lemma rd_input_inv:
  assumes "balance n owed v" "MFB_rdbytes (fs_outbuf (rd_fs v)) = 0"
  shows "case rd_input tr_read v of
     Go v' \<Rightarrow> balance n owed v' \<and> \<not> fs_eof (rd_fs v') \<and>
       (rd_cmd v' = mu_filter_lastbuf \<or> MFB_data (fs_inbuf (rd_fs v')) \<noteq> [])
   | Break v' \<Rightarrow> balance n owed v' | Return v' e \<Rightarrow> True | Continue v' \<Rightarrow> False"
proof (cases "\<not> fs_eof (rd_fs v) \<and> MFB_rdbytes (fs_inbuf (rd_fs v)) < rd_min_in v \<and> rd_again v = 0")
  case False
  moreover have "MFB_rdbytes (fs_inbuf (rd_fs v)) = length (MFB_data (fs_inbuf (rd_fs v)))"
    using assms by (simp add: rd_inv_def fs_inv_def MFB_rdbytes_data)
  ultimately show ?thesis
    using assms(1) by (auto simp: rd_input_def Let_def rd_inv_def)
next
  case True
  define b where "b = MFB_require (fs_inbuf (rd_fs v)) (rd_min_in v)"
  have b: "MFB_ok b" "MFB_data b = MFB_data (fs_inbuf (rd_fs v))" "0 < MFB_freesize b"
    using assms True MFB_require_free[of "rd_min_in v" "fs_inbuf (rd_fs v)"]
    by (auto simp: b_def rd_inv_def fs_inv_def MFB_require_ok)
  show ?thesis
  proof (cases "tr_read (fs_transport (rd_fs v)) (MFB_freesize b)")
    case (Inl e)
    with True show ?thesis by (simp add: rd_input_def Let_def b_def)
  next
    case (Inr p)
    obtain bs tr where p: "p = (bs, tr)" by fastforce
    have wf: "tr_wf (fs_transport (rd_fs v))" using assms by (simp add: rd_inv_def fs_inv_def)
    note rd = Inr[unfolded p]
    note facts = read_bytes[OF wf rd] read_bound[OF wf rd] read_wf[OF wf rd]
    have none: "bs = [] \<Longrightarrow> tr_bytes tr = []" using read_none_bytes[OF wf b(3)] rd by blast
    note lvl = MFB_advance_level_data[OF facts(2) b(1)]
    note cnt = MFB_rdbytes_data[of b]
    show ?thesis
      using assms True rd facts b lvl none cnt
      by (auto simp: rd_input_def Let_def b_def[symmetric] rd_inv_def fs_inv_def fs_owed_def)
  qed
qed

text \<open>The call: the bytes in the input buffer and the room in the output buffer are the
  window; what the answer consumed and wrote keeps the balance.\<close>

lemma rd_account_inv:
  assumes inv: "fs_inv swf tr_wf (rd_fs v)" "length (rd_buf v) \<le> n"
    and cmd: "rd_cmd v \<in> {mu_filter_xcode, mu_filter_lastbuf}"
      "rd_cmd v = mu_filter_lastbuf \<Longrightarrow> tr_bytes (fs_transport (rd_fs v)) = []"
    and live: "\<not> fs_eof (rd_fs v)" "0 < rd_min_in v" "rd_cmd v = mu_filter_xcode \<longrightarrow> rd_again v = 0"
    and owed: "owed = rd_buf v @ MFB_data (fs_outbuf (rd_fs v)) @ xout r @
        spec (xst r) (drop (xisize r) (MFB_data (fs_inbuf (rd_fs v))) @ tr_bytes (fs_transport (rd_fs v)))
        \<and> \<not> (rd_cmd v = mu_filter_lastbuf \<and> xres r = mu_filter_ok
               \<and> xisize r = MFB_rdbytes (fs_inbuf (rd_fs v)))
      \<or> owed = rd_buf v @ MFB_data (fs_outbuf (rd_fs v)) @ xout r \<and> rd_cmd v = mu_filter_lastbuf
          \<and> xres r = mu_filter_ok \<and> xisize r = MFB_rdbytes (fs_inbuf (rd_fs v))"
    and eof: "xeof r \<Longrightarrow> xres r = mu_filter_ok \<Longrightarrow>
        owed = rd_buf v @ MFB_data (fs_outbuf (rd_fs v)) @ xout r"
    and st: "fs_xdata (rd_fs v) = xst r" and sz: "xosize r = length (xout r)"
    and res: "xres r \<in> {mu_filter_ok, mu_filter_again}"
  shows "flow_inv (balance n owed) (rd_account r v)"
proof (cases "xisize r > MFB_rdbytes (fs_inbuf (rd_fs v)) \<or> xosize r > MFB_freesize (fs_outbuf (rd_fs v))")
  case True
  then show ?thesis by (simp add: rd_account_def Let_def)
next
  case False
  have ob: "MFB_data (MFB_advance_level (fs_outbuf (rd_fs v)) (xout r))
             = MFB_data (fs_outbuf (rd_fs v)) @ xout r"
        "MFB_ok (MFB_advance_level (fs_outbuf (rd_fs v)) (xout r))"
    using MFB_advance_level_data[of "xout r" "fs_outbuf (rd_fs v)"] False inv(1) sz
    by (auto simp: fs_inv_def)
  have ib: "MFB_data (MFB_advance_pos (fs_inbuf (rd_fs v)) (xisize r))
             = drop (xisize r) (MFB_data (fs_inbuf (rd_fs v)))"
        "MFB_ok (MFB_advance_pos (fs_inbuf (rd_fs v)) (xisize r))"
    using MFB_advance_pos_data[of "xisize r" "fs_inbuf (rd_fs v)"] False inv(1)
    by (auto simp: fs_inv_def)
  show ?thesis
    using inv cmd live owed eof st res False ob ib
    by (auto simp: rd_account_def Let_def rd_inv_def fs_inv_def fs_owed_def MFB_rdbytes_data)
qed

lemma rd_xcode_inv:
  assumes inv: "balance n owed v" and live: "\<not> fs_eof (rd_fs v)"
    and ready: "rd_cmd v = mu_filter_lastbuf \<or> MFB_data (fs_inbuf (rd_fs v)) \<noteq> []"
  shows "flow_inv (balance n owed) (rd_xcode xcode tr_eof v)"
proof -
  define fs where "fs = rd_fs v"
  define mo where "mo = (if rd_min_out v < MFB_rdbytes (fs_inbuf fs) then MFB_rdbytes (fs_inbuf fs) else rd_min_out v)"
  define ob where "ob = MFB_require (fs_outbuf fs) mo"
  define osize where "osize = MFB_freesize ob"
  define cmd where "cmd = (if rd_cmd v \<noteq> mu_filter_lastbuf
      then (if tr_eof (fs_transport fs) then mu_filter_lastbuf else mu_filter_xcode) else rd_cmd v)"
  define inp where "inp = MFB_data (fs_inbuf fs)"
  define r where "r = xcode (fs_xdata fs) cmd inp osize"
  define v' where "v' = v\<lparr>rd_min_out := mo, rd_cmd := cmd,
      rd_fs := fs\<lparr>fs_outbuf := ob, fs_xdata := xst r\<rparr>\<rparr>"
  define ag where "ag = (if rd_again v + 1 > MU_FILTER_MAX_AGAIN then 0 else rd_again v + 1)"
  from inv have fs: "fs_inv swf tr_wf fs" "fs_outbuf_size fs = 0" "swf (fs_xdata fs)"
    "length (rd_buf v) \<le> n" "tr_wf (fs_transport fs)"
    by (simp_all add: rd_inv_def fs_inv_def fs_def)
  have owed: "owed = rd_buf v @ MFB_data (fs_outbuf fs) @ spec (fs_xdata fs) (inp @ tr_bytes (fs_transport fs))"
    using inv live by (simp add: rd_inv_def fs_owed_def fs_def inp_def)
  have ans: "rd_xcode xcode tr_eof v = rd_answer r v'"
    using fs(2) by (simp add: rd_xcode_def Let_def init_iobuf_def fs_def mo_def ob_def osize_def cmd_def
        inp_def r_def v'_def)
  have code: "rd_xcode xcode tr_eof v =
     (case xres r of
        mu_filter_again \<Rightarrow> rd_account r (v'\<lparr>rd_again := ag\<rparr>)
      | mu_filter_ok \<Rightarrow> rd_account r v'
      | mu_filter_failure \<Rightarrow> Return v' (xerr r)
      | mu_filter_moreinput \<Rightarrow>
          if cmd = mu_filter_lastbuf then Return v' MU_ERR_FAILURE
          else Continue (v'\<lparr>rd_min_in := xisize r\<rparr>)
      | mu_filter_moreoutput \<Rightarrow> Continue (v'\<lparr>rd_min_out := xosize r\<rparr>))"
    unfolding ans rd_answer_def by (simp add: v'_def ag_def split: filter_result.split)
  have cmds: "cmd \<in> {mu_filter_xcode, mu_filter_lastbuf}"
    "cmd = mu_filter_lastbuf \<Longrightarrow> tr_bytes (fs_transport fs) = []"
    using inv eof_end[OF fs(5)] by (auto simp: cmd_def rd_inv_def fs_def split: if_splits)
  have quiet: "cmd = mu_filter_xcode \<longrightarrow> rd_again v = 0" "0 < rd_min_in v"
    "cmd = mu_filter_xcode \<longrightarrow> inp \<noteq> []"
    using inv ready by (auto simp: cmd_def rd_inv_def fs_def inp_def split: if_splits)
  have na: "cmd = mu_filter_xcode \<longrightarrow> xres r \<noteq> mu_filter_again"
    using xcode_not_again[OF fs(3)] by (auto simp: r_def)
  have wfr: "swf (xst r)" unfolding r_def using xcode_wf[OF fs(3)] .
  have inv': "fs_inv swf tr_wf (rd_fs v')"
    using fs(1) wfr by (simp add: fs_inv_def v'_def ob_def MFB_require_ok)
  have retry: "0 < a \<Longrightarrow> balance n owed (v'\<lparr>rd_min_in := a\<rparr>)" "balance n owed (v'\<lparr>rd_min_out := b\<rparr>)"
    if "xres r \<in> {mu_filter_moreinput, mu_filter_moreoutput}" for a b
  proof -
    have "xst r = fs_xdata fs"
      using cmds(1) that xcode_retry[OF fs(3), of inp osize] last_finishes[OF fs(3), of osize inp]
      by (auto simp: r_def finishes_def)
    with inv' owed cmds live fs(4) quiet
    show "0 < a \<Longrightarrow> balance n owed (v'\<lparr>rd_min_in := a\<rparr>)" "balance n owed (v'\<lparr>rd_min_out := b\<rparr>)"
      by (auto simp: rd_inv_def fs_owed_def v'_def ob_def fs_def inp_def fs_inv_def)
  qed
  have account: "flow_inv (balance n owed) (rd_account r (v'\<lparr>rd_again := a\<rparr>))"
    if "xres r \<in> {mu_filter_ok, mu_filter_again}" "cmd = mu_filter_xcode \<longrightarrow> a = 0" for a
  proof (rule rd_account_inv)
    have rr: "xosize r = length (xout r) \<and>
       (owed = rd_buf v @ MFB_data (fs_outbuf fs) @ xout r @
          spec (xst r) (drop (xisize r) inp @ tr_bytes (fs_transport fs))
          \<and> \<not> (cmd = mu_filter_lastbuf \<and> xres r = mu_filter_ok \<and> xisize r = length inp)
        \<or> owed = rd_buf v @ MFB_data (fs_outbuf fs) @ xout r \<and> cmd = mu_filter_lastbuf
          \<and> xres r = mu_filter_ok \<and> xisize r = length inp) \<and>
       (xeof r \<longrightarrow> xres r = mu_filter_ok \<longrightarrow> owed = rd_buf v @ MFB_data (fs_outbuf fs) @ xout r)"
    proof (cases "cmd = mu_filter_lastbuf")
      case True
      with last_finishes[OF fs(3), of osize inp] that cmds(2) owed show ?thesis
        by (auto simp: r_def finishes_def split: if_splits)
    next
      case False
      with cmds have "cmd = mu_filter_xcode" by simp
      with xcode_ok[OF fs(3), of inp osize] that na quiet(3) owed show ?thesis
        by (auto simp: r_def)
    qed
    then show "xosize r = length (xout r)" by simp
    show "owed = rd_buf (v'\<lparr>rd_again := a\<rparr>) @ MFB_data (fs_outbuf (rd_fs (v'\<lparr>rd_again := a\<rparr>))) @ xout r @
        spec (xst r) (drop (xisize r) (MFB_data (fs_inbuf (rd_fs (v'\<lparr>rd_again := a\<rparr>)))) @
          tr_bytes (fs_transport (rd_fs (v'\<lparr>rd_again := a\<rparr>))))
        \<and> \<not> (rd_cmd (v'\<lparr>rd_again := a\<rparr>) = mu_filter_lastbuf \<and> xres r = mu_filter_ok
               \<and> xisize r = MFB_rdbytes (fs_inbuf (rd_fs (v'\<lparr>rd_again := a\<rparr>))))
      \<or> owed = rd_buf (v'\<lparr>rd_again := a\<rparr>) @ MFB_data (fs_outbuf (rd_fs (v'\<lparr>rd_again := a\<rparr>))) @ xout r
          \<and> rd_cmd (v'\<lparr>rd_again := a\<rparr>) = mu_filter_lastbuf
          \<and> xres r = mu_filter_ok \<and> xisize r = MFB_rdbytes (fs_inbuf (rd_fs (v'\<lparr>rd_again := a\<rparr>)))"
      using rr by (simp add: v'_def ob_def inp_def MFB_rdbytes_data fs_def)
    show "owed = rd_buf (v'\<lparr>rd_again := a\<rparr>) @ MFB_data (fs_outbuf (rd_fs (v'\<lparr>rd_again := a\<rparr>))) @ xout r"
      if "xeof r" "xres r = mu_filter_ok"
      using rr that by (simp add: v'_def ob_def)
  qed (use inv' fs(4) cmds live that quiet in \<open>simp_all add: v'_def fs_def\<close>)
  have v'_id: "v'\<lparr>rd_again := rd_again v\<rparr> = v'" by (simp add: v'_def)
  show ?thesis
    unfolding code
    using account[of ag] account[of "rd_again v", unfolded v'_id] retry quiet na cmds(1)
      xcode_moreinput[OF fs(3), of inp osize]
    by (cases "xres r") (auto simp: r_def)
qed

lemma rd_copy_inv:
  assumes "balance n owed v"
  shows "balance n owed (rd_copy n v)"
proof -
  let ?k = "min (n - length (rd_buf v)) (MFB_rdbytes (fs_outbuf (rd_fs v)))"
  have "MFB_ok (fs_outbuf (rd_fs v))" using assms by (simp add: rd_inv_def fs_inv_def)
  then have "MFB_data (MFB_advance_pos (fs_outbuf (rd_fs v)) ?k) = drop ?k (MFB_data (fs_outbuf (rd_fs v)))
      \<and> MFB_ok (MFB_advance_pos (fs_outbuf (rd_fs v)) ?k)"
    by (intro MFB_advance_pos_data) auto
  with assms show ?thesis
    by (auto simp: rd_copy_def Let_def rd_inv_def fs_inv_def fs_owed_def)
qed

lemma rd_turn_inv:
  assumes "balance n owed v"
  shows "flow_inv (balance n owed) (rd_turn xcode tr_read tr_eof n v)"
  unfolding rd_turn_def
proof (rule flow_inv_and_then)
  show "flow_inv (balance n owed) (if MFB_rdbytes (fs_outbuf (rd_fs v)) = 0
      then and_then (rd_input tr_read v) (rd_xcode xcode tr_eof) else Go v)"
    using assms rd_input_inv[OF assms] by (auto intro: rd_xcode_inv split: flow.splits)
qed (auto intro: rd_copy_inv)

lemma filter_read_loop_inv:
  assumes "balance n owed v"
    and "filter_read_loop xcode tr_read tr_eof n fuel v = Some (fs', Inr bs)"
  shows "owed = bs @ fs_owed spec tr_bytes fs' \<and> length bs \<le> n \<and> fs_inv swf tr_wf fs'"
  using assms
proof (induction fuel arbitrary: v)
  case (Suc fuel)
  have one: "flow_inv (balance n owed) (rd_turn xcode tr_read tr_eof n v)"
    by (rule rd_turn_inv[OF Suc.prems(1)])
  show ?case
  proof (cases "rd_turn xcode tr_read tr_eof n v")
    case (Go v')
    with one Suc.IH[of v'] Suc.prems(2) show ?thesis
      by (auto simp: rd_inv_def split: if_splits)
  next
    case (Continue v')
    with one Suc.IH[of v'] Suc.prems(2) show ?thesis
      by (auto simp: rd_inv_def split: if_splits)
  next
    case (Break v')
    with one Suc.prems(2) show ?thesis by (auto simp: rd_inv_def)
  next
    case (Return v' e)
    with Suc.prems(2) show ?thesis by simp
  qed
qed simp

text \<open>One read: the caller gets the next bytes owed, at most as many as asked for.\<close>

lemma filter_read_delivers:
  assumes "fs_inv swf tr_wf fs" "filter_read xcode tr_read tr_eof fuel fs n = Some (fs', Inr bs)"
  shows "fs_owed spec tr_bytes fs = bs @ fs_owed spec tr_bytes fs' \<and> length bs \<le> n \<and> fs_inv swf tr_wf fs'"
proof (rule filter_read_loop_inv)
  show "balance n (fs_owed spec tr_bytes fs) (rd_start fs)"
    using assms(1) by (simp add: rd_inv_def rd_start_def MU_FILTER_BUF_SIZE_def)
  show "filter_read_loop xcode tr_read tr_eof n fuel (rd_start fs) = Some (fs', Inr bs)"
    using assms by (simp add: filter_read_def fs_inv_def)
qed

lemma read_all_delivers:
  assumes "fs_inv swf tr_wf fs" "read_all xcode tr_read tr_eof fuel ns fs = Some (fs', bs)"
  shows "fs_owed spec tr_bytes fs = bs @ fs_owed spec tr_bytes fs' \<and> fs_inv swf tr_wf fs'"
  using assms
proof (induction ns arbitrary: fs bs)
  case (Cons n ns)
  from Cons.prems(2) obtain fs1 b1 cs where
    one: "filter_read xcode tr_read tr_eof fuel fs n = Some (fs1, Inr b1)"
    and more: "read_all xcode tr_read tr_eof fuel ns fs1 = Some (fs', cs)" "bs = b1 @ cs"
    by (auto split: option.splits prod.splits sum.splits)
  from filter_read_delivers[OF Cons.prems(1) one] Cons.IH[OF _ more(1)] more(2)
  show ?case by simp
qed simp

end

end
