(* ===== verification/Filter_Live.thy ===== *)
theory Filter_Live
  imports Filter_Stream
begin

text \<open>
  Total correctness of \<open>filter_read\<close>: with a live transcoder the loop ends, an empty answer
  means that nothing is owed, and over a transport without errors repeated reads hand over
  exactly what the transcoder's reference function gives for the transport's bytes.
\<close>

section \<open>Reading returns\<close>

text \<open>What is left to do: room in the caller's buffer and bytes to convert count most, then
  bytes still to be fetched, whether the input buffer is full enough to skip fetching, and
  the repetitions allowed at the end.\<close>

definition rd_left :: "('t \<Rightarrow> bytes) \<Rightarrow> nat \<Rightarrow> ('s, 't) rdvars \<Rightarrow> nat" where
  "rd_left tr_bytes n v =
     (let inb = length (MFB_data (fs_inbuf (rd_fs v)));
          trb = length (tr_bytes (fs_transport (rd_fs v)))
      in (MU_FILTER_MAX_AGAIN + 3) * ((n - length (rd_buf v)) + inb + trb) + 2 * trb +
         (if rd_min_in v \<le> inb then 1 else 0) + (MU_FILTER_MAX_AGAIN + 1 - rd_again v))"

locale live_filter_rd =
  filter_rd xcode spec swf tr_read tr_eof tr_bytes tr_wf + live_xcoder xcode spec swf lim
  for xcode :: "'s xcoder" and spec swf
    and tr_read :: "'t \<Rightarrow> nat \<Rightarrow> mu_error + bytes \<times> 't" and tr_eof tr_bytes tr_wf lim
begin

definition rd_sized :: "('s, 't) rdvars \<Rightarrow> bool" where
  "rd_sized v \<longleftrightarrow> lim \<le> rd_min_in v \<and> MU_FILTER_BUF_SIZE \<le> rd_min_out v"

text \<open>After the input step something has been fetched, or the transport is at its end, or the
  input buffer already held enough.\<close>

lemma rd_input_progress:
  assumes inv: "balance n owed v" and out: "MFB_rdbytes (fs_outbuf (rd_fs v)) = 0"
    and go: "rd_input tr_read v = Go v'"
  defines "trb \<equiv> \<lambda>v. length (tr_bytes (fs_transport (rd_fs v)))"
    and "inb \<equiv> \<lambda>v. length (MFB_data (fs_inbuf (rd_fs v)))"
  shows "inb v' + trb v' = inb v + trb v \<and> trb v' \<le> trb v \<and>
    rd_buf v' = rd_buf v \<and> rd_min_in v' = rd_min_in v \<and> rd_min_out v' = rd_min_out v \<and>
    rd_again v' = rd_again v \<and> fs_outbuf (rd_fs v') = fs_outbuf (rd_fs v) \<and>
    (rd_cmd v' = mu_filter_xcode \<longrightarrow> trb v' < trb v \<or> tr_eof (fs_transport (rd_fs v'))
       \<or> v' = v \<and> rd_min_in v \<le> inb v)"
proof -
  have cnt: "MFB_rdbytes b = length (MFB_data b)" for b by (rule MFB_rdbytes_data)
  show ?thesis
  proof (cases "MFB_rdbytes (fs_inbuf (rd_fs v)) < rd_min_in v \<and> rd_again v = 0")
    case False
    with go inv cnt show ?thesis
      by (auto simp: rd_input_def Let_def rd_inv_def trb_def inb_def split: if_splits)
  next
    case True
    define b where "b = MFB_require (fs_inbuf (rd_fs v)) (rd_min_in v)"
    have b: "MFB_ok b" "MFB_data b = MFB_data (fs_inbuf (rd_fs v))" "0 < MFB_freesize b"
      using inv True MFB_require_free[of "rd_min_in v" "fs_inbuf (rd_fs v)"]
      by (auto simp: b_def rd_inv_def fs_inv_def MFB_require_ok)
    from go True obtain bs tr where
      rd: "tr_read (fs_transport (rd_fs v)) (MFB_freesize b) = Inr (bs, tr)"
      by (auto simp: rd_input_def Let_def b_def split: if_splits sum.splits)
    have wf: "tr_wf (fs_transport (rd_fs v))" using inv by (simp add: rd_inv_def fs_inv_def)
    note facts = read_bytes[OF wf rd] read_bound[OF wf rd] read_none[OF wf b(3)]
    have "bs = [] \<Longrightarrow> tr_eof tr" using facts(3) rd by blast
    moreover have "MFB_data (MFB_advance_level b bs) = MFB_data b @ bs"
      using MFB_advance_level_data[OF facts(2) b(1)] by simp
    ultimately show ?thesis
      using go True rd facts(1) b
      by (auto simp: rd_input_def Let_def b_def[symmetric] trb_def inb_def split: if_splits)
  qed
qed

text \<open>The accounting step, seen from the measure.\<close>

lemma rd_account_effect:
  assumes ok: "fs_inv swf tr_wf (rd_fs v)" and sz: "xosize r = length (xout r)"
    and go: "rd_account r v = Go v'"
  shows "xisize r \<le> length (MFB_data (fs_inbuf (rd_fs v))) \<and>
    length (MFB_data (fs_inbuf (rd_fs v'))) = length (MFB_data (fs_inbuf (rd_fs v))) - xisize r \<and>
    MFB_data (fs_outbuf (rd_fs v')) = MFB_data (fs_outbuf (rd_fs v)) @ xout r \<and>
    fs_transport (rd_fs v') = fs_transport (rd_fs v) \<and> rd_buf v' = rd_buf v \<and>
    rd_min_in v' = rd_min_in v \<and> rd_min_out v' = rd_min_out v \<and>
    (\<not> rd_stop v' \<longrightarrow>
      (if xres r = mu_filter_ok then
         \<not> xeof r \<and> (if rd_cmd v = mu_filter_lastbuf
                   then rd_again v' = rd_again v + 1 \<and> rd_again v' \<le> MU_FILTER_MAX_AGAIN
                   else rd_again v' = 0)
       else rd_again v' = rd_again v))"
proof (cases "xisize r > MFB_rdbytes (fs_inbuf (rd_fs v)) \<or> xosize r > MFB_freesize (fs_outbuf (rd_fs v))")
  case True
  with go show ?thesis by (simp add: rd_account_def Let_def)
next
  case False
  then have le: "xisize r \<le> length (MFB_data (fs_inbuf (rd_fs v)))"
    by (simp add: MFB_rdbytes_data)
  have ob: "MFB_data (MFB_advance_level (fs_outbuf (rd_fs v)) (xout r))
             = MFB_data (fs_outbuf (rd_fs v)) @ xout r"
    using MFB_advance_level_data[of "xout r" "fs_outbuf (rd_fs v)"] False ok sz
    by (auto simp: fs_inv_def)
  have ib: "MFB_data (MFB_advance_pos (fs_inbuf (rd_fs v)) (xisize r))
             = drop (xisize r) (MFB_data (fs_inbuf (rd_fs v)))"
    using MFB_advance_pos_data[of "xisize r" "fs_inbuf (rd_fs v)"] False ok
    by (auto simp: fs_inv_def)
  have "fs_outbuf_size (rd_fs v) = 0" using ok by (simp add: fs_inv_def)
  with go False le ob ib show ?thesis
    by (auto simp: rd_account_def Let_def split: if_splits)
qed

lemma rd_copy_effect:
  "length (rd_buf (rd_copy n v)) = length (rd_buf v) + min (n - length (rd_buf v)) (length (MFB_data (fs_outbuf (rd_fs v)))) \<and>
   fs_inbuf (rd_fs (rd_copy n v)) = fs_inbuf (rd_fs v) \<and>
   fs_transport (rd_fs (rd_copy n v)) = fs_transport (rd_fs v) \<and>
   rd_min_in (rd_copy n v) = rd_min_in v \<and> rd_min_out (rd_copy n v) = rd_min_out v \<and>
   rd_again (rd_copy n v) = rd_again v \<and> rd_stop (rd_copy n v) = rd_stop v"
  by (simp add: rd_copy_def Let_def MFB_rdbytes_data)

lemma rd_account_go:
  "and_then (rd_account r v) f \<in> {Go v', Continue v'} \<Longrightarrow> \<exists>v2. rd_account r v = Go v2 \<and> f v2 \<in> {Go v', Continue v'}"
  by (auto simp: rd_account_def Let_def split: if_splits)

text \<open>The call with its accounting and the copy, in terms of what is left: \<open>i\<close> bytes consumed
  and \<open>w\<close> written.\<close>

definition moved ::
  "nat \<Rightarrow> nat \<Rightarrow> nat \<Rightarrow> ('s, 't) rdvars \<Rightarrow> ('s, 't) rdvars \<Rightarrow> bool" where
  "moved n i w v v' \<longleftrightarrow>
     i \<le> length (MFB_data (fs_inbuf (rd_fs v))) \<and>
     length (MFB_data (fs_inbuf (rd_fs v'))) = length (MFB_data (fs_inbuf (rd_fs v))) - i \<and>
     length (rd_buf v') = length (rd_buf v) + min (n - length (rd_buf v)) w \<and>
     fs_transport (rd_fs v') = fs_transport (rd_fs v) \<and>
     rd_min_in v' = rd_min_in v \<and> MU_FILTER_BUF_SIZE \<le> rd_min_out v'"

lemma rd_xcode_effect:
  assumes inv: "balance n owed v" and live: "\<not> fs_eof (rd_fs v)"
    and ready: "rd_cmd v = mu_filter_lastbuf \<or> MFB_data (fs_inbuf (rd_fs v)) \<noteq> []"
    and out: "MFB_rdbytes (fs_outbuf (rd_fs v)) = 0" and sized: "rd_sized v"
    and go: "and_then (rd_xcode xcode tr_eof v) (\<lambda>v. Go (rd_copy n v)) \<in> {Go v', Continue v'}"
    and cont: "\<not> rd_stop v'"
  defines "inb \<equiv> length (MFB_data (fs_inbuf (rd_fs v)))"
  shows
    "rd_cmd v \<noteq> mu_filter_lastbuf \<and> \<not> tr_eof (fs_transport (rd_fs v)) \<and>
       (\<exists>i w. moved n i w v v' \<and> rd_again v' = 0 \<and> (0 < i \<or> 0 < w \<or> inb < lim)) \<or>
     rd_cmd v \<noteq> mu_filter_lastbuf \<and> \<not> tr_eof (fs_transport (rd_fs v)) \<and>
       rd_buf v' = rd_buf v \<and> fs_transport (rd_fs v') = fs_transport (rd_fs v) \<and>
       MFB_data (fs_inbuf (rd_fs v')) = MFB_data (fs_inbuf (rd_fs v)) \<and>
       inb < rd_min_in v' \<and> lim \<le> rd_min_in v' \<and> rd_again v' = rd_again v \<and>
       MU_FILTER_BUF_SIZE \<le> rd_min_out v' \<or>
     (\<exists>i w. moved n i w v v' \<and> (0 < i \<or> 0 < w \<or>
        rd_again v' = rd_again v + 1 \<and> rd_again v' \<le> MU_FILTER_MAX_AGAIN))"
proof -
  define fs where "fs = rd_fs v"
  define mo where "mo = (if rd_min_out v < MFB_rdbytes (fs_inbuf fs) then MFB_rdbytes (fs_inbuf fs) else rd_min_out v)"
  define ob where "ob = MFB_require (fs_outbuf fs) mo"
  define osize where "osize = MFB_freesize ob"
  define cmd where "cmd = (if rd_cmd v \<noteq> mu_filter_lastbuf
      then (if tr_eof (fs_transport fs) then mu_filter_lastbuf else mu_filter_xcode) else rd_cmd v)"
  define inp where "inp = MFB_data (fs_inbuf fs)"
  define r where "r = xcode (fs_xdata fs) cmd inp osize"
  define v1 where "v1 = v\<lparr>rd_min_out := mo, rd_cmd := cmd,
      rd_fs := fs\<lparr>fs_outbuf := ob, fs_xdata := xst r\<rparr>\<rparr>"
  define ag where "ag = (if rd_again v + 1 > MU_FILTER_MAX_AGAIN then 0 else rd_again v + 1)"
  from inv have fs: "fs_inv swf tr_wf fs" "fs_outbuf_size fs = 0" "swf (fs_xdata fs)" "tr_wf (fs_transport fs)"
    by (simp_all add: rd_inv_def fs_inv_def fs_def)
  have ans: "rd_xcode xcode tr_eof v = rd_answer r v1"
    using fs(2) by (simp add: rd_xcode_def Let_def init_iobuf_def fs_def mo_def ob_def osize_def cmd_def
        inp_def r_def v1_def)
  have code: "rd_xcode xcode tr_eof v =
     (case xres r of
        mu_filter_again \<Rightarrow> rd_account r (v1\<lparr>rd_again := ag\<rparr>)
      | mu_filter_ok \<Rightarrow> rd_account r v1
      | mu_filter_failure \<Rightarrow> Return v1 (xerr r)
      | mu_filter_moreinput \<Rightarrow>
          if cmd = mu_filter_lastbuf then Return v1 MU_ERR_FAILURE
          else Continue (v1\<lparr>rd_min_in := xisize r\<rparr>)
      | mu_filter_moreoutput \<Rightarrow> Continue (v1\<lparr>rd_min_out := xosize r\<rparr>))"
    unfolding ans rd_answer_def by (simp add: v1_def ag_def split: filter_result.split)
  have mo: "MU_FILTER_BUF_SIZE \<le> mo" using sized by (auto simp: mo_def rd_sized_def)
  then have osize: "MU_FILTER_BUF_SIZE \<le> osize"
    using MFB_require_free[of mo "fs_outbuf fs"] by (simp add: osize_def ob_def)
  have data: "MFB_data ob = []" using out by (simp add: ob_def fs_def MFB_rdbytes_data)
  have inv1: "fs_inv swf tr_wf (rd_fs v1)"
    using fs(1) xcode_wf[OF fs(3)] by (simp add: fs_inv_def v1_def ob_def MFB_require_ok r_def)
  have cmds: "cmd = mu_filter_lastbuf \<or> cmd = mu_filter_xcode \<and> rd_cmd v \<noteq> mu_filter_lastbuf \<and>
      \<not> tr_eof (fs_transport fs) \<and> inp \<noteq> [] \<and> rd_again v = 0"
    using inv ready by (auto simp: cmd_def rd_inv_def fs_def inp_def)
  have acc: "moved n (xisize r) (length (xout r)) v v' \<and>
      (if xres r = mu_filter_ok then
         \<not> xeof r \<and> (if cmd = mu_filter_lastbuf
                   then rd_again v' = rd_again v + 1 \<and> rd_again v' \<le> MU_FILTER_MAX_AGAIN
                   else rd_again v' = 0)
       else True)"
    if sz: "xosize r = length (xout r)" and w: "w = v1 \<or> xres r \<noteq> mu_filter_ok \<and> w = v1\<lparr>rd_again := ag\<rparr>"
      and step: "and_then (rd_account r w) (\<lambda>v. Go (rd_copy n v)) \<in> {Go v', Continue v'}" for w
  proof -
    from rd_account_go[OF step] obtain v2 where v2: "rd_account r w = Go v2" "v' = rd_copy n v2" by auto
    have w1: "fs_inv swf tr_wf (rd_fs w)" using inv1 w by auto
    note eff = rd_account_effect[OF w1 sz v2(1)]
    note cp = rd_copy_effect[of n v2]
    have "rd_cmd w = cmd" "MFB_data (fs_inbuf (rd_fs w)) = inp" "MFB_data (fs_outbuf (rd_fs w)) = []"
      "fs_transport (rd_fs w) = fs_transport fs" "rd_buf w = rd_buf v" "rd_min_in w = rd_min_in v"
      "rd_min_out w = mo" "xres r = mu_filter_ok \<Longrightarrow> rd_again w = rd_again v"
      using w data by (auto simp: v1_def inp_def)
    with eff cp v2(2) cont mo show ?thesis
      by (auto simp: moved_def inp_def fs_def)
  qed
  from cmds show ?thesis
  proof (elim disjE conjE)
    assume last: "cmd = mu_filter_lastbuf"
    have fin: "finishes spec osize (fs_xdata fs) inp r" and lv: "lively_last r"
      using last_finishes[OF fs(3)] last_live[OF fs(3) osize] last by (simp_all add: r_def)
    show ?thesis
    proof (cases "xres r")
      case mu_filter_ok
      with fin have "xosize r = length (xout r)" by (simp add: finishes_def)
      with acc[of v1] go code mu_filter_ok last show ?thesis by auto
    next
      case mu_filter_again
      with fin have "xosize r = length (xout r)" by (simp add: finishes_def)
      with acc[of "v1\<lparr>rd_again := ag\<rparr>"] go code mu_filter_again lv show ?thesis
        by (auto simp: lively_last_def)
    qed (use go code last lv in \<open>auto simp: lively_last_def\<close>)
  next
    assume x: "cmd = mu_filter_xcode" "rd_cmd v \<noteq> mu_filter_lastbuf" "\<not> tr_eof (fs_transport fs)"
      "inp \<noteq> []" "rd_again v = 0"
    have lv: "lively lim inp r" and na: "xres r \<noteq> mu_filter_again"
      using xcode_live[OF fs(3) x(4) osize] xcode_not_again[OF fs(3)] x(1) by (simp_all add: r_def)
    show ?thesis
    proof (cases "xres r")
      case mu_filter_ok
      then have "xosize r = length (xout r)" using xcode_ok[OF fs(3), of inp osize] x(1) by (simp add: r_def)
      with acc[of v1] go code mu_filter_ok x lv show ?thesis
        by (auto simp: lively_def inb_def inp_def fs_def)
    next
      case mu_filter_moreinput
      then have "length inp < xisize r" using xcode_moreinput[OF fs(3), of inp osize] x(1) by (simp add: r_def)
      with go code mu_filter_moreinput x lv mo show ?thesis
        by (auto simp: lively_def inb_def inp_def fs_def v1_def)
    qed (use go code x lv na in \<open>auto simp: lively_def\<close>)
  qed
qed

lemma room_shrinks: "0 < d \<Longrightarrow> l < n \<Longrightarrow> n - (l + min (n - l) d) < n - (l :: nat)"
  by (auto simp: min_def)

lemma less_left:
  "s2 < s \<Longrightarrow> b2 \<le> b \<Longrightarrow> g2 \<le> 6 \<Longrightarrow> f2 \<le> 1 \<Longrightarrow>
   8 * s2 + 2 * b2 + f2 + g2 < 8 * s + 2 * b + f + (g :: nat)"
  by linarith

lemma less_left_fetch:
  "s2 \<le> s \<Longrightarrow> b2 < b \<Longrightarrow> g2 \<le> g \<Longrightarrow> f2 \<le> 1 \<Longrightarrow>
   8 * s2 + 2 * b2 + f2 + g2 < 8 * s + 2 * b + f + (g :: nat)"
  by linarith

text \<open>Each turn of the loop that does not end it leaves less to do.\<close>

lemma rd_turn_decreases:
  assumes inv: "balance n owed v" and sized: "rd_sized v" and want: "length (rd_buf v) < n"
    and go: "rd_turn xcode tr_read tr_eof n v \<in> {Go v', Continue v'}"
    and cont: "\<not> rd_stop v'" and start: "\<not> rd_stop v"
  shows "rd_left tr_bytes n v' < rd_left tr_bytes n v \<and> rd_sized v'"
proof (cases "MFB_rdbytes (fs_outbuf (rd_fs v)) = 0")
  case False
  then have v': "v' = rd_copy n v" using go by (simp add: rd_turn_def)
  have "0 < length (MFB_data (fs_outbuf (rd_fs v)))" using False by (simp add: MFB_rdbytes_data)
  then have "n - length (rd_buf v') < n - length (rd_buf v)"
    using rd_copy_effect[of n v] room_shrinks[OF _ want] v' by simp
  then show ?thesis
    using rd_copy_effect[of n v] sized v' by (simp add: rd_left_def Let_def rd_sized_def)
next
  case out: True
  obtain v1 where v1: "rd_input tr_read v = Go v1"
    and step: "and_then (rd_xcode xcode tr_eof v1) (\<lambda>v. Go (rd_copy n v)) \<in> {Go v', Continue v'}"
    using go out rd_input_inv[OF inv out] by (cases "rd_input tr_read v") (auto simp: rd_turn_def)
  note inp = rd_input_progress[OF inv out v1]
  have inv1: "balance n owed v1" "\<not> fs_eof (rd_fs v1)"
    "rd_cmd v1 = mu_filter_lastbuf \<or> MFB_data (fs_inbuf (rd_fs v1)) \<noteq> []"
    using rd_input_inv[OF inv out] v1 by auto
  have out1: "MFB_rdbytes (fs_outbuf (rd_fs v1)) = 0" using inp out by simp
  have sized1: "rd_sized v1" using inp sized by (simp add: rd_sized_def)
  have again0: "rd_cmd v1 \<noteq> mu_filter_lastbuf \<Longrightarrow> rd_again v = 0 \<and> rd_cmd v1 = mu_filter_xcode"
    using inv1(1) inp by (auto simp: rd_inv_def)
  note eff = rd_xcode_effect[OF inv1 out1 sized1 step cont]
  define a b where "a = length (MFB_data (fs_inbuf (rd_fs v)))" and "b = length (tr_bytes (fs_transport (rd_fs v)))"
  define a1 b1 where "a1 = length (MFB_data (fs_inbuf (rd_fs v1)))" and "b1 = length (tr_bytes (fs_transport (rd_fs v1)))"
  define a2 b2 where "a2 = length (MFB_data (fs_inbuf (rd_fs v')))" and "b2 = length (tr_bytes (fs_transport (rd_fs v')))"
  define R R2 where "R = n - length (rd_buf v)" and "R2 = n - length (rd_buf v')"
  define f f2 where "f = (if rd_min_in v \<le> a then 1 else 0 :: nat)" and "f2 = (if rd_min_in v' \<le> a2 then 1 else 0 :: nat)"
  define g g2 where "g = 6 - rd_again v" and "g2 = 6 - rd_again v'"
  note nums = a_def b_def a1_def b1_def a2_def b2_def
  have left: "rd_left tr_bytes n v = 8 * (R + a + b) + 2 * b + f + g"
    "rd_left tr_bytes n v' = 8 * (R2 + a2 + b2) + 2 * b2 + f2 + g2"
    by (simp_all add: rd_left_def Let_def nums R_def R2_def f_def f2_def g_def g2_def MU_FILTER_MAX_AGAIN_def)
  have f: "f \<le> 1" "f2 \<le> 1" by (simp_all add: f_def f2_def)
  have same: "a1 + b1 = a + b" "b1 \<le> b" "rd_min_in v1 = rd_min_in v" "rd_buf v1 = rd_buf v" "rd_again v1 = rd_again v"
    using inp by (simp_all add: nums)
  have fetched: "rd_cmd v1 = mu_filter_xcode \<Longrightarrow> \<not> tr_eof (fs_transport (rd_fs v1)) \<Longrightarrow>
      b1 < b \<or> a1 = a \<and> b1 = b \<and> rd_min_in v \<le> a"
    using inp by (auto simp: nums)
  have lim: "lim \<le> rd_min_in v" using sized by (simp add: rd_sized_def)
  have mv: "i \<le> a1 \<and> a2 = a1 - i \<and> R2 \<le> R \<and> (0 < w \<longrightarrow> R2 < R) \<and> b2 = b1 \<and>
      (b1 = b \<longrightarrow> f2 \<le> f) \<and> rd_sized v'"
    if "moved n i w v1 v'" for i w
  proof -
    have "length (rd_buf v') = length (rd_buf v) + min (n - length (rd_buf v)) w"
      using that same(4) by (simp add: moved_def)
    then have "R2 \<le> R \<and> (0 < w \<longrightarrow> R2 < R)"
      using room_shrinks[OF _ want, of w] by (simp add: R_def R2_def)
    moreover have "i \<le> a1 \<and> a2 = a1 - i \<and> b2 = b1 \<and> rd_sized v' \<and> rd_min_in v' = rd_min_in v"
      using that same(3) lim by (simp add: moved_def nums rd_sized_def)
    moreover from this have "b1 = b \<longrightarrow> f2 \<le> f" using same(1) by (auto simp: f_def f2_def)
    ultimately show ?thesis by blast
  qed
  have drop: "rd_left tr_bytes n v' < rd_left tr_bytes n v"
    if m: "moved n i w v1 v'" and "0 < i \<or> 0 < w" for i w
  proof -
    have "R2 + a2 + b2 < R + a + b" "b2 \<le> b"
      using mv[OF m] that(2) same(1,2) by (auto elim: disjE)
    moreover have "g2 \<le> 6" by (simp add: g2_def)
    ultimately show ?thesis unfolding left using f(2) by (intro less_left)
  qed
  from eff show ?thesis
  proof (elim disjE exE conjE)
    fix i w
    assume A: "rd_cmd v1 \<noteq> mu_filter_lastbuf" "\<not> tr_eof (fs_transport (rd_fs v1))" "moved n i w v1 v'"
      "rd_again v' = 0" "length (MFB_data (fs_inbuf (rd_fs v1))) < lim"
    have "b1 < b" using fetched again0 A lim by (auto simp: nums)
    moreover have "R2 + a2 + b2 \<le> R + a + b" "b2 = b1" "rd_sized v'"
      using mv[OF A(3)] same(1) by auto
    moreover have "g2 \<le> g" using A(4) again0[OF A(1)] by (simp add: g_def g2_def)
    ultimately show ?thesis unfolding left using f(2) less_left_fetch by blast
  next
    assume A: "rd_cmd v1 \<noteq> mu_filter_lastbuf" "\<not> tr_eof (fs_transport (rd_fs v1))"
      "rd_buf v' = rd_buf v1" "fs_transport (rd_fs v') = fs_transport (rd_fs v1)"
      "MFB_data (fs_inbuf (rd_fs v')) = MFB_data (fs_inbuf (rd_fs v1))"
      "length (MFB_data (fs_inbuf (rd_fs v1))) < rd_min_in v'" "lim \<le> rd_min_in v'"
      "rd_again v' = rd_again v1" "MU_FILTER_BUF_SIZE \<le> rd_min_out v'"
    have B: "a2 = a1" "b2 = b1" "R2 = R" "f2 = 0" using A same by (simp_all add: nums R_def R2_def f2_def)
    have C: "b1 < b \<or> b1 = b \<and> f = 1" using fetched again0[OF A(1)] A(2) by (auto simp: f_def)
    have D: "8 * (R2 + a2 + b2) = 8 * (R + a + b)" "g2 = g"
      using B same A(8) by (simp_all add: g_def g2_def)
    from C have "rd_left tr_bytes n v' < rd_left tr_bytes n v"
    proof
      assume "b1 < b"
      then show ?thesis unfolding left using B D f(2) same(1) by (intro less_left_fetch) auto
    next
      assume "b1 = b \<and> f = 1"
      then show ?thesis using left B D by linarith
    qed
    then show ?thesis using A by (simp add: rd_sized_def)
  next
    fix i w
    assume A: "moved n i w v1 v'" "rd_again v' = rd_again v1 + 1" "rd_again v' \<le> MU_FILTER_MAX_AGAIN"
    have g: "g2 < g" using A(2,3) same(5) by (auto simp: g_def g2_def MU_FILTER_MAX_AGAIN_def)
    have m: "R2 + a2 + b2 \<le> R + a + b" "b2 = b1" "b1 = b \<longrightarrow> f2 \<le> f" "rd_sized v'"
      using mv[OF A(1)] same(1) by auto
    show ?thesis
    proof (cases "b1 = b")
      case True
      with m g left show ?thesis by auto
    next
      case False
      with same(2) m(2) have "b2 < b" by simp
      with m(1,4) g f(2) show ?thesis unfolding left by (auto intro!: less_left_fetch)
    qed
  qed (use drop mv in blast)+
qed

end

context live_filter_rd
begin

lemma filter_read_loop_returns:
  assumes "balance n owed v" "rd_sized v" "\<not> rd_stop v" "length (rd_buf v) < n"
    and "rd_left tr_bytes n v < fuel"
  shows "\<exists>r. filter_read_loop xcode tr_read tr_eof n fuel v = Some r"
  using assms
proof (induction fuel arbitrary: v)
  case (Suc fuel)
  have bal: "flow_inv (balance n owed) (rd_turn xcode tr_read tr_eof n v)"
    by (rule rd_turn_inv[OF Suc.prems(1)])
  have again_turn: "\<exists>r. filter_read_loop xcode tr_read tr_eof n fuel v' = Some r"
    if "rd_turn xcode tr_read tr_eof n v \<in> {Go v', Continue v'}" "\<not> rd_stop v'" "length (rd_buf v') < n" for v'
    using Suc.IH[of v'] rd_turn_decreases[OF Suc.prems(1,2,4) that(1,2) Suc.prems(3)] bal that Suc.prems(5)
    by auto
  then show ?case by (cases "rd_turn xcode tr_read tr_eof n v") auto
qed simp

lemma rd_start_ready:
  "fs_inv swf tr_wf fs \<Longrightarrow> balance n (fs_owed spec tr_bytes fs) (rd_start fs)"
  "rd_sized (rd_start fs)" "\<not> rd_stop (rd_start fs)"
  using lim_le by (simp_all add: rd_inv_def rd_start_def rd_sized_def MU_FILTER_BUF_SIZE_def)

lemma filter_read_returns:
  assumes inv: "fs_inv swf tr_wf fs" and fuel: "rd_left tr_bytes n (rd_start fs) < fuel"
  shows "\<exists>fs' r. filter_read xcode tr_read tr_eof fuel fs n = Some (fs', r)"
proof (cases "n = 0")
  case True
  obtain k where k: "fuel = Suc k" using fuel by (cases fuel) auto
  have "fs_disabled fs = False" using inv by (simp add: fs_inv_def)
  then show ?thesis
    unfolding True k by (cases "rd_turn xcode tr_read tr_eof 0 (rd_start fs)") (simp_all add: filter_read_def)
next
  case False
  have "fs_disabled fs = False" "length (rd_buf (rd_start fs)) < n"
    using inv False by (simp_all add: fs_inv_def rd_start_def)
  with filter_read_loop_returns[OF rd_start_ready(1)[OF inv] rd_start_ready(2,3) _ fuel]
  show ?thesis by (auto simp: filter_read_def)
qed

text \<open>A read that hands over nothing, though asked for something, means that nothing is owed.\<close>

definition rd_honest :: "bytes \<Rightarrow> ('s, 't) rdvars \<Rightarrow> bool" where
  "rd_honest owed v \<longleftrightarrow> rd_buf v \<noteq> [] \<or> owed = [] \<or> rd_cmd v = mu_filter_xcode \<and> \<not> rd_stop v"

text \<open>The call of one turn, with what is known about it.\<close>

lemma rd_xcode_call:
  assumes inv: "balance n owed v" and live: "\<not> fs_eof (rd_fs v)"
    and ready: "rd_cmd v = mu_filter_lastbuf \<or> MFB_data (fs_inbuf (rd_fs v)) \<noteq> []"
    and out: "MFB_rdbytes (fs_outbuf (rd_fs v)) = 0" and sized: "rd_sized v"
  obtains cmd osize r v1 ag where
    "rd_xcode xcode tr_eof v =
     (case xres r of
        mu_filter_again \<Rightarrow> rd_account r (v1\<lparr>rd_again := ag\<rparr>)
      | mu_filter_ok \<Rightarrow> rd_account r v1
      | mu_filter_failure \<Rightarrow> Return v1 (xerr r)
      | mu_filter_moreinput \<Rightarrow>
          if cmd = mu_filter_lastbuf then Return v1 MU_ERR_FAILURE
          else Continue (v1\<lparr>rd_min_in := xisize r\<rparr>)
      | mu_filter_moreoutput \<Rightarrow> Continue (v1\<lparr>rd_min_out := xosize r\<rparr>))"
    "r = xcode (fs_xdata (rd_fs v)) cmd (MFB_data (fs_inbuf (rd_fs v))) osize"
    "MU_FILTER_BUF_SIZE \<le> osize" "MFB_data (fs_outbuf (rd_fs v1)) = []" "fs_inv swf tr_wf (rd_fs v1)"
    "MFB_freesize (fs_outbuf (rd_fs v1)) = osize" "rd_buf v1 = rd_buf v" "rd_stop v1 = rd_stop v"
    "rd_cmd v1 = cmd" "fs_inbuf (rd_fs v1) = fs_inbuf (rd_fs v)"
    "swf (fs_xdata (rd_fs v))"
    "owed = rd_buf v @ spec (fs_xdata (rd_fs v))
       (MFB_data (fs_inbuf (rd_fs v)) @ tr_bytes (fs_transport (rd_fs v)))"
    "cmd = mu_filter_lastbuf \<and> tr_bytes (fs_transport (rd_fs v)) = [] \<or>
     cmd = mu_filter_xcode \<and> MFB_data (fs_inbuf (rd_fs v)) \<noteq> []"
proof -
  define fs where "fs = rd_fs v"
  define mo where "mo = (if rd_min_out v < MFB_rdbytes (fs_inbuf fs) then MFB_rdbytes (fs_inbuf fs) else rd_min_out v)"
  define ob where "ob = MFB_require (fs_outbuf fs) mo"
  define cmd where "cmd = (if rd_cmd v \<noteq> mu_filter_lastbuf
      then (if tr_eof (fs_transport fs) then mu_filter_lastbuf else mu_filter_xcode) else rd_cmd v)"
  define r where "r = xcode (fs_xdata fs) cmd (MFB_data (fs_inbuf fs)) (MFB_freesize ob)"
  define v1 where "v1 = v\<lparr>rd_min_out := mo, rd_cmd := cmd,
      rd_fs := fs\<lparr>fs_outbuf := ob, fs_xdata := xst r\<rparr>\<rparr>"
  define ag where "ag = (if rd_again v + 1 > MU_FILTER_MAX_AGAIN then 0 else rd_again v + 1)"
  from inv have fs: "fs_inv swf tr_wf fs" "fs_outbuf_size fs = 0" "swf (fs_xdata fs)" "tr_wf (fs_transport fs)"
    by (simp_all add: rd_inv_def fs_inv_def fs_def)
  have mo: "MU_FILTER_BUF_SIZE \<le> mo" using sized by (auto simp: mo_def rd_sized_def)
  have ans: "rd_xcode xcode tr_eof v = rd_answer r v1"
    using fs(2) by (simp add: rd_xcode_def Let_def init_iobuf_def fs_def mo_def ob_def cmd_def r_def v1_def)
  show thesis
  proof (rule that[of r v1 cmd ag "MFB_freesize ob"])
    show "rd_xcode xcode tr_eof v =
     (case xres r of
        mu_filter_again \<Rightarrow> rd_account r (v1\<lparr>rd_again := ag\<rparr>)
      | mu_filter_ok \<Rightarrow> rd_account r v1
      | mu_filter_failure \<Rightarrow> Return v1 (xerr r)
      | mu_filter_moreinput \<Rightarrow>
          if cmd = mu_filter_lastbuf then Return v1 MU_ERR_FAILURE
          else Continue (v1\<lparr>rd_min_in := xisize r\<rparr>)
      | mu_filter_moreoutput \<Rightarrow> Continue (v1\<lparr>rd_min_out := xosize r\<rparr>))"
      unfolding ans rd_answer_def by (simp add: v1_def ag_def split: filter_result.split)
    show "MU_FILTER_BUF_SIZE \<le> MFB_freesize ob"
      using mo MFB_require_free[of mo "fs_outbuf fs"] by (simp add: ob_def)
    show "MFB_data (fs_outbuf (rd_fs v1)) = []"
      using out by (simp add: ob_def fs_def v1_def MFB_rdbytes_data)
    show "fs_inv swf tr_wf (rd_fs v1)"
      using fs(1) xcode_wf[OF fs(3)] by (simp add: fs_inv_def v1_def ob_def MFB_require_ok r_def)
    show "owed = rd_buf v @ spec (fs_xdata (rd_fs v))
       (MFB_data (fs_inbuf (rd_fs v)) @ tr_bytes (fs_transport (rd_fs v)))"
      using inv live out by (simp add: rd_inv_def fs_owed_def MFB_rdbytes_data)
    show "cmd = mu_filter_lastbuf \<and> tr_bytes (fs_transport (rd_fs v)) = [] \<or>
     cmd = mu_filter_xcode \<and> MFB_data (fs_inbuf (rd_fs v)) \<noteq> []"
      using inv ready eof_end[OF fs(4)] by (auto simp: cmd_def rd_inv_def fs_def)
  qed (simp_all add: r_def v1_def fs_def[symmetric] fs(3))
qed

lemma rd_account_stop:
  "fs_outbuf_size (rd_fs v) = 0 \<Longrightarrow> rd_account r v = Go v' \<Longrightarrow> rd_cmd v = mu_filter_xcode \<Longrightarrow>
   xres r = mu_filter_ok \<Longrightarrow> rd_cmd v' = mu_filter_xcode \<and> (\<not> xeof r \<longrightarrow> rd_stop v' = rd_stop v)"
  by (auto simp: rd_account_def Let_def split: if_splits)

lemma rd_xcode_honest:
  assumes inv: "balance n owed v" and live: "\<not> fs_eof (rd_fs v)"
    and ready: "rd_cmd v = mu_filter_lastbuf \<or> MFB_data (fs_inbuf (rd_fs v)) \<noteq> []"
    and out: "MFB_rdbytes (fs_outbuf (rd_fs v)) = 0" and sized: "rd_sized v"
    and go: "and_then (rd_xcode xcode tr_eof v) (\<lambda>v. Go (rd_copy n v)) \<in> {Go v', Continue v'}"
    and want: "length (rd_buf v) < n" and start: "\<not> rd_stop v"
  shows "rd_honest owed v'"
proof (rule rd_xcode_call[OF inv live ready out sized])
  fix cmd osize r v1 ag
  assume code: "rd_xcode xcode tr_eof v =
     (case xres r of
        mu_filter_again \<Rightarrow> rd_account r (v1\<lparr>rd_again := ag\<rparr>)
      | mu_filter_ok \<Rightarrow> rd_account r v1
      | mu_filter_failure \<Rightarrow> Return v1 (xerr r)
      | mu_filter_moreinput \<Rightarrow>
          if cmd = mu_filter_lastbuf then Return v1 MU_ERR_FAILURE
          else Continue (v1\<lparr>rd_min_in := xisize r\<rparr>)
      | mu_filter_moreoutput \<Rightarrow> Continue (v1\<lparr>rd_min_out := xosize r\<rparr>))"
    and r: "r = xcode (fs_xdata (rd_fs v)) cmd (MFB_data (fs_inbuf (rd_fs v))) osize"
    and osize: "MU_FILTER_BUF_SIZE \<le> osize" and ob: "MFB_data (fs_outbuf (rd_fs v1)) = []"
    and inv1: "fs_inv swf tr_wf (rd_fs v1)" and buf: "rd_buf v1 = rd_buf v" and stop: "rd_stop v1 = rd_stop v"
    and cmd: "rd_cmd v1 = cmd" and swf: "swf (fs_xdata (rd_fs v))"
    and owed: "owed = rd_buf v @ spec (fs_xdata (rd_fs v))
       (MFB_data (fs_inbuf (rd_fs v)) @ tr_bytes (fs_transport (rd_fs v)))"
    and cmds: "cmd = mu_filter_lastbuf \<and> tr_bytes (fs_transport (rd_fs v)) = [] \<or>
     cmd = mu_filter_xcode \<and> MFB_data (fs_inbuf (rd_fs v)) \<noteq> []"
  have wrote: "rd_buf v' \<noteq> [] \<or> xout r = [] \<and> rd_buf v = []"
    if sz: "xosize r = length (xout r)" and w: "w = v1 \<or> w = v1\<lparr>rd_again := ag\<rparr>"
      and step: "and_then (rd_account r w) (\<lambda>v. Go (rd_copy n v)) \<in> {Go v', Continue v'}" for w
  proof -
    from rd_account_go[OF step] obtain v2 where v2: "rd_account r w = Go v2" "v' = rd_copy n v2" by auto
    have w1: "fs_inv swf tr_wf (rd_fs w)" using inv1 w by auto
    have "length (rd_buf v') = length (rd_buf v) + min (n - length (rd_buf v)) (length (xout r))"
      using rd_account_effect[OF w1 sz v2(1)] rd_copy_effect[of n v2] w ob buf v2(2) by auto
    then show ?thesis using want by (cases "xout r"; cases "rd_buf v") auto
  qed
  from cmds show ?thesis
  proof
    assume last: "cmd = mu_filter_lastbuf \<and> tr_bytes (fs_transport (rd_fs v)) = []"
    have fin: "finishes spec osize (fs_xdata (rd_fs v)) (MFB_data (fs_inbuf (rd_fs v))) r"
      and lv: "lively_last r"
      using last_finishes[OF swf] last_live[OF swf osize] last by (simp_all add: r)
    have quiet: "xres r \<in> {mu_filter_ok, mu_filter_again} \<Longrightarrow> xout r = [] \<Longrightarrow> owed = rd_buf v"
      using last_speaks[OF swf osize, of "MFB_data (fs_inbuf (rd_fs v))"] last owed by (simp add: r)
    show ?thesis
    proof (cases "xres r")
      case mu_filter_ok
      with fin have "xosize r = length (xout r)" by (simp add: finishes_def)
      with wrote[of v1] go code mu_filter_ok quiet show ?thesis by (auto simp: rd_honest_def)
    next
      case mu_filter_again
      with fin have "xosize r = length (xout r)" by (simp add: finishes_def)
      with wrote[of "v1\<lparr>rd_again := ag\<rparr>"] go code mu_filter_again quiet show ?thesis
        by (auto simp: rd_honest_def)
    qed (use go code last lv in \<open>auto simp: lively_last_def\<close>)
  next
    assume x: "cmd = mu_filter_xcode \<and> MFB_data (fs_inbuf (rd_fs v)) \<noteq> []"
    have lv: "lively lim (MFB_data (fs_inbuf (rd_fs v))) r" and na: "xres r \<noteq> mu_filter_again"
      using xcode_live[OF swf _ osize] xcode_not_again[OF swf] x by (simp_all add: r)
    show ?thesis
    proof (cases "xres r")
      case mu_filter_ok
      note ok = xcode_ok[OF swf, of "MFB_data (fs_inbuf (rd_fs v))" osize]
      have sz: "xosize r = length (xout r)" using ok mu_filter_ok x by (simp add: r)
      have step: "and_then (rd_account r v1) (\<lambda>v. Go (rd_copy n v)) \<in> {Go v', Continue v'}"
        using go code mu_filter_ok by simp
      from rd_account_go[OF step] obtain v2 where v2: "rd_account r v1 = Go v2" "v' = rd_copy n v2" by auto
      have "xeof r \<Longrightarrow> xout r = [] \<Longrightarrow> owed = rd_buf v"
        using ok(4,5)[of "tr_bytes (fs_transport (rd_fs v))"] mu_filter_ok x owed by (simp add: r)
      moreover have "rd_cmd v' = mu_filter_xcode \<and> (\<not> xeof r \<longrightarrow> \<not> rd_stop v')"
        using rd_account_stop[OF _ v2(1)] inv1 cmd x mu_filter_ok stop start v2(2)
        by (simp add: fs_inv_def rd_copy_def Let_def)
      ultimately show ?thesis
        using wrote[OF sz _ step] by (auto simp: rd_honest_def)
    next
      case mu_filter_moreinput
      then show ?thesis using go code x cmd stop start by (auto simp: rd_honest_def)
    qed (use go code x lv na in \<open>auto simp: lively_def\<close>)
  qed
qed

end

context live_filter_rd
begin

lemma rd_input_stop:
  "rd_input tr_read v = Go v' \<Longrightarrow> rd_stop v' = rd_stop v"
  "rd_input tr_read v = Break v' \<Longrightarrow> rd_buf v' = rd_buf v \<and> (fs_eof (rd_fs v) \<or> rd_cmd v = mu_filter_lastbuf)"
  by (auto simp: rd_input_def Let_def split: if_splits sum.splits)

lemma rd_account_not_break: "rd_account r v \<noteq> Break v'"
  by (simp add: rd_account_def Let_def)

lemma rd_answer_not_break: "rd_answer r v \<noteq> Break v'"
  by (simp add: rd_answer_def rd_account_not_break split: filter_result.split)

lemma rd_xcode_not_break: "rd_xcode xcode tr_eof v \<noteq> Break v'"
  unfolding rd_xcode_def Let_def case_prod_beta by (rule rd_answer_not_break)

lemma rd_turn_honest:
  assumes inv: "balance n owed v" and sized: "rd_sized v" and start: "\<not> rd_stop v"
    and want: "length (rd_buf v) < n" and honest: "rd_honest owed v"
  shows "(\<forall>v'. rd_turn xcode tr_read tr_eof n v \<in> {Go v', Continue v'} \<longrightarrow> rd_honest owed v') \<and>
    (\<forall>v'. rd_turn xcode tr_read tr_eof n v = Break v' \<longrightarrow> rd_buf v' \<noteq> [] \<or> owed = [])"
proof (cases "MFB_rdbytes (fs_outbuf (rd_fs v)) = 0")
  case False
  then have "0 < length (MFB_data (fs_outbuf (rd_fs v)))" by (simp add: MFB_rdbytes_data)
  then have "0 < length (rd_buf (rd_copy n v))"
    using rd_copy_effect[of n v] want by auto
  then show ?thesis using False by (auto simp: rd_turn_def rd_honest_def)
next
  case out: True
  show ?thesis
  proof (cases "rd_input tr_read v")
    case (Go v1)
    note inp = rd_input_progress[OF inv out Go]
    have inv1: "balance n owed v1" "\<not> fs_eof (rd_fs v1)"
      "rd_cmd v1 = mu_filter_lastbuf \<or> MFB_data (fs_inbuf (rd_fs v1)) \<noteq> []"
      using rd_input_inv[OF inv out] Go by auto
    have out1: "MFB_rdbytes (fs_outbuf (rd_fs v1)) = 0" "rd_sized v1" "length (rd_buf v1) < n"
      "\<not> rd_stop v1"
      using inp out sized want start rd_input_stop(1)[OF Go] by (simp_all add: rd_sized_def)
    have nb: "and_then (rd_xcode xcode tr_eof v1) (\<lambda>v. Go (rd_copy n v)) \<noteq> Break v'" for v'
      using rd_xcode_not_break[of v1] by (cases "rd_xcode xcode tr_eof v1") auto
    from rd_xcode_honest[OF inv1 out1(1,2) _ out1(3,4)] nb show ?thesis
      by (auto simp: rd_turn_def out Go)
  next
    case (Break v')
    have "owed = rd_buf v @ fs_owed spec tr_bytes (rd_fs v)" using inv by (simp add: rd_inv_def)
    then have "fs_eof (rd_fs v) \<Longrightarrow> owed = rd_buf v"
      using out by (simp add: fs_owed_def MFB_rdbytes_data)
    with rd_input_stop(2)[OF Break] honest show ?thesis
      by (auto simp: rd_turn_def out Break rd_honest_def)
  qed (use rd_input_inv[OF inv out] in \<open>auto simp: rd_turn_def out\<close>)
qed

lemma filter_read_loop_honest:
  assumes "balance n owed v" "rd_sized v" "\<not> rd_stop v" "length (rd_buf v) < n" "rd_honest owed v"
    and "filter_read_loop xcode tr_read tr_eof n fuel v = Some (fs', Inr bs)"
  shows "bs \<noteq> [] \<or> owed = []"
  using assms
proof (induction fuel arbitrary: v)
  case (Suc fuel)
  have bal: "flow_inv (balance n owed) (rd_turn xcode tr_read tr_eof n v)"
    by (rule rd_turn_inv[OF Suc.prems(1)])
  note honest = rd_turn_honest[OF Suc.prems(1,2,3,4,5)]
  have go: "bs \<noteq> [] \<or> owed = []"
    if t: "rd_turn xcode tr_read tr_eof n v \<in> {Go v', Continue v'}"
      and res: "(if \<not> rd_stop v' \<and> length (rd_buf v') < n then filter_read_loop xcode tr_read tr_eof n fuel v'
               else Some (rd_fs v', Inr (rd_buf v'))) = Some (fs', Inr bs)" for v'
  proof (cases "\<not> rd_stop v' \<and> length (rd_buf v') < n")
    case True
    have "balance n owed v'" "rd_sized v'" "rd_honest owed v'"
      using bal t honest rd_turn_decreases[OF Suc.prems(1,2,4) t _ Suc.prems(3)] True by auto
    with Suc.IH[of v'] True res show ?thesis by simp
  next
    case False
    then have "rd_buf v' \<noteq> [] \<or> rd_stop v'" using Suc.prems(4) by auto
    with False res honest t show ?thesis by (auto simp: rd_honest_def)
  qed
  show ?case
  proof (cases "rd_turn xcode tr_read tr_eof n v")
    case (Break v')
    with honest Suc.prems(6) show ?thesis by auto
  qed (use go Suc.prems(6) in auto)
qed simp

lemma filter_read_honest:
  assumes inv: "fs_inv swf tr_wf fs" and "0 < n"
    and res: "filter_read xcode tr_read tr_eof fuel fs n = Some (fs', Inr bs)"
  shows "bs \<noteq> [] \<or> fs_owed spec tr_bytes fs = []"
proof (rule filter_read_loop_honest)
  show "balance n (fs_owed spec tr_bytes fs) (rd_start fs)" using rd_start_ready(1)[OF inv] .
  show "filter_read_loop xcode tr_read tr_eof n fuel (rd_start fs) = Some (fs', Inr bs)"
    using assms by (simp add: filter_read_def fs_inv_def)
qed (use assms(2) rd_start_ready in \<open>simp_all add: rd_honest_def rd_start_def\<close>)

end

text \<open>More fuel gives the same answer.\<close>

lemma filter_read_loop_mono:
  "filter_read_loop x rd eof n fuel v = Some r \<Longrightarrow> fuel \<le> fuel' \<Longrightarrow>
   filter_read_loop x rd eof n fuel' v = Some r"
proof (induction fuel arbitrary: v fuel')
  case (Suc fuel)
  obtain k where "fuel' = Suc k" "fuel \<le> k" using Suc.prems(2) by (cases fuel') auto
  with Suc show ?case by (auto split: flow.splits if_splits)
qed simp

lemma filter_read_mono:
  "filter_read x rd eof fuel fs n = Some r \<Longrightarrow> fuel \<le> fuel' \<Longrightarrow> filter_read x rd eof fuel' fs n = Some r"
  using filter_read_loop_mono by (fastforce simp: filter_read_def split: if_splits)

lemma finishes_sizes:
  "finishes spec osize st inp r \<Longrightarrow> xres r \<in> {mu_filter_ok, mu_filter_again} \<Longrightarrow>
   xisize r \<le> length inp \<and> xosize r \<le> osize"
  unfolding finishes_def by metis

section \<open>Reading everything\<close>

text \<open>Over a transport that reads without error and with a transcoder that never gives up.\<close>

locale safe_filter_rd = live_filter_rd +
  assumes read_ok: "tr_wf t \<Longrightarrow> \<exists>p. tr_read t k = Inr p"
    and xcode_ok_res: "swf st \<Longrightarrow> xres (xcode st mu_filter_xcode inp osize) \<noteq> mu_filter_failure"
    and last_ok_res: "swf st \<Longrightarrow> MU_FILTER_BUF_SIZE \<le> osize \<Longrightarrow>
      xres (xcode st mu_filter_lastbuf inp osize) \<notin> {mu_filter_failure, mu_filter_moreinput}"
begin

lemma rd_turn_no_error:
  assumes inv: "balance n owed v" and sized: "rd_sized v"
  shows "rd_turn xcode tr_read tr_eof n v \<noteq> Return v' e"
proof (cases "MFB_rdbytes (fs_outbuf (rd_fs v)) = 0")
  case False
  then show ?thesis by (simp add: rd_turn_def)
next
  case out: True
  show ?thesis
  proof (cases "rd_input tr_read v")
    case (Return v1 e1)
    have "tr_wf (fs_transport (rd_fs v))" using inv by (simp add: rd_inv_def fs_inv_def)
    moreover have "\<exists>k. tr_read (fs_transport (rd_fs v)) k = Inl e1"
      using Return by (auto simp: rd_input_def Let_def split: if_splits sum.splits)
    ultimately have False using read_ok by (metis sum.distinct(1))
    then show ?thesis ..
  next
    case (Go v1)
    note inp = rd_input_progress[OF inv out Go]
    have inv1: "balance n owed v1" "\<not> fs_eof (rd_fs v1)"
      "rd_cmd v1 = mu_filter_lastbuf \<or> MFB_data (fs_inbuf (rd_fs v1)) \<noteq> []"
      using rd_input_inv[OF inv out] Go by auto
    have out1: "MFB_rdbytes (fs_outbuf (rd_fs v1)) = 0" "rd_sized v1"
      using inp out sized by (simp_all add: rd_sized_def)
    have "rd_xcode xcode tr_eof v1 \<noteq> Return v' e" for v' e
    proof (rule rd_xcode_call[OF inv1 out1])
      fix cmd osize r v2 ag
      assume code: "rd_xcode xcode tr_eof v1 =
         (case xres r of
            mu_filter_again \<Rightarrow> rd_account r (v2\<lparr>rd_again := ag\<rparr>)
          | mu_filter_ok \<Rightarrow> rd_account r v2
          | mu_filter_failure \<Rightarrow> Return v2 (xerr r)
          | mu_filter_moreinput \<Rightarrow>
              if cmd = mu_filter_lastbuf then Return v2 MU_ERR_FAILURE
              else Continue (v2\<lparr>rd_min_in := xisize r\<rparr>)
          | mu_filter_moreoutput \<Rightarrow> Continue (v2\<lparr>rd_min_out := xosize r\<rparr>))"
        and r: "r = xcode (fs_xdata (rd_fs v1)) cmd (MFB_data (fs_inbuf (rd_fs v1))) osize"
        and big: "MU_FILTER_BUF_SIZE \<le> osize"
        and fr: "MFB_freesize (fs_outbuf (rd_fs v2)) = osize" and inv2: "fs_inv swf tr_wf (rd_fs v2)"
        and ib: "fs_inbuf (rd_fs v2) = fs_inbuf (rd_fs v1)" and swf: "swf (fs_xdata (rd_fs v1))"
        and cmds: "cmd = mu_filter_lastbuf \<and> tr_bytes (fs_transport (rd_fs v1)) = [] \<or>
           cmd = mu_filter_xcode \<and> MFB_data (fs_inbuf (rd_fs v1)) \<noteq> []"
      have sizes: "xisize r \<le> MFB_rdbytes (fs_inbuf (rd_fs v1)) \<and> xosize r \<le> osize"
        if "xres r \<in> {mu_filter_ok, mu_filter_again}"
        using cmds
      proof
        assume "cmd = mu_filter_lastbuf \<and> tr_bytes (fs_transport (rd_fs v1)) = []"
        then show ?thesis
          using finishes_sizes[OF last_finishes[OF swf, of osize "MFB_data (fs_inbuf (rd_fs v1))"]] that
          by (simp add: r MFB_rdbytes_data)
      next
        assume "cmd = mu_filter_xcode \<and> MFB_data (fs_inbuf (rd_fs v1)) \<noteq> []"
        then show ?thesis
          using xcode_ok[OF swf, of "MFB_data (fs_inbuf (rd_fs v1))" osize]
            xcode_not_again[OF swf, of "MFB_data (fs_inbuf (rd_fs v1))" osize] that
          by (auto simp: r MFB_rdbytes_data)
      qed
      have acc: "rd_account r w \<noteq> Return v' e"
        if "xres r \<in> {mu_filter_ok, mu_filter_again}" "w = v2 \<or> w = v2\<lparr>rd_again := ag\<rparr>" for w v' e
        using sizes[OF that(1)] that(2) fr ib inv2
        by (auto simp: rd_account_def Let_def fs_inv_def)
      have "xres r \<noteq> mu_filter_failure" "cmd = mu_filter_lastbuf \<Longrightarrow> xres r \<noteq> mu_filter_moreinput"
        using cmds xcode_ok_res[OF swf] last_ok_res[OF swf big] by (auto simp: r)
      with acc show "rd_xcode xcode tr_eof v1 \<noteq> Return v' e"
        by (cases "xres r") (auto simp: code)
    qed
    then show ?thesis
      by (cases "rd_xcode xcode tr_eof v1") (auto simp: rd_turn_def out Go)
  qed (simp_all add: rd_turn_def out)
qed

lemma filter_read_loop_no_error:
  assumes "balance n owed v" "rd_sized v" "\<not> rd_stop v" "length (rd_buf v) < n"
  shows "filter_read_loop xcode tr_read tr_eof n fuel v \<noteq> Some (fs', Inl e)"
  using assms
proof (induction fuel arbitrary: v)
  case (Suc fuel)
  have bal: "flow_inv (balance n owed) (rd_turn xcode tr_read tr_eof n v)"
    by (rule rd_turn_inv[OF Suc.prems(1)])
  have go: "(if \<not> rd_stop v' \<and> length (rd_buf v') < n then filter_read_loop xcode tr_read tr_eof n fuel v'
               else Some (rd_fs v', Inr (rd_buf v'))) \<noteq> Some (fs', Inl e)"
    if t: "rd_turn xcode tr_read tr_eof n v \<in> {Go v', Continue v'}" for v'
    using Suc.IH[of v'] bal t rd_turn_decreases[OF Suc.prems(1,2,4) t _ Suc.prems(3)] by auto
  show ?case
  proof (cases "rd_turn xcode tr_read tr_eof n v")
    case (Return v' e')
    with rd_turn_no_error[OF Suc.prems(1,2)] show ?thesis by simp
  qed (use go in auto)
qed simp

text \<open>One read, completely: it returns, without error, with the next bytes owed, and with none
  only when none are owed.\<close>

lemma filter_read_complete:
  assumes inv: "fs_inv swf tr_wf fs" and n: "0 < n" and fuel: "rd_left tr_bytes n (rd_start fs) < fuel"
  shows "\<exists>fs' bs. filter_read xcode tr_read tr_eof fuel fs n = Some (fs', Inr bs) \<and>
    fs_owed spec tr_bytes fs = bs @ fs_owed spec tr_bytes fs' \<and> length bs \<le> n \<and>
    fs_inv swf tr_wf fs' \<and> (bs = [] \<longrightarrow> fs_owed spec tr_bytes fs = [])"
proof -
  obtain fs' r where r: "filter_read xcode tr_read tr_eof fuel fs n = Some (fs', r)"
    using filter_read_returns[OF inv fuel] by blast
  have en: "fs_disabled fs = False" "length (rd_buf (rd_start fs)) < n"
    using inv n by (simp_all add: fs_inv_def rd_start_def)
  have "r \<noteq> Inl e" for e
    using r filter_read_loop_no_error[OF rd_start_ready(1)[OF inv] rd_start_ready(2,3) en(2)] en(1)
    by (auto simp: filter_read_def)
  then obtain bs where bs: "r = Inr bs" by (cases r) auto
  with r filter_read_delivers[OF inv r[unfolded bs]] filter_read_honest[OF inv n r[unfolded bs]]
  show ?thesis by auto
qed

text \<open>Enough reads of any sizes hand over everything that was owed.\<close>

lemma read_all_complete:
  assumes "fs_inv swf tr_wf fs" "\<forall>n \<in> set ns. 0 < n" "length (fs_owed spec tr_bytes fs) \<le> length ns"
  shows "\<exists>fuel0. \<forall>fuel \<ge> fuel0. \<exists>fs'.
    read_all xcode tr_read tr_eof fuel ns fs = Some (fs', fs_owed spec tr_bytes fs)"
  using assms
proof (induction ns arbitrary: fs)
  case (Cons n ns)
  define k where "k = Suc (rd_left tr_bytes n (rd_start fs))"
  obtain fs1 bs where one: "filter_read xcode tr_read tr_eof k fs n = Some (fs1, Inr bs)"
    and owed: "fs_owed spec tr_bytes fs = bs @ fs_owed spec tr_bytes fs1" and inv: "fs_inv swf tr_wf fs1"
    and none: "bs = [] \<longrightarrow> fs_owed spec tr_bytes fs = []"
    using filter_read_complete[OF Cons.prems(1), of n k] Cons.prems(2) by (auto simp: k_def)
  have "length (fs_owed spec tr_bytes fs1) \<le> length ns"
    using Cons.prems(3) owed none by (cases bs) auto
  then obtain f1 where f1: "\<forall>fuel \<ge> f1. \<exists>fs'.
      read_all xcode tr_read tr_eof fuel ns fs1 = Some (fs', fs_owed spec tr_bytes fs1)"
    using Cons.IH[OF inv] Cons.prems(2) by auto
  have "\<exists>fs'. read_all xcode tr_read tr_eof fuel (n # ns) fs = Some (fs', fs_owed spec tr_bytes fs)"
    if big: "fuel \<ge> max k f1" for fuel
  proof -
    have "filter_read xcode tr_read tr_eof fuel fs n = Some (fs1, Inr bs)"
      using filter_read_mono[OF one] big by simp
    moreover obtain fs' where "read_all xcode tr_read tr_eof fuel ns fs1 = Some (fs', fs_owed spec tr_bytes fs1)"
      using f1 big by (meson max.boundedE)
    ultimately show ?thesis using owed by simp
  qed
  then show ?case by blast
qed auto

end

end
