(* ===== verification/Flt_Crlf.thy ===== *)
theory Flt_Crlf
  imports Xcoder
begin

text \<open>
  The CRLF filter (\<open>libmailutils/filter/crlfflt.c\<close>): the encoder writes each LF as CR LF
  (with the option \<open>-n\<close> it leaves a CR LF of the input alone), the decoder writes each
  CR LF as LF.
\<close>

section \<open>State\<close>

datatype crlf_state = state_init | state_cr

record crlf_encoder_state =
  crlf_cur :: crlf_state
  crlf_last :: crlf_state

section \<open>Encoder\<close>

text \<open>The loop: \<open>i\<close> bytes consumed, \<open>out\<close> written (its length is \<open>j\<close>), the list is the rest of the
  input from \<open>iptr\<close> on; \<open>isize\<close> is only handed back with \<open>moreoutput\<close>.\<close>

fun crlf_encoder_loop ::
  "nat \<Rightarrow> nat \<Rightarrow> crlf_encoder_state \<Rightarrow> nat \<Rightarrow> bytes \<Rightarrow> bytes \<Rightarrow> crlf_encoder_state xcoded" where
  "crlf_encoder_loop isize osize state i out [] = x_ok state i out"
| "crlf_encoder_loop isize osize state i out (c # iptr) =
     (if \<not> length out < osize then x_ok state i out
      else if c = LF then
        (if crlf_cur state = state_cr then
           crlf_encoder_loop isize osize (state\<lparr>crlf_cur := state_init\<rparr>) (Suc i) (out @ [c]) iptr
         else if length out + 1 = osize then
           (if i = 0 then x_moreoutput state isize 2 else x_ok state i out)
         else crlf_encoder_loop isize osize state (Suc i) (out @ [CR, LF]) iptr)
      else if c = CR \<and> crlf_last state = state_cr then
        crlf_encoder_loop isize osize (state\<lparr>crlf_cur := state_cr\<rparr>) (Suc i) (out @ [c]) iptr
      else
        crlf_encoder_loop isize osize (state\<lparr>crlf_cur := state_init\<rparr>) (Suc i) (out @ [c]) iptr)"

fun crlf_encoder :: "crlf_encoder_state xcoder" where
  "crlf_encoder state mu_filter_init inp osize =
     x_quiet (state\<lparr>crlf_cur := state_init\<rparr>) inp osize"
| "crlf_encoder state mu_filter_done inp osize = x_quiet state inp osize"
| "crlf_encoder state cmd inp osize = crlf_encoder_loop (length inp) osize state 0 [] inp"

section \<open>Decoder\<close>

fun crlf_decoder_loop :: "nat \<Rightarrow> nat \<Rightarrow> bytes \<Rightarrow> bytes \<Rightarrow> unit xcoded" where
  "crlf_decoder_loop osize i out [] = x_ok () i out"
| "crlf_decoder_loop osize i out (c # iptr) =
     (if \<not> length out < osize then x_ok () i out
      else if c = CR \<and> iptr = [] then x_ok () i out
      else if c = CR \<and> hd iptr = LF then crlf_decoder_loop osize (Suc i) out iptr
      else crlf_decoder_loop osize (Suc i) (out @ [c]) iptr)"

fun crlf_decoder :: "unit xcoder" where
  "crlf_decoder xd mu_filter_init inp osize = x_quiet xd inp osize"
| "crlf_decoder xd mu_filter_done inp osize = x_quiet xd inp osize"
| "crlf_decoder xd cmd inp osize = crlf_decoder_loop osize 0 [] inp"

section \<open>Creation of the state\<close>

text \<open>\<open>alloc_state\<close>: \<open>argv\<close> are the arguments after the filter name; only a single \<open>-n\<close> is
  recognised. The decoder keeps no state.\<close>

definition crlf_alloc_state :: "string list \<Rightarrow> crlf_encoder_state" where
  "crlf_alloc_state argv =
     \<lparr>crlf_cur = state_init,
      crlf_last = (if length argv = 2 \<and> argv ! 1 = ''-n'' then state_cr else state_init)\<rparr>"

section \<open>Reference transducers\<close>

fun crlf_enc :: "crlf_encoder_state \<Rightarrow> bytes \<Rightarrow> bytes" where
  "crlf_enc state [] = []"
| "crlf_enc state (c # cs) =
     (if c = LF then
        (if crlf_cur state = state_cr then LF # crlf_enc (state\<lparr>crlf_cur := state_init\<rparr>) cs
         else CR # LF # crlf_enc state cs)
      else if c = CR \<and> crlf_last state = state_cr then c # crlf_enc (state\<lparr>crlf_cur := state_cr\<rparr>) cs
      else c # crlf_enc (state\<lparr>crlf_cur := state_init\<rparr>) cs)"

text \<open>The last CR of the input is never passed on by the decoder.\<close>

fun crlf_dec :: "bytes \<Rightarrow> bytes" where
  "crlf_dec [] = []"
| "crlf_dec [c] = (if c = CR then [] else [c])"
| "crlf_dec (c # d # cs) =
     (if c = CR \<and> d = LF then crlf_dec (d # cs) else c # crlf_dec (d # cs))"

lemma crlf_encoder_follows:
  "length out \<le> osize \<Longrightarrow>
   follows crlf_enc osize st i out inp (crlf_encoder_loop isize osize st i out inp)"
proof (induction isize osize st i out inp rule: crlf_encoder_loop.induct)
  case (1 isize osize state i out)
  then show ?case by (simp add: follows_stop)
next
  case (2 isize osize state i out c iptr)
  then show ?case
    by (auto intro!: follows_step follows_stop follows_moreoutput)
qed

lemma crlf_encoder_no_failure:
  "xres (crlf_encoder_loop isize osize st i out inp) \<noteq> mu_filter_failure"
  by (induction isize osize st i out inp rule: crlf_encoder_loop.induct) (auto simp: x_defs)

lemma crlf_dec_skip: "cs \<noteq> [] \<Longrightarrow> hd cs = LF \<Longrightarrow> crlf_dec (CR # cs @ rest) = crlf_dec (cs @ rest)"
  by (cases cs) auto

lemma crlf_dec_Cons: "c \<noteq> CR \<Longrightarrow> crlf_dec (c # cs) = c # crlf_dec cs"
  by (cases cs) auto

lemma crlf_dec_keep:
  "c \<noteq> CR \<or> cs \<noteq> [] \<and> hd cs \<noteq> LF \<Longrightarrow> crlf_dec (c # cs @ rest) = c # crlf_dec (cs @ rest)"
  by (cases cs) (auto simp: crlf_dec_Cons)

lemma crlf_decoder_follows:
  "length out \<le> osize \<Longrightarrow>
   follows (\<lambda>_. crlf_dec) osize st i out inp (crlf_decoder_loop osize i out inp)"
proof (induction osize i out inp rule: crlf_decoder_loop.induct)
  case (1 osize i out)
  then show ?case by (simp add: follows_stop)
next
  case (2 osize i out c iptr)
  show ?case
  proof (cases "c = CR \<and> iptr \<noteq> [] \<and> hd iptr = LF")
    case True
    with 2 show ?thesis
      by (auto intro!: follows_skip follows_stop crlf_dec_skip)
  next
    case False
    with 2 show ?thesis
      by (auto intro!: follows_step follows_stop crlf_dec_keep simp: crlf_dec_Cons)
  qed
qed

lemma crlf_decoder_no_failure:
  "xres (crlf_decoder_loop osize i out inp) \<noteq> mu_filter_failure"
  by (induction osize i out inp rule: crlf_decoder_loop.induct) (auto simp: x_defs)

interpretation crlf_enc: plain_xcoder crlf_encoder crlf_enc "\<lambda>_. True"
  by unfold_locales (simp_all add: crlf_encoder_follows fun_eq_iff)

interpretation crlf_enc: total_xcoder crlf_encoder crlf_enc "\<lambda>_. True"
  by unfold_locales (simp add: crlf_encoder_no_failure)

interpretation crlf_dec: plain_xcoder crlf_decoder "\<lambda>_. crlf_dec" "\<lambda>_. True"
  by unfold_locales (simp_all add: crlf_decoder_follows fun_eq_iff)

interpretation crlf_dec: total_xcoder crlf_decoder "\<lambda>_. crlf_dec" "\<lambda>_. True"
  by unfold_locales (simp add: crlf_decoder_no_failure)

section \<open>What the filter computes\<close>

lemma crlf_enc_plain:
  "crlf_last state = state_init \<Longrightarrow> crlf_cur state = state_init \<Longrightarrow>
   crlf_enc state cs = concat (map (\<lambda>c. if c = LF then [CR, LF] else [c]) cs)"
  by (induction state cs rule: crlf_enc.induct) auto

text \<open>
  What \<open>-n\<close> is for, by positions: a CR goes in front of each LF of the text that does not
  directly follow a CR, and nothing else changes.
\<close>

definition lone_lf :: "bytes \<Rightarrow> nat \<Rightarrow> bool" where
  "lone_lf bs i \<longleftrightarrow> bs ! i = LF \<and> (i = 0 \<or> bs ! (i - 1) \<noteq> CR)"

definition crlf_canonical :: "bytes \<Rightarrow> bytes" where
  "crlf_canonical bs =
     concat (map (\<lambda>i. if lone_lf bs i then [CR, LF] else [bs ! i]) [0..<length bs])"

lemma lone_lf_Suc: "lone_lf (c # d # cs) (Suc i) \<longleftrightarrow>
    (if i = 0 then d = LF \<and> c \<noteq> CR else lone_lf (d # cs) i)"
  by (cases i) (simp_all add: lone_lf_def)

lemma crlf_canonical_simps [simp]:
  "crlf_canonical [] = []"
  "crlf_canonical [c] = (if c = LF then [CR, LF] else [c])"
  by (simp_all add: crlf_canonical_def lone_lf_def)

lemma upt_0_1: "[0..<Suc (Suc n)] = 0 # 1 # map Suc [1..<Suc n]"
  unfolding map_Suc_upt by (metis One_nat_def Suc_lessI upt_conv_Cons zero_less_Suc Suc_less_eq)

lemma crlf_canonical_Cons:
  "crlf_canonical (c # d # cs) =
     (if c = LF then [CR, LF] else [c]) @
     (if c = CR \<and> d = LF then tl (crlf_canonical (d # cs)) else crlf_canonical (d # cs))"
proof -
  let ?f = "\<lambda>bs i. if lone_lf bs i then [CR, LF] else [bs ! i]"
  have "map (?f (c # d # cs)) (map Suc [1..<Suc (length cs)]) = map (?f (d # cs)) [1..<Suc (length cs)]"
    by (auto simp: lone_lf_Suc)
  then have l: "crlf_canonical (c # d # cs) =
      ?f (c # d # cs) 0 @ ?f (c # d # cs) 1 @ concat (map (?f (d # cs)) [1..<Suc (length cs)])"
    by (simp add: crlf_canonical_def upt_0_1 del: upt_Suc map_map)
  have r: "crlf_canonical (d # cs) = ?f (d # cs) 0 @ concat (map (?f (d # cs)) [1..<Suc (length cs)])"
    by (simp add: crlf_canonical_def upt_conv_Cons del: upt_Suc)
  show ?thesis unfolding l r by (auto simp: lone_lf_def)
qed

text \<open>The encoder started with \<open>-n\<close> writes that text.\<close>

lemma crlf_enc_canonical_gen:
  "crlf_last state = state_cr \<Longrightarrow>
   crlf_enc state cs = (if crlf_cur state = state_cr \<and> cs \<noteq> [] \<and> hd cs = LF
     then tl (crlf_canonical cs) else crlf_canonical cs)"
proof (induction state cs rule: crlf_enc.induct)
  case (2 state c cs)
  then show ?case
    by (cases cs; cases "crlf_cur state") (auto simp: crlf_canonical_Cons)
qed simp

lemma crlf_enc_canonical:
  "crlf_last state = state_cr \<Longrightarrow> crlf_cur state \<noteq> state_cr \<Longrightarrow> crlf_enc state cs = crlf_canonical cs"
  by (simp add: crlf_enc_canonical_gen)

text \<open>Normalised text: every LF comes right after a CR.\<close>

fun crlf_normal :: "bool \<Rightarrow> bytes \<Rightarrow> bool" where
  "crlf_normal prev_cr [] = True"
| "crlf_normal prev_cr (c # cs) =
     ((c = LF \<longrightarrow> prev_cr) \<and> crlf_normal (c = CR) cs)"

lemma crlf_enc_normal:
  "crlf_normal (crlf_cur state = state_cr) (crlf_enc state cs)"
proof (induction state cs rule: crlf_enc.induct)
  case (2 state c cs)
  have mono: "crlf_normal False xs \<Longrightarrow> crlf_normal b xs" for b xs
    by (cases xs) auto
  from 2 show ?case by (cases "crlf_cur state") (auto intro: mono)
qed simp

lemma crlf_enc_normal_id:
  "crlf_last state = state_cr \<Longrightarrow> crlf_normal (crlf_cur state = state_cr) cs \<Longrightarrow>
   crlf_enc state cs = cs"
proof (induction state cs rule: crlf_enc.induct)
  case (2 state c cs)
  then show ?case by (cases "c = LF"; cases "c = CR"; cases "crlf_cur state") auto
qed simp

lemma crlf_canonical_id: "crlf_canonical (crlf_canonical cs) = crlf_canonical cs"
proof -
  let ?st = "\<lparr>crlf_cur = state_init, crlf_last = state_cr\<rparr>"
  have "crlf_enc ?st (crlf_enc ?st cs) = crlf_enc ?st cs"
    using crlf_enc_normal_id[of ?st "crlf_enc ?st cs"] crlf_enc_normal[of ?st cs] by simp
  then show ?thesis by (simp add: crlf_enc_canonical)
qed

lemma crlf_dec_enc:
  assumes "crlf_last state = state_init" "crlf_cur state = state_init"
    and "cs = [] \<or> last cs \<noteq> CR"
  shows "crlf_dec (crlf_enc state cs) = cs"
  using assms
proof (induction cs)
  case (Cons c cs)
  show ?case
  proof (cases cs)
    case Nil
    with Cons show ?thesis by (auto simp: crlf_enc_plain)
  next
    case (Cons d ds)
    with Cons.IH Cons.prems show ?thesis
      by (auto simp: crlf_enc_plain)
  qed
qed simp

end
