(* ===== verification/Flt_Dot.thy ===== *)
theory Flt_Dot
  imports Xcoder
begin

text \<open>
  The DOT filter (\<open>libmailutils/filter/dot.c\<close>): byte-stuffing of lines that start with a dot
  and the final line holding a single dot, with LF line ends.
\<close>

section \<open>Decoder\<close>

datatype dot_decode_state = dot_decode_bol | dot_decode_char | dot_decode_dot | dot_decode_end

fun dot_new_decode_state :: "dot_decode_state \<Rightarrow> byte \<Rightarrow> dot_decode_state" where
  "dot_new_decode_state dot_decode_bol c =
     (if c = DOT then dot_decode_dot else if c = LF then dot_decode_bol else dot_decode_char)"
| "dot_new_decode_state dot_decode_char c = (if c = LF then dot_decode_bol else dot_decode_char)"
| "dot_new_decode_state dot_decode_dot c = (if c = LF then dot_decode_end else dot_decode_char)"
| "dot_new_decode_state dot_decode_end c = dot_decode_end"

fun dot_decoder_loop ::
  "nat \<Rightarrow> dot_decode_state \<Rightarrow> nat \<Rightarrow> bytes \<Rightarrow> bytes \<Rightarrow> dot_decode_state xcoded" where
  "dot_decoder_loop osize pstate i out [] = x_ok pstate i out"
| "dot_decoder_loop osize pstate i out (c # iptr) =
     (if \<not> length out < osize then x_ok pstate i out
      else let curstate = pstate; pstate = dot_new_decode_state curstate c
      in if c = DOT \<and> curstate = dot_decode_bol then dot_decoder_loop osize pstate (Suc i) out iptr
      else if pstate = dot_decode_end then x_eof pstate i out
      else dot_decoder_loop osize pstate (Suc i) (out @ [c]) iptr)"

fun dot_decoder :: "dot_decode_state xcoder" where
  "dot_decoder pstate mu_filter_init inp osize = x_quiet dot_decode_bol inp osize"
| "dot_decoder pstate mu_filter_done inp osize = x_quiet pstate inp osize"
| "dot_decoder pstate cmd inp osize = dot_decoder_loop osize pstate 0 [] inp"

section \<open>Encoder\<close>

datatype dot_encode_state = dot_encode_init | dot_encode_char | dot_encode_lf

definition dot_new_encode_state :: "byte \<Rightarrow> dot_encode_state" where
  "dot_new_encode_state c = (if c = LF then dot_encode_lf else dot_encode_char)"

fun dot_encoder_loop ::
  "nat \<Rightarrow> nat \<Rightarrow> dot_encode_state \<Rightarrow> nat \<Rightarrow> bytes \<Rightarrow> bytes \<Rightarrow> dot_encode_state xcoded" where
  "dot_encoder_loop isize osize state i out [] = x_ok state i out"
| "dot_encoder_loop isize osize state i out (c # iptr) =
     (if \<not> length out < osize then x_ok state i out
      else if c = DOT \<and> (state = dot_encode_init \<or> state = dot_encode_lf) then
        (if length out + 2 > osize then
           (if i = 0 then x_moreoutput state isize 2 else x_ok state i out)
         else dot_encoder_loop isize osize (dot_new_encode_state c) (Suc i) (out @ [DOT, DOT]) iptr)
      else dot_encoder_loop isize osize (dot_new_encode_state c) (Suc i) (out @ [c]) iptr)"

text \<open>The end of the function, after the loop has left the buffer at \<open>out\<close>.\<close>

definition dot_encoder_finish ::
  "filter_command \<Rightarrow> nat \<Rightarrow> dot_encode_state \<Rightarrow> nat \<Rightarrow> bytes \<Rightarrow> dot_encode_state xcoded" where
  "dot_encoder_finish cmd osize state i out =
     (if cmd = mu_filter_lastbuf then
        (if state = dot_encode_init \<or> state = dot_encode_lf then
           (if length out + 2 > osize then x_ret mu_filter_again state i out
            else x_ok state i (out @ [DOT, LF]))
         else
           (if length out + 3 > osize then x_ret mu_filter_again state i out
            else x_ok state i (out @ [LF, DOT, LF])))
      else x_ok state i out)"

fun dot_encoder :: "dot_encode_state xcoder" where
  "dot_encoder state mu_filter_init inp osize = x_quiet dot_encode_init inp osize"
| "dot_encoder state mu_filter_done inp osize = x_quiet state inp osize"
| "dot_encoder state cmd inp osize =
     (let r = dot_encoder_loop (length inp) osize state 0 [] inp
      in if xres r = mu_filter_moreoutput then r
         else dot_encoder_finish cmd osize (xst r) (xisize r) (xout r))"

section \<open>Reference transducers\<close>

fun dot_dec :: "dot_decode_state \<Rightarrow> bytes \<Rightarrow> bytes" where
  "dot_dec st [] = []"
| "dot_dec st (c # cs) =
     (if c = DOT \<and> st = dot_decode_bol then dot_dec dot_decode_dot cs
      else if dot_new_decode_state st c = dot_decode_end then []
      else c # dot_dec (dot_new_decode_state st c) cs)"

fun dot_enc :: "dot_encode_state \<Rightarrow> bytes \<Rightarrow> bytes" where
  "dot_enc st [] = (if st = dot_encode_char then [LF, DOT, LF] else [DOT, LF])"
| "dot_enc st (c # cs) =
     (if c = DOT \<and> st \<noteq> dot_encode_char then [DOT] else []) @ c # dot_enc (dot_new_encode_state c) cs"

lemma dot_dec_end [simp]: "dot_dec dot_decode_end cs = []"
  by (cases cs) auto

lemma dot_decoder_follows:
  "length out \<le> osize \<Longrightarrow>
   follows dot_dec osize st i out inp (dot_decoder_loop osize st i out inp)"
proof (induction osize st i out inp rule: dot_decoder_loop.induct)
  case (1 osize pstate i out)
  then show ?case by (simp add: follows_stop)
next
  case (2 osize st i out c iptr)
  consider (full) "\<not> length out < osize"
    | (dot) "length out < osize" "c = DOT" "st = dot_decode_bol"
    | (eof) "length out < osize" "\<not> (c = DOT \<and> st = dot_decode_bol)"
        "dot_new_decode_state st c = dot_decode_end"
    | (copy) "length out < osize" "\<not> (c = DOT \<and> st = dot_decode_bol)"
        "dot_new_decode_state st c \<noteq> dot_decode_end"
    by blast
  then show ?case
  proof cases
    case full
    then show ?thesis by (simp add: follows_stop)
  next
    case dot
    with 2 show ?thesis by (auto intro!: follows_skip)
  next
    case eof
    then show ?thesis by (auto simp: Let_def intro!: follows_eof)
  next
    case copy
    with 2 show ?thesis by (auto simp: Let_def intro!: follows_step)
  qed
qed

lemma dot_decoder_no_failure:
  "xres (dot_decoder_loop osize st i out inp) \<noteq> mu_filter_failure"
  by (induction osize st i out inp rule: dot_decoder_loop.induct) (auto simp: x_defs Let_def)

interpretation dot_dec: plain_xcoder dot_decoder dot_dec "\<lambda>_. True"
  by unfold_locales (simp_all add: dot_decoder_follows fun_eq_iff)

interpretation dot_dec: total_xcoder dot_decoder dot_dec "\<lambda>_. True"
  by unfold_locales (simp add: dot_decoder_no_failure)

lemma dot_encoder_follows:
  "length out \<le> osize \<Longrightarrow>
   follows dot_enc osize st i out inp (dot_encoder_loop isize osize st i out inp)"
proof (induction isize osize st i out inp rule: dot_encoder_loop.induct)
  case (2 isize osize state i out c iptr)
  then show ?case
    by (cases state) (auto intro!: follows_step follows_stop follows_moreoutput)
qed (simp add: follows_stop)

text \<open>The loop answers ok or asks for room; it leaves input only when fewer than two bytes
  of room are left.\<close>

lemma dot_encoder_loop_stops:
  "length out \<le> osize \<Longrightarrow> r = dot_encoder_loop isize osize st i out inp \<Longrightarrow>
   xres r = mu_filter_moreoutput \<or>
   xres r = mu_filter_ok \<and> \<not> xeof r \<and>
     (xisize r = i + length inp \<or> length (xout r) + 2 > osize)"
  by (induction isize osize st i out inp arbitrary: r rule: dot_encoder_loop.induct)
    (auto simp: x_defs)

lemma dot_encoder_last:
  "finishes dot_enc osize st inp (dot_encoder st mu_filter_lastbuf inp osize)"
proof -
  let ?r = "dot_encoder_loop (length inp) osize st 0 [] inp"
  from dot_encoder_loop_stops[of "[]" osize ?r, OF _ refl]
  consider (more) "xres ?r = mu_filter_moreoutput"
    | (ok) "xres ?r = mu_filter_ok" "\<not> xeof ?r" "xisize ?r = length inp \<or> length (xout ?r) + 2 > osize"
    by auto
  then show ?thesis
  proof cases
    case more
    with dot_encoder_follows[of "[]" osize st 0 inp "length inp"] show ?thesis
      by (simp add: finishes_def follows_def Let_def)
  next
    case ok
    with dot_encoder_follows[of "[]" osize st 0 inp "length inp"]
    have "xisize ?r \<le> length inp" "xosize ?r = length (xout ?r)" "length (xout ?r) \<le> osize"
      "dot_enc st inp = xout ?r @ dot_enc (xst ?r) (drop (xisize ?r) inp)"
      unfolding follows_def by (auto dest: spec[of _ "[]"])
    with ok show ?thesis
      by (cases "xst ?r") (auto simp: finishes_def Let_def dot_encoder_finish_def x_defs)
  qed
qed

lemma dot_encoder_loop_result:
  "xres (dot_encoder_loop isize osize st i out inp) \<noteq> mu_filter_moreoutput \<Longrightarrow>
   \<exists>st' i' out'. dot_encoder_loop isize osize st i out inp = x_ok st' i' out'"
  by (induction isize osize st i out inp rule: dot_encoder_loop.induct)
    (auto simp: x_moreoutput_def)

lemma dot_encoder_xcode:
  "dot_encoder st mu_filter_xcode inp osize = dot_encoder_loop (length inp) osize st 0 [] inp"
  using dot_encoder_loop_result[of "length inp" osize st 0 "[]" inp]
  by (auto simp: Let_def dot_encoder_finish_def x_ret_def)

interpretation dot_enc: full_xcoder dot_encoder dot_enc "\<lambda>_. True"
  by unfold_locales (simp_all add: dot_encoder_xcode dot_encoder_follows dot_encoder_last
      del: dot_encoder.simps)

interpretation dot_enc: total_xcoder dot_encoder dot_enc "\<lambda>_. True"
proof unfold_locales
  fix st inp osize
  show "xres (dot_encoder st mu_filter_xcode inp osize) \<noteq> mu_filter_failure"
    using dot_encoder_loop_stops[of "[]" osize _ "length inp" st 0 inp, OF _ refl]
    by (auto simp: dot_encoder_xcode simp del: dot_encoder.simps)
qed

section \<open>Round trip\<close>

text \<open>A text whose last line is unfinished comes back with a newline added.\<close>

definition newline_terminated :: "bytes \<Rightarrow> bytes" where
  "newline_terminated cs = (if cs = [] \<or> last cs = LF then cs else cs @ [LF])"

text \<open>What the decoder does with encoded text, in one call with room for one byte more than the
  text: it stops at the dot line and does not count the newline of that line as consumed.\<close>

lemma dot_decoder_loop_enc:
  "(length out + length (if cs \<noteq> [] \<and> last cs = LF then cs else cs @ [LF]) < osize \<longrightarrow>
      dot_decoder_loop osize dot_decode_char i out (dot_enc dot_encode_char cs) =
        x_eof dot_decode_end (i + length (dot_enc dot_encode_char cs) - 1)
          (out @ (if cs \<noteq> [] \<and> last cs = LF then cs else cs @ [LF])))
   \<and> (st \<noteq> dot_encode_char \<longrightarrow> length out + length (newline_terminated cs) < osize \<longrightarrow>
      dot_decoder_loop osize dot_decode_bol i out (dot_enc st cs) =
        x_eof dot_decode_end (i + length (dot_enc st cs) - 1) (out @ newline_terminated cs))"
proof (induction cs arbitrary: st i out)
  case Nil
  then show ?case by (auto simp: newline_terminated_def)
next
  case (Cons c cs)
  show ?case
  proof (cases "c = LF")
    case True
    with Cons[of "out @ [LF]" "Suc i" dot_encode_lf] show ?thesis
      by (auto simp: newline_terminated_def dot_new_encode_state_def Let_def)
  next
    case False
    with Cons[of "out @ [c]" "Suc i" dot_encode_char] Cons[of "out @ [c]" "Suc (Suc i)" dot_encode_char]
    show ?thesis
      by (cases "c = DOT") (auto simp: newline_terminated_def dot_new_encode_state_def Let_def)
  qed
qed

lemma dot_decoder_enc:
  assumes "length (newline_terminated cs) < osize"
  shows "dot_decoder dot_decode_bol mu_filter_lastbuf (dot_enc dot_encode_init cs) osize =
    x_eof dot_decode_end (length (dot_enc dot_encode_init cs) - 1) (newline_terminated cs)"
  using dot_decoder_loop_enc[of "[]" cs osize 0 dot_encode_init] assms by simp

end
