(* ===== verification/Flt_Crlfdot.thy ===== *)
theory Flt_Crlfdot
  imports Xcoder
begin

text \<open>
  The CRLFDOT filter (\<open>libmailutils/filter/crlfdot.c\<close>): LF to CR LF translation, dot-stuffing and
  the terminating line of SMTP and POP3 texts, and the reverse.
\<close>

section \<open>Decoder\<close>

datatype crlfdot_decode_state =
    crlfdot_decode_init | crlfdot_decode_char | crlfdot_decode_cr | crlfdot_decode_crlf
  | crlfdot_decode_dot | crlfdot_decode_dotcr | crlfdot_decode_end

text \<open>\<open>new_decode_state\<close>; the two cases that fall through to the next one end in \<open>char\<close> as well.\<close>

fun crlfdot_new_decode_state :: "crlfdot_decode_state \<Rightarrow> byte \<Rightarrow> crlfdot_decode_state" where
  "crlfdot_new_decode_state crlfdot_decode_init c =
     (if c = CR then crlfdot_decode_cr else if c = DOT then crlfdot_decode_dot else crlfdot_decode_char)"
| "crlfdot_new_decode_state crlfdot_decode_char c =
     (if c = CR then crlfdot_decode_cr else crlfdot_decode_char)"
| "crlfdot_new_decode_state crlfdot_decode_cr c =
     (if c = CR then crlfdot_decode_cr else if c = LF then crlfdot_decode_crlf else crlfdot_decode_char)"
| "crlfdot_new_decode_state crlfdot_decode_crlf c =
     (if c = CR then crlfdot_decode_cr else if c = DOT then crlfdot_decode_dot else crlfdot_decode_char)"
| "crlfdot_new_decode_state crlfdot_decode_dot c =
     (if c = CR then crlfdot_decode_dotcr else crlfdot_decode_char)"
| "crlfdot_new_decode_state crlfdot_decode_dotcr c =
     (if c = LF then crlfdot_decode_end else crlfdot_decode_char)"
| "crlfdot_new_decode_state crlfdot_decode_end c = crlfdot_decode_char"

text \<open>The loop. The look-ahead \<open>*iptr\<close> after a dot is guarded by \<open>i + 2 == isize\<close> only, so a dot
  that is the last byte of the buffer makes it read behind the buffer.\<close>

fun crlfdot_decoder_loop ::
  "nat \<Rightarrow> crlfdot_decode_state \<Rightarrow> nat \<Rightarrow> bytes \<Rightarrow> bytes \<Rightarrow> crlfdot_decode_state xcoded" where
  "crlfdot_decoder_loop osize pstate i out [] = x_ok pstate i out"
| "crlfdot_decoder_loop osize pstate i out (c # iptr) =
     (if pstate = crlfdot_decode_end \<or> \<not> length out < osize then x_ok pstate i out
      else if c = CR then
        (if iptr = [] then x_ok pstate i out
         else let pstate' = crlfdot_new_decode_state pstate c
              in if hd iptr = LF then crlfdot_decoder_loop osize pstate' (Suc i) out iptr
                 else crlfdot_decoder_loop osize pstate' (Suc i) (out @ [c]) iptr)
      else if c = DOT \<and> (pstate = crlfdot_decode_init \<or> pstate = crlfdot_decode_crlf) then
        (if length iptr = 1 then x_ok pstate i out
         else if iptr = [] then x_failure pstate OUT_OF_BOUNDS
         else let pstate' = crlfdot_new_decode_state pstate c
              in if hd iptr \<noteq> CR then crlfdot_decoder_loop osize pstate' (Suc i) out iptr
                 else crlfdot_decoder_loop osize pstate' (Suc i) (out @ [c]) iptr)
      else crlfdot_decoder_loop osize (crlfdot_new_decode_state pstate c) (Suc i) (out @ [c]) iptr)"

text \<open>\<open>j -= 2\<close> on a \<open>size_t\<close>.\<close>

definition size_t_minus :: "nat \<Rightarrow> nat \<Rightarrow> nat" where
  "size_t_minus a b = (if b \<le> a then a - b else a + 2 ^ 64 - b)"

definition crlfdot_decoder_finish :: "crlfdot_decode_state xcoded \<Rightarrow> crlfdot_decode_state xcoded" where
  "crlfdot_decoder_finish r =
     (if xst r = crlfdot_decode_end then
        r\<lparr>xosize := size_t_minus (length (xout r)) 2, xout := take (length (xout r) - 2) (xout r),
          xeof := True\<rparr>
      else r)"

fun crlfdot_decoder :: "crlfdot_decode_state xcoder" where
  "crlfdot_decoder pstate mu_filter_init inp osize = x_quiet crlfdot_decode_init inp osize"
| "crlfdot_decoder pstate mu_filter_done inp osize = x_quiet pstate inp osize"
| "crlfdot_decoder pstate cmd inp osize =
     (let r = crlfdot_decoder_loop osize pstate 0 [] inp
      in if xres r = mu_filter_failure then r else crlfdot_decoder_finish r)"

section \<open>Encoder\<close>

datatype crlfdot_encode_at =
  crlfdot_encode_init | crlfdot_encode_char | crlfdot_encode_cr | crlfdot_encode_lf

record crlfdot_encode_state =
  crlfdot_at :: crlfdot_encode_at
  crlfdot_normalize :: bool

definition crlfdot_new_encode_state :: "crlfdot_encode_state \<Rightarrow> byte \<Rightarrow> crlfdot_encode_state" where
  "crlfdot_new_encode_state state c =
     state\<lparr>crlfdot_at :=
       (if c = CR \<and> crlfdot_normalize state then crlfdot_encode_cr
        else if c = CR \<or> c = LF then crlfdot_encode_lf
        else crlfdot_encode_char)\<rparr>"

fun crlfdot_encoder_loop ::
  "nat \<Rightarrow> nat \<Rightarrow> crlfdot_encode_state \<Rightarrow> nat \<Rightarrow> bytes \<Rightarrow> bytes \<Rightarrow> crlfdot_encode_state xcoded" where
  "crlfdot_encoder_loop isize osize state i out [] = x_ok state i out"
| "crlfdot_encoder_loop isize osize state i out (c # iptr) =
     (if \<not> length out < osize then x_ok state i out
      else if c = LF then
        (if crlfdot_at state = crlfdot_encode_cr then
           crlfdot_encoder_loop isize osize (crlfdot_new_encode_state state c) (Suc i) (out @ [c]) iptr
         else if length out + 1 = osize then
           (if i = 0 then x_moreoutput state isize 2 else x_ok state i out)
         else
           crlfdot_encoder_loop isize osize (crlfdot_new_encode_state state c) (Suc i) (out @ [CR, LF]) iptr)
      else if c = DOT \<and> (crlfdot_at state = crlfdot_encode_init \<or> crlfdot_at state = crlfdot_encode_lf) then
        (if length out + 2 > osize then
           (if i = 0 then x_moreoutput state isize 2 else x_ok state i out)
         else
           crlfdot_encoder_loop isize osize (crlfdot_new_encode_state state c) (Suc i) (out @ [DOT, DOT]) iptr)
      else
        crlfdot_encoder_loop isize osize (crlfdot_new_encode_state state c) (Suc i) (out @ [c]) iptr)"

definition crlfdot_encoder_finish ::
  "filter_command \<Rightarrow> nat \<Rightarrow> crlfdot_encode_state \<Rightarrow> nat \<Rightarrow> bytes \<Rightarrow> crlfdot_encode_state xcoded" where
  "crlfdot_encoder_finish cmd osize state i out =
     (if cmd = mu_filter_lastbuf then
        (if crlfdot_at state = crlfdot_encode_init \<or> crlfdot_at state = crlfdot_encode_lf then
           (if length out + 3 > osize then x_ret mu_filter_again state i out
            else x_ok state i (out @ [DOT, CR, LF]))
         else
           (if length out + 5 > osize then x_ret mu_filter_again state i out
            else x_ok state i (out @ [CR, LF, DOT, CR, LF])))
      else x_ok state i out)"

fun crlfdot_encoder :: "crlfdot_encode_state xcoder" where
  "crlfdot_encoder state mu_filter_init inp osize =
     x_quiet (state\<lparr>crlfdot_at := crlfdot_encode_init\<rparr>) inp osize"
| "crlfdot_encoder state mu_filter_done inp osize = x_quiet state inp osize"
| "crlfdot_encoder state cmd inp osize =
     (let r = crlfdot_encoder_loop (length inp) osize state 0 [] inp
      in if xres r = mu_filter_moreoutput then r
         else crlfdot_encoder_finish cmd osize (xst r) (xisize r) (xout r))"

definition crlfdot_alloc_state :: "string list \<Rightarrow> crlfdot_encode_state" where
  "crlfdot_alloc_state argv =
     \<lparr>crlfdot_at = crlfdot_encode_init,
      crlfdot_normalize = (length argv = 2 \<and> argv ! 1 = ''-n'')\<rparr>"

section \<open>The encoder against its reference\<close>

definition crlfdot_at_bol :: "crlfdot_encode_state \<Rightarrow> bool" where
  "crlfdot_at_bol state \<longleftrightarrow> crlfdot_at state = crlfdot_encode_init \<or> crlfdot_at state = crlfdot_encode_lf"

fun crlfdot_enc :: "crlfdot_encode_state \<Rightarrow> bytes \<Rightarrow> bytes" where
  "crlfdot_enc state [] = (if crlfdot_at_bol state then [] else [CR, LF]) @ [DOT, CR, LF]"
| "crlfdot_enc state (c # cs) =
     (if c = LF then (if crlfdot_at state = crlfdot_encode_cr then [LF] else [CR, LF])
      else if c = DOT \<and> crlfdot_at_bol state then [DOT, DOT] else [c])
     @ crlfdot_enc (crlfdot_new_encode_state state c) cs"

lemma crlfdot_encoder_follows:
  "length out \<le> osize \<Longrightarrow>
   follows crlfdot_enc osize st i out inp (crlfdot_encoder_loop isize osize st i out inp)"
proof (induction isize osize st i out inp rule: crlfdot_encoder_loop.induct)
  case (2 isize osize state i out c iptr)
  then show ?case
    by (auto simp: crlfdot_at_bol_def intro!: follows_step follows_stop follows_moreoutput)
qed (simp add: follows_stop)

lemma crlfdot_encoder_loop_stops:
  "length out \<le> osize \<Longrightarrow> r = crlfdot_encoder_loop isize osize st i out inp \<Longrightarrow>
   xres r = mu_filter_moreoutput \<or>
   xres r = mu_filter_ok \<and> \<not> xeof r \<and>
     (xisize r = i + length inp \<or> length (xout r) + 2 > osize)"
  by (induction isize osize st i out inp arbitrary: r rule: crlfdot_encoder_loop.induct)
    (auto simp: x_defs)

lemma crlfdot_encoder_loop_result:
  "xres (crlfdot_encoder_loop isize osize st i out inp) \<noteq> mu_filter_moreoutput \<Longrightarrow>
   \<exists>st' i' out'. crlfdot_encoder_loop isize osize st i out inp = x_ok st' i' out'"
  by (induction isize osize st i out inp rule: crlfdot_encoder_loop.induct)
    (auto simp: x_moreoutput_def)

lemma crlfdot_encoder_last:
  "finishes crlfdot_enc osize st inp (crlfdot_encoder st mu_filter_lastbuf inp osize)"
proof -
  let ?r = "crlfdot_encoder_loop (length inp) osize st 0 [] inp"
  from crlfdot_encoder_loop_stops[of "[]" osize ?r, OF _ refl]
  consider (more) "xres ?r = mu_filter_moreoutput"
    | (ok) "xres ?r = mu_filter_ok" "\<not> xeof ?r" "xisize ?r = length inp \<or> length (xout ?r) + 2 > osize"
    by auto
  then show ?thesis
  proof cases
    case more
    with crlfdot_encoder_follows[of "[]" osize st 0 inp "length inp"] show ?thesis
      by (simp add: finishes_def follows_def Let_def)
  next
    case ok
    with crlfdot_encoder_follows[of "[]" osize st 0 inp "length inp"]
    have "xisize ?r \<le> length inp" "xosize ?r = length (xout ?r)" "length (xout ?r) \<le> osize"
      "crlfdot_enc st inp = xout ?r @ crlfdot_enc (xst ?r) (drop (xisize ?r) inp)"
      unfolding follows_def by (auto dest: spec[of _ "[]"])
    with ok show ?thesis
      by (auto simp: finishes_def Let_def crlfdot_encoder_finish_def crlfdot_at_bol_def x_defs)
  qed
qed

lemma crlfdot_encoder_xcode:
  "crlfdot_encoder st mu_filter_xcode inp osize = crlfdot_encoder_loop (length inp) osize st 0 [] inp"
  using crlfdot_encoder_loop_result[of "length inp" osize st 0 "[]" inp]
  by (auto simp: Let_def crlfdot_encoder_finish_def x_ret_def)

interpretation crlfdot_enc: full_xcoder crlfdot_encoder crlfdot_enc "\<lambda>_. True"
  by unfold_locales (simp_all add: crlfdot_encoder_xcode crlfdot_encoder_follows crlfdot_encoder_last
      del: crlfdot_encoder.simps)

interpretation crlfdot_enc: total_xcoder crlfdot_encoder crlfdot_enc "\<lambda>_. True"
proof unfold_locales
  fix st inp osize
  show "xres (crlfdot_encoder st mu_filter_xcode inp osize) \<noteq> mu_filter_failure"
    using crlfdot_encoder_loop_stops[of "[]" osize _ "length inp" st 0 inp, OF _ refl]
    by (auto simp: crlfdot_encoder_xcode simp del: crlfdot_encoder.simps)
qed

section \<open>Decoding an encoded text\<close>

text \<open>Each piece the encoder writes takes the decoder loop a fixed way.\<close>

lemma crlfdot_dec_copy:
  "st \<noteq> crlfdot_decode_end \<Longrightarrow> length out < osize \<Longrightarrow> c \<noteq> CR \<Longrightarrow>
   c \<noteq> DOT \<or> st \<noteq> crlfdot_decode_init \<and> st \<noteq> crlfdot_decode_crlf \<Longrightarrow>
   crlfdot_decoder_loop osize st i out (c # cs) =
   crlfdot_decoder_loop osize (crlfdot_new_decode_state st c) (Suc i) (out @ [c]) cs"
  by auto

lemma crlfdot_dec_crlf:
  "st \<in> {crlfdot_decode_init, crlfdot_decode_char, crlfdot_decode_crlf} \<Longrightarrow> length out < osize \<Longrightarrow>
   crlfdot_decoder_loop osize st i out (CR # LF # cs) =
   crlfdot_decoder_loop osize crlfdot_decode_crlf (Suc (Suc i)) (out @ [LF]) cs"
  by auto

lemma crlfdot_dec_dot:
  "st \<in> {crlfdot_decode_init, crlfdot_decode_crlf} \<Longrightarrow> length out < osize \<Longrightarrow> cs \<noteq> [] \<Longrightarrow>
   crlfdot_decoder_loop osize st i out (DOT # DOT # cs) =
   crlfdot_decoder_loop osize crlfdot_decode_char (Suc (Suc i)) (out @ [DOT]) cs"
  by (cases cs) auto

lemma crlfdot_dec_final:
  "st \<in> {crlfdot_decode_init, crlfdot_decode_crlf} \<Longrightarrow> length out + 1 < osize \<Longrightarrow>
   crlfdot_decoder_loop osize st i out [DOT, CR, LF] =
   x_ok crlfdot_decode_end (Suc (Suc (Suc i))) (out @ [DOT, LF])"
  by auto

definition crlfdot_line_end :: "bool \<Rightarrow> bytes \<Rightarrow> bytes" where
  "crlfdot_line_end bol cs = (if (if cs = [] then bol else last cs = LF) then cs else cs @ [LF])"

lemma crlfdot_enc_nonempty: "crlfdot_enc st cs \<noteq> []"
  by (cases cs) auto

lemma crlfdot_dec_enc_loop:
  assumes "CR \<notin> set cs" "length out + length cs + 3 \<le> osize"
    and "if crlfdot_at_bol est then dst \<in> {crlfdot_decode_init, crlfdot_decode_crlf}
         else crlfdot_at est = crlfdot_encode_char \<and> dst = crlfdot_decode_char"
  shows "crlfdot_decoder_loop osize dst i out (crlfdot_enc est cs) =
    x_ok crlfdot_decode_end (i + length (crlfdot_enc est cs))
      (out @ crlfdot_line_end (crlfdot_at_bol est) cs @ [DOT, LF])"
  using assms
proof (induction cs arbitrary: est dst i out)
  case Nil
  show ?case
  proof (cases "crlfdot_at_bol est")
    case True
    with Nil crlfdot_dec_final[of dst out osize i] show ?thesis
      by (simp add: crlfdot_line_end_def del: crlfdot_decoder_loop.simps)
  next
    case False
    with Nil crlfdot_dec_crlf[of dst out osize i "[DOT, CR, LF]"]
      crlfdot_dec_final[of crlfdot_decode_crlf "out @ [LF]" osize "Suc (Suc i)"]
    show ?thesis
      by (simp add: crlfdot_line_end_def del: crlfdot_decoder_loop.simps)
  qed
next
  case (Cons c cs)
  let ?est = "crlfdot_new_encode_state est c"
  have tail: "crlfdot_line_end (crlfdot_at_bol est) (c # cs) =
      c # crlfdot_line_end (c = LF) cs"
    by (simp add: crlfdot_line_end_def)
  consider (lf) "c = LF" | (dot) "c = DOT" "crlfdot_at_bol est"
    | (other) "c \<noteq> LF" "\<not> (c = DOT \<and> crlfdot_at_bol est)" "c \<noteq> CR"
    using Cons.prems(1) by auto
  then show ?case
  proof cases
    case lf
    have bol: "crlfdot_at_bol ?est"
      using lf by (simp add: crlfdot_new_encode_state_def crlfdot_at_bol_def)
    have "crlfdot_at est \<noteq> crlfdot_encode_cr" and
      "dst \<in> {crlfdot_decode_init, crlfdot_decode_char, crlfdot_decode_crlf}"
      using Cons.prems(3) by (auto simp: crlfdot_at_bol_def split: if_splits)
    with lf bol tail Cons.prems(1,2) crlfdot_dec_crlf[of dst out osize i "crlfdot_enc ?est cs"]
      Cons.IH[of "out @ [LF]" ?est crlfdot_decode_crlf "Suc (Suc i)"]
    show ?thesis by (simp del: crlfdot_decoder_loop.simps)
  next
    case dot
    have est: "\<not> crlfdot_at_bol ?est" "crlfdot_at ?est = crlfdot_encode_char"
      using dot by (simp_all add: crlfdot_new_encode_state_def crlfdot_at_bol_def)
    with dot tail Cons.prems crlfdot_enc_nonempty[of ?est cs]
      crlfdot_dec_dot[of dst out osize "crlfdot_enc ?est cs" i]
      Cons.IH[of "out @ [DOT]" ?est crlfdot_decode_char "Suc (Suc i)"]
    show ?thesis by (simp del: crlfdot_decoder_loop.simps)
  next
    case other
    have est: "\<not> crlfdot_at_bol ?est" "crlfdot_at ?est = crlfdot_encode_char"
      using other by (simp_all add: crlfdot_new_encode_state_def crlfdot_at_bol_def)
    have "c \<noteq> DOT \<or> dst \<noteq> crlfdot_decode_init \<and> dst \<noteq> crlfdot_decode_crlf"
      "dst \<noteq> crlfdot_decode_end" "crlfdot_new_decode_state dst c = crlfdot_decode_char
        \<or> c = DOT \<and> dst \<in> {crlfdot_decode_init, crlfdot_decode_crlf}"
      using other Cons.prems(3) by (auto split: if_splits)
    with other est tail Cons.prems
      crlfdot_dec_copy[of dst out osize c i "crlfdot_enc ?est cs"]
      Cons.IH[of "out @ [c]" ?est crlfdot_decode_char "Suc i"]
    show ?thesis by (auto simp del: crlfdot_decoder_loop.simps)
  qed
qed

lemma crlfdot_dec_enc:
  assumes "CR \<notin> set cs" "length cs + 3 \<le> osize" "crlfdot_at est = crlfdot_encode_init"
    and "cmd \<in> {mu_filter_xcode, mu_filter_lastbuf}"
  shows "crlfdot_decoder crlfdot_decode_init cmd (crlfdot_enc est cs) osize =
    x_eof crlfdot_decode_end (length (crlfdot_enc est cs))
      (if cs = [] \<or> last cs = LF then cs else cs @ [LF])"
proof -
  have "crlfdot_at_bol est" using assms(3) by (simp add: crlfdot_at_bol_def)
  with crlfdot_dec_enc_loop[of cs "[]" osize est crlfdot_decode_init 0] assms(1,2,4)
  show ?thesis
    by (auto simp: Let_def crlfdot_decoder_finish_def crlfdot_line_end_def size_t_minus_def x_defs
        simp del: crlfdot_decoder_loop.simps)
qed

end
