(* ===== verification/Ctype.thy ===== *)
theory Ctype
  imports Mu_Prelude
begin

text \<open>
  The locale-independent character classes: the flags of \<open>include/mailutils/cctype.h\<close>, the
  table \<open>mu_c_tab\<close> of \<open>libmailutils/string/muctype.c\<close> entry by entry, the class tests and
  the case conversions. The lemmas give each class as the set of characters it stands for.
\<close>

section \<open>Class flags\<close>

type_synonym ctype_class = "32 word"

abbreviation (input) MU_CTYPE_ALPHA :: ctype_class where "MU_CTYPE_ALPHA \<equiv> 1"
abbreviation (input) MU_CTYPE_DIGIT :: ctype_class where "MU_CTYPE_DIGIT \<equiv> 2"
abbreviation (input) MU_CTYPE_BLANK :: ctype_class where "MU_CTYPE_BLANK \<equiv> 4"
abbreviation (input) MU_CTYPE_CNTRL :: ctype_class where "MU_CTYPE_CNTRL \<equiv> 8"
abbreviation (input) MU_CTYPE_GRAPH :: ctype_class where "MU_CTYPE_GRAPH \<equiv> 16"
abbreviation (input) MU_CTYPE_LOWER :: ctype_class where "MU_CTYPE_LOWER \<equiv> 32"
abbreviation (input) MU_CTYPE_UPPER :: ctype_class where "MU_CTYPE_UPPER \<equiv> 64"
abbreviation (input) MU_CTYPE_PRINT :: ctype_class where "MU_CTYPE_PRINT \<equiv> 128"
abbreviation (input) MU_CTYPE_PUNCT :: ctype_class where "MU_CTYPE_PUNCT \<equiv> 256"
abbreviation (input) MU_CTYPE_SPACE :: ctype_class where "MU_CTYPE_SPACE \<equiv> 512"
abbreviation (input) MU_CTYPE_XLETR :: ctype_class where "MU_CTYPE_XLETR \<equiv> 1024"
abbreviation (input) MU_CTYPE_ENDLN :: ctype_class where "MU_CTYPE_ENDLN \<equiv> 2048"
abbreviation (input) MU_CTYPE_TSPEC :: ctype_class where "MU_CTYPE_TSPEC \<equiv> 4096"
abbreviation (input) MU_CTYPE_IDENT :: ctype_class where "MU_CTYPE_IDENT \<equiv> 8192"
abbreviation (input) MU_CTYPE_HEADR :: ctype_class where "MU_CTYPE_HEADR \<equiv> 16384"
abbreviation (input) MU_CTYPE_IMSPC :: ctype_class where "MU_CTYPE_IMSPC \<equiv> 32768"
abbreviation (input) MU_CTYPE_NWCTL :: ctype_class where "MU_CTYPE_NWCTL \<equiv> 65536"
abbreviation (input) MU_CTYPE_IMATM :: ctype_class where "MU_CTYPE_IMATM \<equiv> 131072"

abbreviation (input) MU_C_TAB_MAX :: nat where "MU_C_TAB_MAX \<equiv> 128"

section \<open>The table\<close>

definition mu_c_tab :: "ctype_class list" where
  "mu_c_tab = [
    MU_CTYPE_CNTRL OR MU_CTYPE_NWCTL,
    MU_CTYPE_CNTRL OR MU_CTYPE_NWCTL,
    MU_CTYPE_CNTRL OR MU_CTYPE_NWCTL,
    MU_CTYPE_CNTRL OR MU_CTYPE_NWCTL,
    MU_CTYPE_CNTRL OR MU_CTYPE_NWCTL,
    MU_CTYPE_CNTRL OR MU_CTYPE_NWCTL,
    MU_CTYPE_CNTRL OR MU_CTYPE_NWCTL,
    MU_CTYPE_CNTRL OR MU_CTYPE_NWCTL,
    MU_CTYPE_CNTRL OR MU_CTYPE_NWCTL,
    MU_CTYPE_CNTRL OR MU_CTYPE_SPACE OR MU_CTYPE_BLANK,
    MU_CTYPE_CNTRL OR MU_CTYPE_SPACE OR MU_CTYPE_ENDLN,
    MU_CTYPE_CNTRL OR MU_CTYPE_SPACE OR MU_CTYPE_NWCTL,
    MU_CTYPE_CNTRL OR MU_CTYPE_SPACE OR MU_CTYPE_NWCTL,
    MU_CTYPE_CNTRL OR MU_CTYPE_SPACE OR MU_CTYPE_ENDLN,
    MU_CTYPE_CNTRL OR MU_CTYPE_NWCTL,
    MU_CTYPE_CNTRL OR MU_CTYPE_NWCTL,
    MU_CTYPE_CNTRL OR MU_CTYPE_NWCTL,
    MU_CTYPE_CNTRL OR MU_CTYPE_NWCTL,
    MU_CTYPE_CNTRL OR MU_CTYPE_NWCTL,
    MU_CTYPE_CNTRL OR MU_CTYPE_NWCTL,
    MU_CTYPE_CNTRL OR MU_CTYPE_NWCTL,
    MU_CTYPE_CNTRL OR MU_CTYPE_NWCTL,
    MU_CTYPE_CNTRL OR MU_CTYPE_NWCTL,
    MU_CTYPE_CNTRL OR MU_CTYPE_NWCTL,
    MU_CTYPE_CNTRL OR MU_CTYPE_NWCTL,
    MU_CTYPE_CNTRL OR MU_CTYPE_NWCTL,
    MU_CTYPE_CNTRL OR MU_CTYPE_NWCTL,
    MU_CTYPE_CNTRL OR MU_CTYPE_NWCTL,
    MU_CTYPE_CNTRL OR MU_CTYPE_NWCTL,
    MU_CTYPE_CNTRL OR MU_CTYPE_NWCTL,
    MU_CTYPE_CNTRL OR MU_CTYPE_NWCTL,
    MU_CTYPE_CNTRL OR MU_CTYPE_NWCTL,
    MU_CTYPE_PRINT OR MU_CTYPE_SPACE OR MU_CTYPE_BLANK,
    MU_CTYPE_GRAPH OR MU_CTYPE_PRINT OR MU_CTYPE_PUNCT OR MU_CTYPE_IMATM,
    MU_CTYPE_GRAPH OR MU_CTYPE_PRINT OR MU_CTYPE_PUNCT OR MU_CTYPE_TSPEC OR MU_CTYPE_IMSPC,
    MU_CTYPE_GRAPH OR MU_CTYPE_PRINT OR MU_CTYPE_PUNCT OR MU_CTYPE_IMATM,
    MU_CTYPE_GRAPH OR MU_CTYPE_PRINT OR MU_CTYPE_PUNCT OR MU_CTYPE_IMATM,
    MU_CTYPE_GRAPH OR MU_CTYPE_PRINT OR MU_CTYPE_PUNCT OR MU_CTYPE_IMATM,
    MU_CTYPE_GRAPH OR MU_CTYPE_PRINT OR MU_CTYPE_PUNCT OR MU_CTYPE_IMATM,
    MU_CTYPE_GRAPH OR MU_CTYPE_PRINT OR MU_CTYPE_PUNCT OR MU_CTYPE_IMATM,
    MU_CTYPE_GRAPH OR MU_CTYPE_PRINT OR MU_CTYPE_PUNCT OR MU_CTYPE_TSPEC OR MU_CTYPE_IMSPC,
    MU_CTYPE_GRAPH OR MU_CTYPE_PRINT OR MU_CTYPE_PUNCT OR MU_CTYPE_TSPEC OR MU_CTYPE_IMSPC,
    MU_CTYPE_GRAPH OR MU_CTYPE_PRINT OR MU_CTYPE_PUNCT OR MU_CTYPE_IMATM,
    MU_CTYPE_GRAPH OR MU_CTYPE_PRINT OR MU_CTYPE_PUNCT OR MU_CTYPE_IMATM,
    MU_CTYPE_GRAPH OR MU_CTYPE_PRINT OR MU_CTYPE_PUNCT OR MU_CTYPE_TSPEC OR MU_CTYPE_IMSPC,
    MU_CTYPE_GRAPH OR MU_CTYPE_PRINT OR MU_CTYPE_PUNCT OR MU_CTYPE_HEADR OR MU_CTYPE_IMATM,
    MU_CTYPE_GRAPH OR MU_CTYPE_PRINT OR MU_CTYPE_PUNCT OR MU_CTYPE_IMSPC,
    MU_CTYPE_GRAPH OR MU_CTYPE_PRINT OR MU_CTYPE_PUNCT OR MU_CTYPE_TSPEC OR MU_CTYPE_IMATM,
    MU_CTYPE_DIGIT OR MU_CTYPE_GRAPH OR MU_CTYPE_PRINT OR MU_CTYPE_IDENT OR MU_CTYPE_HEADR OR MU_CTYPE_IMATM,
    MU_CTYPE_DIGIT OR MU_CTYPE_GRAPH OR MU_CTYPE_PRINT OR MU_CTYPE_IDENT OR MU_CTYPE_HEADR OR MU_CTYPE_IMATM,
    MU_CTYPE_DIGIT OR MU_CTYPE_GRAPH OR MU_CTYPE_PRINT OR MU_CTYPE_IDENT OR MU_CTYPE_HEADR OR MU_CTYPE_IMATM,
    MU_CTYPE_DIGIT OR MU_CTYPE_GRAPH OR MU_CTYPE_PRINT OR MU_CTYPE_IDENT OR MU_CTYPE_HEADR OR MU_CTYPE_IMATM,
    MU_CTYPE_DIGIT OR MU_CTYPE_GRAPH OR MU_CTYPE_PRINT OR MU_CTYPE_IDENT OR MU_CTYPE_HEADR OR MU_CTYPE_IMATM,
    MU_CTYPE_DIGIT OR MU_CTYPE_GRAPH OR MU_CTYPE_PRINT OR MU_CTYPE_IDENT OR MU_CTYPE_HEADR OR MU_CTYPE_IMATM,
    MU_CTYPE_DIGIT OR MU_CTYPE_GRAPH OR MU_CTYPE_PRINT OR MU_CTYPE_IDENT OR MU_CTYPE_HEADR OR MU_CTYPE_IMATM,
    MU_CTYPE_DIGIT OR MU_CTYPE_GRAPH OR MU_CTYPE_PRINT OR MU_CTYPE_IDENT OR MU_CTYPE_HEADR OR MU_CTYPE_IMATM,
    MU_CTYPE_DIGIT OR MU_CTYPE_GRAPH OR MU_CTYPE_PRINT OR MU_CTYPE_IDENT OR MU_CTYPE_HEADR OR MU_CTYPE_IMATM,
    MU_CTYPE_DIGIT OR MU_CTYPE_GRAPH OR MU_CTYPE_PRINT OR MU_CTYPE_IDENT OR MU_CTYPE_HEADR OR MU_CTYPE_IMATM,
    MU_CTYPE_GRAPH OR MU_CTYPE_PRINT OR MU_CTYPE_PUNCT OR MU_CTYPE_TSPEC OR MU_CTYPE_IMSPC,
    MU_CTYPE_GRAPH OR MU_CTYPE_PRINT OR MU_CTYPE_PUNCT OR MU_CTYPE_TSPEC OR MU_CTYPE_IMSPC,
    MU_CTYPE_GRAPH OR MU_CTYPE_PRINT OR MU_CTYPE_PUNCT OR MU_CTYPE_TSPEC OR MU_CTYPE_IMSPC,
    MU_CTYPE_GRAPH OR MU_CTYPE_PRINT OR MU_CTYPE_PUNCT OR MU_CTYPE_TSPEC OR MU_CTYPE_IMATM,
    MU_CTYPE_GRAPH OR MU_CTYPE_PRINT OR MU_CTYPE_PUNCT OR MU_CTYPE_TSPEC OR MU_CTYPE_IMSPC,
    MU_CTYPE_GRAPH OR MU_CTYPE_PRINT OR MU_CTYPE_PUNCT OR MU_CTYPE_TSPEC OR MU_CTYPE_IMATM,
    MU_CTYPE_GRAPH OR MU_CTYPE_PRINT OR MU_CTYPE_PUNCT OR MU_CTYPE_TSPEC OR MU_CTYPE_IMSPC,
    MU_CTYPE_ALPHA OR MU_CTYPE_GRAPH OR MU_CTYPE_PRINT OR MU_CTYPE_UPPER OR MU_CTYPE_XLETR OR MU_CTYPE_IDENT OR MU_CTYPE_HEADR OR MU_CTYPE_IMATM,
    MU_CTYPE_ALPHA OR MU_CTYPE_GRAPH OR MU_CTYPE_PRINT OR MU_CTYPE_UPPER OR MU_CTYPE_XLETR OR MU_CTYPE_IDENT OR MU_CTYPE_HEADR OR MU_CTYPE_IMATM,
    MU_CTYPE_ALPHA OR MU_CTYPE_GRAPH OR MU_CTYPE_PRINT OR MU_CTYPE_UPPER OR MU_CTYPE_XLETR OR MU_CTYPE_IDENT OR MU_CTYPE_HEADR OR MU_CTYPE_IMATM,
    MU_CTYPE_ALPHA OR MU_CTYPE_GRAPH OR MU_CTYPE_PRINT OR MU_CTYPE_UPPER OR MU_CTYPE_XLETR OR MU_CTYPE_IDENT OR MU_CTYPE_HEADR OR MU_CTYPE_IMATM,
    MU_CTYPE_ALPHA OR MU_CTYPE_GRAPH OR MU_CTYPE_PRINT OR MU_CTYPE_UPPER OR MU_CTYPE_XLETR OR MU_CTYPE_IDENT OR MU_CTYPE_HEADR OR MU_CTYPE_IMATM,
    MU_CTYPE_ALPHA OR MU_CTYPE_GRAPH OR MU_CTYPE_PRINT OR MU_CTYPE_UPPER OR MU_CTYPE_XLETR OR MU_CTYPE_IDENT OR MU_CTYPE_HEADR OR MU_CTYPE_IMATM,
    MU_CTYPE_ALPHA OR MU_CTYPE_GRAPH OR MU_CTYPE_PRINT OR MU_CTYPE_UPPER OR MU_CTYPE_IDENT OR MU_CTYPE_HEADR OR MU_CTYPE_IMATM,
    MU_CTYPE_ALPHA OR MU_CTYPE_GRAPH OR MU_CTYPE_PRINT OR MU_CTYPE_UPPER OR MU_CTYPE_IDENT OR MU_CTYPE_HEADR OR MU_CTYPE_IMATM,
    MU_CTYPE_ALPHA OR MU_CTYPE_GRAPH OR MU_CTYPE_PRINT OR MU_CTYPE_UPPER OR MU_CTYPE_IDENT OR MU_CTYPE_HEADR OR MU_CTYPE_IMATM,
    MU_CTYPE_ALPHA OR MU_CTYPE_GRAPH OR MU_CTYPE_PRINT OR MU_CTYPE_UPPER OR MU_CTYPE_IDENT OR MU_CTYPE_HEADR OR MU_CTYPE_IMATM,
    MU_CTYPE_ALPHA OR MU_CTYPE_GRAPH OR MU_CTYPE_PRINT OR MU_CTYPE_UPPER OR MU_CTYPE_IDENT OR MU_CTYPE_HEADR OR MU_CTYPE_IMATM,
    MU_CTYPE_ALPHA OR MU_CTYPE_GRAPH OR MU_CTYPE_PRINT OR MU_CTYPE_UPPER OR MU_CTYPE_IDENT OR MU_CTYPE_HEADR OR MU_CTYPE_IMATM,
    MU_CTYPE_ALPHA OR MU_CTYPE_GRAPH OR MU_CTYPE_PRINT OR MU_CTYPE_UPPER OR MU_CTYPE_IDENT OR MU_CTYPE_HEADR OR MU_CTYPE_IMATM,
    MU_CTYPE_ALPHA OR MU_CTYPE_GRAPH OR MU_CTYPE_PRINT OR MU_CTYPE_UPPER OR MU_CTYPE_IDENT OR MU_CTYPE_HEADR OR MU_CTYPE_IMATM,
    MU_CTYPE_ALPHA OR MU_CTYPE_GRAPH OR MU_CTYPE_PRINT OR MU_CTYPE_UPPER OR MU_CTYPE_IDENT OR MU_CTYPE_HEADR OR MU_CTYPE_IMATM,
    MU_CTYPE_ALPHA OR MU_CTYPE_GRAPH OR MU_CTYPE_PRINT OR MU_CTYPE_UPPER OR MU_CTYPE_IDENT OR MU_CTYPE_HEADR OR MU_CTYPE_IMATM,
    MU_CTYPE_ALPHA OR MU_CTYPE_GRAPH OR MU_CTYPE_PRINT OR MU_CTYPE_UPPER OR MU_CTYPE_IDENT OR MU_CTYPE_HEADR OR MU_CTYPE_IMATM,
    MU_CTYPE_ALPHA OR MU_CTYPE_GRAPH OR MU_CTYPE_PRINT OR MU_CTYPE_UPPER OR MU_CTYPE_IDENT OR MU_CTYPE_HEADR OR MU_CTYPE_IMATM,
    MU_CTYPE_ALPHA OR MU_CTYPE_GRAPH OR MU_CTYPE_PRINT OR MU_CTYPE_UPPER OR MU_CTYPE_IDENT OR MU_CTYPE_HEADR OR MU_CTYPE_IMATM,
    MU_CTYPE_ALPHA OR MU_CTYPE_GRAPH OR MU_CTYPE_PRINT OR MU_CTYPE_UPPER OR MU_CTYPE_IDENT OR MU_CTYPE_HEADR OR MU_CTYPE_IMATM,
    MU_CTYPE_ALPHA OR MU_CTYPE_GRAPH OR MU_CTYPE_PRINT OR MU_CTYPE_UPPER OR MU_CTYPE_IDENT OR MU_CTYPE_HEADR OR MU_CTYPE_IMATM,
    MU_CTYPE_ALPHA OR MU_CTYPE_GRAPH OR MU_CTYPE_PRINT OR MU_CTYPE_UPPER OR MU_CTYPE_IDENT OR MU_CTYPE_HEADR OR MU_CTYPE_IMATM,
    MU_CTYPE_ALPHA OR MU_CTYPE_GRAPH OR MU_CTYPE_PRINT OR MU_CTYPE_UPPER OR MU_CTYPE_IDENT OR MU_CTYPE_HEADR OR MU_CTYPE_IMATM,
    MU_CTYPE_ALPHA OR MU_CTYPE_GRAPH OR MU_CTYPE_PRINT OR MU_CTYPE_UPPER OR MU_CTYPE_IDENT OR MU_CTYPE_HEADR OR MU_CTYPE_IMATM,
    MU_CTYPE_ALPHA OR MU_CTYPE_GRAPH OR MU_CTYPE_PRINT OR MU_CTYPE_UPPER OR MU_CTYPE_IDENT OR MU_CTYPE_HEADR OR MU_CTYPE_IMATM,
    MU_CTYPE_ALPHA OR MU_CTYPE_GRAPH OR MU_CTYPE_PRINT OR MU_CTYPE_UPPER OR MU_CTYPE_IDENT OR MU_CTYPE_HEADR OR MU_CTYPE_IMATM,
    MU_CTYPE_GRAPH OR MU_CTYPE_PRINT OR MU_CTYPE_PUNCT OR MU_CTYPE_TSPEC OR MU_CTYPE_IMSPC,
    MU_CTYPE_GRAPH OR MU_CTYPE_PRINT OR MU_CTYPE_PUNCT OR MU_CTYPE_TSPEC OR MU_CTYPE_IMSPC,
    MU_CTYPE_GRAPH OR MU_CTYPE_PRINT OR MU_CTYPE_PUNCT OR MU_CTYPE_TSPEC OR MU_CTYPE_IMSPC,
    MU_CTYPE_GRAPH OR MU_CTYPE_PRINT OR MU_CTYPE_PUNCT OR MU_CTYPE_IMATM,
    MU_CTYPE_GRAPH OR MU_CTYPE_PRINT OR MU_CTYPE_PUNCT OR MU_CTYPE_HEADR OR MU_CTYPE_IDENT OR MU_CTYPE_IMATM,
    MU_CTYPE_GRAPH OR MU_CTYPE_PRINT OR MU_CTYPE_PUNCT OR MU_CTYPE_IMATM,
    MU_CTYPE_ALPHA OR MU_CTYPE_GRAPH OR MU_CTYPE_LOWER OR MU_CTYPE_PRINT OR MU_CTYPE_XLETR OR MU_CTYPE_IDENT OR MU_CTYPE_HEADR OR MU_CTYPE_IMATM,
    MU_CTYPE_ALPHA OR MU_CTYPE_GRAPH OR MU_CTYPE_LOWER OR MU_CTYPE_PRINT OR MU_CTYPE_XLETR OR MU_CTYPE_IDENT OR MU_CTYPE_HEADR OR MU_CTYPE_IMATM,
    MU_CTYPE_ALPHA OR MU_CTYPE_GRAPH OR MU_CTYPE_LOWER OR MU_CTYPE_PRINT OR MU_CTYPE_XLETR OR MU_CTYPE_IDENT OR MU_CTYPE_HEADR OR MU_CTYPE_IMATM,
    MU_CTYPE_ALPHA OR MU_CTYPE_GRAPH OR MU_CTYPE_LOWER OR MU_CTYPE_PRINT OR MU_CTYPE_XLETR OR MU_CTYPE_IDENT OR MU_CTYPE_HEADR OR MU_CTYPE_IMATM,
    MU_CTYPE_ALPHA OR MU_CTYPE_GRAPH OR MU_CTYPE_LOWER OR MU_CTYPE_PRINT OR MU_CTYPE_XLETR OR MU_CTYPE_IDENT OR MU_CTYPE_HEADR OR MU_CTYPE_IMATM,
    MU_CTYPE_ALPHA OR MU_CTYPE_GRAPH OR MU_CTYPE_LOWER OR MU_CTYPE_PRINT OR MU_CTYPE_XLETR OR MU_CTYPE_IDENT OR MU_CTYPE_HEADR OR MU_CTYPE_IMATM,
    MU_CTYPE_ALPHA OR MU_CTYPE_GRAPH OR MU_CTYPE_LOWER OR MU_CTYPE_PRINT OR MU_CTYPE_IDENT OR MU_CTYPE_HEADR OR MU_CTYPE_IMATM,
    MU_CTYPE_ALPHA OR MU_CTYPE_GRAPH OR MU_CTYPE_LOWER OR MU_CTYPE_PRINT OR MU_CTYPE_IDENT OR MU_CTYPE_HEADR OR MU_CTYPE_IMATM,
    MU_CTYPE_ALPHA OR MU_CTYPE_GRAPH OR MU_CTYPE_LOWER OR MU_CTYPE_PRINT OR MU_CTYPE_IDENT OR MU_CTYPE_HEADR OR MU_CTYPE_IMATM,
    MU_CTYPE_ALPHA OR MU_CTYPE_GRAPH OR MU_CTYPE_LOWER OR MU_CTYPE_PRINT OR MU_CTYPE_IDENT OR MU_CTYPE_HEADR OR MU_CTYPE_IMATM,
    MU_CTYPE_ALPHA OR MU_CTYPE_GRAPH OR MU_CTYPE_LOWER OR MU_CTYPE_PRINT OR MU_CTYPE_IDENT OR MU_CTYPE_HEADR OR MU_CTYPE_IMATM,
    MU_CTYPE_ALPHA OR MU_CTYPE_GRAPH OR MU_CTYPE_LOWER OR MU_CTYPE_PRINT OR MU_CTYPE_IDENT OR MU_CTYPE_HEADR OR MU_CTYPE_IMATM,
    MU_CTYPE_ALPHA OR MU_CTYPE_GRAPH OR MU_CTYPE_LOWER OR MU_CTYPE_PRINT OR MU_CTYPE_IDENT OR MU_CTYPE_HEADR OR MU_CTYPE_IMATM,
    MU_CTYPE_ALPHA OR MU_CTYPE_GRAPH OR MU_CTYPE_LOWER OR MU_CTYPE_PRINT OR MU_CTYPE_IDENT OR MU_CTYPE_HEADR OR MU_CTYPE_IMATM,
    MU_CTYPE_ALPHA OR MU_CTYPE_GRAPH OR MU_CTYPE_LOWER OR MU_CTYPE_PRINT OR MU_CTYPE_IDENT OR MU_CTYPE_HEADR OR MU_CTYPE_IMATM,
    MU_CTYPE_ALPHA OR MU_CTYPE_GRAPH OR MU_CTYPE_LOWER OR MU_CTYPE_PRINT OR MU_CTYPE_IDENT OR MU_CTYPE_HEADR OR MU_CTYPE_IMATM,
    MU_CTYPE_ALPHA OR MU_CTYPE_GRAPH OR MU_CTYPE_LOWER OR MU_CTYPE_PRINT OR MU_CTYPE_IDENT OR MU_CTYPE_HEADR OR MU_CTYPE_IMATM,
    MU_CTYPE_ALPHA OR MU_CTYPE_GRAPH OR MU_CTYPE_LOWER OR MU_CTYPE_PRINT OR MU_CTYPE_IDENT OR MU_CTYPE_HEADR OR MU_CTYPE_IMATM,
    MU_CTYPE_ALPHA OR MU_CTYPE_GRAPH OR MU_CTYPE_LOWER OR MU_CTYPE_PRINT OR MU_CTYPE_IDENT OR MU_CTYPE_HEADR OR MU_CTYPE_IMATM,
    MU_CTYPE_ALPHA OR MU_CTYPE_GRAPH OR MU_CTYPE_LOWER OR MU_CTYPE_PRINT OR MU_CTYPE_IDENT OR MU_CTYPE_HEADR OR MU_CTYPE_IMATM,
    MU_CTYPE_ALPHA OR MU_CTYPE_GRAPH OR MU_CTYPE_LOWER OR MU_CTYPE_PRINT OR MU_CTYPE_IDENT OR MU_CTYPE_HEADR OR MU_CTYPE_IMATM,
    MU_CTYPE_ALPHA OR MU_CTYPE_GRAPH OR MU_CTYPE_LOWER OR MU_CTYPE_PRINT OR MU_CTYPE_IDENT OR MU_CTYPE_HEADR OR MU_CTYPE_IMATM,
    MU_CTYPE_ALPHA OR MU_CTYPE_GRAPH OR MU_CTYPE_LOWER OR MU_CTYPE_PRINT OR MU_CTYPE_IDENT OR MU_CTYPE_HEADR OR MU_CTYPE_IMATM,
    MU_CTYPE_ALPHA OR MU_CTYPE_GRAPH OR MU_CTYPE_LOWER OR MU_CTYPE_PRINT OR MU_CTYPE_IDENT OR MU_CTYPE_HEADR OR MU_CTYPE_IMATM,
    MU_CTYPE_ALPHA OR MU_CTYPE_GRAPH OR MU_CTYPE_LOWER OR MU_CTYPE_PRINT OR MU_CTYPE_IDENT OR MU_CTYPE_HEADR OR MU_CTYPE_IMATM,
    MU_CTYPE_ALPHA OR MU_CTYPE_GRAPH OR MU_CTYPE_LOWER OR MU_CTYPE_PRINT OR MU_CTYPE_IDENT OR MU_CTYPE_HEADR OR MU_CTYPE_IMATM,
    MU_CTYPE_GRAPH OR MU_CTYPE_PRINT OR MU_CTYPE_PUNCT OR MU_CTYPE_IMATM,
    MU_CTYPE_GRAPH OR MU_CTYPE_PRINT OR MU_CTYPE_PUNCT OR MU_CTYPE_IMATM,
    MU_CTYPE_GRAPH OR MU_CTYPE_PRINT OR MU_CTYPE_PUNCT OR MU_CTYPE_IMATM,
    MU_CTYPE_GRAPH OR MU_CTYPE_PRINT OR MU_CTYPE_PUNCT OR MU_CTYPE_IMATM,
    MU_CTYPE_CNTRL OR MU_CTYPE_NWCTL]"

definition mu_c_is_class :: "byte \<Rightarrow> ctype_class \<Rightarrow> bool" where
  "mu_c_is_class c cls \<longleftrightarrow> unat c < 128 \<and> mu_c_tab ! unat c AND cls \<noteq> 0"

definition mu_isalpha :: "byte \<Rightarrow> bool" where "mu_isalpha c = mu_c_is_class c MU_CTYPE_ALPHA"
definition mu_iscntrl :: "byte \<Rightarrow> bool" where "mu_iscntrl c = mu_c_is_class c MU_CTYPE_CNTRL"
definition mu_isdigit :: "byte \<Rightarrow> bool" where "mu_isdigit c = mu_c_is_class c MU_CTYPE_DIGIT"
definition mu_isgraph :: "byte \<Rightarrow> bool" where "mu_isgraph c = mu_c_is_class c MU_CTYPE_GRAPH"
definition mu_islower :: "byte \<Rightarrow> bool" where "mu_islower c = mu_c_is_class c MU_CTYPE_LOWER"
definition mu_isprint :: "byte \<Rightarrow> bool" where "mu_isprint c = mu_c_is_class c MU_CTYPE_PRINT"
definition mu_ispunct :: "byte \<Rightarrow> bool" where "mu_ispunct c = mu_c_is_class c MU_CTYPE_PUNCT"
definition mu_isspace :: "byte \<Rightarrow> bool" where "mu_isspace c = mu_c_is_class c MU_CTYPE_SPACE"
definition mu_isupper :: "byte \<Rightarrow> bool" where "mu_isupper c = mu_c_is_class c MU_CTYPE_UPPER"
definition mu_isxdigit :: "byte \<Rightarrow> bool" where
  "mu_isxdigit c = mu_c_is_class c (MU_CTYPE_DIGIT OR MU_CTYPE_XLETR)"
definition mu_isalnum :: "byte \<Rightarrow> bool" where
  "mu_isalnum c = mu_c_is_class c (MU_CTYPE_ALPHA OR MU_CTYPE_DIGIT)"
definition mu_isblank :: "byte \<Rightarrow> bool" where "mu_isblank c = mu_c_is_class c MU_CTYPE_BLANK"
definition mu_isendln :: "byte \<Rightarrow> bool" where "mu_isendln c = mu_c_is_class c MU_CTYPE_ENDLN"
definition mu_istspec :: "byte \<Rightarrow> bool" where "mu_istspec c = mu_c_is_class c MU_CTYPE_TSPEC"
definition mu_isident :: "byte \<Rightarrow> bool" where "mu_isident c = mu_c_is_class c MU_CTYPE_IDENT"
definition mu_isheadr :: "byte \<Rightarrow> bool" where "mu_isheadr c = mu_c_is_class c MU_CTYPE_HEADR"
definition mu_isimspc :: "byte \<Rightarrow> bool" where "mu_isimspc c = mu_c_is_class c MU_CTYPE_IMSPC"
definition mu_isnwctl :: "byte \<Rightarrow> bool" where "mu_isnwctl c = mu_c_is_class c MU_CTYPE_NWCTL"
definition mu_isimatm :: "byte \<Rightarrow> bool" where "mu_isimatm c = mu_c_is_class c MU_CTYPE_IMATM"

section \<open>Case conversion\<close>

definition mu_tolower :: "byte \<Rightarrow> byte" where
  "mu_tolower c = (if 65 \<le> c \<and> c \<le> 90 then c - 65 + 97 else c)"

definition mu_toupper :: "byte \<Rightarrow> byte" where
  "mu_toupper c = (if 97 \<le> c \<and> c \<le> 122 then c - 97 + 65 else c)"

section \<open>The classes as sets\<close>

lemma length_mu_c_tab: "length mu_c_tab = MU_C_TAB_MAX"
  by (simp add: mu_c_tab_def)

text \<open>The bytes, as two lists of numerals: a class is checked against its set in one pass over
  the table.\<close>

definition low_bytes :: "byte list" where
  "low_bytes = [
    0, 1, 2, 3, 4, 5, 6, 7, 8, 9, 10, 11, 12, 13, 14, 15, 16, 17, 18, 19, 20, 21, 22, 23,
    24, 25, 26, 27, 28, 29, 30, 31, 32, 33, 34, 35, 36, 37, 38, 39, 40, 41, 42, 43, 44,
    45, 46, 47, 48, 49, 50, 51, 52, 53, 54, 55, 56, 57, 58, 59, 60, 61, 62, 63, 64, 65,
    66, 67, 68, 69, 70, 71, 72, 73, 74, 75, 76, 77, 78, 79, 80, 81, 82, 83, 84, 85, 86,
    87, 88, 89, 90, 91, 92, 93, 94, 95, 96, 97, 98, 99, 100, 101, 102, 103, 104, 105, 106,
    107, 108, 109, 110, 111, 112, 113, 114, 115, 116, 117, 118, 119, 120, 121, 122, 123,
    124, 125, 126, 127]"

definition high_bytes :: "byte list" where
  "high_bytes = [
    128, 129, 130, 131, 132, 133, 134, 135, 136, 137, 138, 139, 140, 141, 142, 143, 144,
    145, 146, 147, 148, 149, 150, 151, 152, 153, 154, 155, 156, 157, 158, 159, 160, 161,
    162, 163, 164, 165, 166, 167, 168, 169, 170, 171, 172, 173, 174, 175, 176, 177, 178,
    179, 180, 181, 182, 183, 184, 185, 186, 187, 188, 189, 190, 191, 192, 193, 194, 195,
    196, 197, 198, 199, 200, 201, 202, 203, 204, 205, 206, 207, 208, 209, 210, 211, 212,
    213, 214, 215, 216, 217, 218, 219, 220, 221, 222, 223, 224, 225, 226, 227, 228, 229,
    230, 231, 232, 233, 234, 235, 236, 237, 238, 239, 240, 241, 242, 243, 244, 245, 246,
    247, 248, 249, 250, 251, 252, 253, 254, 255]"

lemma low_bytes_upt: "low_bytes = map of_nat [0..<128]"
  by (simp add: low_bytes_def upt_conv_Cons)

lemma high_bytes_upt: "high_bytes = map of_nat [128..<256]"
  by (simp add: high_bytes_def upt_rec_numeral)

lemma low_bytes_nth: "unat c < 128 \<Longrightarrow> low_bytes ! unat c = c"
  by (simp add: low_bytes_upt)

lemma high_bytes_mem: "\<not> unat c < 128 \<Longrightarrow> c \<in> set high_bytes"
proof -
  assume "\<not> unat c < 128"
  then have "unat c \<in> set [128..<256]"
    using unsigned_less[of c, where ?'a = nat] by (simp only: set_upt) simp
  then have "of_nat (unat c) \<in> set high_bytes"
    unfolding high_bytes_upt set_map by (rule imageI)
  then show ?thesis by simp
qed

lemma class_tableI:
  assumes "list_all2 (\<lambda>e c. (e AND cls \<noteq> 0) = Q c) mu_c_tab low_bytes"
    and "list_all (\<lambda>c. \<not> Q c) high_bytes"
  shows "mu_c_is_class c cls \<longleftrightarrow> Q c"
proof (cases "unat c < 128")
  case True
  with list_all2_nthD[OF assms(1), of "unat c"] show ?thesis
    by (simp add: mu_c_is_class_def low_bytes_nth length_mu_c_tab)
next
  case False
  with assms(2) high_bytes_mem[of c] show ?thesis
    by (auto simp: mu_c_is_class_def list_all_iff)
qed

lemma mu_isdigit_iff: "mu_isdigit c \<longleftrightarrow> 48 \<le> c \<and> c \<le> 57"
  unfolding mu_isdigit_def by (rule class_tableI) code_simp+

lemma mu_isupper_iff: "mu_isupper c \<longleftrightarrow> 65 \<le> c \<and> c \<le> 90"
  unfolding mu_isupper_def by (rule class_tableI) code_simp+

lemma mu_islower_iff: "mu_islower c \<longleftrightarrow> 97 \<le> c \<and> c \<le> 122"
  unfolding mu_islower_def by (rule class_tableI) code_simp+

lemma mu_isalpha_iff: "mu_isalpha c \<longleftrightarrow> 65 \<le> c \<and> c \<le> 90 \<or> 97 \<le> c \<and> c \<le> 122"
  unfolding mu_isalpha_def by (rule class_tableI) code_simp+

lemma mu_isalnum_iff: "mu_isalnum c \<longleftrightarrow> 48 \<le> c \<and> c \<le> 57 \<or> 65 \<le> c \<and> c \<le> 90 \<or> 97 \<le> c \<and> c \<le> 122"
  unfolding mu_isalnum_def by (rule class_tableI) code_simp+

lemma mu_iscntrl_iff: "mu_iscntrl c \<longleftrightarrow> c < 32 \<or> c = 127"
  unfolding mu_iscntrl_def by (rule class_tableI) code_simp+

lemma mu_isgraph_iff: "mu_isgraph c \<longleftrightarrow> 32 < c \<and> c < 127"
  unfolding mu_isgraph_def by (rule class_tableI) code_simp+

lemma mu_isprint_iff: "mu_isprint c \<longleftrightarrow> 32 \<le> c \<and> c < 127"
  unfolding mu_isprint_def by (rule class_tableI) code_simp+

lemma mu_ispunct_iff: "mu_ispunct c \<longleftrightarrow> 32 < c \<and> c < 127 \<and> \<not> (48 \<le> c \<and> c \<le> 57 \<or> 65 \<le> c \<and> c \<le> 90 \<or> 97 \<le> c \<and> c \<le> 122)"
  unfolding mu_ispunct_def by (rule class_tableI) code_simp+

lemma mu_isspace_iff: "mu_isspace c \<longleftrightarrow> 9 \<le> c \<and> c \<le> 13 \<or> c = SPC"
  unfolding mu_isspace_def by (rule class_tableI) code_simp+

lemma mu_isblank_iff: "mu_isblank c \<longleftrightarrow> c = TAB \<or> c = SPC"
  unfolding mu_isblank_def by (rule class_tableI) code_simp+

lemma mu_isendln_iff: "mu_isendln c \<longleftrightarrow> c = LF \<or> c = CR"
  unfolding mu_isendln_def by (rule class_tableI) code_simp+

lemma mu_isxdigit_iff: "mu_isxdigit c \<longleftrightarrow> 48 \<le> c \<and> c \<le> 57 \<or> 65 \<le> c \<and> c \<le> 70 \<or> 97 \<le> c \<and> c \<le> 102"
  unfolding mu_isxdigit_def by (rule class_tableI) code_simp+

lemma mu_isident_iff: "mu_isident c \<longleftrightarrow> 48 \<le> c \<and> c \<le> 57 \<or> 65 \<le> c \<and> c \<le> 90 \<or> 97 \<le> c \<and> c \<le> 122 \<or> c = USCORE"
  unfolding mu_isident_def by (rule class_tableI) code_simp+

lemma mu_isheadr_iff: "mu_isheadr c \<longleftrightarrow> 48 \<le> c \<and> c \<le> 57 \<or> 65 \<le> c \<and> c \<le> 90 \<or> 97 \<le> c \<and> c \<le> 122 \<or> c = USCORE \<or> c = 45"
  unfolding mu_isheadr_def by (rule class_tableI) code_simp+

lemmas ctype_iffs =
  mu_isdigit_iff mu_isupper_iff mu_islower_iff mu_isalpha_iff mu_isalnum_iff mu_iscntrl_iff
  mu_isgraph_iff mu_isprint_iff mu_isspace_iff mu_isblank_iff mu_isendln_iff mu_isxdigit_iff

text \<open>The classes of RFC 2045 and RFC 2822, against the character sets the RFCs give.\<close>

definition rfc2045_tspecials :: bytes where
  "rfc2045_tspecials = bytes_of ''()<>@,;:/[]?='' @ [DQUOTE, BSLASH]"

definition rfc2822_specials :: bytes where
  "rfc2822_specials = bytes_of ''()<>[]:;@,.'' @ [DQUOTE, BSLASH]"

definition mem_byte :: "byte \<Rightarrow> bytes \<Rightarrow> bool" where
  "mem_byte c cs = list_ex (\<lambda>d. d = c) cs"

lemma mem_byte_set: "mem_byte c cs \<longleftrightarrow> c \<in> set cs"
  by (auto simp: mem_byte_def list_ex_iff)

lemma mu_istspec_iff: "mu_istspec c \<longleftrightarrow> c \<in> set rfc2045_tspecials"
  unfolding mu_istspec_def mem_byte_set[symmetric] by (rule class_tableI) code_simp+

lemma mu_isimspc_iff: "mu_isimspc c \<longleftrightarrow> c \<in> set rfc2822_specials"
  unfolding mu_isimspc_def mem_byte_set[symmetric] by (rule class_tableI) code_simp+

lemma mu_isnwctl_iff:
  "mu_isnwctl c \<longleftrightarrow> (c < 32 \<or> c = 127) \<and> c \<noteq> TAB \<and> c \<noteq> LF \<and> c \<noteq> CR"
  unfolding mu_isnwctl_def by (rule class_tableI) code_simp+

lemma mu_isimatm_iff:
  "mu_isimatm c \<longleftrightarrow> 32 < c \<and> c < 127 \<and> c \<notin> set rfc2822_specials"
  unfolding mu_isimatm_def mem_byte_set[symmetric] by (rule class_tableI) code_simp+

section \<open>Case conversion facts\<close>

text \<open>A statement over all bytes is one over the two lists.\<close>

lemma all_bytesI:
  assumes "list_all P low_bytes" "list_all P high_bytes"
  shows "P c"
proof (cases "unat c < 128")
  case True
  then have "c \<in> set low_bytes"
    by (metis low_bytes_nth length_map length_upt low_bytes_upt minus_nat.diff_0 nth_mem)
  with assms(1) show ?thesis by (simp add: list_all_iff)
next
  case False
  with assms(2) high_bytes_mem[of c] show ?thesis by (simp add: list_all_iff)
qed

lemma mu_tolower_toupper: "mu_tolower (mu_toupper c) = mu_tolower c"
  by (rule all_bytesI[of "\<lambda>c. mu_tolower (mu_toupper c) = mu_tolower c"]) code_simp+

lemma mu_toupper_tolower: "mu_toupper (mu_tolower c) = mu_toupper c"
  by (rule all_bytesI[of "\<lambda>c. mu_toupper (mu_tolower c) = mu_toupper c"]) code_simp+

lemma mu_tolower_NUL [simp]: "mu_tolower c = 0 \<longleftrightarrow> c = 0"
  by (rule all_bytesI[of "\<lambda>c. mu_tolower c = 0 \<longleftrightarrow> c = 0"]) code_simp+

lemma mu_toupper_NUL [simp]: "mu_toupper c = 0 \<longleftrightarrow> c = 0"
  by (rule all_bytesI[of "\<lambda>c. mu_toupper c = 0 \<longleftrightarrow> c = 0"]) code_simp+

lemma mu_tolower_idem [simp]: "mu_tolower (mu_tolower c) = mu_tolower c"
  by (metis mu_tolower_toupper mu_toupper_tolower)

end
