(* ===== verification/C_String.thy ===== *)
theory C_String
  imports Ctype "HOL-Library.Sublist"
begin

text \<open>
  What the functions on C strings share: the search for a character, and the step over UTF-8
  sequences that \<open>libmailutils/string/strcount.c\<close> and \<open>safefilename.c\<close> have in common.
\<close>

abbreviation (input) SLASH :: byte where "SLASH \<equiv> 47"

text \<open>How many bytes are skipped after the byte \<open>c\<close>, which is at least \<open>0xc0\<close>.\<close>

definition utf8_consume :: "byte \<Rightarrow> nat" where
  "utf8_consume c =
     (if c AND 0xc0 \<noteq> 0 then 1 else if c AND 0xe0 \<noteq> 0 then 2 else if c AND 0xf0 \<noteq> 0 then 3 else 0)"

text \<open>Each first byte of a longer sequence is taken for the first of two.\<close>

lemma utf8_consume_1 [simp]: "0xc0 \<le> c \<Longrightarrow> utf8_consume c = 1"
proof (rule ccontr)
  assume c: "0xc0 \<le> c" and "utf8_consume c \<noteq> 1"
  then have "c AND 0xc0 = 0" by (auto simp: utf8_consume_def split: if_splits)
  moreover have "(c AND 0xc0) OR (c AND NOT 0xc0) = c"
    by (simp only: bit.conj_disj_distrib[symmetric] bit.disj_cancel_right bit.conj_one_right)
  ultimately have "c AND NOT 0xc0 = c" by simp
  moreover have "c AND NOT 0xc0 \<le> NOT 0xc0" by (rule word_and_le1)
  ultimately have "0xc0 \<le> (NOT 0xc0 :: byte)" using c by (metis order.trans)
  then show False by (simp add: word_le_nat_alt)
qed

section \<open>Finding a character\<close>

text \<open>\<open>strchr\<close>, with the index for the pointer; the final NUL is found as well.\<close>

fun strchr :: "bytes \<Rightarrow> byte \<Rightarrow> nat option" where
  "strchr [] c = (if c = NUL then Some 0 else None)"
| "strchr (b # s) c = (if b = c then Some 0 else map_option Suc (strchr s c))"

lemma strchr_None: "strchr s c = None \<longleftrightarrow> c \<noteq> NUL \<and> c \<notin> set s"
  by (induction s) auto

lemma strchr_Some: "strchr s c = Some i \<Longrightarrow> c \<noteq> NUL \<Longrightarrow> i < length s \<and> s ! i = c"
  by (induction s arbitrary: i) (auto split: if_splits)

lemma strchr_nth: "distinct s \<Longrightarrow> i < length s \<Longrightarrow> strchr s (s ! i) = Some i"
  by (induction s arbitrary: i) (auto simp: nth_Cons' less_Suc_eq_0_disj)

section \<open>Comparing without regard to case\<close>

text \<open>The difference of the first characters that differ but for case; characters are signed.\<close>

fun mu_c_strcasecmp :: "bytes \<Rightarrow> bytes \<Rightarrow> int" where
  "mu_c_strcasecmp [] [] = 0"
| "mu_c_strcasecmp [] (b # bs) = - sint b"
| "mu_c_strcasecmp (a # as) [] = sint a"
| "mu_c_strcasecmp (a # as) (b # bs) =
     (let d = (if unat a < 128 \<and> unat b < 128 then uint (mu_toupper a) - uint (mu_toupper b)
               else sint a - sint b)
      in if d = 0 then mu_c_strcasecmp as bs else d)"

text \<open>The same for at most \<open>n\<close> characters.\<close>

fun mu_c_strncasecmp :: "bytes \<Rightarrow> bytes \<Rightarrow> nat \<Rightarrow> int" where
  "mu_c_strncasecmp as bs 0 = 0"
| "mu_c_strncasecmp [] [] (Suc n) = 0"
| "mu_c_strncasecmp [] (b # bs) (Suc n) = - sint b"
| "mu_c_strncasecmp (a # as) [] (Suc n) = sint a"
| "mu_c_strncasecmp (a # as) (b # bs) (Suc n) =
     (let d = (if unat a < 128 \<and> unat b < 128 then uint (mu_toupper a) - uint (mu_toupper b)
               else sint a - sint b)
      in if d = 0 then mu_c_strncasecmp as bs n else d)"

lemma case_bytes:
  "128 \<le> unat c \<longrightarrow> mu_tolower c = c" "unat c < 128 \<longleftrightarrow> unat (mu_tolower c) < 128"
  by (rule all_bytesI[of "\<lambda>c. 128 \<le> unat c \<longrightarrow> mu_tolower c = c"]; code_simp)
    (rule all_bytesI[of "\<lambda>c. unat c < 128 \<longleftrightarrow> unat (mu_tolower c) < 128"]; code_simp)

lemma tolower_iff_toupper: "mu_tolower a = mu_tolower b \<longleftrightarrow> mu_toupper a = mu_toupper b"
  by (metis mu_tolower_toupper mu_toupper_tolower)

lemma sint_eq_iff: "sint (a :: byte) = sint b \<longleftrightarrow> a = b"
proof
  assume "sint a = sint b"
  then have "word_of_int (sint a) = (word_of_int (sint b) :: byte)" by simp
  then show "a = b" by simp
qed simp

lemma sint_zero_iff: "sint (c :: byte) = 0 \<longleftrightarrow> c = 0"
  using sint_eq_iff[of c 0] by simp

lemma strcasecmp_char:
  "(if unat a < 128 \<and> unat b < 128 then uint (mu_toupper a) - uint (mu_toupper b) else sint a - sint b) = 0
   \<longleftrightarrow> mu_tolower a = mu_tolower b"
proof (cases "unat a < 128 \<and> unat b < 128")
  case True
  then show ?thesis
    using word_uint_eq_iff[of "mu_toupper a" "mu_toupper b"] by (simp add: tolower_iff_toupper)
next
  case False
  have "sint a = sint b \<longleftrightarrow> a = b" by (rule sint_eq_iff)
  moreover have "mu_tolower a = mu_tolower b \<longrightarrow> a = b"
    using False case_bytes[of a] case_bytes[of b] by (metis not_le)
  ultimately show ?thesis using False by auto
qed

lemma mu_c_strcasecmp_eq:
  assumes "0 \<notin> set x" "0 \<notin> set y"
  shows "mu_c_strcasecmp x y = 0 \<longleftrightarrow> map mu_tolower x = map mu_tolower y"
  using assms
proof (induction x y rule: mu_c_strcasecmp.induct)
  case (4 a as b bs)
  then show ?case
    using strcasecmp_char[of a b] by (auto simp: Let_def simp del: list.set_intros)
qed (auto simp: sint_zero_iff)

lemma mu_c_strncasecmp_take: "mu_c_strncasecmp as bs n = mu_c_strcasecmp (take n as) (take n bs)"
  by (induction as bs n rule: mu_c_strncasecmp.induct) (auto simp: Let_def)

end
