(* ===== verification/Flt_Escape.thy ===== *)
theory Flt_Escape
  imports Xcoder C_String
begin

text \<open>
  The escaping filters: \<open>dq\<close> (\<open>libmailutils/filter/dq.c\<close>, backslash before a quote or a
  backslash), \<open>C-escape\<close> (\<open>c-escape.c\<close>, C escapes for control characters, over the
  translation table of \<open>libmailutils/wordsplit/wordsplit.c\<close>) and \<open>percent\<close> (\<open>percent.c\<close>,
  percent encoding of a set of characters).
\<close>

section \<open>The escape table of wordsplit\<close>

definition wordsplit_c_escape_tab :: bytes where
  "wordsplit_c_escape_tab =
     [BSLASH, BSLASH, DQUOTE, DQUOTE, 97, 7, 98, 8, 102, 12, 110, 10, 114, 13, 116, 9, 118, 11]"

text \<open>Both searches walk the table in pairs and answer 0 when the character is not in it.\<close>

fun wsplt_unquote_char :: "bytes \<Rightarrow> byte \<Rightarrow> int" where
  "wsplt_unquote_char (a # b # transtab) c = (if a = c then uint b else wsplt_unquote_char transtab c)"
| "wsplt_unquote_char transtab c = 0"

fun wsplt_quote_char :: "bytes \<Rightarrow> byte \<Rightarrow> int" where
  "wsplt_quote_char (a # b # transtab) c = (if b = c then uint a else wsplt_quote_char transtab c)"
| "wsplt_quote_char transtab c = 0"

definition wordsplit_c_unquote_char :: "byte \<Rightarrow> int" where
  "wordsplit_c_unquote_char c = wsplt_unquote_char wordsplit_c_escape_tab c"

definition wordsplit_c_quote_char :: "byte \<Rightarrow> int" where
  "wordsplit_c_quote_char c = wsplt_quote_char wordsplit_c_escape_tab c"

section \<open>The dq filter\<close>

definition dq_special :: bytes where
  "dq_special = [BSLASH, DQUOTE]"

fun dq_encoder_loop :: "nat \<Rightarrow> nat \<Rightarrow> nat \<Rightarrow> bytes \<Rightarrow> bytes \<Rightarrow> unit xcoded" where
  "dq_encoder_loop isize osize i out [] = x_ok () i out"
| "dq_encoder_loop isize osize i out (c # iptr) =
     (if \<not> length out < osize then x_ok () i out
      else if strchr dq_special c \<noteq> None then
        (if length out + 1 = osize then
           (if i = 0 then x_moreoutput () isize 2 else x_ok () i out)
         else dq_encoder_loop isize osize (Suc i) (out @ [BSLASH, c]) iptr)
      else dq_encoder_loop isize osize (Suc i) (out @ [c]) iptr)"

fun dq_encoder :: "unit xcoder" where
  "dq_encoder xd mu_filter_init inp osize = x_quiet xd inp osize"
| "dq_encoder xd mu_filter_done inp osize = x_quiet xd inp osize"
| "dq_encoder xd cmd inp osize = dq_encoder_loop (length inp) osize 0 [] inp"

text \<open>
  In the decoder the second byte of an escape is read with \<open>*iptr++\<close> while \<open>i\<close> is not
  advanced for it, so \<open>iptr\<close> (the list) may run past the buffer with \<open>i < isize\<close> still true.
\<close>

function dq_decoder_loop :: "nat \<Rightarrow> nat \<Rightarrow> nat \<Rightarrow> bytes \<Rightarrow> bytes \<Rightarrow> unit xcoded" where
  "dq_decoder_loop isize osize i out iptr =
     (if \<not> (i < isize \<and> length out < osize) then x_ok () i out
      else case iptr of
        [] \<Rightarrow> x_failure () OUT_OF_BOUNDS
      | c # iptr' \<Rightarrow>
          if c = BSLASH then
            if i + 1 = isize then x_ok () i out
            else (case iptr' of
                    [] \<Rightarrow> x_failure () OUT_OF_BOUNDS
                  | d # iptr'' \<Rightarrow> dq_decoder_loop isize osize (Suc i) (out @ [d]) iptr'')
          else dq_decoder_loop isize osize (Suc i) (out @ [c]) iptr')"
  by pat_completeness auto
termination by (relation "measure (\<lambda>(isize, osize, i, out, iptr). isize - i)") auto

declare dq_decoder_loop.simps [simp del]

fun dq_decoder :: "unit xcoder" where
  "dq_decoder xd mu_filter_init inp osize = x_quiet xd inp osize"
| "dq_decoder xd mu_filter_done inp osize = x_quiet xd inp osize"
| "dq_decoder xd cmd inp osize = dq_decoder_loop (length inp) osize 0 [] inp"

section \<open>The C-escape filter\<close>

fun c_escape_encoder_loop :: "nat \<Rightarrow> nat \<Rightarrow> nat \<Rightarrow> bytes \<Rightarrow> bytes \<Rightarrow> unit xcoded" where
  "c_escape_encoder_loop isize osize i out [] = x_ok () i out"
| "c_escape_encoder_loop isize osize i out (c # iptr) =
     (if \<not> length out < osize then x_ok () i out
      else if mu_iscntrl c then
        (let x = wordsplit_c_quote_char c in
         if x = -1 then c_escape_encoder_loop isize osize (Suc i) (out @ [c]) iptr
         else if length out + 1 = osize then
           (if i = 0 then x_moreoutput () isize 2 else x_ok () i out)
         else c_escape_encoder_loop isize osize (Suc i) (out @ [BSLASH, word_of_int x]) iptr)
      else c_escape_encoder_loop isize osize (Suc i) (out @ [c]) iptr)"

fun c_escape_encoder :: "unit xcoder" where
  "c_escape_encoder xd mu_filter_init inp osize = x_quiet xd inp osize"
| "c_escape_encoder xd mu_filter_done inp osize = x_quiet xd inp osize"
| "c_escape_encoder xd cmd inp osize = c_escape_encoder_loop (length inp) osize 0 [] inp"

fun c_escape_decoder_loop :: "nat \<Rightarrow> nat \<Rightarrow> bytes \<Rightarrow> bytes \<Rightarrow> unit xcoded" where
  "c_escape_decoder_loop osize i out [] = x_ok () i out"
| "c_escape_decoder_loop osize i out [c] =
     (if \<not> length out < osize then x_ok () i out
      else if c = BSLASH then x_ok () i out
      else c_escape_decoder_loop osize (Suc i) (out @ [c]) [])"
| "c_escape_decoder_loop osize i out (c # d # iptr) =
     (if \<not> length out < osize then x_ok () i out
      else if c = BSLASH then
        (let x = wordsplit_c_unquote_char d in
         c_escape_decoder_loop osize (i + 2) (out @ [if x = -1 then d else word_of_int x]) iptr)
      else c_escape_decoder_loop osize (Suc i) (out @ [c]) (d # iptr))"

fun c_escape_decoder :: "unit xcoder" where
  "c_escape_decoder xd mu_filter_init inp osize = x_quiet xd inp osize"
| "c_escape_decoder xd mu_filter_done inp osize = x_quiet xd inp osize"
| "c_escape_decoder xd cmd inp osize = c_escape_decoder_loop osize 0 [] inp"

section \<open>The percent filter\<close>

definition xchar :: bytes where
  "xchar = bytes_of ''0123456789ABCDEF''"

definition percent_triple :: "byte \<Rightarrow> bytes" where
  "percent_triple c =
     [PERCENT, xchar ! unat (drop_bit 4 c AND 0xf), xchar ! unat (c AND 0xf)]"

fun percent_encoder_loop :: "bytes \<Rightarrow> nat \<Rightarrow> nat \<Rightarrow> nat \<Rightarrow> bytes \<Rightarrow> bytes \<Rightarrow> bytes xcoded" where
  "percent_encoder_loop escape_chars isize osize i out [] = x_ok escape_chars i out"
| "percent_encoder_loop escape_chars isize osize i out (c # iptr) =
     (if \<not> length out < osize then x_ok escape_chars i out
      else if c = 0 \<or> strchr escape_chars c \<noteq> None then
        (if length out + 3 \<ge> osize then
           (if i = 0 then x_moreoutput escape_chars isize 3 else x_ok escape_chars i out)
         else percent_encoder_loop escape_chars isize osize (Suc i) (out @ percent_triple c) iptr)
      else percent_encoder_loop escape_chars isize osize (Suc i) (out @ [c]) iptr)"

fun percent_encoder :: "bytes xcoder" where
  "percent_encoder xd mu_filter_init inp osize = x_quiet xd inp osize"
| "percent_encoder xd mu_filter_done inp osize = x_quiet xd inp osize"
| "percent_encoder xd cmd inp osize = percent_encoder_loop xd (length inp) osize 0 [] inp"

text \<open>The digit values come from \<open>strchr\<close>, so a NUL counts as the digit 16; the sum is
  stored in a \<open>char\<close>.\<close>

definition percent_value :: "byte \<Rightarrow> byte \<Rightarrow> byte option" where
  "percent_value a b =
     (case (strchr xchar (mu_toupper a), strchr xchar (mu_toupper b)) of
        (Some hi, Some lo) \<Rightarrow> Some (of_nat (hi * 16 + lo))
      | _ \<Rightarrow> None)"

function percent_decoder_loop :: "nat \<Rightarrow> nat \<Rightarrow> bytes \<Rightarrow> bytes \<Rightarrow> unit xcoded" where
  "percent_decoder_loop osize i out inp =
     (if \<not> (i < length inp \<and> length out < osize) then x_ok () i out
      else if inp ! i = PERCENT then
        (if i + 3 \<ge> length inp then x_ok () (Suc i) out
         else (case percent_value (inp ! Suc i) (inp ! (i + 2)) of
                 Some x \<Rightarrow> percent_decoder_loop osize (i + 3) (out @ [x]) inp
               | None \<Rightarrow> percent_decoder_loop osize (Suc i) (out @ [PERCENT]) inp))
      else percent_decoder_loop osize (Suc i) (out @ [inp ! i]) inp)"
  by pat_completeness auto
termination by (relation "measure (\<lambda>(osize, i, out, inp). length inp - i)") auto

declare percent_decoder_loop.simps [simp del]

fun percent_decoder :: "unit xcoder" where
  "percent_decoder xd mu_filter_init inp osize = x_quiet xd inp osize"
| "percent_decoder xd mu_filter_done inp osize = x_quiet xd inp osize"
| "percent_decoder xd cmd inp osize = percent_decoder_loop osize 0 [] inp"

text \<open>\<open>percent_alloc\<close>: the escape set of the encoder is the arguments after the filter name
  joined together, or every character of 1..255 that is a percent sign, a quote or not graphic.\<close>

definition percent_alloc :: "bytes list \<Rightarrow> bytes" where
  "percent_alloc argv =
     (if 1 < length argv then concat (tl argv)
      else filter (\<lambda>c. c = PERCENT \<or> c = DQUOTE \<or> \<not> mu_isgraph c) (map of_nat [1..<256]))"

section \<open>What the encoders owe\<close>

definition dq_quote :: "byte \<Rightarrow> bytes" where
  "dq_quote c = (if c = BSLASH \<or> c = DQUOTE \<or> c = NUL then [BSLASH, c] else [c])"

definition dq_enc :: "unit \<Rightarrow> bytes \<Rightarrow> bytes" where
  "dq_enc _ cs = concat (map dq_quote cs)"

definition c_escape_quote :: "byte \<Rightarrow> bytes" where
  "c_escape_quote c =
     (if mu_iscntrl c then [BSLASH, word_of_int (wordsplit_c_quote_char c)] else [c])"

definition c_escape_enc :: "unit \<Rightarrow> bytes \<Rightarrow> bytes" where
  "c_escape_enc _ cs = concat (map c_escape_quote cs)"

definition percent_quote :: "bytes \<Rightarrow> byte \<Rightarrow> bytes" where
  "percent_quote e c = (if c = NUL \<or> c \<in> set e then percent_triple c else [c])"

definition percent_enc :: "bytes \<Rightarrow> bytes \<Rightarrow> bytes" where
  "percent_enc e cs = concat (map (percent_quote e) cs)"

lemma enc_Cons:
  "dq_enc u (c # cs) = dq_quote c @ dq_enc u cs"
  "c_escape_enc u (c # cs) = c_escape_quote c @ c_escape_enc u cs"
  "percent_enc e (c # cs) = percent_quote e c @ percent_enc e cs"
  by (simp_all add: dq_enc_def c_escape_enc_def percent_enc_def)

lemma enc_Nil:
  "dq_enc u [] = []" "c_escape_enc u [] = []" "percent_enc e [] = []"
  by (simp_all add: dq_enc_def c_escape_enc_def percent_enc_def)

lemma strchr_dq: "strchr dq_special c = None \<longleftrightarrow> \<not> (c = BSLASH \<or> c = DQUOTE \<or> c = NUL)"
  by (auto simp: strchr_None dq_special_def)

lemma quote_char_nonneg: "0 \<le> wsplt_quote_char tab c" "0 \<le> wsplt_unquote_char tab c"
proof -
  show "0 \<le> wsplt_quote_char tab c" by (induction tab c rule: wsplt_quote_char.induct) auto
  show "0 \<le> wsplt_unquote_char tab c" by (induction tab c rule: wsplt_unquote_char.induct) auto
qed

lemma quote_char_found:
  "wordsplit_c_quote_char c \<noteq> -1" "wordsplit_c_unquote_char c \<noteq> -1"
  using quote_char_nonneg[of wordsplit_c_escape_tab c]
  by (auto simp: wordsplit_c_quote_char_def wordsplit_c_unquote_char_def)

lemma length_percent_triple [simp]: "length (percent_triple c) = 3"
  by (simp add: percent_triple_def)

lemma dq_encoder_follows:
  "length out \<le> osize \<Longrightarrow>
   follows dq_enc osize () i out inp (dq_encoder_loop isize osize i out inp)"
proof (induction isize osize i out inp rule: dq_encoder_loop.induct)
  case (2 isize osize i out c iptr)
  then show ?case
    by (auto simp: enc_Cons dq_quote_def strchr_dq
        intro!: follows_step follows_stop follows_moreoutput)
qed (simp add: follows_stop)

lemma c_escape_encoder_follows:
  "length out \<le> osize \<Longrightarrow>
   follows c_escape_enc osize () i out inp (c_escape_encoder_loop isize osize i out inp)"
proof (induction isize osize i out inp rule: c_escape_encoder_loop.induct)
  case (2 isize osize i out c iptr)
  then show ?case
    by (auto simp: enc_Cons c_escape_quote_def quote_char_found Let_def
        intro!: follows_step follows_stop follows_moreoutput)
qed (simp add: follows_stop)

lemma percent_encoder_follows:
  "length out \<le> osize \<Longrightarrow>
   follows percent_enc osize e i out inp (percent_encoder_loop e isize osize i out inp)"
proof (induction e isize osize i out inp rule: percent_encoder_loop.induct)
  case (2 e isize osize i out c iptr)
  then show ?case
    by (auto simp: enc_Cons percent_quote_def strchr_None
        intro!: follows_step follows_stop follows_moreoutput)
qed (simp add: follows_stop)

lemma dq_encoder_no_failure:
  "xres (dq_encoder_loop isize osize i out inp) \<noteq> mu_filter_failure"
  by (induction isize osize i out inp rule: dq_encoder_loop.induct) (auto simp: x_defs)

lemma c_escape_encoder_no_failure:
  "xres (c_escape_encoder_loop isize osize i out inp) \<noteq> mu_filter_failure"
proof (induction isize osize i out inp rule: c_escape_encoder_loop.induct)
  case (2 isize osize i out c iptr)
  then show ?case by (simp add: Let_def x_defs)
qed (simp add: x_defs)

lemma percent_encoder_no_failure:
  "xres (percent_encoder_loop e isize osize i out inp) \<noteq> mu_filter_failure"
  by (induction e isize osize i out inp rule: percent_encoder_loop.induct) (auto simp: x_defs)

lemmas escape_encoders_no_failure =
  dq_encoder_no_failure c_escape_encoder_no_failure percent_encoder_no_failure

interpretation dq_enc: plain_xcoder dq_encoder dq_enc "\<lambda>_. True"
  by unfold_locales (simp_all add: dq_encoder_follows fun_eq_iff enc_Nil)

interpretation dq_enc: total_xcoder dq_encoder dq_enc "\<lambda>_. True"
  by unfold_locales (simp add: escape_encoders_no_failure)

interpretation c_escape_enc: plain_xcoder c_escape_encoder c_escape_enc "\<lambda>_. True"
  by unfold_locales (simp_all add: c_escape_encoder_follows fun_eq_iff enc_Nil)

interpretation c_escape_enc: total_xcoder c_escape_encoder c_escape_enc "\<lambda>_. True"
  by unfold_locales (simp add: escape_encoders_no_failure)

interpretation percent_enc: plain_xcoder percent_encoder percent_enc "\<lambda>_. True"
  by unfold_locales (simp_all add: percent_encoder_follows fun_eq_iff enc_Nil)

interpretation percent_enc: total_xcoder percent_encoder percent_enc "\<lambda>_. True"
  by unfold_locales (simp add: escape_encoders_no_failure)

section \<open>The decoders\<close>

text \<open>The C-escape decoder follows a reference that keeps back a lone trailing backslash.\<close>

fun c_escape_dec :: "bytes \<Rightarrow> bytes" where
  "c_escape_dec [] = []"
| "c_escape_dec [c] = (if c = BSLASH then [] else [c])"
| "c_escape_dec (c # d # cs) =
     (if c = BSLASH then word_of_int (wordsplit_c_unquote_char d) # c_escape_dec cs
      else c # c_escape_dec (d # cs))"

lemma c_escape_dec_other: "c \<noteq> BSLASH \<Longrightarrow> c_escape_dec (c # cs) = c # c_escape_dec cs"
  by (cases cs) auto

lemma c_escape_decoder_follows:
  "length out \<le> osize \<Longrightarrow>
   follows (\<lambda>_. c_escape_dec) osize () i out inp (c_escape_decoder_loop osize i out inp)"
proof (induction osize i out inp rule: c_escape_decoder_loop.induct)
  case (2 osize i out c)
  then show ?case
    by (auto simp: c_escape_dec_other simp del: c_escape_decoder_loop.simps(1)
        intro!: follows_step follows_stop)
next
  case (3 osize i out c d iptr)
  show ?case
  proof (cases "length out < osize \<and> c = BSLASH")
    case True
    let ?w = "[word_of_int (wordsplit_c_unquote_char d)] :: bytes"
    from True 3 have "follows (\<lambda>_. c_escape_dec) osize () (i + 2) (out @ ?w) iptr
        (c_escape_decoder_loop osize (i + 2) (out @ ?w) iptr)"
      by (simp add: quote_char_found)
    from follows_steps[OF this, of "c # d # iptr"] True show ?thesis
      by (simp add: quote_char_found)
  next
    case False
    show ?thesis
    proof (cases "length out < osize")
      case True
      with False 3 show ?thesis
        by (auto simp: c_escape_dec_other
            intro: follows_step[where st' = "()" and w = "[c]"])
    qed (simp add: follows_stop)
  qed
qed (simp add: follows_stop)

lemma c_escape_decoder_no_failure:
  "xres (c_escape_decoder_loop osize i out inp) \<noteq> mu_filter_failure"
proof (induction osize i out inp rule: c_escape_decoder_loop.induct)
  case (3 osize i out c d iptr)
  then show ?case by (simp add: Let_def x_defs)
qed (auto simp: x_defs)

interpretation c_escape_dec: plain_xcoder c_escape_decoder "\<lambda>_. c_escape_dec" "\<lambda>_. True"
  by unfold_locales (simp_all add: c_escape_decoder_follows fun_eq_iff)

interpretation c_escape_dec: total_xcoder c_escape_decoder "\<lambda>_. c_escape_dec" "\<lambda>_. True"
  by unfold_locales (simp add: c_escape_decoder_no_failure)

text \<open>The round trip: the encoder leaves the backslash alone and writes a NUL for a control
  character that has no escape, so the text must have neither.\<close>

definition c_escapable :: "byte \<Rightarrow> bool" where
  "c_escapable c \<longleftrightarrow> c \<noteq> BSLASH \<and> (mu_iscntrl c \<longrightarrow> 7 \<le> c \<and> c \<le> 13)"

lemma c_unquote_quote:
  "c_escapable c \<Longrightarrow> mu_iscntrl c \<Longrightarrow>
   word_of_int (wordsplit_c_unquote_char (word_of_int (wordsplit_c_quote_char c))) = c"
proof -
  have "7 \<le> c \<and> c \<le> 13 \<longrightarrow>
     word_of_int (wordsplit_c_unquote_char (word_of_int (wordsplit_c_quote_char c))) = c"
    by (rule all_bytesI[of "\<lambda>c. 7 \<le> c \<and> c \<le> 13 \<longrightarrow>
     word_of_int (wordsplit_c_unquote_char (word_of_int (wordsplit_c_quote_char c))) = c"]) code_simp+
  then show "c_escapable c \<Longrightarrow> mu_iscntrl c \<Longrightarrow> ?thesis" by (simp add: c_escapable_def)
qed

lemma c_escape_dec_enc:
  "\<forall>c \<in> set cs. c_escapable c \<Longrightarrow> c_escape_dec (c_escape_enc u cs) = cs"
proof (induction cs)
  case (Cons c cs)
  then have "c_escapable c" by simp
  with Cons show ?case
    by (auto simp: enc_Cons c_escape_quote_def c_unquote_quote c_escape_dec_other c_escapable_def)
qed (simp add: enc_Nil)

text \<open>The dq decoder never gets past an escape it has room for: the index lags behind the
  pointer and the loop reads beyond the buffer.\<close>

lemma dq_decoder_overrun:
  assumes "i + length iptr < isize" "length out + length iptr < osize"
  shows "dq_decoder_loop isize osize i out iptr = x_failure () OUT_OF_BOUNDS"
  using assms
proof (induction isize osize i out iptr rule: dq_decoder_loop.induct)
  case (1 isize osize i out iptr)
  then show ?case
    by (subst dq_decoder_loop.simps) (auto split: list.split)
qed

lemma dq_decoder_plain:
  assumes "BSLASH \<notin> set pre" "i + length pre < isize" "length out + length pre < osize"
  shows "dq_decoder_loop isize osize i out (pre @ iptr) =
    dq_decoder_loop isize osize (i + length pre) (out @ pre) iptr"
  using assms
proof (induction pre arbitrary: i out)
  case (Cons c pre)
  then have "dq_decoder_loop isize osize i out ((c # pre) @ iptr) =
      dq_decoder_loop isize osize (Suc i) (out @ [c]) (pre @ iptr)"
    by (subst dq_decoder_loop.simps) auto
  with Cons show ?case by simp
qed simp

lemma dq_decoder_escape:
  assumes "BSLASH \<notin> set pre" "length pre + length post + 1 < osize"
  shows "dq_decoder_loop (length (pre @ BSLASH # c # post)) osize 0 [] (pre @ BSLASH # c # post) =
    x_failure () OUT_OF_BOUNDS"
proof -
  let ?n = "length (pre @ BSLASH # c # post)"
  have "dq_decoder_loop ?n osize 0 [] (pre @ BSLASH # c # post) =
      dq_decoder_loop ?n osize (length pre) pre (BSLASH # c # post)"
    using dq_decoder_plain[of pre 0 ?n "[]" osize] assms by simp
  also have "\<dots> = dq_decoder_loop ?n osize (Suc (length pre)) (pre @ [c]) post"
    using assms by (subst dq_decoder_loop.simps) auto
  also have "\<dots> = x_failure () OUT_OF_BOUNDS"
    using assms by (intro dq_decoder_overrun) auto
  finally show ?thesis .
qed

section \<open>Percent decoding\<close>

lemma nth_xchar:
  "k < 16 \<Longrightarrow> strchr xchar (mu_toupper (xchar ! k)) = Some k"
proof -
  have "list_all (\<lambda>k. strchr xchar (mu_toupper (xchar ! k)) = Some k) [0..<16]" by code_simp
  then show "k < 16 \<Longrightarrow> ?thesis" by (simp add: list_all_iff)
qed

lemma nibbles:
  fixes c :: byte
  shows "unat (drop_bit 4 c AND 0xf) < 16" "unat (c AND 0xf) < 16"
    "of_nat (unat (drop_bit 4 c AND 0xf) * 16 + unat (c AND 0xf)) = c"
proof -
  have lt: "unat (x AND 0xf) < 16" for x :: byte
  proof -
    have "x AND 0xf \<le> 0xf" by (rule word_and_le1)
    then have "unat (x AND 0xf) \<le> unat (0xf :: byte)" by (simp add: word_le_nat_alt)
    then show ?thesis by simp
  qed
  show "unat (drop_bit 4 c AND 0xf) < 16" "unat (c AND 0xf) < 16" by (rule lt)+
  have "drop_bit 4 c AND 0xf = drop_bit 4 c"
    by (rule all_bytesI[of "\<lambda>c. drop_bit 4 c AND 0xf = drop_bit 4 c"]) code_simp+
  moreover have "drop_bit 4 c * 16 + (c AND 0xf) = c"
    by (rule all_bytesI[of "\<lambda>c. drop_bit 4 c * 16 + (c AND 0xf) = c"]) code_simp+
  ultimately show "of_nat (unat (drop_bit 4 c AND 0xf) * 16 + unat (c AND 0xf)) = c"
    by simp
qed

lemma percent_value_triple:
  "percent_value (percent_triple c ! 1) (percent_triple c ! 2) = Some c"
  using nibbles[of c] by (simp add: percent_triple_def percent_value_def nth_xchar)

text \<open>Text that ends in an unescaped byte comes back from the encoder's output in one buffer.\<close>

lemma percent_decoder_enc:
  assumes "PERCENT \<in> set e" "c \<noteq> NUL" "c \<notin> set e"
    and "length out + length s < osize"
  shows "percent_decoder_loop osize (length pre) out (pre @ percent_enc e s @ [c]) =
    x_ok () (length (pre @ percent_enc e s @ [c])) (out @ s @ [c])"
  using assms(4)
proof (induction s arbitrary: pre out)
  case Nil
  have "c \<noteq> PERCENT" using assms by auto
  with Nil show ?case
    by (subst percent_decoder_loop.simps) (simp add: enc_Nil percent_decoder_loop.simps[of _ "Suc _"])
next
  case (Cons x s)
  note IH = Cons.IH[of "out @ [x]" "pre @ percent_quote e x"]
  show ?case
  proof (cases "x = NUL \<or> x \<in> set e")
    case True
    have "percent_decoder_loop osize (length pre) out (pre @ percent_enc e (x # s) @ [c]) =
       percent_decoder_loop osize (length pre + 3) (out @ [x]) (pre @ percent_enc e (x # s) @ [c])"
      using True Cons.prems percent_value_triple[of x]
      by (subst percent_decoder_loop.simps)
        (simp add: enc_Cons percent_quote_def nth_append percent_triple_def)
    with IH Cons.prems True show ?thesis by (simp add: enc_Cons percent_quote_def)
  next
    case False
    then have "x \<noteq> PERCENT" using assms(1) by auto
    with False Cons.prems
    have "percent_decoder_loop osize (length pre) out (pre @ percent_enc e (x # s) @ [c]) =
       percent_decoder_loop osize (Suc (length pre)) (out @ [x]) (pre @ percent_enc e (x # s) @ [c])"
      by (subst percent_decoder_loop.simps) (simp add: enc_Cons percent_quote_def)
    with IH Cons.prems False show ?thesis by (simp add: enc_Cons percent_quote_def)
  qed
qed

end
