(* ===== verification/Flt_Line.thy ===== *)
theory Flt_Line
  imports Xcoder "HOL-Library.Sublist"
begin

text \<open>
  The line-oriented filters: \<open>HEADER\<close> (\<open>libmailutils/filter/header.c\<close>, passes the text up to
  the first empty line), \<open>LINELEN\<close> (\<open>linelenflt.c\<close>, breaks long lines) and \<open>LINECON\<close>
  (\<open>linecon.c\<close>, joins lines that end in a backslash).
\<close>

section \<open>HEADER\<close>

datatype hflt_state = hflt_initial | hflt_newline | hflt_copy

text \<open>\<open>new_state\<close>: whether the header has ended, and the new state.\<close>

fun hflt_new_state :: "hflt_state \<Rightarrow> byte \<Rightarrow> bool \<times> hflt_state" where
  "hflt_new_state hflt_newline c = (if c = LF then (True, hflt_newline) else (False, hflt_copy))"
| "hflt_new_state pd c = (False, if c = LF then hflt_newline else hflt_copy)"

fun hflt_decoder_loop :: "nat \<Rightarrow> hflt_state \<Rightarrow> nat \<Rightarrow> bytes \<Rightarrow> bytes \<Rightarrow> hflt_state xcoded" where
  "hflt_decoder_loop osize pd i out [] = x_ok pd i out"
| "hflt_decoder_loop osize pd i out (c # iptr) =
     (if \<not> length out < osize then x_ok pd i out
      else case hflt_new_state pd c of
        (True, pd') \<Rightarrow> x_eof pd' i out
      | (False, pd') \<Rightarrow> hflt_decoder_loop osize pd' (Suc i) (out @ [c]) iptr)"

fun hflt_decoder :: "hflt_state xcoder" where
  "hflt_decoder pd mu_filter_init inp osize = x_quiet hflt_initial inp osize"
| "hflt_decoder pd mu_filter_done inp osize = x_quiet pd inp osize"
| "hflt_decoder pd cmd inp osize = hflt_decoder_loop osize pd 0 [] inp"

fun hflt_dec :: "hflt_state \<Rightarrow> bytes \<Rightarrow> bytes" where
  "hflt_dec pd [] = []"
| "hflt_dec pd (c # cs) =
     (if fst (hflt_new_state pd c) then [] else c # hflt_dec (snd (hflt_new_state pd c)) cs)"

lemma hflt_end: "hflt_new_state pd c = (True, pd') \<Longrightarrow> pd = hflt_newline \<and> c = LF \<and> pd' = pd"
  by (cases pd) (auto split: if_splits)

lemma hflt_decoder_follows:
  "length out \<le> osize \<Longrightarrow>
   follows hflt_dec osize pd i out inp (hflt_decoder_loop osize pd i out inp)"
proof (induction osize pd i out inp rule: hflt_decoder_loop.induct)
  case (2 osize pd i out c iptr)
  obtain e pd' where st: "hflt_new_state pd c = (e, pd')" by fastforce
  show ?case
  proof (cases e)
    case True
    with st hflt_end[of pd c pd'] have "pd = hflt_newline \<and> c = LF \<and> pd' = pd" by simp
    with 2 st True show ?thesis by (auto intro!: follows_stop follows_eof)
  next
    case False
    show ?thesis
    proof (cases "length out < osize")
      case True
      have "follows hflt_dec osize pd' (Suc i) (out @ [c]) iptr
          (hflt_decoder_loop osize pd' (Suc i) (out @ [c]) iptr)"
        using 2 st False True by simp
      from follows_step[OF this, of pd c] st False True show ?thesis by simp
    qed (simp add: follows_stop)
  qed
qed (simp add: follows_stop)

lemma hflt_decoder_no_failure:
  "xres (hflt_decoder_loop osize pd i out inp) \<noteq> mu_filter_failure"
  by (induction osize pd i out inp rule: hflt_decoder_loop.induct)
    (auto simp: x_defs split: prod.split bool.split)

interpretation hflt_dec: plain_xcoder hflt_decoder hflt_dec "\<lambda>_. True"
  by unfold_locales (simp_all add: hflt_decoder_follows fun_eq_iff)

interpretation hflt_dec: total_xcoder hflt_decoder hflt_dec "\<lambda>_. True"
  by unfold_locales (simp add: hflt_decoder_no_failure)

text \<open>No empty line: \<open>no_blank p cs\<close> for text \<open>cs\<close> after a LF (\<open>p\<close>) or not.\<close>

fun no_blank :: "bool \<Rightarrow> bytes \<Rightarrow> bool" where
  "no_blank p [] = True"
| "no_blank p (c # cs) = (\<not> (p \<and> c = LF) \<and> no_blank (c = LF) cs)"

lemma hflt_dec_copies:
  "no_blank (pd = hflt_newline) h \<Longrightarrow>
   hflt_dec pd (h @ cs) = h @ hflt_dec (foldl (\<lambda>pd c. snd (hflt_new_state pd c)) pd h) cs"
proof (induction h arbitrary: pd)
  case (Cons c h)
  then have "fst (hflt_new_state pd c) = False"
    by (cases pd) auto
  moreover have "(snd (hflt_new_state pd c) = hflt_newline) = (c = LF)"
    using Cons.prems by (cases pd) auto
  ultimately show ?case using Cons by simp
qed simp

lemma hflt_dec_header:
  assumes "no_blank False (h @ [LF])"
  shows "hflt_dec hflt_initial (h @ LF # LF # body) = h @ [LF]"
proof -
  have "foldl (\<lambda>pd c. snd (hflt_new_state pd c)) hflt_initial (h @ [LF]) = hflt_newline"
    by (cases "foldl (\<lambda>pd c. snd (hflt_new_state pd c)) hflt_initial h") simp_all
  then show ?thesis
    using hflt_dec_copies[of hflt_initial "h @ [LF]" "LF # body"] assms by simp
qed

section \<open>LINELEN\<close>

record linelen_filter =
  ll_max_len :: "64 word"
  ll_cur_len :: "64 word"

text \<open>One turn copies up to the end of the line, of the input, of the allowed length or of the
  output buffer, whichever comes first: \<open>ll_chunk\<close> is that \<open>len\<close> and whether \<open>p\<close> is non-null.\<close>

definition ll_chunk :: "linelen_filter \<Rightarrow> nat \<Rightarrow> bytes \<Rightarrow> nat \<times> bool" where
  "ll_chunk flt room inp =
     (let rest = unat (ll_max_len flt - ll_cur_len flt);
          chunk = take (min (length inp) rest) inp;
          p = (LF \<in> set chunk);
          len = (if p then Suc (length (takeWhile (\<lambda>c. c \<noteq> LF) chunk)) else length chunk)
      in if len > room then (room, False) else (len, p))"

lemma takeWhile_found: "c \<in> set xs \<Longrightarrow> length (takeWhile (\<lambda>d. d \<noteq> c) xs) < length xs"
  by (induction xs) auto

lemma ll_chunk_le:
  assumes "ll_chunk flt room inp = (len, p)"
  shows "len \<le> length inp" "len \<le> room" "p \<Longrightarrow> 0 < len"
    "len = 0 \<Longrightarrow> inp \<noteq> [] \<Longrightarrow> 0 < room \<Longrightarrow> ll_cur_len flt = ll_max_len flt"
  using assms takeWhile_found[of LF "take (min (length inp) (unat (ll_max_len flt - ll_cur_len flt))) inp"]
  by (auto simp: ll_chunk_def Let_def unat_eq_zero min_def split: if_splits)

function ll_encoder_loop :: "nat \<Rightarrow> linelen_filter \<Rightarrow> nat \<Rightarrow> bytes \<Rightarrow> bytes \<Rightarrow> linelen_filter xcoded" where
  "ll_encoder_loop osize flt consumed out inp =
     (if inp = [] \<or> \<not> length out < osize then x_ok flt consumed out
      else case ll_chunk flt (osize - length out) inp of
        (len, True) \<Rightarrow>
          ll_encoder_loop osize (flt\<lparr>ll_cur_len := 0\<rparr>) (consumed + len) (out @ take len inp) (drop len inp)
      | (len, False) \<Rightarrow>
          if ll_cur_len flt + of_nat len = ll_max_len flt then
            ll_encoder_loop osize (flt\<lparr>ll_cur_len := 0\<rparr>) (consumed + len)
              (out @ take len inp @ (if length out + len < osize then [LF] else [])) (drop len inp)
          else ll_encoder_loop osize (flt\<lparr>ll_cur_len := ll_cur_len flt + of_nat len\<rparr>) (consumed + len)
                 (out @ take len inp) (drop len inp))"
  by pat_completeness (simp_all only: prod.inject list.inject list.distinct simp_thms)
termination
proof (relation "measure (\<lambda>(osize, flt, consumed, out, inp). length inp + (osize - length out))",
    goal_cases)
  case (2 osize flt consumed out inp len p)
  then show ?case using ll_chunk_le[of flt "osize - length out" inp len True] by auto
next
  case (3 osize flt consumed out inp len p)
  then show ?case using ll_chunk_le[of flt "osize - length out" inp len False] by (cases "len = 0") auto
next
  case (4 osize flt consumed out inp len p)
  then show ?case using ll_chunk_le[of flt "osize - length out" inp len False] by (cases "len = 0") auto
qed simp

declare ll_encoder_loop.simps [simp del]

fun ll_encoder :: "linelen_filter xcoder" where
  "ll_encoder flt mu_filter_init inp osize = x_quiet (flt\<lparr>ll_cur_len := 0\<rparr>) inp osize"
| "ll_encoder flt mu_filter_done inp osize = x_quiet flt inp osize"
| "ll_encoder flt cmd inp osize = ll_encoder_loop osize flt 0 [] inp"

text \<open>What the encoder would write with room for all of it.\<close>

fun ll_enc :: "linelen_filter \<Rightarrow> bytes \<Rightarrow> bytes" where
  "ll_enc flt [] = []"
| "ll_enc flt (c # cs) =
     (if c = LF then LF # ll_enc (flt\<lparr>ll_cur_len := 0\<rparr>) cs
      else if ll_cur_len flt + 1 = ll_max_len flt then c # LF # ll_enc (flt\<lparr>ll_cur_len := 0\<rparr>) cs
      else c # ll_enc (flt\<lparr>ll_cur_len := ll_cur_len flt + 1\<rparr>) cs)"

definition ll_wf :: "linelen_filter \<Rightarrow> bool" where
  "ll_wf flt \<longleftrightarrow> ll_cur_len flt < ll_max_len flt"

lemma ll_wf_step:
  "ll_wf flt \<Longrightarrow> ll_cur_len flt + 1 \<noteq> ll_max_len flt \<Longrightarrow>
   unat (ll_cur_len flt + 1) = Suc (unat (ll_cur_len flt)) \<and>
   ll_wf (flt\<lparr>ll_cur_len := ll_cur_len flt + 1\<rparr>)"
proof -
  assume wf: "ll_wf flt" and ne: "ll_cur_len flt + 1 \<noteq> ll_max_len flt"
  have lt: "unat (ll_cur_len flt) < unat (ll_max_len flt)"
    using wf by (simp add: ll_wf_def word_less_nat_alt)
  then have "unat (ll_cur_len flt + 1) = Suc (unat (ll_cur_len flt))"
    using unsigned_less[of "ll_max_len flt", where ?'a = nat] by (simp add: unat_word_ariths)
  moreover from this ne have "Suc (unat (ll_cur_len flt)) \<noteq> unat (ll_max_len flt)"
    by (metis word_unat_eq_iff)
  ultimately show ?thesis using lt by (simp add: ll_wf_def word_less_nat_alt)
qed

lemma ll_wf_reset: "ll_wf flt \<Longrightarrow> ll_wf (flt\<lparr>ll_cur_len := 0\<rparr>)"
  by (auto simp: ll_wf_def word_less_nat_alt)

text \<open>No line of the output is longer than the limit; apart from line ends the text is the same.\<close>

fun lines_within :: "nat \<Rightarrow> nat \<Rightarrow> bytes \<Rightarrow> bool" where
  "lines_within m k [] = True"
| "lines_within m k (c # cs) =
     (if c = LF then lines_within m 0 cs else k < m \<and> lines_within m (Suc k) cs)"

lemma ll_enc_within:
  "ll_wf flt \<Longrightarrow> lines_within (unat (ll_max_len flt)) (unat (ll_cur_len flt)) (ll_enc flt cs)"
proof (induction flt cs rule: ll_enc.induct)
  case (2 flt c cs)
  then have "unat (ll_cur_len flt) < unat (ll_max_len flt)"
    by (simp add: ll_wf_def word_less_nat_alt)
  with 2 show ?case
    using ll_wf_step[OF \<open>ll_wf flt\<close>] ll_wf_reset[OF \<open>ll_wf flt\<close>] by auto
qed simp

lemma ll_enc_text: "filter (\<lambda>c. c \<noteq> LF) (ll_enc flt cs) = filter (\<lambda>c. c \<noteq> LF) cs"
  by (induction flt cs rule: ll_enc.induct) auto

lemma ll_enc_subseq: "subseq cs (ll_enc flt cs)"
  by (induction flt cs rule: ll_enc.induct) auto

lemma filter_take_drop: "filter P (take n xs) @ filter P (drop n xs) = filter P xs"
  by (metis append_take_drop_id filter_append)

text \<open>Whatever the buffers: the consumed text is written unchanged but for line ends, and
  nothing is written beyond the buffer.\<close>

definition ll_text :: "nat \<Rightarrow> nat \<Rightarrow> bytes \<Rightarrow> bytes \<Rightarrow> linelen_filter xcoded \<Rightarrow> bool" where
  "ll_text osize consumed out inp r \<longleftrightarrow>
     xres r = mu_filter_ok \<and> consumed \<le> xisize r \<and> xisize r - consumed \<le> length inp \<and>
     xosize r = length (xout r) \<and> length (xout r) \<le> osize \<and>
     filter (\<lambda>c. c \<noteq> LF) (xout r) =
       filter (\<lambda>c. c \<noteq> LF) (out @ take (xisize r - consumed) inp)"

lemma ll_text_step:
  assumes "ll_text osize (consumed + len) (out @ take len inp @ e) (drop len inp) r"
    and "len \<le> length inp" "filter (\<lambda>c. c \<noteq> LF) e = []"
  shows "ll_text osize consumed out inp r"
proof -
  let ?k = "xisize r - (consumed + len)"
  have "take len inp @ take ?k (drop len inp) = take (len + ?k) inp"
    by (simp add: take_add)
  then have "filter (\<lambda>c. c \<noteq> LF) (take len inp) @ filter (\<lambda>c. c \<noteq> LF) (take ?k (drop len inp))
       = filter (\<lambda>c. c \<noteq> LF) (take (len + ?k) inp)"
    by (metis filter_append)
  with assms show ?thesis by (auto simp: ll_text_def)
qed

lemma ll_encoder_text:
  "length out \<le> osize \<Longrightarrow>
   ll_text osize consumed out inp (ll_encoder_loop osize flt consumed out inp)"
proof (induction osize flt consumed out inp rule: ll_encoder_loop.induct)
  case (1 osize flt consumed out inp)
  show ?case
  proof (cases "inp = [] \<or> \<not> length out < osize")
    case True
    then show ?thesis using "1.prems" by (simp add: ll_encoder_loop.simps[of osize flt] ll_text_def x_defs)
  next
    case False
    obtain len p where ch: "ll_chunk flt (osize - length out) inp = (len, p)" by fastforce
    note le = ll_chunk_le[OF ch]
    let ?e = "if length out + len < osize then [LF] else [] :: bytes"
    have room: "length (out @ take len inp) \<le> osize" "length (out @ take len inp @ ?e) \<le> osize"
      using le(1,2) False by auto
    have e: "filter (\<lambda>c. c \<noteq> LF) ?e = []" by simp
    note unfold_one = ll_encoder_loop.simps[of osize flt consumed out inp]
    show ?thesis
    proof (cases p)
      case True
      then have "p = True" by simp
      note IH = "1.IH"(1)[OF False ch[symmetric] this room(1)]
      show ?thesis
        unfolding unfold_one using ll_text_step[of _ _ _ _ _ "[]", OF _ le(1)] IH False ch True by simp
    next
      case False': False
      then have pf: "p = False" by simp
      show ?thesis
      proof (cases "ll_cur_len flt + of_nat len = ll_max_len flt")
        case True
        note IH = "1.IH"(2)[OF False ch[symmetric] pf True room(2)]
        show ?thesis
          unfolding unfold_one using ll_text_step[OF IH le(1) e] False ch pf True by simp
      next
        case nm: False
        note IH = "1.IH"(3)[OF False ch[symmetric] pf nm room(1)]
        show ?thesis
          unfolding unfold_one using ll_text_step[of _ _ _ _ _ "[]", OF _ le(1)] IH False ch pf nm by simp
      qed
    qed
  qed
qed

lemma word_add_le_nat: "unat (a + of_nat n :: 64 word) \<le> unat a + n"
proof -
  have "unat (a + of_nat n) \<le> unat a + unat (of_nat n :: 64 word)"
    by (simp add: unat_word_ariths)
  moreover have "unat (of_nat n :: 64 word) \<le> n" by (simp add: unat_of_nat)
  ultimately show ?thesis by linarith
qed

text \<open>With room for the whole result one call produces it.\<close>

lemma ll_enc_run:
  "LF \<notin> set xs \<Longrightarrow> unat (ll_cur_len flt) + length xs < unat (ll_max_len flt) \<Longrightarrow>
   ll_enc flt (xs @ ys) = xs @ ll_enc (flt\<lparr>ll_cur_len := ll_cur_len flt + of_nat (length xs)\<rparr>) ys"
proof (induction xs arbitrary: flt)
  case (Cons x xs)
  have wf: "ll_wf flt" using Cons.prems by (simp add: ll_wf_def word_less_nat_alt)
  have "unat (ll_cur_len flt + 1) \<le> unat (ll_cur_len flt) + 1"
    by (simp add: unat_word_ariths)
  then have ne: "ll_cur_len flt + 1 \<noteq> ll_max_len flt"
    using Cons.prems by auto
  from ll_wf_step[OF wf ne] Cons show ?case
    using ne by (simp add: add.assoc)
qed simp

lemma ll_enc_full:
  assumes "LF \<notin> set xs" "xs \<noteq> []" "unat (ll_cur_len flt) + length xs = unat (ll_max_len flt)"
  shows "ll_enc flt (xs @ ys) = xs @ LF # ll_enc (flt\<lparr>ll_cur_len := 0\<rparr>) ys"
proof -
  obtain zs z where xs: "xs = zs @ [z]" using assms(2) by (metis rev_exhaust)
  have "of_nat (unat (ll_cur_len flt) + length xs) = (of_nat (unat (ll_max_len flt)) :: 64 word)"
    using assms(3) by simp
  then have "ll_cur_len flt + of_nat (length zs) + 1 = ll_max_len flt"
    by (simp add: xs add_ac)
  then show ?thesis
    using ll_enc_run[of zs flt "z # ys"] assms by (auto simp: xs)
qed

lemma ll_enc_line:
  assumes "LF \<notin> set xs" "unat (ll_cur_len flt) + length xs < unat (ll_max_len flt)"
  shows "ll_enc flt (xs @ LF # ys) = xs @ LF # ll_enc (flt\<lparr>ll_cur_len := 0\<rparr>) ys"
  using ll_enc_run[OF assms] by simp

lemma ll_encoder_whole:
  assumes "ll_wf flt" "length out + length (ll_enc flt inp) \<le> osize"
  shows "\<exists>flt'. ll_encoder_loop osize flt consumed out inp =
    x_ok flt' (consumed + length inp) (out @ ll_enc flt inp)"
  using assms
proof (induction osize flt consumed out inp rule: ll_encoder_loop.induct)
  case (1 osize flt consumed out inp)
  note unfold_one = ll_encoder_loop.simps[of osize flt consumed out inp]
  let ?rest = "unat (ll_max_len flt - ll_cur_len flt)"
  have lt: "unat (ll_cur_len flt) < unat (ll_max_len flt)"
    using "1.prems" by (simp add: ll_wf_def word_less_nat_alt)
  then have rest: "?rest = unat (ll_max_len flt) - unat (ll_cur_len flt)" "0 < ?rest"
    by (simp_all add: unat_sub word_le_nat_alt)
  have reset: "ll_wf (flt\<lparr>ll_cur_len := 0\<rparr>)" using "1.prems" ll_wf_reset by blast
  show ?case
  proof (cases "inp = []")
    case True
    with unfold_one show ?thesis by auto
  next
    case inp: False
    have ne: "0 < length (ll_enc flt inp)" using inp by (cases inp) auto
    have go: "\<not> (inp = [] \<or> \<not> length out < osize)" using inp ne "1.prems"(2) by linarith
    let ?c = "take (min (length inp) ?rest) inp"
    show ?thesis
    proof (cases "LF \<in> set ?c")
      case True
      define xs where "xs = takeWhile (\<lambda>c. c \<noteq> LF) ?c"
      have "?c = xs @ dropWhile (\<lambda>c. c \<noteq> LF) ?c" by (simp add: xs_def)
      moreover have "dropWhile (\<lambda>c. c \<noteq> LF) ?c \<noteq> []" using True by (simp add: dropWhile_eq_Nil_conv)
      ultimately obtain zs where "?c = xs @ LF # zs"
        by (metis (mono_tags, lifting) hd_dropWhile list.collapse)
      then obtain ys where ys: "inp = xs @ LF # ys"
        by (metis append_Cons append_assoc append_take_drop_id)
      have xs: "LF \<notin> set xs" by (auto simp: xs_def dest: set_takeWhileD)
      have short: "unat (ll_cur_len flt) + length xs < unat (ll_max_len flt)"
      proof -
        have "length xs < ?rest" using takeWhile_found[OF True] by (simp add: xs_def)
        with rest(1) lt show ?thesis by linarith
      qed
      note whole = ll_enc_line[OF xs short, of ys, folded ys]
      have ch: "ll_chunk flt (osize - length out) inp = (Suc (length xs), True)"
        using True "1.prems"(2) whole by (simp add: ll_chunk_def Let_def xs_def[symmetric])
      have "take (Suc (length xs)) inp = xs @ [LF]" "drop (Suc (length xs)) inp = ys"
        by (simp_all add: ys)
      with "1.IH"(1)[OF go ch[symmetric] refl reset] "1.prems"(2) whole
      show ?thesis using go ch ys unfold_one by (auto simp: add.assoc)
    next
      case False
      show ?thesis
      proof (cases "length inp < ?rest")
        case True
        then have "?c = inp" by simp
        with False have xs: "LF \<notin> set inp" by simp
        have short: "unat (ll_cur_len flt) + length inp < unat (ll_max_len flt)"
          using True rest by simp
        note whole = ll_enc_run[OF xs short, of "[]"]
        have ch: "ll_chunk flt (osize - length out) inp = (length inp, False)"
        proof -
          have "\<not> osize - length out < length inp" using "1.prems"(2) whole by simp
          with False \<open>?c = inp\<close> show ?thesis by (simp add: ll_chunk_def Let_def)
        qed
        have "ll_cur_len flt + of_nat (length inp) \<noteq> ll_max_len flt"
          using word_add_le_nat[of "ll_cur_len flt" "length inp"] short by auto
        with go ch unfold_one whole show ?thesis by (auto simp: ll_encoder_loop.simps)
      next
        case long: False
        define xs where "xs = take ?rest inp"
        have min: "min (length inp) ?rest = ?rest" using long by simp
        have xs: "?c = xs" "length xs = ?rest" "inp = xs @ drop ?rest inp" "LF \<notin> set xs"
          using long False unfolding min by (simp_all add: xs_def)
        have full: "unat (ll_cur_len flt) + length xs = unat (ll_max_len flt)"
          using xs(2) rest lt by simp
        have "xs \<noteq> []" using xs(2) rest(2) by auto
        note whole = ll_enc_full[OF xs(4) this full, of "drop ?rest inp", folded xs(3)]
        have ch: "ll_chunk flt (osize - length out) inp = (?rest, False)"
          using xs "1.prems"(2) whole unfolding ll_chunk_def by (simp add: Let_def)
        have "of_nat (unat (ll_cur_len flt) + ?rest) = (of_nat (unat (ll_max_len flt)) :: 64 word)"
          using full xs(2) by simp
        then have mx: "ll_cur_len flt + of_nat ?rest = ll_max_len flt" by simp
        have room: "length out + ?rest < osize" using "1.prems"(2) whole xs(2) by simp
        from "1.IH"(2)[OF go ch[symmetric] refl mx reset] "1.prems"(2) whole xs(2) room
        show ?thesis using go ch mx unfold_one xs long by (auto simp: add.assoc xs_def[symmetric])
      qed
    qed
  qed
qed

section \<open>LINECON\<close>

datatype linecon_state = linecon_init | linecon_escape | linecon_rollback

text \<open>The bits of \<open>flags\<close> are the fields \<open>lc_line_info\<close>, \<open>lc_static\<close> and \<open>lc_continuation\<close>;
  \<open>level\<close> is the length of \<open>lc_buf\<close>.\<close>

record linecon_data =
  lc_line_info :: bool
  lc_static :: bool
  lc_continuation :: bool
  lc_state :: linecon_state
  lc_starter :: bytes
  lc_line_number :: "64 word"
  lc_buf :: bytes
  lc_replay :: nat

definition linecon_info :: "linecon_data \<Rightarrow> bytes" where
  "linecon_info pd = lc_starter pd @ SPC # decimal (unat (lc_line_number pd)) @ [LF]"

text \<open>The newline case of the initial state, before the character is copied.\<close>

definition linecon_newline :: "linecon_data \<Rightarrow> linecon_data" where
  "linecon_newline pd =
     (let pd1 = pd\<lparr>lc_line_number := lc_line_number pd + 1\<rparr>
      in if lc_continuation pd1
         then pd1\<lparr>lc_continuation := False, lc_buf := linecon_info pd1, lc_replay := 0,
                  lc_state := linecon_rollback\<rparr>
         else pd1)"

text \<open>The escaped newline.\<close>

definition linecon_join_line :: "linecon_data \<Rightarrow> linecon_data" where
  "linecon_join_line pd =
     pd\<lparr>lc_line_number := lc_line_number pd + 1, lc_state := linecon_init,
        lc_continuation := lc_continuation pd \<or> lc_line_info pd\<rparr>"

function linecon_decoder_loop :: "nat \<Rightarrow> linecon_data \<Rightarrow> nat \<Rightarrow> bytes \<Rightarrow> bytes \<Rightarrow> linecon_data xcoded" where
  "linecon_decoder_loop osize pd i out [] = x_ok pd i out"
| "linecon_decoder_loop osize pd i out (c # iptr) =
     (if \<not> length out < osize then x_ok pd i out
      else case lc_state pd of
        linecon_init \<Rightarrow>
          if c = BSLASH then linecon_decoder_loop osize (pd\<lparr>lc_state := linecon_escape\<rparr>) (Suc i) out iptr
          else if c = LF then linecon_decoder_loop osize (linecon_newline pd) (Suc i) (out @ [c]) iptr
          else linecon_decoder_loop osize pd (Suc i) (out @ [c]) iptr
      | linecon_escape \<Rightarrow>
          if c = LF then linecon_decoder_loop osize (linecon_join_line pd) (Suc i) out iptr
          else if length out + 1 = osize then
            linecon_decoder_loop osize (pd\<lparr>lc_state := linecon_init\<rparr>) i (out @ [BSLASH]) (c # iptr)
          else linecon_decoder_loop osize (pd\<lparr>lc_state := linecon_init\<rparr>) (Suc i) (out @ [BSLASH, c]) iptr
      | linecon_rollback \<Rightarrow>
          if lc_replay pd < length (lc_buf pd) then
            linecon_decoder_loop osize
              (pd\<lparr>lc_replay := Suc (lc_replay pd),
                  lc_state := if Suc (lc_replay pd) = length (lc_buf pd) then linecon_init else linecon_rollback\<rparr>)
              i (out @ [lc_buf pd ! lc_replay pd]) (c # iptr)
          else x_failure pd OUT_OF_BOUNDS)"
  by pat_completeness (simp_all only: prod.inject list.inject list.distinct simp_thms)
termination
  by (relation "measure (\<lambda>(osize, pd, i, out, inp). length inp + (osize - length out))") auto

declare linecon_decoder_loop.simps(2) [simp del]

fun linecon_decoder :: "linecon_data xcoder" where
  "linecon_decoder pd mu_filter_init inp osize = x_quiet (pd\<lparr>lc_state := linecon_init\<rparr>) inp osize"
| "linecon_decoder pd mu_filter_done inp osize = x_quiet pd inp osize"
| "linecon_decoder pd cmd inp osize = linecon_decoder_loop osize pd 0 [] inp"

text \<open>\<open>alloc_state\<close>: the last \<open>-i STR\<close> gives the starter, whose second character is read even
  when it is empty. The state field is set by the init command.\<close>

fun linecon_args :: "string list \<Rightarrow> string option \<Rightarrow> mu_error + string option" where
  "linecon_args [] line_info = Inr line_info"
| "linecon_args (a # as) line_info =
     (if take 1 a = ''-'' then
        (if take 1 (drop 1 a) = ''i'' then
           (case as of [] \<Rightarrow> Inl MU_ERR_PARSE | b # bs \<Rightarrow> linecon_args bs (Some b))
         else Inl MU_ERR_PARSE)
      else linecon_args as line_info)"

definition linecon_alloc_state :: "string list \<Rightarrow> mu_error + linecon_data" where
  "linecon_alloc_state argv =
     (let pd = \<lparr>lc_line_info = False, lc_static = False, lc_continuation = False,
                lc_state = linecon_init, lc_starter = [], lc_line_number = 1, lc_buf = [],
                lc_replay = 0\<rparr>
      in case linecon_args (tl argv) None of
        Inl e \<Rightarrow> Inl e
      | Inr None \<Rightarrow> Inr pd
      | Inr (Some li) \<Rightarrow>
          if li = [] then Inl OUT_OF_BOUNDS
          else Inr (pd\<lparr>lc_line_info := True, lc_static := length li = 1, lc_starter := bytes_of li\<rparr>))"

text \<open>Without line information the filter deletes each backslash newline; the flag says whether
  a backslash is pending.\<close>

fun linecon_join :: "bool \<Rightarrow> bytes \<Rightarrow> bytes" where
  "linecon_join esc [] = []"
| "linecon_join False (c # cs) = (if c = BSLASH then linecon_join True cs else c # linecon_join False cs)"
| "linecon_join True (c # cs) =
     (if c = LF then linecon_join False cs else BSLASH # c # linecon_join False cs)"

definition linecon_plain :: "linecon_data \<Rightarrow> bool" where
  "linecon_plain pd \<longleftrightarrow> \<not> lc_line_info pd \<and> \<not> lc_continuation pd \<and> lc_state pd \<noteq> linecon_rollback"

lemma linecon_plain_steps:
  assumes "linecon_plain pd"
  shows "linecon_plain (linecon_newline pd)" "linecon_plain (linecon_join_line pd)"
    "lc_state (linecon_newline pd) = lc_state pd" "lc_state (linecon_join_line pd) = linecon_init"
    "linecon_plain (pd\<lparr>lc_state := linecon_init\<rparr>)" "linecon_plain (pd\<lparr>lc_state := linecon_escape\<rparr>)"
  using assms by (simp_all add: linecon_plain_def linecon_newline_def linecon_join_line_def Let_def)

lemma linecon_decoder_joins:
  assumes "linecon_plain pd"
    and "length out + length inp + (if lc_state pd = linecon_escape then 1 else 0) \<le> osize"
  shows "\<exists>pd'. linecon_decoder_loop osize pd i out inp =
    x_ok pd' (i + length inp) (out @ linecon_join (lc_state pd = linecon_escape) inp)"
  using assms
proof (induction osize pd i out inp rule: linecon_decoder_loop.induct)
  case (2 osize pd i out c iptr)
  note unfold_one = linecon_decoder_loop.simps(2)[of osize pd i out c iptr]
  note steps = linecon_plain_steps[OF "2.prems"(1)]
  show ?case
  proof (cases "lc_state pd")
    case linecon_init
    with 2 steps unfold_one show ?thesis by (cases "c = LF") auto
  next
    case linecon_escape
    with 2 steps unfold_one show ?thesis by auto
  next
    case linecon_rollback
    with 2 show ?thesis by (simp add: linecon_plain_def)
  qed
qed auto

text \<open>The line counter: one for each newline consumed, escaped or not.\<close>

definition linecon_counted :: "nat \<Rightarrow> linecon_data \<Rightarrow> bytes \<Rightarrow> linecon_data xcoded \<Rightarrow> bool" where
  "linecon_counted i pd inp r \<longleftrightarrow> (xres r = mu_filter_ok \<longrightarrow>
     i \<le> xisize r \<and> xisize r - i \<le> length inp \<and>
     lc_line_number (xst r) = lc_line_number pd + of_nat (count_list (take (xisize r - i) inp) LF))"

lemma linecon_counted_step:
  assumes "linecon_counted (Suc i) pd' iptr r"
    and "lc_line_number pd' = lc_line_number pd + (if c = LF then 1 else 0)"
  shows "linecon_counted i pd (c # iptr) r"
proof (cases "xres r = mu_filter_ok")
  case True
  with assms have "xisize r - i = Suc (xisize r - Suc i)" by (auto simp: linecon_counted_def)
  with assms True show ?thesis by (auto simp: linecon_counted_def)
qed (simp add: linecon_counted_def)

lemma linecon_counted_same:
  "linecon_counted i pd' inp r \<Longrightarrow> lc_line_number pd' = lc_line_number pd \<Longrightarrow> linecon_counted i pd inp r"
  by (simp add: linecon_counted_def)

lemma linecon_decoder_counts:
  "linecon_counted i pd inp (linecon_decoder_loop osize pd i out inp)"
proof (induction osize pd i out inp rule: linecon_decoder_loop.induct)
  case (2 osize pd i out c iptr)
  note unfold_one = linecon_decoder_loop.simps(2)[of osize pd i out c iptr]
  have stop: "linecon_counted i pd (c # iptr) (x_ok pd i out)"
    "linecon_counted i pd (c # iptr) (x_failure pd OUT_OF_BOUNDS)"
    by (simp_all add: linecon_counted_def x_defs)
  have number: "lc_line_number (linecon_newline pd) = lc_line_number pd + 1"
    "lc_line_number (linecon_join_line pd) = lc_line_number pd + 1"
    by (simp_all add: linecon_newline_def linecon_join_line_def Let_def)
  show ?case
  proof (cases "length out < osize")
    case True
    show ?thesis
    proof (cases "lc_state pd")
      case linecon_init
      with 2 True number show ?thesis
        unfolding unfold_one by (auto intro: linecon_counted_step)
    next
      case linecon_escape
      with 2 True number show ?thesis
        unfolding unfold_one by (auto intro: linecon_counted_step linecon_counted_same)
    next
      case linecon_rollback
      with "2.IH"(7) True stop show ?thesis
        unfolding unfold_one by (auto intro: linecon_counted_same)
    qed
  next
    case False
    with stop show ?thesis by (simp add: unfold_one)
  qed
qed (simp add: linecon_counted_def x_defs)

end
