(* ===== verification/Flt_Base64.thy ===== *)
theory Flt_Base64
  imports Xcoder Ctype
begin

text \<open>
  The base64 filter (\<open>libmailutils/filter/base64.c\<close>): the two conversion functions, the decoder,
  the encoder with its line state, and their round trips.
\<close>

section \<open>Tables\<close>

definition b64tab :: bytes where
  "b64tab = bytes_of ''ABCDEFGHIJKLMNOPQRSTUVWXYZabcdefghijklmnopqrstuvwxyz0123456789+/''"

definition b64val :: "int list" where
  "b64val =
    [-1, -1, -1, -1, -1, -1, -1, -1, -1, -1, -1, -1, -1, -1, -1, -1,
     -1, -1, -1, -1, -1, -1, -1, -1, -1, -1, -1, -1, -1, -1, -1, -1,
     -1, -1, -1, -1, -1, -1, -1, -1, -1, -1, -1, 62, -1, -1, -1, 63,
     52, 53, 54, 55, 56, 57, 58, 59, 60, 61, -1, -1, -1, -1, -1, -1,
     -1, 0, 1, 2, 3, 4, 5, 6, 7, 8, 9, 10, 11, 12, 13, 14,
     15, 16, 17, 18, 19, 20, 21, 22, 23, 24, 25, -1, -1, -1, -1, -1,
     -1, 26, 27, 28, 29, 30, 31, 32, 33, 34, 35, 36, 37, 38, 39, 40,
     41, 42, 43, 44, 45, 46, 47, 48, 49, 50, 51, -1, -1, -1, -1, -1]"

definition b64char :: "byte \<Rightarrow> byte" where
  "b64char v = b64tab ! unat v"

section \<open>\<open>mu_base64_encode\<close> and \<open>mu_base64_decode\<close>\<close>

definition b64_triple :: "byte \<Rightarrow> byte \<Rightarrow> byte \<Rightarrow> bytes" where
  "b64_triple a b c =
     [b64char (drop_bit 2 a), b64char ((push_bit 4 a AND 0x30) OR drop_bit 4 b),
      b64char ((push_bit 2 b AND 0x3c) OR drop_bit 6 c), b64char (c AND 0x3f)]"

fun mu_base64_encode :: "bytes \<Rightarrow> bytes" where
  "mu_base64_encode (a # b # c # input) = b64_triple a b c @ mu_base64_encode input"
| "mu_base64_encode [a, b] =
     [b64char (drop_bit 2 a), b64char ((push_bit 4 a AND 0x30) OR drop_bit 4 b),
      b64char (push_bit 2 b AND 0x3c), EQ_C]"
| "mu_base64_encode [a] = [b64char (drop_bit 2 a), b64char (push_bit 4 a AND 0x30), EQ_C, EQ_C]"
| "mu_base64_encode [] = []"

text \<open>A digit of the code, and the test that fails the conversion (\<open>pad\<close> when \<open>=\<close> is allowed).\<close>

definition b64digit :: "byte \<Rightarrow> byte" where
  "b64digit c = word_of_int (b64val ! unat c)"

definition b64bad :: "bool \<Rightarrow> byte \<Rightarrow> bool" where
  "b64bad pad c \<longleftrightarrow> unat c > 127 \<or> (\<not> (pad \<and> c = EQ_C) \<and> b64val ! unat c = -1)"

text \<open>
  The loop of \<open>mu_base64_decode\<close>, with \<open>room\<close> bytes left in the block at \<open>out\<close>. The four
  characters are tested in turn, so the input is read beyond its end only behind valid ones; the
  loop runs at least once, and an input of other than whole quadruples runs on into whatever
  follows it.
\<close>

fun base64_decode_loop :: "nat \<Rightarrow> bytes \<Rightarrow> mu_error + bytes" where
  "base64_decode_loop room input =
     (case input of
        [] \<Rightarrow> Inl OUT_OF_BOUNDS
      | a # input1 \<Rightarrow> if b64bad False a then Inl EINVAL else
     (case input1 of
        [] \<Rightarrow> Inl OUT_OF_BOUNDS
      | b # input2 \<Rightarrow> if b64bad False b then Inl EINVAL else
     (case input2 of
        [] \<Rightarrow> Inl OUT_OF_BOUNDS
      | c # input3 \<Rightarrow> if b64bad True c then Inl EINVAL else
     (case input3 of
        [] \<Rightarrow> Inl OUT_OF_BOUNDS
      | d # input4 \<Rightarrow> if b64bad True d then Inl EINVAL else
          let out = (push_bit 2 (b64digit a) OR drop_bit 4 (b64digit b))
                # (if c \<noteq> EQ_C
                   then ((push_bit 4 (b64digit b) AND 0xf0) OR drop_bit 2 (b64digit c))
                      # (if d \<noteq> EQ_C then [(push_bit 6 (b64digit c) AND 0xc0) OR b64digit d] else [])
                   else [])
          in if room < length out then Inl OUT_OF_BOUNDS
             else if input4 = [] then Inr out
             else case base64_decode_loop (room - length out) input4 of
                 Inl e \<Rightarrow> Inl e | Inr rest \<Rightarrow> Inr (out @ rest)))))"

declare base64_decode_loop.simps [simp del]

text \<open>\<open>int olen = input_len\<close> keeps the low 32 bits, as a signed number. A negative \<open>olen\<close> becomes a
  size above \<open>PTRDIFF_MAX\<close> in the call of \<open>malloc\<close>, which then fails.\<close>

definition mu_base64_decode :: "bytes \<Rightarrow> mu_error + bytes" where
  "mu_base64_decode input =
     (let olen = signed_take_bit 31 (int (length input))
      in if olen < 0 then Inl ENOMEM else base64_decode_loop (nat olen) input)"

lemma mu_base64_decode_int:
  "int (length input) \<le> INT_MAX \<Longrightarrow> mu_base64_decode input = base64_decode_loop (length input) input"
  by (simp add: mu_base64_decode_def INT_MAX_def signed_take_bit_int_eq_self)

text \<open>The next \<open>2 ^ 31\<close> lengths have a negative \<open>olen\<close>.\<close>

lemma mu_base64_decode_long:
  assumes "2 ^ 31 \<le> length input" "length input < 2 ^ 32"
  shows "mu_base64_decode input = Inl ENOMEM"
proof -
  have "length input div 2 ^ 31 = 1" by (rule div_nat_eqI) (use assms in simp_all)
  then have "bit (length input) 31" by (simp add: bit_iff_odd)
  then have "bit (int (length input)) 31" by (simp add: bit_of_nat_iff_bit)
  then show ?thesis by (simp add: mu_base64_decode_def)
qed

section \<open>The decoder\<close>

text \<open>The inner loop collects up to four digits: \<open>data\<close> has \<open>i\<close> of them. A padding character counts
  as the digit 0. Returns the data, \<open>pad\<close>, and the characters left.\<close>

fun b64_collect :: "bytes \<Rightarrow> nat \<Rightarrow> bytes \<Rightarrow> mu_error + (bytes \<times> nat \<times> bytes)" where
  "b64_collect data pad [] = Inr (data, pad, [])"
| "b64_collect data pad (c # iptr) =
     (if \<not> length data < 4 then Inr (data, pad, c # iptr)
      else if 128 \<le> unat c then Inl OUT_OF_BOUNDS
      else
        let tmp = b64val ! unat c
        in if tmp \<noteq> -1 then b64_collect (data @ [word_of_int tmp]) pad iptr
           else if c = EQ_C then
             (if pad = 3 then Inl MU_ERR_BASE64 else b64_collect (data @ [0]) (Suc pad) iptr)
           else b64_collect data pad iptr)"

lemma b64_collect_shorter:
  "b64_collect data pad iptr = Inr (data', pad', rest) \<Longrightarrow>
   length rest \<le> length iptr \<and> (length data < 4 \<longrightarrow> iptr \<noteq> [] \<longrightarrow> length rest < length iptr)"
  by (induction data pad iptr rule: b64_collect.induct) (auto simp: Let_def split: if_splits)

definition b64_block :: "bytes \<Rightarrow> bytes" where
  "b64_block data =
     [push_bit 2 (data ! 0) OR drop_bit 4 (data ! 1 AND 0x30),
      push_bit 4 (data ! 1 AND 0xf) OR drop_bit 2 (data ! 2 AND 0x3c),
      push_bit 6 (data ! 2 AND 0x3) OR data ! 3]"

text \<open>
  The outer loop: \<open>buf\<close> has the bytes written so far (\<open>optr\<close> is behind the last), \<open>nbytes\<close> is what
  is counted. \<open>pad\<close> is never reset, so after padding the two differ and \<open>optr\<close> can leave the
  buffer of \<open>osize\<close> bytes.
\<close>

function base64_decoder_loop ::
  "filter_command \<Rightarrow> nat \<Rightarrow> nat \<Rightarrow> nat \<Rightarrow> nat \<Rightarrow> bytes \<Rightarrow> bytes \<Rightarrow> unit xcoded" where
  "base64_decoder_loop cmd osize pad consumed nbytes buf iptr =
     (if \<not> (iptr \<noteq> [] \<and> nbytes + 3 < osize) then x_ok () consumed (take nbytes buf)
      else case b64_collect [] pad iptr of
        Inl e \<Rightarrow> x_failure () e
      | Inr (data, pad, rest) \<Rightarrow>
          let consumed = consumed + (length iptr - length rest)
          in if length data = 4 then
               (if length buf + 3 > osize then x_failure () OUT_OF_BOUNDS
                else base64_decoder_loop cmd osize pad consumed (nbytes + (3 - pad)) (buf @ b64_block data) rest)
             else if cmd \<noteq> mu_filter_lastbuf
             then x_ret mu_filter_again () (consumed - length data) (take nbytes buf)
             else x_ok () consumed (take nbytes buf))"
  by pat_completeness (simp_all only: prod.inject list.inject list.distinct simp_thms)
termination
  by (relation "measure (\<lambda>(cmd, osize, pad, consumed, nbytes, buf, iptr). length iptr)")
    (auto dest: b64_collect_shorter)

declare base64_decoder_loop.simps [simp del]

fun base64_decoder :: "unit xcoder" where
  "base64_decoder xd mu_filter_init inp osize = x_quiet xd inp osize"
| "base64_decoder xd mu_filter_done inp osize = x_quiet xd inp osize"
| "base64_decoder xd cmd inp osize =
     (if osize \<le> 3 then x_moreoutput xd (length inp) 3
      else base64_decoder_loop cmd osize 0 0 0 [] inp)"

section \<open>The encoder\<close>

datatype base64_state = base64_init | base64_newline | base64_rollback

record base64_line =
  bl_state :: base64_state
  bl_max_len :: nat
  bl_cur_len :: nat
  bl_save :: bytes
  bl_idx :: nat

text \<open>What the first character of a group leaves in \<open>save\<close>, and how many bytes the group takes.\<close>

definition b64_save :: "bytes \<Rightarrow> bytes" where
  "b64_save ptr =
     (case ptr of
        [a] \<Rightarrow> [b64char (push_bit 4 a AND 0x3f), EQ_C, EQ_C]
      | [a, b] \<Rightarrow> [b64char ((push_bit 4 a + drop_bit 4 b) AND 0x3f), b64char (push_bit 2 b AND 0x3f), EQ_C]
      | a # b # c # _ \<Rightarrow> [b64char ((push_bit 4 a + drop_bit 4 b) AND 0x3f),
                          b64char ((push_bit 2 b + drop_bit 6 c) AND 0x3f), b64char (c AND 0x3f)]
      | [] \<Rightarrow> [])"

function base64_encoder_loop ::
  "nat \<Rightarrow> base64_line \<Rightarrow> bool \<Rightarrow> nat \<Rightarrow> bytes \<Rightarrow> bytes \<Rightarrow> base64_line \<times> nat \<times> bytes" where
  "base64_encoder_loop osize lp pad consumed out ptr =
     (if \<not> length out < osize then (lp, consumed, out)
      else if (bl_max_len lp \<noteq> 0 \<and> bl_cur_len lp = bl_max_len lp) \<or> bl_state lp = base64_newline then
        base64_encoder_loop osize
          (lp\<lparr>bl_idx := (if bl_state lp = base64_init then 3 else bl_idx lp), bl_cur_len := 0,
              bl_state := base64_rollback\<rparr>)
          pad consumed (out @ [LF]) ptr
      else if bl_state lp = base64_rollback \<and> bl_idx lp < 3 then
        base64_encoder_loop osize
          (lp\<lparr>bl_idx := Suc (bl_idx lp), bl_cur_len := Suc (bl_cur_len lp)\<rparr>)
          pad consumed (out @ [bl_save lp ! bl_idx lp]) ptr
      else if \<not> (3 \<le> length ptr \<or> pad) then (lp\<lparr>bl_state := base64_init\<rparr>, consumed, out)
      else if ptr = [] then
        base64_encoder_loop osize
          (lp\<lparr>bl_save := [bl_save lp ! 0, EQ_C, EQ_C], bl_idx := 1, bl_state := base64_rollback\<rparr>)
          False consumed out ptr
      else
        base64_encoder_loop osize
          (lp\<lparr>bl_save := b64_save ptr, bl_idx := 0, bl_cur_len := Suc (bl_cur_len lp),
              bl_state := base64_rollback\<rparr>)
          False (consumed + min 3 (length ptr)) (out @ [b64char (drop_bit 2 (hd ptr))]) (drop 3 ptr))"
  by pat_completeness (simp_all only: prod.inject list.inject list.distinct simp_thms)
termination
  by (relation "measure (\<lambda>(osize, lp, pad, consumed, out, ptr). 2 * (osize - length out) + (if pad then 1 else 0))") auto

declare base64_encoder_loop.simps [simp del]

text \<open>The answer once the loop has stopped.\<close>

definition base64_encoder_finish ::
  "filter_command \<Rightarrow> nat \<Rightarrow> base64_line \<times> nat \<times> bytes \<Rightarrow> base64_line xcoded" where
  "base64_encoder_finish cmd isize = (\<lambda>(lp, consumed, out).
     let consumed = min consumed isize;
         res = (if cmd = mu_filter_lastbuf \<and> (consumed < isize \<or> bl_state lp = base64_rollback)
                then mu_filter_again else mu_filter_ok)
     in (x_ret res lp consumed out)\<lparr>xeof := (isize = 0)\<rparr>)"

fun base64_encoder :: "base64_line xcoder" where
  "base64_encoder lp mu_filter_init inp osize =
     x_quiet (lp\<lparr>bl_state := base64_init, bl_cur_len := 0, bl_idx := 3\<rparr>) inp osize"
| "base64_encoder lp mu_filter_done inp osize = x_quiet lp inp osize"
| "base64_encoder lp cmd inp osize =
     (if osize < 4 then x_moreoutput lp (length inp) 4
      else if inp \<noteq> [] \<and> length inp \<le> 3 \<and> cmd \<noteq> mu_filter_lastbuf then x_moreinput lp 4 osize
      else base64_encoder_finish cmd (length inp)
             (base64_encoder_loop osize lp (inp \<noteq> [] \<and> length inp \<le> 3) 0 [] inp))"

text \<open>\<open>alloc_state\<close> for encoding; the fields it does not set are set by the init command.\<close>

definition base64_alloc_state :: base64_line where
  "base64_alloc_state =
     \<lparr>bl_state = base64_init, bl_max_len = 76, bl_cur_len = 0, bl_save = [0, 0, 0], bl_idx = 3\<rparr>"

text \<open>The filter B has no state of its own: each call begins in a fresh one with unlimited lines.\<close>

fun B_encoder :: "unit xcoder" where
  "B_encoder u cmd inp osize =
     (let r = base64_encoder (base64_alloc_state\<lparr>bl_max_len := 0\<rparr>) cmd inp osize
      in \<lparr>xst = (), xres = xres r, xisize = xisize r, xosize = xosize r, xout = xout r,
          xeof = xeof r, xerr = xerr r\<rparr>)"

section \<open>What the encoder owes\<close>

text \<open>Characters broken into lines of \<open>max\<close> of them, \<open>cur\<close> being already in the current line; a full
  line is ended at once.\<close>

fun b64_lines :: "nat \<Rightarrow> nat \<Rightarrow> bytes \<Rightarrow> bytes" where
  "b64_lines m cur [] = (if m \<noteq> 0 \<and> cur = m then [LF] else [])"
| "b64_lines m cur (c # cs) =
     (if m \<noteq> 0 \<and> cur = m then LF # c # b64_lines m 1 cs else c # b64_lines m (Suc cur) cs)"

lemma b64_lines_char: "\<not> (m \<noteq> 0 \<and> cur = m) \<Longrightarrow> b64_lines m cur (c # cs) = c # b64_lines m (Suc cur) cs"
  by auto

definition b64_pending :: "base64_line \<Rightarrow> bytes" where
  "b64_pending lp = (if bl_state lp = base64_init then [] else drop (bl_idx lp) (bl_save lp))"

definition base64_enc :: "base64_line \<Rightarrow> bytes \<Rightarrow> bytes" where
  "base64_enc lp bs = b64_lines (bl_max_len lp) (bl_cur_len lp) (b64_pending lp @ mu_base64_encode bs)"

definition base64_wf :: "base64_line \<Rightarrow> bool" where
  "base64_wf lp \<longleftrightarrow> bl_state lp \<noteq> base64_newline \<and> length (bl_save lp) = 3 \<and> bl_idx lp \<le> 3"

lemma b64_lines_full: "m \<noteq> 0 \<Longrightarrow> b64_lines m m cs = LF # b64_lines m 0 cs"
  by (cases cs) auto

text \<open>The code adds where the values have no bit in common, and masks where nothing is left to mask.\<close>

lemma b64_masks:
  fixes a :: byte
  shows "push_bit 4 a AND 0x3f = push_bit 4 a AND 0x30" "push_bit 2 a AND 0x3f = push_bit 2 a AND 0x3c"
    "drop_bit 4 a AND 0x3f = drop_bit 4 a" "drop_bit 6 a AND 0x3f = drop_bit 6 a"
  by (rule all_bytesI[of "\<lambda>a. push_bit 4 a AND 0x3f = push_bit 4 a AND 0x30"]; code_simp)
    (rule all_bytesI[of "\<lambda>a. push_bit 2 a AND 0x3f = push_bit 2 a AND 0x3c"]
      all_bytesI[of "\<lambda>a. drop_bit 4 a AND 0x3f = drop_bit 4 a"]
      all_bytesI[of "\<lambda>a. drop_bit 6 a AND 0x3f = drop_bit 6 a"]; code_simp)+

lemma b64_bits:
  fixes a b :: byte
  shows "(push_bit 4 a + drop_bit 4 b) AND 0x3f = (push_bit 4 a AND 0x30) OR drop_bit 4 b"
    "(push_bit 2 a + drop_bit 6 b) AND 0x3f = (push_bit 2 a AND 0x3c) OR drop_bit 6 b"
proof -
  have "push_bit 4 a + drop_bit 4 b = push_bit 4 a OR drop_bit 4 b"
    by (rule disjunctive_add) (auto simp: bit_simps dest: bit_imp_le_length)
  moreover have "push_bit 2 a + drop_bit 6 b = push_bit 2 a OR drop_bit 6 b"
    by (rule disjunctive_add) (auto simp: bit_simps dest: bit_imp_le_length)
  ultimately show "(push_bit 4 a + drop_bit 4 b) AND 0x3f = (push_bit 4 a AND 0x30) OR drop_bit 4 b"
    "(push_bit 2 a + drop_bit 6 b) AND 0x3f = (push_bit 2 a AND 0x3c) OR drop_bit 6 b"
    by (simp_all only: bit.conj_disj_distrib2 b64_masks)
qed

lemma b64_group:
  assumes "ptr \<noteq> []" "3 \<le> length ptr \<or> rest = []"
  shows "mu_base64_encode (ptr @ rest) =
    b64char (drop_bit 2 (hd ptr)) # b64_save ptr @ mu_base64_encode (drop 3 ptr @ rest)"
  using assms
  by (cases ptr rule: mu_base64_encode.cases) (auto simp: b64_save_def b64_triple_def b64_bits b64_masks(1,2))

lemma b64_save_length: "ptr \<noteq> [] \<Longrightarrow> length (b64_save ptr) = 3"
  by (cases ptr rule: mu_base64_encode.cases) (auto simp: b64_save_def)

text \<open>What one run of the loop leaves: \<open>w\<close> is written and \<open>n\<close> bytes are taken; it stops when the
  output is full, or when less than a group of input is left and nothing is pending.\<close>

definition b64_ran ::
  "nat \<Rightarrow> base64_line \<Rightarrow> bool \<Rightarrow> nat \<Rightarrow> bytes \<Rightarrow> bytes \<Rightarrow> base64_line \<times> nat \<times> bytes \<Rightarrow> bool" where
  "b64_ran osize lp pad consumed out ptr r \<longleftrightarrow>
     (\<exists>lp' n w. r = (lp', consumed + n, out @ w) \<and> n \<le> length ptr \<and> n \<le> 3 * length w \<and> length (out @ w) \<le> osize \<and>
        base64_wf lp' \<and>
        (\<forall>rest. (pad \<longrightarrow> rest = []) \<longrightarrow> base64_enc lp (ptr @ rest) = w @ base64_enc lp' (drop n ptr @ rest)) \<and>
        (length (out @ w) < osize \<longrightarrow> bl_state lp' = base64_init) \<and>
        (bl_state lp' = base64_init \<longrightarrow> length (drop n ptr) < 3 \<and> (pad \<longrightarrow> drop n ptr = []) \<and>
            base64_enc lp' [] = []))"

lemma b64_ran_step:
  assumes "b64_ran osize lp1 pad' (consumed + k) (out @ v) (drop k ptr) r"
    "\<And>rest. (pad \<longrightarrow> rest = []) \<Longrightarrow> base64_enc lp (ptr @ rest) = v @ base64_enc lp1 (drop k ptr @ rest)"
    "k \<le> length ptr" "k \<le> 3 * length v"
    "pad' \<longrightarrow> pad" "pad \<longrightarrow> pad' \<or> drop k ptr = []"
  shows "b64_ran osize lp pad consumed out ptr r"
proof -
  obtain lp' n w where r: "r = (lp', consumed + k + n, (out @ v) @ w)"
    and n: "n \<le> length (drop k ptr)" "n \<le> 3 * length w" "length (out @ v @ w) \<le> osize" "base64_wf lp'"
    and owed: "\<And>rest. (pad' \<longrightarrow> rest = []) \<Longrightarrow>
        base64_enc lp1 (drop k ptr @ rest) = w @ base64_enc lp' (drop n (drop k ptr) @ rest)"
    and stop: "length (out @ v @ w) < osize \<longrightarrow> bl_state lp' = base64_init"
      "bl_state lp' = base64_init \<longrightarrow> length (drop n (drop k ptr)) < 3 \<and>
         (pad' \<longrightarrow> drop n (drop k ptr) = []) \<and> base64_enc lp' [] = []"
    using assms(1) unfolding b64_ran_def by fastforce
  have "r = (lp', consumed + (k + n), out @ (v @ w))" using r by simp
  moreover have "k + n \<le> length ptr" using n(1) assms(3) by simp
  moreover have "k + n \<le> 3 * length (v @ w)" using n(2) assms(4) by simp
  moreover have "base64_enc lp (ptr @ rest) = (v @ w) @ base64_enc lp' (drop (k + n) ptr @ rest)"
    if "pad \<longrightarrow> rest = []" for rest
    using assms(2)[OF that] owed[of rest] assms(5) that by (simp add: add.commute)
  moreover have "bl_state lp' = base64_init \<longrightarrow> length (drop (k + n) ptr) < 3 \<and>
      (pad \<longrightarrow> drop (k + n) ptr = []) \<and> base64_enc lp' [] = []"
  proof (intro impI conjI)
    assume init: "bl_state lp' = base64_init"
    show "length (drop (k + n) ptr) < 3" "base64_enc lp' [] = []"
      using stop(2) init by (simp_all add: add.commute)
    assume pad
    with assms(6) stop(2) init show "drop (k + n) ptr = []" by auto
  qed
  ultimately show ?thesis
    unfolding b64_ran_def using n(3,4) stop(1)
    by (intro exI[of _ lp'] exI[of _ "k + n"] exI[of _ "v @ w"] conjI allI impI) (assumption | blast)+
qed

lemma b64_ran_write:
  assumes "b64_ran osize lp1 pad consumed (out @ v) ptr r"
    and "\<And>bs. base64_enc lp bs = v @ base64_enc lp1 bs"
  shows "b64_ran osize lp pad consumed out ptr r"
proof (rule b64_ran_step)
  show "b64_ran osize lp1 pad (consumed + 0) (out @ v) (drop 0 ptr) r" using assms(1) by simp
  show "base64_enc lp (ptr @ rest) = v @ base64_enc lp1 (drop 0 ptr @ rest)" for rest
    by (simp only: assms(2) drop_0)
qed simp_all

lemma b64_ran_stop:
  assumes "base64_wf lp'" "length out \<le> osize" "\<And>bs. base64_enc lp bs = base64_enc lp' bs"
    and "length out < osize \<longrightarrow> bl_state lp' = base64_init"
    and "bl_state lp' = base64_init \<longrightarrow> length ptr < 3 \<and> (pad \<longrightarrow> ptr = []) \<and> base64_enc lp' [] = []"
  shows "b64_ran osize lp pad consumed out ptr (lp', consumed, out)"
  unfolding b64_ran_def
  by (rule exI[of _ lp'], rule exI[of _ 0], rule exI[of _ "[]"]) (use assms in simp)

lemma base64_enc_newline:
  assumes "(bl_max_len lp \<noteq> 0 \<and> bl_cur_len lp = bl_max_len lp) \<or> bl_state lp = base64_newline" "base64_wf lp"
  shows "base64_enc lp bs = LF # base64_enc
     (lp\<lparr>bl_idx := (if bl_state lp = base64_init then 3 else bl_idx lp), bl_cur_len := 0,
         bl_state := base64_rollback\<rparr>) bs"
proof -
  have full: "bl_max_len lp \<noteq> 0" "bl_cur_len lp = bl_max_len lp" and "bl_state lp \<noteq> base64_newline"
    and save: "length (bl_save lp) = 3"
    using assms by (simp_all add: base64_wf_def)
  then have "b64_pending (lp\<lparr>bl_idx := (if bl_state lp = base64_init then 3 else bl_idx lp), bl_cur_len := 0,
         bl_state := base64_rollback\<rparr>) = b64_pending lp"
    by (simp add: b64_pending_def)
  then show ?thesis
    by (simp add: base64_enc_def full b64_lines_full[OF full(1)])
qed

lemma base64_encoder_loop_ran:
  assumes "base64_wf lp" "length out \<le> osize" "pad \<longrightarrow> ptr \<noteq> [] \<and> length ptr \<le> 3"
    "bl_state lp = base64_init \<longrightarrow> length out < osize"
  shows "b64_ran osize lp pad consumed out ptr (base64_encoder_loop osize lp pad consumed out ptr)"
  using assms
proof (induction osize lp pad consumed out ptr rule: base64_encoder_loop.induct)
  case (1 osize lp pad consumed out ptr)
  let ?nl = "(bl_max_len lp \<noteq> 0 \<and> bl_cur_len lp = bl_max_len lp) \<or> bl_state lp = base64_newline"
  let ?go = "base64_encoder_loop osize lp pad consumed out ptr"
  consider (full) "\<not> length out < osize"
    | (newline) "length out < osize" ?nl
    | (save) "length out < osize" "\<not> ?nl" "bl_state lp = base64_rollback" "bl_idx lp < 3"
    | (stop) "length out < osize" "\<not> ?nl" "\<not> (bl_state lp = base64_rollback \<and> bl_idx lp < 3)"
        "\<not> (3 \<le> length ptr \<or> pad)"
    | (group) "length out < osize" "\<not> ?nl" "\<not> (bl_state lp = base64_rollback \<and> bl_idx lp < 3)"
        "3 \<le> length ptr \<or> pad" "ptr \<noteq> []"
    using "1.prems"(3) by force
  then show ?case
  proof cases
    case full
    then have "?go = (lp, consumed, out)" by (simp add: base64_encoder_loop.simps)
    with full "1.prems" show ?thesis by (auto intro!: b64_ran_stop)
  next
    case newline
    let ?lp = "lp\<lparr>bl_idx := (if bl_state lp = base64_init then 3 else bl_idx lp), bl_cur_len := 0,
         bl_state := base64_rollback\<rparr>"
    have go: "?go = base64_encoder_loop osize ?lp pad consumed (out @ [LF]) ptr"
      using newline by (subst base64_encoder_loop.simps) (simp only: simp_thms if_False if_True)
    have "b64_ran osize ?lp pad consumed (out @ [LF]) ptr ?go"
      unfolding go using newline "1.prems" by (intro "1.IH"(1)) (auto simp: base64_wf_def)
    moreover have "base64_enc lp bs = [LF] @ base64_enc ?lp bs" for bs
      by (simp only: base64_enc_newline[OF newline(2) "1.prems"(1), of bs] append.simps)
    ultimately show ?thesis by (rule b64_ran_write)
  next
    case save
    let ?lp = "lp\<lparr>bl_idx := Suc (bl_idx lp), bl_cur_len := Suc (bl_cur_len lp)\<rparr>"
    let ?v = "[bl_save lp ! bl_idx lp]"
    have go: "?go = base64_encoder_loop osize ?lp pad consumed (out @ ?v) ptr"
      using save by (subst base64_encoder_loop.simps) (simp only: simp_thms if_True if_False)
    have "b64_ran osize ?lp pad consumed (out @ ?v) ptr ?go"
      unfolding go using save "1.prems" by (intro "1.IH"(2)) (auto simp: base64_wf_def)
    moreover have "base64_enc lp bs = ?v @ base64_enc ?lp bs" for bs
      using save(3,4) "1.prems"(1) b64_lines_char[of "bl_max_len lp" "bl_cur_len lp"] save(2)
      by (simp add: base64_enc_def b64_pending_def base64_wf_def Cons_nth_drop_Suc[symmetric] del: b64_lines.simps)
    ultimately show ?thesis by (rule b64_ran_write)
  next
    case stop
    have go: "?go = (lp\<lparr>bl_state := base64_init\<rparr>, consumed, out)"
      using stop by (subst base64_encoder_loop.simps) (simp only: simp_thms if_True if_False)
    have "b64_pending lp = []"
      using stop "1.prems"(1) by (cases "bl_state lp") (auto simp: b64_pending_def base64_wf_def)
    then have "base64_enc lp bs = base64_enc (lp\<lparr>bl_state := base64_init\<rparr>) bs" for bs
      by (simp add: base64_enc_def b64_pending_def)
    moreover have "base64_enc (lp\<lparr>bl_state := base64_init\<rparr>) [] = []"
      using stop(2) by (auto simp: base64_enc_def b64_pending_def)
    ultimately show ?thesis
      unfolding go using stop "1.prems" by (intro b64_ran_stop) (auto simp: base64_wf_def)
  next
    case group
    let ?lp = "lp\<lparr>bl_save := b64_save ptr, bl_idx := 0, bl_cur_len := Suc (bl_cur_len lp),
         bl_state := base64_rollback\<rparr>"
    let ?v = "[b64char (drop_bit 2 (hd ptr))]"
    have go: "?go = base64_encoder_loop osize ?lp False (consumed + min 3 (length ptr)) (out @ ?v) (drop 3 ptr)"
      using group by (subst base64_encoder_loop.simps) (simp only: simp_thms if_True if_False)
    have "b64_ran osize ?lp False (consumed + min 3 (length ptr)) (out @ ?v) (drop 3 ptr) ?go"
      unfolding go using group "1.prems" b64_save_length[OF group(5)]
      by (intro "1.IH"(4)) (auto simp: base64_wf_def)
    moreover have "drop (min 3 (length ptr)) ptr = drop 3 ptr" by (simp add: min_def)
    ultimately have "b64_ran osize ?lp False (consumed + min 3 (length ptr)) (out @ ?v) (drop (min 3 (length ptr)) ptr) ?go"
      by (simp only:)
    moreover have "b64_pending lp = []"
      using group "1.prems"(1) by (cases "bl_state lp") (auto simp: b64_pending_def base64_wf_def)
    then have "base64_enc lp (ptr @ rest) = ?v @ base64_enc ?lp (drop (min 3 (length ptr)) ptr @ rest)"
      if "pad \<longrightarrow> rest = []" for rest
      using group(2,4) b64_group[OF group(5), of rest] that b64_lines_char[of "bl_max_len lp" "bl_cur_len lp"]
      by (auto simp: base64_enc_def b64_pending_def min_def simp del: b64_lines.simps)
    ultimately show ?thesis
      by (rule b64_ran_step) (use "1.prems"(3) in auto)
  qed
qed

section \<open>The encoder keeps its contract\<close>

definition base64_run :: "filter_command \<Rightarrow> base64_line \<Rightarrow> bytes \<Rightarrow> nat \<Rightarrow> base64_line \<times> nat \<times> bytes" where
  "base64_run cmd lp inp osize = base64_encoder_loop osize lp (inp \<noteq> [] \<and> length inp \<le> 3) 0 [] inp"

lemma base64_run_ran:
  assumes "base64_wf lp" "4 \<le> osize"
  obtains lp' n w where "base64_run cmd lp inp osize = (lp', n, w)" "n \<le> length inp" "n \<le> 3 * length w"
    "length w \<le> osize" "base64_wf lp'"
    "\<And>rest. inp = [] \<or> 3 < length inp \<or> rest = [] \<Longrightarrow>
       base64_enc lp (inp @ rest) = w @ base64_enc lp' (drop n inp @ rest)"
    "length w < osize \<Longrightarrow> bl_state lp' = base64_init"
    "bl_state lp' = base64_init \<Longrightarrow> length (drop n inp) < 3 \<and> base64_enc lp' [] = [] \<and>
       (length inp \<le> 3 \<longrightarrow> drop n inp = [])"
proof -
  let ?pad = "inp \<noteq> [] \<and> length inp \<le> 3"
  have "b64_ran osize lp ?pad 0 [] inp (base64_run cmd lp inp osize)"
    unfolding base64_run_def by (rule base64_encoder_loop_ran) (use assms in auto)
  then obtain lp' n w where "base64_run cmd lp inp osize = (lp', n, w)" "n \<le> length inp" "n \<le> 3 * length w"
    "length w \<le> osize" "base64_wf lp'"
    and owed: "\<forall>rest. (?pad \<longrightarrow> rest = []) \<longrightarrow> base64_enc lp (inp @ rest) = w @ base64_enc lp' (drop n inp @ rest)"
    and "length w < osize \<longrightarrow> bl_state lp' = base64_init"
    and stop: "bl_state lp' = base64_init \<longrightarrow> length (drop n inp) < 3 \<and> (?pad \<longrightarrow> drop n inp = []) \<and> base64_enc lp' [] = []"
    unfolding b64_ran_def by auto
  moreover have "base64_enc lp (inp @ rest) = w @ base64_enc lp' (drop n inp @ rest)"
    if "inp = [] \<or> 3 < length inp \<or> rest = []" for rest
    by (rule owed[rule_format]) (use that in auto)
  moreover have "bl_state lp' = base64_init \<Longrightarrow> length (drop n inp) < 3 \<and> base64_enc lp' [] = [] \<and>
       (length inp \<le> 3 \<longrightarrow> drop n inp = [])"
    using stop by (cases "inp = []") auto
  ultimately show ?thesis by (intro that) auto
qed

lemma base64_encoder_cases:
  assumes "cmd \<in> {mu_filter_xcode, mu_filter_lastbuf}"
  shows "base64_encoder lp cmd inp osize =
     (if osize < 4 then x_moreoutput lp (length inp) 4
      else if inp \<noteq> [] \<and> length inp \<le> 3 \<and> cmd = mu_filter_xcode then x_moreinput lp 4 osize
      else base64_encoder_finish cmd (length inp) (base64_run cmd lp inp osize))"
  using assms by (auto simp: base64_run_def)

lemmas base64_encoder_quiet = base64_encoder.simps(1,2)

declare base64_encoder.simps [simp del]

lemma base64_finish:
  assumes "n \<le> isize"
  shows "base64_encoder_finish cmd isize (lp, n, w) =
    (x_ret (if cmd = mu_filter_lastbuf \<and> (n < isize \<or> bl_state lp = base64_rollback)
            then mu_filter_again else mu_filter_ok) lp n w)\<lparr>xeof := (isize = 0)\<rparr>"
  using assms by (simp add: base64_encoder_finish_def Let_def min_def)

lemma base64_encoder_xcode_follows:
  assumes "base64_wf lp"
  shows "follows base64_enc osize lp 0 [] inp (base64_encoder lp mu_filter_xcode inp osize)"
proof (cases "osize < 4 \<or> (inp \<noteq> [] \<and> length inp \<le> 3)")
  case True
  then show ?thesis
    by (auto simp: base64_encoder_cases intro!: follows_moreoutput follows_moreinput)
next
  case False
  obtain lp' n w where r: "base64_run mu_filter_xcode lp inp osize = (lp', n, w)" "n \<le> length inp"
    "length w \<le> osize" and owed: "\<And>rest. inp = [] \<or> 3 < length inp \<or> rest = [] \<Longrightarrow>
       base64_enc lp (inp @ rest) = w @ base64_enc lp' (drop n inp @ rest)"
    by (rule base64_run_ran[of lp osize mu_filter_xcode inp]) (use assms False in auto)
  have "base64_encoder lp mu_filter_xcode inp osize = (x_ok lp' n w)\<lparr>xeof := (inp = [])\<rparr>"
    using False r by (auto simp: base64_encoder_cases base64_finish)
  with False r owed show ?thesis
    by (auto simp: follows_def x_defs)
qed

lemma base64_encoder_last_finishes:
  assumes "base64_wf lp"
  shows "finishes base64_enc osize lp inp (base64_encoder lp mu_filter_lastbuf inp osize)"
proof (cases "osize < 4")
  case True
  then show ?thesis by (simp add: base64_encoder_cases finishes_def x_defs)
next
  case False
  obtain lp' n w where r: "base64_run mu_filter_lastbuf lp inp osize = (lp', n, w)" "n \<le> length inp"
    "length w \<le> osize" and wf: "base64_wf lp'" and owed: "\<And>rest. inp = [] \<or> 3 < length inp \<or> rest = [] \<Longrightarrow>
       base64_enc lp (inp @ rest) = w @ base64_enc lp' (drop n inp @ rest)"
    and stop: "bl_state lp' = base64_init \<Longrightarrow> length (drop n inp) < 3 \<and> base64_enc lp' [] = [] \<and>
       (length inp \<le> 3 \<longrightarrow> drop n inp = [])"
    by (rule base64_run_ran[of lp osize mu_filter_lastbuf inp]) (use assms False in auto)
  have e: "base64_encoder lp mu_filter_lastbuf inp osize =
    (x_ret (if n < length inp \<or> bl_state lp' = base64_rollback then mu_filter_again else mu_filter_ok)
       lp' n w)\<lparr>xeof := (inp = [])\<rparr>"
    using False r by (auto simp: base64_encoder_cases base64_finish)
  have "bl_state lp' \<noteq> base64_newline" using wf by (simp add: base64_wf_def)
  then have "bl_state lp' \<noteq> base64_rollback \<Longrightarrow> base64_enc lp' [] = []"
    using stop by (cases "bl_state lp'") auto
  with owed[of "[]"] r show ?thesis
    unfolding e by (auto simp: finishes_def x_defs)
qed

lemma base64_encoder_keeps_wf:
  assumes "base64_wf lp"
  shows "base64_wf (xst (base64_encoder lp cmd inp osize))"
proof (cases "cmd \<in> {mu_filter_init, mu_filter_done} \<or> osize < 4 \<or>
    inp \<noteq> [] \<and> length inp \<le> 3 \<and> cmd \<noteq> mu_filter_lastbuf")
  case True
  with assms show ?thesis by (cases cmd) (auto simp: x_defs base64_wf_def base64_encoder.simps)
next
  case False
  then have osize: "4 \<le> osize" by simp
  obtain lp' n w where r: "base64_run cmd lp inp osize = (lp', n, w)" "n \<le> length inp" and wf: "base64_wf lp'"
    by (rule base64_run_ran[OF assms osize, of cmd inp])
  have "base64_encoder lp cmd inp osize = base64_encoder_finish cmd (length inp) (lp', n, w)"
    using False r(1) by (cases cmd) (auto simp: base64_run_def base64_encoder.simps)
  with r(2) wf show ?thesis by (simp add: base64_finish x_ret_def)
qed

interpretation base64_enc: full_xcoder base64_encoder base64_enc base64_wf
  by unfold_locales
    (simp_all add: base64_encoder_xcode_follows base64_encoder_last_finishes base64_encoder_keeps_wf)

lemma base64_encoder_no_failure:
  assumes "base64_wf lp" "cmd \<in> {mu_filter_xcode, mu_filter_lastbuf}"
  shows "xres (base64_encoder lp cmd inp osize) \<noteq> mu_filter_failure"
  using assms(2) by (auto simp: base64_encoder_cases base64_encoder_finish_def Let_def x_defs
      split: prod.split)

interpretation base64_enc: total_xcoder base64_encoder base64_enc base64_wf
  by unfold_locales (simp add: base64_encoder_no_failure)

end
