(* ===== verification/Flt_Qp.thy ===== *)
theory Flt_Qp
  imports Xcoder Ctype
begin

text \<open>
  The quoted-printable filter and its variant Q for message headers
  (\<open>libmailutils/filter/qpflt.c\<close>). The state of both is the string of special characters, if any.
\<close>

section \<open>The decoder\<close>

definition ISWS :: "byte \<Rightarrow> bool" where
  "ISWS c \<longleftrightarrow> c = SPC \<or> c = TAB"

text \<open>\<open>strtoul\<close> in base 16 on a string of two characters, converted to \<open>char\<close>: the blanks are those of
  \<open>isspace\<close>, a sign may follow, and the digits end with the first character that is none.\<close>

definition hex_digit :: "byte \<Rightarrow> byte option" where
  "hex_digit c =
     (if 48 \<le> c \<and> c \<le> 57 then Some (c - 48)
      else if 65 \<le> c \<and> c \<le> 70 then Some (c - 55)
      else if 97 \<le> c \<and> c \<le> 102 then Some (c - 87)
      else None)"

definition strtoul16 :: "byte \<Rightarrow> byte \<Rightarrow> byte" where
  "strtoul16 d e =
     (case hex_digit d of
        Some x \<Rightarrow> (case hex_digit e of Some y \<Rightarrow> 16 * x + y | None \<Rightarrow> x)
      | None \<Rightarrow>
          if d = SPC \<or> (9 \<le> d \<and> d \<le> 13) \<or> d = 43 then (case hex_digit e of Some y \<Rightarrow> y | None \<Rightarrow> 0)
          else if d = 45 then (case hex_digit e of Some y \<Rightarrow> - y | None \<Rightarrow> 0)
          else 0)"

text \<open>\<open>strchr\<close> also finds the NUL at the end.\<close>

definition qp_special :: "bytes option \<Rightarrow> byte \<Rightarrow> bool" where
  "qp_special specials c \<longleftrightarrow> (case specials of None \<Rightarrow> False | Some s \<Rightarrow> c \<in> set s \<or> c = NUL)"

text \<open>
  The position in the input (\<open>iptr\<close>, here the input that is left) and the count of consumed bytes do
  not always agree, so a read of the empty rest is one behind the end of the window. \<open>ws\<close> are the
  \<open>wscount\<close> blanks before \<open>iptr\<close>. The test of \<open>chr[0]\<close> for a newline never succeeds, the newline has
  been excluded before.
\<close>

fun qp_decoder_loop ::
  "filter_command \<Rightarrow> bytes option \<Rightarrow> nat \<Rightarrow> nat \<Rightarrow> nat \<Rightarrow> bytes \<Rightarrow> bytes \<Rightarrow> bytes \<Rightarrow> bytes option xcoded" where
  "qp_decoder_loop cmd xd isize osize consumed ws out iptr =
     (if \<not> (consumed < isize \<and> length out < osize) then x_ok xd (consumed - length ws) out
      else case iptr of
        [] \<Rightarrow> x_failure xd OUT_OF_BOUNDS
      | c # iptr \<Rightarrow>
          if ISWS c then qp_decoder_loop cmd xd isize osize (Suc consumed) (ws @ [c]) out iptr
          else
            let sz = (if ws \<noteq> [] \<and> c \<noteq> CR \<and> c \<noteq> LF then min (osize - length out) (length ws) else 0);
                out = out @ take sz ws
            in if ws \<noteq> [] \<and> c \<noteq> CR \<and> c \<noteq> LF \<and> sz < length ws
               then x_ok xd (consumed - (length ws - sz)) out
               else if ws \<noteq> [] \<and> length out = osize then x_ok xd consumed out
               else if c = EQ_C then
                 (if consumed + 1 = isize then x_ok xd consumed out
                  else case iptr of
                    [] \<Rightarrow> x_failure xd OUT_OF_BOUNDS
                  | d # iptr \<Rightarrow>
                      if d = LF then qp_decoder_loop cmd xd isize osize (consumed + 1) [] out iptr
                      else if consumed + 2 \<ge> isize then x_ok xd consumed out
                      else case iptr of
                        [] \<Rightarrow> x_failure xd OUT_OF_BOUNDS
                      | e # iptr \<Rightarrow>
                          if d = CR \<and> e = LF then qp_decoder_loop cmd xd isize osize (consumed + 2) [] out iptr
                          else qp_decoder_loop cmd xd isize osize (consumed + 3) [] (out @ [strtoul16 d e]) iptr)
               else if c = CR then
                 (if consumed + 1 \<ge> isize
                  then x_ok xd (if cmd = mu_filter_lastbuf then consumed + 1 else consumed) out
                  else case iptr of
                    [] \<Rightarrow> x_failure xd OUT_OF_BOUNDS
                  | d # iptr \<Rightarrow> qp_decoder_loop cmd xd isize osize (consumed + 2) [] (out @ [LF]) iptr)
               else if c = USCORE \<and> qp_special xd c
               then qp_decoder_loop cmd xd isize osize (Suc consumed) [] (out @ [SPC]) iptr
               else qp_decoder_loop cmd xd isize osize (Suc consumed) [] (out @ [c]) iptr)"

declare qp_decoder_loop.simps [simp del]

fun qp_decoder :: "bytes option xcoder" where
  "qp_decoder xd mu_filter_init inp osize = x_quiet xd inp osize"
| "qp_decoder xd mu_filter_done inp osize = x_quiet xd inp osize"
| "qp_decoder xd cmd inp osize = qp_decoder_loop cmd xd (length inp) osize 0 [] [] inp"

section \<open>The encoder\<close>

definition hexdigits :: bytes where
  "hexdigits = bytes_of ''0123456789ABCDEF''"

definition qp_simple_char :: "bytes option \<Rightarrow> byte \<Rightarrow> bool" where
  "qp_simple_char xd c \<longleftrightarrow>
     (if qp_special xd c then False else (32 \<le> c \<and> c \<le> 60) \<or> (62 \<le> c \<and> c \<le> 126) \<or> c = TAB \<or> c = LF)"

fun qp_encoder_loop :: "bytes option \<Rightarrow> nat \<Rightarrow> nat \<Rightarrow> bytes \<Rightarrow> bytes \<Rightarrow> bytes option xcoded" where
  "qp_encoder_loop xd osize consumed out [] = x_ok xd consumed out"
| "qp_encoder_loop xd osize consumed out (c # iptr) =
     (if qp_simple_char xd c then
        (if length out + 1 > osize then x_ok xd consumed out
         else qp_encoder_loop xd osize (Suc consumed)
                (out @ [if c = SPC \<and> qp_special xd USCORE then USCORE else c]) iptr)
      else
        (if length out + 3 > osize then x_ok xd consumed out
         else qp_encoder_loop xd osize (Suc consumed)
                (out @ [EQ_C, hexdigits ! unat (drop_bit 4 c AND 0xf), hexdigits ! unat (c AND 0xf)]) iptr))"

fun qp_encoder :: "bytes option xcoder" where
  "qp_encoder xd mu_filter_init inp osize = x_quiet xd inp osize"
| "qp_encoder xd mu_filter_done inp osize = x_quiet xd inp osize"
| "qp_encoder xd cmd inp osize = qp_encoder_loop xd osize 0 [] inp"

definition alloc_Q :: "bytes option" where
  "alloc_Q = Some (bytes_of ''_?'')"

section \<open>The encoder follows a reference\<close>

definition qp_quote :: "bytes option \<Rightarrow> byte \<Rightarrow> bytes" where
  "qp_quote xd c =
     (if qp_simple_char xd c then [if c = SPC \<and> qp_special xd USCORE then USCORE else c]
      else [EQ_C, hexdigits ! unat (drop_bit 4 c AND 0xf), hexdigits ! unat (c AND 0xf)])"

definition qp_enc :: "bytes option \<Rightarrow> bytes \<Rightarrow> bytes" where
  "qp_enc xd bs = concat (map (qp_quote xd) bs)"

lemma qp_enc_simps [simp]: "qp_enc xd [] = []" "qp_enc xd (c # bs) = qp_quote xd c @ qp_enc xd bs"
  by (simp_all add: qp_enc_def)

lemma qp_encoder_follows:
  "length out \<le> osize \<Longrightarrow> follows qp_enc osize xd i out inp (qp_encoder_loop xd osize i out inp)"
proof (induction xd osize i out inp rule: qp_encoder_loop.induct)
  case (2 xd osize i out c iptr)
  then show ?case
    by (auto intro!: follows_step follows_stop simp: qp_quote_def)
qed (simp add: follows_stop)

lemma qp_encoder_no_failure: "xres (qp_encoder_loop xd osize i out inp) = mu_filter_ok"
  by (induction xd osize i out inp rule: qp_encoder_loop.induct) (auto simp: x_defs)

interpretation qp_enc: plain_xcoder qp_encoder qp_enc "\<lambda>_. True"
  by unfold_locales (simp_all add: qp_encoder_follows fun_eq_iff)

interpretation qp_enc: total_xcoder qp_encoder qp_enc "\<lambda>_. True"
  by unfold_locales (simp add: qp_encoder_no_failure)

section \<open>Round trip\<close>

text \<open>The blanks that are written as they are, and text in which none ends a line: the decoder drops
  those, as RFC 2045 has it, but the encoder does not quote them.\<close>

definition qp_blank :: "bytes option \<Rightarrow> byte \<Rightarrow> bool" where
  "qp_blank xd c \<longleftrightarrow> ISWS c \<and> qp_quote xd c = [c]"

fun qp_clean :: "bytes option \<Rightarrow> bool \<Rightarrow> bytes \<Rightarrow> bool" where
  "qp_clean xd blank [] \<longleftrightarrow> \<not> blank"
| "qp_clean xd blank (c # cs) \<longleftrightarrow>
     (if qp_blank xd c then qp_clean xd True cs else (blank \<longrightarrow> qp_quote xd c \<noteq> [LF]) \<and> qp_clean xd False cs)"

lemma hex_quote:
  "strtoul16 (hexdigits ! unat (drop_bit 4 c AND 0xf)) (hexdigits ! unat (c AND 0xf)) = c"
  "hexdigits ! unat (drop_bit 4 c AND 0xf) \<noteq> LF" "hexdigits ! unat (drop_bit 4 c AND 0xf) \<noteq> CR"
  by (rule all_bytesI[of "\<lambda>c. strtoul16 (hexdigits ! unat (drop_bit 4 c AND 0xf)) (hexdigits ! unat (c AND 0xf)) = c"]; code_simp)
    (rule all_bytesI[of "\<lambda>c. hexdigits ! unat (drop_bit 4 c AND 0xf) \<noteq> LF"]
      all_bytesI[of "\<lambda>c. hexdigits ! unat (drop_bit 4 c AND 0xf) \<noteq> CR"]; code_simp)+

text \<open>What the loop does with one item of encoded text, the pending blanks before it.\<close>

lemma qp_step_blank:
  "consumed < isize \<Longrightarrow> length out < osize \<Longrightarrow> ISWS c \<Longrightarrow>
   qp_decoder_loop cmd xd isize osize consumed ws out (c # rest) =
   qp_decoder_loop cmd xd isize osize (Suc consumed) (ws @ [c]) out rest"
  by (subst qp_decoder_loop.simps) simp

lemma qp_step_char:
  "consumed < isize \<Longrightarrow> length (out @ ws) < osize \<Longrightarrow> \<not> ISWS c \<Longrightarrow> c \<noteq> EQ_C \<Longrightarrow> c \<noteq> CR \<Longrightarrow>
   (c = LF \<longrightarrow> ws = []) \<Longrightarrow>
   qp_decoder_loop cmd xd isize osize consumed ws out (c # rest) =
   qp_decoder_loop cmd xd isize osize (Suc consumed) []
     (out @ ws @ [if c = USCORE \<and> qp_special xd c then SPC else c]) rest"
  by (subst qp_decoder_loop.simps) (auto simp: min_absorb2 Let_def)

lemma qp_step_quoted:
  "consumed + 2 < isize \<Longrightarrow> length (out @ ws) < osize \<Longrightarrow> d \<noteq> LF \<Longrightarrow> d \<noteq> CR \<Longrightarrow>
   qp_decoder_loop cmd xd isize osize consumed ws out (EQ_C # d # e # rest) =
   qp_decoder_loop cmd xd isize osize (consumed + 3) [] (out @ ws @ [strtoul16 d e]) rest"
  by (subst qp_decoder_loop.simps) (auto simp: min_absorb2 ISWS_def )

lemma qp_stop: "\<not> (consumed < isize \<and> length out < osize) \<Longrightarrow>
   qp_decoder_loop cmd xd isize osize consumed ws out iptr = x_ok xd (consumed - length ws) out"
  by (subst qp_decoder_loop.simps) simp

lemma qp_quote_cases:
  obtains (blank) "qp_blank xd c" "qp_quote xd c = [c]" "ISWS c"
  | (char) b where "\<not> qp_blank xd c" "qp_quote xd c = [b]" "\<not> ISWS b" "b \<noteq> EQ_C" "b \<noteq> CR"
      "(if b = USCORE \<and> qp_special xd b then SPC else b) = c"
  | (quoted) d e where "\<not> qp_blank xd c" "qp_quote xd c = [EQ_C, d, e]" "d \<noteq> LF" "d \<noteq> CR" "strtoul16 d e = c"
proof (cases "qp_simple_char xd c")
  case False
  then show thesis by (auto intro!: quoted simp: qp_quote_def hex_quote qp_blank_def)
next
  case True
  show thesis
  proof (cases "ISWS c \<and> \<not> (c = SPC \<and> qp_special xd USCORE)")
    case ws: True
    with True show thesis by (intro blank) (auto simp: qp_blank_def qp_quote_def)
  next
    case False
    with True show thesis
      by (intro char[of "if c = SPC \<and> qp_special xd USCORE then USCORE else c"])
        (auto simp: qp_blank_def qp_quote_def qp_simple_char_def ISWS_def 
          split: if_splits)
  qed
qed

lemma qp_decoder_inverts:
  "qp_clean xd (ws \<noteq> []) bs \<Longrightarrow> length (out @ ws @ bs) < osize \<Longrightarrow> isize = consumed + length (qp_enc xd bs) \<Longrightarrow>
   qp_decoder_loop cmd xd isize osize consumed ws out (qp_enc xd bs) = x_ok xd isize (out @ ws @ bs)"
proof (induction bs arbitrary: ws out consumed)
  case Nil
  then show ?case by (simp add: qp_stop)
next
  case (Cons c bs)
  note IH = Cons.IH[of "ws @ [c]" out "Suc consumed"] Cons.IH[of "[]" "out @ ws @ [c]"]
  show ?case
  proof (cases rule: qp_quote_cases[of xd c])
    case blank
    then show ?thesis using IH(1) Cons.prems by (simp add: qp_step_blank)
  next
    case (char b)
    then show ?thesis using IH(2)[of "Suc consumed"] Cons.prems qp_step_char[of consumed isize out ws osize b cmd xd]
      by (auto simp del: char(6)) 
  next
    case (quoted d e)
    then show ?thesis using IH(2)[of "consumed + 3"] Cons.prems by (simp add: qp_step_quoted)
  qed
qed

section \<open>Soft line breaks\<close>

definition qp_plain :: "byte \<Rightarrow> bool" where
  "qp_plain c \<longleftrightarrow> \<not> ISWS c \<and> c \<noteq> EQ_C \<and> c \<noteq> CR \<and> c \<noteq> USCORE"

lemma qp_plain_run:
  "list_all qp_plain xs \<Longrightarrow> consumed + length xs \<le> isize \<Longrightarrow> length out + length xs < osize \<Longrightarrow>
   qp_decoder_loop cmd xd isize osize consumed [] out (xs @ rest) =
   qp_decoder_loop cmd xd isize osize (consumed + length xs) [] (out @ xs) rest"
  by (induction xs arbitrary: consumed out) (auto simp: qp_step_char qp_plain_def)

lemma qp_step_break:
  "consumed + 1 < isize \<Longrightarrow> length out < osize \<Longrightarrow>
   qp_decoder_loop cmd xd isize osize consumed [] out (EQ_C # LF # rest) =
   qp_decoder_loop cmd xd isize osize (consumed + 1) [] out rest"
  by (subst qp_decoder_loop.simps) (auto simp: ISWS_def )

lemma qp_soft_break_loop:
  assumes "list_all qp_plain (xs @ ys)" "length (xs @ ys) < osize" "isize = length (xs @ [EQ_C, LF] @ ys)"
  shows "qp_decoder_loop cmd xd isize osize 0 [] [] (xs @ [EQ_C, LF] @ ys) = x_failure xd OUT_OF_BOUNDS"
proof -
  have "qp_decoder_loop cmd xd isize osize 0 [] [] (xs @ [EQ_C, LF] @ ys) =
      qp_decoder_loop cmd xd isize osize (length xs + 1) [] xs ys"
    using assms by (simp add: qp_plain_run qp_step_break)
  also have "\<dots> = qp_decoder_loop cmd xd isize osize (length xs + 1 + length ys) [] (xs @ ys) []"
    using assms qp_plain_run[of ys "length xs + 1" isize xs osize cmd xd "[]"] by simp
  also have "\<dots> = x_failure xd OUT_OF_BOUNDS"
    using assms by (subst qp_decoder_loop.simps) simp
  finally show ?thesis .
qed

end
