(* ===== verification/Filter_Instances.thy ===== *)
theory Filter_Instances
  imports Filter_Live Flt_Crlf Flt_Dot Flt_Crlfdot Flt_Escape Flt_Line Flt_Base64 Flt_Qp
begin

text \<open>
  The filters as instances of the contract the filter stream relies on, over memory streams:
  each transcoder is shown to make progress and to speak as long as something is owed, so
  the total correctness of reading holds for it.
\<close>

named_theorems xcode_loops \<open>equations of the transcoder loops, unfolded for one turn\<close>

lemma ms_read_ok: "\<exists>p. ms_stream_read t n = Inr p"
  by (simp add: ms_stream_read_def split: prod.split)

text \<open>A call that got past its first byte with something written (or nothing owed).\<close>

definition stepped :: "bytes \<Rightarrow> 's xcoded \<Rightarrow> bool" where
  "stepped owed r \<longleftrightarrow>
     (xres r = mu_filter_ok \<longrightarrow> (0 < xisize r \<or> xeof r) \<and> (xout r = [] \<longrightarrow> owed = [])) \<and>
     xres r \<notin> {mu_filter_moreinput, mu_filter_moreoutput}"

lemma steppedI:
  assumes "follows spec osize st' (Suc i) out inp' r" "out \<noteq> [] \<or> owed = []"
  shows "stepped owed r"
proof -
  have "xres r = mu_filter_ok \<Longrightarrow> 0 < xisize r" using assms(1) by (force simp: follows_def)
  moreover have "xres r \<notin> {mu_filter_moreinput, mu_filter_moreoutput}"
    using assms(1) by (force simp: follows_def)
  ultimately show ?thesis
    using follows_wrote[OF assms(1)] assms(2) by (simp add: stepped_def)
qed

lemma stepped_ok: "0 < i \<Longrightarrow> out \<noteq> [] \<or> owed = [] \<Longrightarrow> stepped owed (x_ok st i out)"
  by (simp add: stepped_def x_defs)

lemma stepped_eof: "owed = [] \<Longrightarrow> stepped owed (x_eof st i out)"
  by (simp add: stepped_def x_defs)

lemma stepped_lively: "stepped owed r \<Longrightarrow> lively lim inp r"
  by (auto simp: stepped_def lively_def)

lemma stepped_speaks: "stepped owed r \<Longrightarrow> xres r = mu_filter_ok \<Longrightarrow> xout r = [] \<Longrightarrow> owed = []"
  by (simp add: stepped_def)

section \<open>Plain filters\<close>

lemma crlf_encoder_stepped:
  "MU_FILTER_BUF_SIZE \<le> osize \<Longrightarrow> inp \<noteq> [] \<Longrightarrow> stepped owed (crlf_encoder st mu_filter_xcode inp osize)"
  by (cases inp) (auto simp: MU_FILTER_BUF_SIZE_def intro!: steppedI[OF crlf_encoder_follows])

lemma dq_encoder_stepped:
  "MU_FILTER_BUF_SIZE \<le> osize \<Longrightarrow> inp \<noteq> [] \<Longrightarrow> stepped owed (dq_encoder st mu_filter_xcode inp osize)"
  by (cases inp) (auto simp: MU_FILTER_BUF_SIZE_def intro!: steppedI[OF dq_encoder_follows])

lemma c_escape_encoder_stepped:
  "MU_FILTER_BUF_SIZE \<le> osize \<Longrightarrow> inp \<noteq> [] \<Longrightarrow> stepped owed (c_escape_encoder st mu_filter_xcode inp osize)"
  by (cases inp) (auto simp: MU_FILTER_BUF_SIZE_def intro!: steppedI[OF c_escape_encoder_follows] simp: Let_def)

lemma percent_encoder_stepped:
  "MU_FILTER_BUF_SIZE \<le> osize \<Longrightarrow> inp \<noteq> [] \<Longrightarrow> stepped owed (percent_encoder st mu_filter_xcode inp osize)"
  by (cases inp) (auto simp: MU_FILTER_BUF_SIZE_def intro!: steppedI[OF percent_encoder_follows] simp: percent_triple_def)

lemma qp_encoder_stepped:
  "MU_FILTER_BUF_SIZE \<le> osize \<Longrightarrow> inp \<noteq> [] \<Longrightarrow> stepped owed (qp_encoder st mu_filter_xcode inp osize)"
  by (cases inp) (auto simp: MU_FILTER_BUF_SIZE_def intro!: steppedI[OF qp_encoder_follows])

lemma hflt_decoder_stepped:
  "MU_FILTER_BUF_SIZE \<le> osize \<Longrightarrow> inp \<noteq> [] \<Longrightarrow>
   stepped (hflt_dec pd inp) (hflt_decoder pd mu_filter_xcode inp osize)"
  by (cases inp)
    (auto simp: MU_FILTER_BUF_SIZE_def intro!: steppedI[OF hflt_decoder_follows] stepped_eof split: prod.split bool.split)

interpretation crlf_enc: live_plain_xcoder crlf_encoder "crlf_enc" "\<lambda>_. True" 0
proof unfold_locales
  fix st osize and inp :: bytes
  assume "inp \<noteq> []" "MU_FILTER_BUF_SIZE \<le> osize"
  note s = crlf_encoder_stepped[OF this(2,1)]
  show "lively 0 inp (crlf_encoder st mu_filter_xcode inp osize)"
    by (rule stepped_lively[OF s])
  show "xres (crlf_encoder st mu_filter_xcode inp osize) = mu_filter_ok \<Longrightarrow>
       xout (crlf_encoder st mu_filter_xcode inp osize) = [] \<Longrightarrow> crlf_enc st inp = []"
    by (rule stepped_speaks[OF s])
qed (simp_all add: x_defs)

interpretation dq_enc: live_plain_xcoder dq_encoder "dq_enc" "\<lambda>_. True" 0
proof unfold_locales
  fix st osize and inp :: bytes
  assume "inp \<noteq> []" "MU_FILTER_BUF_SIZE \<le> osize"
  note s = dq_encoder_stepped[OF this(2,1)]
  show "lively 0 inp (dq_encoder st mu_filter_xcode inp osize)"
    by (rule stepped_lively[OF s])
  show "xres (dq_encoder st mu_filter_xcode inp osize) = mu_filter_ok \<Longrightarrow>
       xout (dq_encoder st mu_filter_xcode inp osize) = [] \<Longrightarrow> dq_enc st inp = []"
    by (rule stepped_speaks[OF s])
qed (simp_all add: x_defs)

interpretation c_escape_enc: live_plain_xcoder c_escape_encoder "c_escape_enc" "\<lambda>_. True" 0
proof unfold_locales
  fix st osize and inp :: bytes
  assume "inp \<noteq> []" "MU_FILTER_BUF_SIZE \<le> osize"
  note s = c_escape_encoder_stepped[OF this(2,1)]
  show "lively 0 inp (c_escape_encoder st mu_filter_xcode inp osize)"
    by (rule stepped_lively[OF s])
  show "xres (c_escape_encoder st mu_filter_xcode inp osize) = mu_filter_ok \<Longrightarrow>
       xout (c_escape_encoder st mu_filter_xcode inp osize) = [] \<Longrightarrow> c_escape_enc st inp = []"
    by (rule stepped_speaks[OF s])
qed (simp_all add: x_defs)

interpretation percent_enc: live_plain_xcoder percent_encoder "percent_enc" "\<lambda>_. True" 0
proof unfold_locales
  fix st osize and inp :: bytes
  assume "inp \<noteq> []" "MU_FILTER_BUF_SIZE \<le> osize"
  note s = percent_encoder_stepped[OF this(2,1)]
  show "lively 0 inp (percent_encoder st mu_filter_xcode inp osize)"
    by (rule stepped_lively[OF s])
  show "xres (percent_encoder st mu_filter_xcode inp osize) = mu_filter_ok \<Longrightarrow>
       xout (percent_encoder st mu_filter_xcode inp osize) = [] \<Longrightarrow> percent_enc st inp = []"
    by (rule stepped_speaks[OF s])
qed (simp_all add: x_defs)

interpretation qp_enc: live_plain_xcoder qp_encoder qp_enc "\<lambda>_. True" 0
proof unfold_locales
  fix st osize and inp :: bytes
  assume "inp \<noteq> []" "MU_FILTER_BUF_SIZE \<le> osize"
  note s = qp_encoder_stepped[OF this(2,1)]
  show "lively 0 inp (qp_encoder st mu_filter_xcode inp osize)"
    by (rule stepped_lively[OF s])
  show "xres (qp_encoder st mu_filter_xcode inp osize) = mu_filter_ok \<Longrightarrow>
       xout (qp_encoder st mu_filter_xcode inp osize) = [] \<Longrightarrow> qp_enc st inp = []"
    by (rule stepped_speaks[OF s])
qed (simp_all add: x_defs)

interpretation hflt_dec: live_plain_xcoder hflt_decoder "hflt_dec" "\<lambda>_. True" 0
proof unfold_locales
  fix st osize and inp :: bytes
  assume "inp \<noteq> []" "MU_FILTER_BUF_SIZE \<le> osize"
  note s = hflt_decoder_stepped[OF this(2,1)]
  show "lively 0 inp (hflt_decoder st mu_filter_xcode inp osize)"
    by (rule stepped_lively[OF s])
  show "xres (hflt_decoder st mu_filter_xcode inp osize) = mu_filter_ok \<Longrightarrow>
       xout (hflt_decoder st mu_filter_xcode inp osize) = [] \<Longrightarrow> hflt_dec st inp = []"
    by (rule stepped_speaks[OF s])
qed (simp_all add: x_defs)

text \<open>The decoders that wait for the second byte of a pair, or swallow one byte silently.\<close>

lemma crlf_decoder_stepped:
  assumes "MU_FILTER_BUF_SIZE \<le> osize" "inp \<noteq> []" "inp \<noteq> [CR]"
  shows "stepped owed (crlf_decoder st mu_filter_xcode inp osize)"
proof -
  obtain c cs where inp: "inp = c # cs" using assms(2) by (cases inp) auto
  show ?thesis
    using assms(1,3) by (cases cs)
      (auto simp: inp MU_FILTER_BUF_SIZE_def intro!: stepped_ok steppedI[OF crlf_decoder_follows])
qed

lemma c_escape_decoder_stepped:
  assumes "MU_FILTER_BUF_SIZE \<le> osize" "inp \<noteq> []" "inp \<noteq> [BSLASH]"
  shows "stepped owed (c_escape_decoder st mu_filter_xcode inp osize)"
proof -
  obtain c cs where inp: "inp = c # cs" using assms(2) by (cases inp) auto
  show ?thesis
    using assms(1,3) by (cases cs)
      (auto simp: inp MU_FILTER_BUF_SIZE_def Let_def quote_char_found intro!: stepped_ok steppedI[OF c_escape_decoder_follows])
qed

lemma dot_decoder_stepped:
  assumes "MU_FILTER_BUF_SIZE \<le> osize" "inp \<noteq> []"
  shows "stepped (dot_dec st inp) (dot_decoder st mu_filter_xcode inp osize)"
proof -
  obtain c cs where inp: "inp = c # cs" using assms(2) by (cases inp) auto
  have big: "2048 \<le> osize" using assms(1) by (simp add: MU_FILTER_BUF_SIZE_def)
  show ?thesis
  proof (cases "c = DOT \<and> st = dot_decode_bol")
    case True
    with big show ?thesis
      by (cases cs) (auto simp: inp Let_def intro!: stepped_ok stepped_eof steppedI[OF dot_decoder_follows])
  next
    case False
    with big show ?thesis
      by (cases "dot_new_decode_state st c = dot_decode_end")
        (auto simp: inp Let_def intro!: stepped_eof steppedI[OF dot_decoder_follows])
  qed
qed

interpretation crlf_dec: live_plain_xcoder crlf_decoder "\<lambda>_. crlf_dec" "\<lambda>_. True" 2
proof unfold_locales
  fix st osize and inp :: bytes
  assume "inp \<noteq> []" "MU_FILTER_BUF_SIZE \<le> osize"
  note s = crlf_decoder_stepped[OF this(2,1)]
  have stuck: "crlf_decoder st mu_filter_xcode [CR] osize = x_ok st 0 []" "crlf_dec [CR] = []"
    using \<open>MU_FILTER_BUF_SIZE \<le> osize\<close> by (auto simp: MU_FILTER_BUF_SIZE_def)
  show "lively 2 inp (crlf_decoder st mu_filter_xcode inp osize)"
    using stepped_lively[OF s] stuck(1) by (cases "inp = [CR]") (auto simp: lively_def x_defs)
  show "xres (crlf_decoder st mu_filter_xcode inp osize) = mu_filter_ok \<Longrightarrow>
       xout (crlf_decoder st mu_filter_xcode inp osize) = [] \<Longrightarrow> crlf_dec inp = []"
    using stepped_speaks[OF s] stuck(2) by (cases "inp = [CR]") auto
qed (simp_all add: x_defs MU_FILTER_BUF_SIZE_def)

interpretation c_escape_dec: live_plain_xcoder c_escape_decoder "\<lambda>_. c_escape_dec" "\<lambda>_. True" 2
proof unfold_locales
  fix st osize and inp :: bytes
  assume "inp \<noteq> []" "MU_FILTER_BUF_SIZE \<le> osize"
  note s = c_escape_decoder_stepped[OF this(2,1)]
  have stuck: "c_escape_decoder st mu_filter_xcode [BSLASH] osize = x_ok st 0 []" "c_escape_dec [BSLASH] = []"
    using \<open>MU_FILTER_BUF_SIZE \<le> osize\<close> by (auto simp: MU_FILTER_BUF_SIZE_def)
  show "lively 2 inp (c_escape_decoder st mu_filter_xcode inp osize)"
    using stepped_lively[OF s] stuck(1) by (cases "inp = [BSLASH]") (auto simp: lively_def x_defs)
  show "xres (c_escape_decoder st mu_filter_xcode inp osize) = mu_filter_ok \<Longrightarrow>
       xout (c_escape_decoder st mu_filter_xcode inp osize) = [] \<Longrightarrow> c_escape_dec inp = []"
    using stepped_speaks[OF s] stuck(2) by (cases "inp = [BSLASH]") auto
qed (simp_all add: x_defs MU_FILTER_BUF_SIZE_def)

interpretation dot_dec: live_plain_xcoder dot_decoder "dot_dec" "\<lambda>_. True" 0
proof unfold_locales
  fix st osize and inp :: bytes
  assume "inp \<noteq> []" "MU_FILTER_BUF_SIZE \<le> osize"
  note s = dot_decoder_stepped[OF this(2,1)]
  show "lively 0 inp (dot_decoder st mu_filter_xcode inp osize)"
    by (rule stepped_lively[OF s])
  show "xres (dot_decoder st mu_filter_xcode inp osize) = mu_filter_ok \<Longrightarrow>
       xout (dot_decoder st mu_filter_xcode inp osize) = [] \<Longrightarrow> dot_dec st inp = []"
    by (rule stepped_speaks[OF s])
qed (simp_all add: x_defs)

section \<open>Filters with a trailer\<close>

lemma dot_encoder_first:
  assumes "MU_FILTER_BUF_SIZE \<le> osize"
  shows "\<exists>st' i out. dot_encoder_loop (length inp) osize st 0 [] inp = x_ok st' i out \<and>
    (inp \<noteq> [] \<longrightarrow> 0 < i \<and> out \<noteq> [])"
proof (cases inp)
  case (Cons c cs)
  have s: "stepped [NUL] (dot_encoder_loop (length inp) osize st 0 [] inp)"
    using assms by (auto simp: Cons MU_FILTER_BUF_SIZE_def intro!: steppedI[OF dot_encoder_follows])
  then obtain st' i out where r: "dot_encoder_loop (length inp) osize st 0 [] inp = x_ok st' i out"
    using dot_encoder_loop_result[of "length inp" osize st 0 "[]" inp] by (auto simp: stepped_def)
  with s show ?thesis by (auto simp: stepped_def x_defs)
qed auto

interpretation dot_enc: live_xcoder dot_encoder dot_enc "\<lambda>_. True" 0
proof unfold_locales
  fix st osize and inp :: bytes
  assume big: "MU_FILTER_BUF_SIZE \<le> osize"
  then have big': "2048 \<le> osize" by (simp add: MU_FILTER_BUF_SIZE_def)
  obtain st' i out where r: "dot_encoder_loop (length inp) osize st 0 [] inp = x_ok st' i out"
    and pos: "inp \<noteq> [] \<longrightarrow> 0 < i \<and> out \<noteq> []"
    using dot_encoder_first[OF big] by blast
  show "lively 0 inp (dot_encoder st mu_filter_xcode inp osize)" if "inp \<noteq> []"
    using pos that by (simp add: dot_encoder_xcode r lively_def x_defs del: dot_encoder.simps)
  have last: "dot_encoder st mu_filter_lastbuf inp osize = dot_encoder_finish mu_filter_lastbuf osize st' i out"
    by (simp add: r x_ret_def)
  have empty: "inp = [] \<Longrightarrow> i = 0 \<and> out = []" using r by (auto simp: x_ret_def)
  show "lively_last (dot_encoder st mu_filter_lastbuf inp osize)"
    unfolding last using pos empty big'
    by (cases "inp = []") (auto simp: dot_encoder_finish_def lively_last_def x_defs)
  show "xres (dot_encoder st mu_filter_lastbuf inp osize) \<in> {mu_filter_ok, mu_filter_again} \<Longrightarrow>
      xout (dot_encoder st mu_filter_lastbuf inp osize) = [] \<Longrightarrow> dot_enc st inp = []"
    unfolding last using pos empty big'
    by (cases "inp = []") (auto simp: dot_encoder_finish_def x_defs split: if_splits)
qed simp

lemma crlfdot_encoder_first:
  assumes "MU_FILTER_BUF_SIZE \<le> osize"
  shows "\<exists>st' i out. crlfdot_encoder_loop (length inp) osize st 0 [] inp = x_ok st' i out \<and>
    (inp \<noteq> [] \<longrightarrow> 0 < i \<and> out \<noteq> [])"
proof (cases inp)
  case (Cons c cs)
  have s: "stepped [NUL] (crlfdot_encoder_loop (length inp) osize st 0 [] inp)"
    using assms by (auto simp: Cons MU_FILTER_BUF_SIZE_def intro!: steppedI[OF crlfdot_encoder_follows])
  then obtain st' i out where r: "crlfdot_encoder_loop (length inp) osize st 0 [] inp = x_ok st' i out"
    using crlfdot_encoder_loop_result[of "length inp" osize st 0 "[]" inp] by (auto simp: stepped_def)
  with s show ?thesis by (auto simp: stepped_def x_defs)
qed auto

interpretation crlfdot_enc: live_xcoder crlfdot_encoder crlfdot_enc "\<lambda>_. True" 0
proof unfold_locales
  fix st osize and inp :: bytes
  assume big: "MU_FILTER_BUF_SIZE \<le> osize"
  then have big': "2048 \<le> osize" by (simp add: MU_FILTER_BUF_SIZE_def)
  obtain st' i out where r: "crlfdot_encoder_loop (length inp) osize st 0 [] inp = x_ok st' i out"
    and pos: "inp \<noteq> [] \<longrightarrow> 0 < i \<and> out \<noteq> []"
    using crlfdot_encoder_first[OF big] by blast
  show "lively 0 inp (crlfdot_encoder st mu_filter_xcode inp osize)" if "inp \<noteq> []"
    using pos that by (simp add: crlfdot_encoder_xcode r lively_def x_defs del: crlfdot_encoder.simps)
  have last: "crlfdot_encoder st mu_filter_lastbuf inp osize = crlfdot_encoder_finish mu_filter_lastbuf osize st' i out"
    by (simp add: r x_ret_def)
  have empty: "inp = [] \<Longrightarrow> i = 0 \<and> out = []" using r by (auto simp: x_ret_def)
  show "lively_last (crlfdot_encoder st mu_filter_lastbuf inp osize)"
    unfolding last using pos empty big'
    by (cases "inp = []") (auto simp: crlfdot_encoder_finish_def lively_last_def x_defs)
  show "xres (crlfdot_encoder st mu_filter_lastbuf inp osize) \<in> {mu_filter_ok, mu_filter_again} \<Longrightarrow>
      xout (crlfdot_encoder st mu_filter_lastbuf inp osize) = [] \<Longrightarrow> crlfdot_enc st inp = []"
    unfolding last using pos empty big'
    by (cases "inp = []") (auto simp: crlfdot_encoder_finish_def x_defs split: if_splits)
qed simp

section \<open>The base64 encoder\<close>

lemma base64_run_speaks:
  assumes "base64_wf lp" "2048 \<le> osize"
  shows "\<exists>lp' n w. base64_run cmd lp inp osize = (lp', n, w) \<and> n \<le> length inp \<and>
      (w = [] \<longrightarrow> n = 0 \<and> length inp \<le> 3 \<and> base64_enc lp inp = []) \<and>
      (w = [] \<longrightarrow> inp = [] \<and> bl_state lp' = base64_init)"
proof (rule base64_run_ran[OF assms(1), of osize cmd inp])
  show "4 \<le> osize" using assms(2) by simp
  fix lp' n w
  assume run: "base64_run cmd lp inp osize = (lp', n, w)" and n: "n \<le> length inp" "n \<le> 3 * length w"
    and owed: "\<And>rest. inp = [] \<or> 3 < length inp \<or> rest = [] \<Longrightarrow>
       base64_enc lp (inp @ rest) = w @ base64_enc lp' (drop n inp @ rest)"
    and init: "length w < osize \<Longrightarrow> bl_state lp' = base64_init"
    and stop: "bl_state lp' = base64_init \<Longrightarrow> length (drop n inp) < 3 \<and> base64_enc lp' [] = [] \<and>
       (length inp \<le> 3 \<longrightarrow> drop n inp = [])"
  have "n = 0 \<and> inp = [] \<and> base64_enc lp inp = [] \<and> bl_state lp' = base64_init" if "w = []"
  proof -
    have "n = 0" "bl_state lp' = base64_init" using that n(2) init assms(2) by auto
    with stop have "inp = []" "base64_enc lp' [] = []" by fastforce+
    with owed[of "[]"] that \<open>n = 0\<close> \<open>bl_state lp' = base64_init\<close> show ?thesis by simp
  qed
  with run n show ?thesis by auto
qed

interpretation base64_enc: live_xcoder base64_encoder base64_enc base64_wf 4
proof unfold_locales
  fix lp osize and inp :: bytes
  assume wf: "base64_wf lp" and big: "MU_FILTER_BUF_SIZE \<le> osize"
  then have big': "2048 \<le> osize" by (simp add: MU_FILTER_BUF_SIZE_def)
  obtain lp1 n1 w1 where x: "base64_run mu_filter_xcode lp inp osize = (lp1, n1, w1)" "n1 \<le> length inp"
      "w1 = [] \<longrightarrow> n1 = 0 \<and> length inp \<le> 3 \<and> base64_enc lp inp = []"
    using base64_run_speaks[OF wf big'] by blast
  obtain lp2 n2 w2 where l: "base64_run mu_filter_lastbuf lp inp osize = (lp2, n2, w2)" "n2 \<le> length inp"
      "w2 = [] \<longrightarrow> n2 = 0 \<and> length inp \<le> 3 \<and> base64_enc lp inp = []"
      "w2 = [] \<longrightarrow> inp = [] \<and> bl_state lp2 = base64_init"
    using base64_run_speaks[OF wf big'] by blast
  show "lively 4 inp (base64_encoder lp mu_filter_xcode inp osize)" if "inp \<noteq> []"
    using that x big' by (cases "w1 = []") (auto simp: base64_encoder_cases base64_finish lively_def x_defs)
  show "lively_last (base64_encoder lp mu_filter_lastbuf inp osize)"
    using l big' by (cases "w2 = []") (auto simp: base64_encoder_cases base64_finish lively_last_def x_defs)
  show "xres (base64_encoder lp mu_filter_lastbuf inp osize) \<in> {mu_filter_ok, mu_filter_again} \<Longrightarrow>
      xout (base64_encoder lp mu_filter_lastbuf inp osize) = [] \<Longrightarrow> base64_enc lp inp = []"
    using l big' by (auto simp: base64_encoder_cases base64_finish x_defs split: if_splits)
qed (simp add: MU_FILTER_BUF_SIZE_def)

section \<open>Reading from memory through a filter\<close>

text \<open>What a client gets that opens a filter over a block of memory and reads pieces of the
  given sizes.\<close>

definition mem_filter_read :: "'s xcoder \<Rightarrow> 's \<Rightarrow> nat \<Rightarrow> nat list \<Rightarrow> bytes \<Rightarrow> bytes option" where
  "mem_filter_read xcode xdata fuel ns bs =
     map_option snd (read_all xcode ms_stream_read ms_eof fuel ns
       (filter_rd_open xcode True xdata (mu_static_memory_stream_create bs)))"

lemma static_memory_rest:
  "ms_ok (mu_static_memory_stream_create bs)" "ms_rest (mu_static_memory_stream_create bs) = bs"
  by (simp_all add: mu_static_memory_stream_create_def ms_defs)

lemma filter_rd_open_state:
  "swf (xst (xcode xdata mu_filter_init [] 0)) \<Longrightarrow>
   fs_inv swf ms_ok (filter_rd_open xcode True xdata (mu_static_memory_stream_create bs))"
  "fs_owed spec ms_rest (filter_rd_open xcode True xdata (mu_static_memory_stream_create bs)) =
   spec (xst (xcode xdata mu_filter_init [] 0)) bs"
  by (simp_all add: filter_rd_open_def filter_stream_init_def Let_def fs_inv_def fs_owed_def
      MFB_defs static_memory_rest)

locale mem_filter_rd =
  safe_filter_rd xcode spec swf ms_stream_read ms_eof ms_rest ms_ok lim
  for xcode :: "'s xcoder" and spec swf lim
begin

lemma mem_reads:
  assumes "swf (xst (xcode xdata mu_filter_init [] 0))"
    and "\<forall>n \<in> set ns. 0 < n" "length (spec (xst (xcode xdata mu_filter_init [] 0)) bs) \<le> length ns"
  shows "\<exists>fuel0. \<forall>fuel \<ge> fuel0. mem_filter_read xcode xdata fuel ns bs =
    Some (spec (xst (xcode xdata mu_filter_init [] 0)) bs)"
proof -
  note opened = filter_rd_open_state[where xcode = xcode and xdata = xdata and bs = bs]
  from read_all_complete[OF opened(1)[of swf, OF assms(1)] assms(2)] assms(3)
  obtain fuel0 where "\<forall>fuel \<ge> fuel0. \<exists>fs'. read_all xcode ms_stream_read ms_eof fuel ns
      (filter_rd_open xcode True xdata (mu_static_memory_stream_create bs)) =
        Some (fs', spec (xst (xcode xdata mu_filter_init [] 0)) bs)"
    unfolding opened(2) by blast
  then show ?thesis by (auto simp: mem_filter_read_def)
qed

end

interpretation crlf_enc_mem: mem_filter_rd crlf_encoder "crlf_enc" "\<lambda>_. True" 0
proof unfold_locales
  fix st osize and inp :: bytes
  assume big: "MU_FILTER_BUF_SIZE \<le> osize"
  show "xres (crlf_encoder st mu_filter_lastbuf inp osize) \<notin> {mu_filter_failure, mu_filter_moreinput}"
    using crlf_encoder_stepped[OF big, of inp] crlf_enc.never_fails[of st inp osize]
    by (cases "inp = []") (auto simp: stepped_def x_defs simp flip: crlf_enc.last_same)
qed (use ms_read_ok crlf_enc.never_fails in auto)

interpretation crlf_dec_mem: mem_filter_rd crlf_decoder "\<lambda>_. crlf_dec" "\<lambda>_. True" 2
proof unfold_locales
  fix st osize and inp :: bytes
  assume big: "MU_FILTER_BUF_SIZE \<le> osize"
  show "xres (crlf_decoder st mu_filter_lastbuf inp osize) \<notin> {mu_filter_failure, mu_filter_moreinput}"
    using crlf_decoder_stepped[OF big, of inp] crlf_dec.never_fails[of st inp osize]
    by (cases "inp = [] \<or> inp = [CR]") (auto simp: stepped_def x_defs simp flip: crlf_dec.last_same split: if_splits)
qed (use ms_read_ok crlf_dec.never_fails in auto)

interpretation dot_enc_mem: mem_filter_rd dot_encoder "dot_enc" "\<lambda>_. True" 0
proof unfold_locales
  fix st osize and inp :: bytes
  assume big: "MU_FILTER_BUF_SIZE \<le> osize"
  obtain st' i out where r: "dot_encoder_loop (length inp) osize st 0 [] inp = x_ok st' i out"
    using dot_encoder_first[OF big] by blast
  then show "xres (dot_encoder st mu_filter_lastbuf inp osize) \<notin> {mu_filter_failure, mu_filter_moreinput}"
    by (auto simp: dot_encoder_finish_def x_ret_def)
qed (use ms_read_ok dot_enc.never_fails in auto)

interpretation dot_dec_mem: mem_filter_rd dot_decoder "dot_dec" "\<lambda>_. True" 0
proof unfold_locales
  fix st osize and inp :: bytes
  assume big: "MU_FILTER_BUF_SIZE \<le> osize"
  show "xres (dot_decoder st mu_filter_lastbuf inp osize) \<notin> {mu_filter_failure, mu_filter_moreinput}"
    using dot_decoder_stepped[OF big, of inp] dot_dec.never_fails[of st inp osize]
    by (cases "inp = []") (auto simp: stepped_def x_defs simp flip: dot_dec.last_same)
qed (use ms_read_ok dot_dec.never_fails in auto)

interpretation crlfdot_enc_mem: mem_filter_rd crlfdot_encoder "crlfdot_enc" "\<lambda>_. True" 0
proof unfold_locales
  fix st osize and inp :: bytes
  assume big: "MU_FILTER_BUF_SIZE \<le> osize"
  obtain st' i out where r: "crlfdot_encoder_loop (length inp) osize st 0 [] inp = x_ok st' i out"
    using crlfdot_encoder_first[OF big] by blast
  then show "xres (crlfdot_encoder st mu_filter_lastbuf inp osize) \<notin> {mu_filter_failure, mu_filter_moreinput}"
    by (auto simp: crlfdot_encoder_finish_def x_ret_def)
qed (use ms_read_ok crlfdot_enc.never_fails in auto)

interpretation c_escape_enc_mem: mem_filter_rd c_escape_encoder "c_escape_enc" "\<lambda>_. True" 0
proof unfold_locales
  fix st osize and inp :: bytes
  assume big: "MU_FILTER_BUF_SIZE \<le> osize"
  show "xres (c_escape_encoder st mu_filter_lastbuf inp osize) \<notin> {mu_filter_failure, mu_filter_moreinput}"
    using c_escape_encoder_stepped[OF big, of inp] c_escape_enc.never_fails[of st inp osize]
    by (cases "inp = []") (auto simp: stepped_def x_defs simp flip: c_escape_enc.last_same)
qed (use ms_read_ok c_escape_enc.never_fails in auto)

interpretation c_escape_dec_mem: mem_filter_rd c_escape_decoder "\<lambda>_. c_escape_dec" "\<lambda>_. True" 2
proof unfold_locales
  fix st osize and inp :: bytes
  assume big: "MU_FILTER_BUF_SIZE \<le> osize"
  show "xres (c_escape_decoder st mu_filter_lastbuf inp osize) \<notin> {mu_filter_failure, mu_filter_moreinput}"
    using c_escape_decoder_stepped[OF big, of inp] c_escape_dec.never_fails[of st inp osize]
    by (cases "inp = [] \<or> inp = [BSLASH]") (auto simp: stepped_def x_defs simp flip: c_escape_dec.last_same split: if_splits)
qed (use ms_read_ok c_escape_dec.never_fails in auto)

interpretation percent_enc_mem: mem_filter_rd percent_encoder "percent_enc" "\<lambda>_. True" 0
proof unfold_locales
  fix st osize and inp :: bytes
  assume big: "MU_FILTER_BUF_SIZE \<le> osize"
  show "xres (percent_encoder st mu_filter_lastbuf inp osize) \<notin> {mu_filter_failure, mu_filter_moreinput}"
    using percent_encoder_stepped[OF big, of inp] percent_enc.never_fails[of st inp osize]
    by (cases "inp = []") (auto simp: stepped_def x_defs simp flip: percent_enc.last_same)
qed (use ms_read_ok percent_enc.never_fails in auto)

interpretation qp_enc_mem: mem_filter_rd qp_encoder qp_enc "\<lambda>_. True" 0
proof unfold_locales
  fix st osize and inp :: bytes
  assume big: "MU_FILTER_BUF_SIZE \<le> osize"
  show "xres (qp_encoder st mu_filter_lastbuf inp osize) \<notin> {mu_filter_failure, mu_filter_moreinput}"
    using qp_encoder_stepped[OF big, of inp] qp_enc.never_fails[of st inp osize]
    by (cases "inp = []") (auto simp: stepped_def x_defs simp flip: qp_enc.last_same)
qed (use ms_read_ok qp_enc.never_fails in auto)

interpretation dq_enc_mem: mem_filter_rd dq_encoder "dq_enc" "\<lambda>_. True" 0
proof unfold_locales
  fix st osize and inp :: bytes
  assume big: "MU_FILTER_BUF_SIZE \<le> osize"
  show "xres (dq_encoder st mu_filter_lastbuf inp osize) \<notin> {mu_filter_failure, mu_filter_moreinput}"
    using dq_encoder_stepped[OF big, of inp] dq_enc.never_fails[of st inp osize]
    by (cases "inp = []") (auto simp: stepped_def x_defs simp flip: dq_enc.last_same)
qed (use ms_read_ok dq_enc.never_fails in auto)

interpretation hflt_dec_mem: mem_filter_rd hflt_decoder "hflt_dec" "\<lambda>_. True" 0
proof unfold_locales
  fix st osize and inp :: bytes
  assume big: "MU_FILTER_BUF_SIZE \<le> osize"
  show "xres (hflt_decoder st mu_filter_lastbuf inp osize) \<notin> {mu_filter_failure, mu_filter_moreinput}"
    using hflt_decoder_stepped[OF big, of inp] hflt_dec.never_fails[of st inp osize]
    by (cases "inp = []") (auto simp: stepped_def x_defs simp flip: hflt_dec.last_same)
qed (use ms_read_ok hflt_dec.never_fails in auto)

interpretation base64_enc_mem: mem_filter_rd base64_encoder base64_enc base64_wf 4
proof unfold_locales
  fix lp osize and inp :: bytes
  assume wf: "base64_wf lp" and big: "MU_FILTER_BUF_SIZE \<le> osize"
  show "xres (base64_encoder lp mu_filter_lastbuf inp osize) \<notin> {mu_filter_failure, mu_filter_moreinput}"
    using big base64_encoder_no_failure[OF wf, of mu_filter_lastbuf inp osize]
    by (auto simp: base64_encoder_cases base64_encoder_finish_def Let_def x_defs MU_FILTER_BUF_SIZE_def
        split: prod.splits if_splits)
qed (use ms_read_ok base64_enc.never_fails in auto)

end
