(* ===== verification/Flt_From.thy ===== *)
theory Flt_From
  imports Xcoder
begin

text \<open>
  The FROM filter (\<open>libmailutils/filter/fromflt.c\<close>): escaping of \<open>From \<close> at the start of a line
  with \<open>>\<close> and the removal of one such escape.
\<close>

definition FROM_MARK_STR :: bytes where "FROM_MARK_STR = [70, 114, 111, 109, 32]"
definition GT_FROM_MARK_STR :: bytes where "GT_FROM_MARK_STR = GT_C # FROM_MARK_STR"

lemmas from_marks = FROM_MARK_STR_def GT_FROM_MARK_STR_def

section \<open>Decoder\<close>

datatype from_decode_state = from_decode_init | from_decode_nl | from_decode_char

text \<open>The local \<open>state\<close> is written back to \<open>*pstate\<close> at the end, not on \<open>moreinput\<close>. Where six
  or more bytes are left and they are not the mark, \<open>state\<close> stays at the start of a line.\<close>

fun from_decoder_loop ::
  "nat \<Rightarrow> from_decode_state \<Rightarrow> from_decode_state \<Rightarrow> nat \<Rightarrow> bytes \<Rightarrow> bytes \<Rightarrow> from_decode_state xcoded" where
  "from_decoder_loop osize pstate state i out [] = x_ok state i out"
| "from_decoder_loop osize pstate state i out (c # iptr) =
     (if \<not> length out < osize then x_ok state i out
      else if c = LF then from_decoder_loop osize pstate from_decode_nl (Suc i) (out @ [c]) iptr
      else if state = from_decode_init \<or> state = from_decode_nl then
        let len = length (c # iptr) in
        if len < length GT_FROM_MARK_STR then
          (if c # iptr = take len GT_FROM_MARK_STR then
             (if i = 0 then x_moreinput pstate (length GT_FROM_MARK_STR - len) osize
              else x_ok state i out)
           else from_decoder_loop osize pstate from_decode_char (Suc i) (out @ [c]) iptr)
        else if take (length GT_FROM_MARK_STR) (c # iptr) = GT_FROM_MARK_STR then
          from_decoder_loop osize pstate from_decode_char (Suc i) out iptr
        else from_decoder_loop osize pstate state (Suc i) (out @ [c]) iptr
      else from_decoder_loop osize pstate state (Suc i) (out @ [c]) iptr)"

fun from_decoder :: "from_decode_state xcoder" where
  "from_decoder pstate mu_filter_init inp osize = x_quiet from_decode_init inp osize"
| "from_decoder pstate mu_filter_done inp osize = x_quiet pstate inp osize"
| "from_decoder pstate cmd inp osize = from_decoder_loop osize pstate pstate 0 [] inp"

section \<open>Encoder\<close>

datatype from_encode_state =
    from_encode_init | from_encode_nl | from_encode_char | from_encode_gt | from_encode_f
  | from_encode_r | from_encode_o | from_encode_m | from_encode_sp

definition length_to_state_tab :: "from_encode_state list" where
  "length_to_state_tab =
     [from_encode_gt, from_encode_f, from_encode_r, from_encode_o, from_encode_m, from_encode_sp]"

fun state_to_length_tab :: "from_encode_state \<Rightarrow> nat" where
  "state_to_length_tab from_encode_init = 0"
| "state_to_length_tab from_encode_nl = 0"
| "state_to_length_tab from_encode_char = 0"
| "state_to_length_tab from_encode_gt = 6"
| "state_to_length_tab from_encode_f = 5"
| "state_to_length_tab from_encode_r = 4"
| "state_to_length_tab from_encode_o = 3"
| "state_to_length_tab from_encode_m = 2"
| "state_to_length_tab from_encode_sp = 1"

text \<open>When the mark is found, \<open>rest\<close> of its escaped form fits; the loop goes on after
  \<open>rest - 1\<close> input bytes (\<open>i += rest - 2\<close>, then \<open>i++\<close>).\<close>

function from_encoder_loop ::
  "nat \<Rightarrow> nat \<Rightarrow> from_encode_state \<Rightarrow> from_encode_state \<Rightarrow> nat \<Rightarrow> bytes \<Rightarrow> bytes \<Rightarrow>
   from_encode_state xcoded" where
  "from_encoder_loop isize osize pstate state i out [] = x_ok state i out"
| "from_encoder_loop isize osize pstate state i out (c # iptr) =
     (if \<not> length out < osize then x_ok state i out
      else if c = LF then from_encoder_loop isize osize pstate from_encode_nl (Suc i) (out @ [c]) iptr
      else if state = from_encode_init \<or> state = from_encode_nl then
        let len = length (c # iptr) in
        if len < length FROM_MARK_STR then
          (if c # iptr = take len FROM_MARK_STR then
             (if i = 0 then x_moreinput pstate (length FROM_MARK_STR) osize else x_ok state i out)
           else from_encoder_loop isize osize pstate from_encode_char (Suc i) (out @ [c]) iptr)
        else if take (length FROM_MARK_STR) (c # iptr) = FROM_MARK_STR then
          let rest = min (osize - length out) (length GT_FROM_MARK_STR) in
          if rest < 2 then
            (if i = 0 then x_moreoutput pstate isize (length GT_FROM_MARK_STR) else x_ok state i out)
          else
            from_encoder_loop isize osize pstate
              (if rest < length GT_FROM_MARK_STR then length_to_state_tab ! rest else from_encode_char)
              (Suc (i + (rest - 2))) (out @ take rest GT_FROM_MARK_STR) (drop (rest - 2) iptr)
        else from_encoder_loop isize osize pstate from_encode_char (Suc i) (out @ [c]) iptr
      else from_encoder_loop isize osize pstate state (Suc i) (out @ [c]) iptr)"
  by pat_completeness (simp_all only: prod.inject list.inject list.distinct simp_thms)
termination
  by (relation "measure (\<lambda>(isize, osize, pstate, state, i, out, inp). length inp)") auto

declare from_encoder_loop.simps(2) [simp del]

text \<open>In the states \<open>gt\<close> to \<open>sp\<close> the call only writes what is left of the mark.\<close>

definition from_encoder_call :: "from_encode_state \<Rightarrow> bytes \<Rightarrow> nat \<Rightarrow> from_encode_state xcoded" where
  "from_encoder_call pstate inp osize =
     (if pstate \<in> {from_encode_init, from_encode_nl, from_encode_char} then
        from_encoder_loop (length inp) osize pstate pstate 0 [] inp
      else
        let need = state_to_length_tab pstate in
        if osize < need then x_moreoutput pstate (length inp) need
        else x_ok from_encode_init need (drop (length GT_FROM_MARK_STR - need) GT_FROM_MARK_STR))"

fun from_encoder :: "from_encode_state xcoder" where
  "from_encoder pstate mu_filter_init inp osize = x_quiet from_encode_init inp osize"
| "from_encoder pstate mu_filter_done inp osize = x_quiet pstate inp osize"
| "from_encoder pstate cmd inp osize = from_encoder_call pstate inp osize"

section \<open>What the encoder is for\<close>

text \<open>\<open>From \<close> at the start of a line gets a \<open>>\<close> in front.\<close>

fun from_quote :: "bool \<Rightarrow> bytes \<Rightarrow> bytes" where
  "from_quote bol [] = []"
| "from_quote bol (c # cs) =
     (if bol \<and> take 5 (c # cs) = FROM_MARK_STR then [GT_C] else [])
     @ c # from_quote (c = LF) cs"

lemma from_quote_append_FROM:
  "from_quote False (drop 1 FROM_MARK_STR @ cs) = drop 1 FROM_MARK_STR @ from_quote False cs"
  by (simp add: FROM_MARK_STR_def)

lemma from_quote_mark:
  "from_quote True (FROM_MARK_STR @ cs) = GT_FROM_MARK_STR @ from_quote False cs"
  by (simp add: from_marks)

text \<open>
  The part of a buffer one call leaves unread: a proper prefix of the mark that starts a line and
  ends the buffer, since only the bytes to come can tell whether it is the mark.
\<close>

definition from_bol :: "from_encode_state \<Rightarrow> bool" where
  "from_bol st \<longleftrightarrow> st = from_encode_init \<or> st = from_encode_nl"

fun from_held :: "bool \<Rightarrow> bytes \<Rightarrow> bytes" where
  "from_held bol [] = []"
| "from_held bol (c # cs) =
     (if bol \<and> length (c # cs) < 5 \<and> c # cs = take (length (c # cs)) FROM_MARK_STR then c # cs
      else from_held (c = LF) cs)"

text \<open>The part it takes.\<close>

definition from_taken :: "bool \<Rightarrow> bytes \<Rightarrow> bytes" where
  "from_taken bol cs = take (length cs - length (from_held bol cs)) cs"

lemma from_held_length: "length (from_held bol cs) \<le> length cs"
  by (induction bol cs rule: from_held.induct) auto

lemma from_taken_Cons:
  "from_taken bol (c # cs) =
     (if bol \<and> length (c # cs) < 5 \<and> c # cs = take (length (c # cs)) FROM_MARK_STR then []
      else c # from_taken (c = LF) cs)"
  using from_held_length[of "c = LF" cs] by (auto simp: from_taken_def Suc_diff_le FROM_MARK_STR_def)

lemma from_taken_Nil [simp]: "from_taken bol [] = []"
  by (simp add: from_taken_def)

lemma from_taken_mark: "from_taken True (FROM_MARK_STR @ cs) = FROM_MARK_STR @ from_taken False cs"
  by (simp add: FROM_MARK_STR_def from_taken_Cons)

lemma mark_length: "length FROM_MARK_STR = 5" "length GT_FROM_MARK_STR = 6"
  by (simp_all add: from_marks)

lemma from_encoder_copy:
  assumes "st \<in> {from_encode_init, from_encode_nl, from_encode_char}" "length out < osize"
    and "\<not> (c \<noteq> LF \<and> from_bol st \<and> take 5 (c # cs) = FROM_MARK_STR)"
    and "\<not> (from_bol st \<and> length (c # cs) < 5 \<and> c # cs = take (length (c # cs)) FROM_MARK_STR)"
  shows "from_encoder_loop isize osize pst st i out (c # cs) =
    from_encoder_loop isize osize pst (if c = LF then from_encode_nl else from_encode_char)
      (Suc i) (out @ [c]) cs"
proof (cases "c = LF")
  case True
  with assms(2) show ?thesis by (subst from_encoder_loop.simps(2)) simp
next
  case False
  have len: "length FROM_MARK_STR = 5" by (simp add: FROM_MARK_STR_def)
  show ?thesis
  proof (cases "from_bol st")
    case True
    then have "st = from_encode_init \<or> st = from_encode_nl" by (simp add: from_bol_def)
    with True False assms(2-4) show ?thesis
      by (subst from_encoder_loop.simps(2)) (simp only: Let_def len if_True if_False simp_thms, metis)
  next
    case False
    then have "st = from_encode_char" using assms(1) by (auto simp: from_bol_def)
    with \<open>c \<noteq> LF\<close> assms(2) show ?thesis by (subst from_encoder_loop.simps(2)) simp
  qed
qed

lemma plus5: "(i::nat) + 5 = Suc (Suc (Suc (Suc (Suc i))))"
  by simp

lemma from_encoder_mark:
  assumes "from_bol st" "length out + 6 \<le> osize"
  shows "from_encoder_loop isize osize pst st i out (FROM_MARK_STR @ t) =
    from_encoder_loop isize osize pst from_encode_char (i + 5) (out @ GT_FROM_MARK_STR) t"
proof -
  have rest: "min (osize - length out) 6 = 6" using assms(2) by simp
  have len: "length GT_FROM_MARK_STR = 6" "length FROM_MARK_STR = 5"
    "drop 4 [114, 111, 109, 32::byte] = []" "Suc (i + 4) = i + 5"
    by (simp_all add: from_marks)
  show ?thesis
    using assms rest
    by (auto simp: FROM_MARK_STR_def from_encoder_loop.simps(2) from_bol_def Let_def len(1,4) plus5
        GT_FROM_MARK_STR_def)
qed

lemma from_quote_length: "length cs \<le> length (from_quote bol cs)"
  by (induction bol cs rule: from_quote.induct) auto

lemma from_encoder_held:
  assumes "from_bol st" "cs \<noteq> []" "length cs < 5" "cs = take (length cs) FROM_MARK_STR" "length out < osize"
  shows "from_encoder_loop isize osize pst st i out cs =
    (if i = 0 then x_moreinput pst (length FROM_MARK_STR) osize else x_ok st i out)"
proof -
  obtain c ds where cs: "cs = c # ds" using assms(2) by (cases cs) auto
  have "c = 70" using assms(4) cs by (auto simp: FROM_MARK_STR_def)
  moreover have "length cs < length FROM_MARK_STR" using assms(3) by (simp add: FROM_MARK_STR_def)
  moreover have "st = from_encode_init \<or> st = from_encode_nl" using assms(1) by (simp add: from_bol_def)
  ultimately show ?thesis
    using assms(4,5) unfolding cs by (subst from_encoder_loop.simps(2)) (simp only: Let_def, simp)
qed

lemma take_take_full: "take k (take n xs) = m \<Longrightarrow> length m = k \<Longrightarrow> take k xs = m"
  by (auto simp: min_def split: if_splits)

text \<open>With room for the whole result, one call quotes all it takes.\<close>

lemma from_encoder_quotes:
  assumes "st \<in> {from_encode_init, from_encode_nl, from_encode_char}"
    and "length out + length (from_quote (from_bol st) inp) \<le> osize"
    and "i = 0 \<longrightarrow> from_taken (from_bol st) inp \<noteq> []"
  shows "\<exists>st'. from_encoder_loop isize osize pst st i out inp =
           x_ok st' (i + length (from_taken (from_bol st) inp))
             (out @ from_quote (from_bol st) (from_taken (from_bol st) inp))"
  using assms
proof (induction "length inp" arbitrary: st i out inp rule: less_induct)
  case less
  show ?case
  proof (cases inp)
    case Nil
    then show ?thesis by (auto intro: exI[of _ st])
  next
    case (Cons c cs)
    consider (mark) "c \<noteq> LF" "from_bol st" "take 5 inp = FROM_MARK_STR"
      | (held) "from_bol st" "length inp < 5" "inp = take (length inp) FROM_MARK_STR"
      | (copy) "\<not> (c \<noteq> LF \<and> from_bol st \<and> take 5 inp = FROM_MARK_STR)"
          "\<not> (from_bol st \<and> length inp < 5 \<and> inp = take (length inp) FROM_MARK_STR)"
      by blast
    then show ?thesis
    proof cases
      case mark
      define t where "t = drop 5 inp"
      have inp: "inp = FROM_MARK_STR @ t"
        using mark append_take_drop_id[of 5 inp] by (simp add: t_def)
      have "length out + length GT_FROM_MARK_STR + length (from_quote False t) \<le> osize"
        using less.prems(2) mark inp by (simp add: from_marks)
      then obtain st' where "from_encoder_loop isize osize pst from_encode_char (i + 5) (out @ GT_FROM_MARK_STR) t
          = x_ok st' (i + 5 + length (from_taken False t)) ((out @ GT_FROM_MARK_STR) @ from_quote False (from_taken False t))"
        using less.hyps[of t from_encode_char "out @ GT_FROM_MARK_STR" "i + 5"] inp
        by (auto simp: from_bol_def FROM_MARK_STR_def)
      moreover have "from_encoder_loop isize osize pst st i out inp =
          from_encoder_loop isize osize pst from_encode_char (i + 5) (out @ GT_FROM_MARK_STR) t"
        using mark less.prems(2) unfolding inp
        by (intro from_encoder_mark) (auto simp: from_marks)
      moreover have "from_taken (from_bol st) inp = FROM_MARK_STR @ from_taken False t"
        using mark(2) by (simp add: inp from_taken_mark)
      ultimately show ?thesis
        using mark(2) by (auto simp: from_quote_mark mark_length add.assoc intro: exI[of _ st'])
    next
      case held
      have nil: "from_taken (from_bol st) inp = []"
        using held unfolding Cons by (simp only: from_taken_Cons simp_thms if_True)
      with less.prems(3) have "i \<noteq> 0" by blast
      moreover have "length out < osize"
        using less.prems(2) from_quote_length[of inp "from_bol st"] unfolding Cons by simp
      ultimately show ?thesis
        using from_encoder_held[OF held(1) _ held(2,3), of out osize isize pst i] Cons
        unfolding nil by (intro exI[of _ st]) simp
    next
      case copy
      define st1 where "st1 = (if c = LF then from_encode_nl else from_encode_char)"
      have st1: "from_bol st1 = (c = LF)" "st1 \<in> {from_encode_init, from_encode_nl, from_encode_char}"
        by (auto simp: st1_def from_bol_def)
      have quote: "from_quote (from_bol st) (c # ds) = c # from_quote (c = LF) ds"
        if "take 5 (c # ds) = FROM_MARK_STR \<longrightarrow> take 5 inp = FROM_MARK_STR" for ds
        using that copy(1) by (auto simp: from_marks)
      have taken: "from_taken (from_bol st) inp = c # from_taken (c = LF) cs"
        using copy(2) Cons by (auto simp: from_taken_Cons)
      have pre: "take 5 (c # from_taken (c = LF) cs) = FROM_MARK_STR \<longrightarrow> take 5 inp = FROM_MARK_STR"
        unfolding taken[symmetric] unfolding from_taken_def
        by (intro impI, erule take_take_full) (simp add: mark_length)
      obtain st' where "from_encoder_loop isize osize pst st1 (Suc i) (out @ [c]) cs
          = x_ok st' (Suc i + length (from_taken (c = LF) cs)) ((out @ [c]) @ from_quote (c = LF) (from_taken (c = LF) cs))"
        using less.hyps[of cs st1 "out @ [c]" "Suc i"] less.prems(2) Cons st1 quote[of cs] by auto
      moreover have "from_encoder_loop isize osize pst st i out inp =
          from_encoder_loop isize osize pst st1 (Suc i) (out @ [c]) cs"
        unfolding Cons st1_def
        by (rule from_encoder_copy) (use copy Cons less.prems(1,2) quote[of cs] in auto)
      ultimately show ?thesis unfolding taken quote[OF pre] by (auto intro: exI[of _ st'])
    qed
  qed
qed

text \<open>The quoted text has no line starting with the mark, so it can sit in an mbox.\<close>

fun no_from_line :: "bool \<Rightarrow> bytes \<Rightarrow> bool" where
  "no_from_line bol [] = True"
| "no_from_line bol (c # cs) =
     (\<not> (bol \<and> take 5 (c # cs) = FROM_MARK_STR) \<and> no_from_line (c = LF) cs)"

lemma no_from_line_False: "no_from_line True cs \<Longrightarrow> no_from_line False cs"
  by (cases cs) auto

lemma from_quote_prefix:
  "LF \<notin> set m \<Longrightarrow> n = length m \<Longrightarrow>
   take n (from_quote False cs) = m \<longleftrightarrow> take n cs = m"
proof (induction m arbitrary: n cs)
  case (Cons a m)
  show ?case
  proof (cases cs)
    case (Cons b bs)
    show ?thesis
    proof (cases "b = LF")
      case True
      with Cons Cons.prems show ?thesis by auto
    next
      case False
      with Cons Cons.prems Cons.IH[of "n - 1" bs] show ?thesis by auto
    qed
  qed simp
qed simp

lemma from_quote_no_from_line: "no_from_line bol (from_quote bol cs)"
proof (induction bol cs rule: from_quote.induct)
  case (2 bol c cs)
  have "take 4 (from_quote (c = LF) cs) = [114, 111, 109, 32] \<longleftrightarrow> take 4 cs = [114, 111, 109, 32]"
    if "c \<noteq> LF"
  proof -
    have "LF \<notin> set [114, 111, 109, 32]" "4 = length [114, 111, 109, 32 :: byte]" by simp_all
    from from_quote_prefix[OF this, of cs] that show ?thesis by simp
  qed
  with 2 show ?case
    by (auto simp: from_marks dest: no_from_line_False)
qed simp

text \<open>One call from the start, with room for the result.\<close>

lemma from_taken_held: "bs = from_taken bol bs @ from_held bol bs"
proof -
  have "\<exists>pre. bs = pre @ from_held bol bs"
    by (induction bol bs rule: from_held.induct) (auto, (metis append_Cons)+)
  then obtain pre where "bs = pre @ from_held bol bs" ..
  then show ?thesis
    by (metis append_same_eq append_take_drop_id append_eq_conv_conj from_taken_def diff_add_inverse2
        length_append)
qed

lemma from_held_mark: "\<exists>n < 5. from_held bol bs = take n FROM_MARK_STR"
proof (induction bol bs rule: from_held.induct)
  case (1 bol)
  show ?case by (auto intro: exI[of _ 0])
next
  case (2 bol c cs)
  then show ?case
    by (metis from_held.simps(2))
qed

lemma from_encoder_whole:
  assumes "length (from_quote True bs) \<le> osize" "cmd \<in> {mu_filter_xcode, mu_filter_lastbuf}"
  shows "if bs \<noteq> [] \<and> from_taken True bs = []
    then from_encoder from_encode_init cmd bs osize = x_moreinput from_encode_init 5 osize
    else \<exists>st. from_encoder from_encode_init cmd bs osize =
      x_ok st (length (from_taken True bs)) (from_quote True (from_taken True bs))"
proof -
  have call: "from_encoder from_encode_init cmd bs osize =
      from_encoder_loop (length bs) osize from_encode_init from_encode_init 0 [] bs"
    using assms(2) by (auto simp: from_encoder_call_def)
  have bol: "from_bol from_encode_init" by (simp add: from_bol_def)
  consider "bs = []" | (held) "bs \<noteq> []" "from_taken True bs = []" | (ok) "from_taken True bs \<noteq> []" by blast
  then show ?thesis
  proof cases
    case held
    then have "from_held True bs = bs" using from_taken_held[of bs True] by simp
    with from_held_mark[of True bs] have "length bs < 5" "bs = take (length bs) FROM_MARK_STR"
      by (auto simp: min_def split: if_splits)
    moreover have "0 < osize" using assms(1) from_quote_length[of bs True] held by (cases bs) auto
    ultimately show ?thesis
      using from_encoder_held[OF bol held(1), of "[]" osize "length bs" from_encode_init 0] held
      by (simp add: call mark_length)
  next
    case ok
    with from_encoder_quotes[of from_encode_init "[]" bs osize 0 "length bs" from_encode_init] assms(1) bol
    show ?thesis unfolding call by simp
  qed (unfold call, auto intro: exI[of _ from_encode_init])
qed

end
