(* ===== verification/Flt_Fromrd.thy ===== *)
theory Flt_Fromrd
  imports Xcoder Flt_From "HOL-Library.Sublist"
begin

text \<open>
  The FROMRD filter (\<open>libmailutils/filter/fromrd.c\<close>), reversible \<open>From \<close> quoting as in the
  mboxrd format: the encoder adds a \<open>>\<close> to every line \<open>>*From \<close>, the decoder removes one.
\<close>

datatype fromrd_state = S_INIT | S_BOL | S_ESC | S_FROM

record transcoder =
  tc_state :: fromrd_state
  tc_count :: int
  tc_len :: nat

text \<open>\<open>from_line\<close>, with its terminating zero.\<close>

definition from_line :: bytes where "from_line = FROM_MARK_STR @ [NUL]"

text \<open>What the part after the label \<open>emit\<close> writes, and the state it leaves.\<close>

definition fromrd_pending :: "transcoder \<Rightarrow> bytes" where
  "fromrd_pending xcode = replicate (nat (tc_count xcode)) GT_C @ take (tc_len xcode) from_line"

definition fromrd_emitted :: "transcoder \<Rightarrow> transcoder" where
  "fromrd_emitted xcode = xcode\<lparr>tc_state := S_INIT, tc_count := 0, tc_len := 0\<rparr>"

section \<open>The switch of the two loops\<close>

text \<open>What a turn does with the byte \<open>c\<close>: copy it, take it without writing, go to \<open>emit\<close>.\<close>

datatype fromrd_act = Copy transcoder | Take transcoder | Emit transcoder

definition fromrd_decoder_act :: "transcoder \<Rightarrow> byte \<Rightarrow> fromrd_act" where
  "fromrd_decoder_act xcode c =
     (case tc_state xcode of
        S_INIT \<Rightarrow> Copy (if c = LF then xcode\<lparr>tc_state := S_BOL\<rparr> else xcode)
      | S_BOL \<Rightarrow>
          if c = GT_C then Take (xcode\<lparr>tc_state := S_ESC, tc_count := 1\<rparr>)
          else Copy (xcode\<lparr>tc_state := S_INIT\<rparr>)
      | S_ESC \<Rightarrow>
          if c = GT_C then Take (xcode\<lparr>tc_count := tc_count xcode + 1\<rparr>)
          else if c = from_line ! 0 then Take (xcode\<lparr>tc_state := S_FROM, tc_len := 1\<rparr>)
          else Emit (xcode\<lparr>tc_state := S_INIT\<rparr>)
      | S_FROM \<Rightarrow>
          if from_line ! tc_len xcode = 0 then Emit (xcode\<lparr>tc_count := tc_count xcode - 1\<rparr>)
          else if c = from_line ! tc_len xcode then Take (xcode\<lparr>tc_len := tc_len xcode + 1\<rparr>)
          else Emit xcode)"

definition fromrd_encoder_act :: "transcoder \<Rightarrow> byte \<Rightarrow> fromrd_act" where
  "fromrd_encoder_act xcode c =
     (case tc_state xcode of
        S_INIT \<Rightarrow> Copy (if c = LF then xcode\<lparr>tc_state := S_BOL\<rparr> else xcode)
      | S_BOL \<Rightarrow>
          if c = GT_C then Take (xcode\<lparr>tc_state := S_ESC, tc_count := 1\<rparr>)
          else if c = from_line ! 0 then Take (xcode\<lparr>tc_state := S_FROM, tc_count := 0, tc_len := 1\<rparr>)
          else Copy (xcode\<lparr>tc_state := S_INIT\<rparr>)
      | S_ESC \<Rightarrow>
          if c = GT_C then Take (xcode\<lparr>tc_count := tc_count xcode + 1\<rparr>)
          else if c = from_line ! 0 then Take (xcode\<lparr>tc_state := S_FROM, tc_len := 1\<rparr>)
          else Emit (xcode\<lparr>tc_state := S_INIT\<rparr>)
      | S_FROM \<Rightarrow>
          if from_line ! tc_len xcode = 0 then Emit (xcode\<lparr>tc_count := tc_count xcode + 1\<rparr>)
          else if c = from_line ! tc_len xcode then Take (xcode\<lparr>tc_len := tc_len xcode + 1\<rparr>)
          else Emit xcode)"

section \<open>The loop\<close>

text \<open>
  Both functions run the same loop around their switch. At \<open>emit\<close> the pending bytes are
  written and the byte is not consumed (\<open>i--; iptr--\<close>): the next turn, if there is room for it,
  sees it in \<open>S_INIT\<close>, which copies it. The request for room goes out with the state already
  changed, and may come after bytes have been consumed. A negative \<open>count\<close> would send the
  copying loop out of the buffer. \<open>count\<close> and \<open>len\<close> are of type \<open>int\<close>: where one more \<open>>\<close>, or the
  sum \<open>reqlen\<close>, passes \<open>INT_MAX\<close>, the answer is the failure that stands for the overflow.
\<close>

fun fromrd_loop ::
  "(transcoder \<Rightarrow> byte \<Rightarrow> fromrd_act) \<Rightarrow> nat \<Rightarrow> nat \<Rightarrow> transcoder \<Rightarrow> nat \<Rightarrow> bytes \<Rightarrow> bytes \<Rightarrow>
   transcoder xcoded" where
  "fromrd_loop act isize osize xcode i out [] = x_ok xcode i out"
| "fromrd_loop act isize osize xcode i out (c # iptr) =
     (if \<not> length out < osize then x_ok xcode i out
      else case act xcode c of
        Copy xcode \<Rightarrow> fromrd_loop act isize osize xcode (Suc i) (out @ [c]) iptr
      | Take xcode \<Rightarrow>
          if INT_MAX < tc_count xcode then x_failure xcode SIGNED_OVERFLOW
          else fromrd_loop act isize osize xcode (Suc i) out iptr
      | Emit xcode \<Rightarrow>
          if INT_MAX < int (tc_len xcode) + tc_count xcode then x_failure xcode SIGNED_OVERFLOW
          else if tc_count xcode < 0 then x_failure xcode OUT_OF_BOUNDS
          else if osize - length out < tc_len xcode + nat (tc_count xcode)
          then x_moreoutput xcode isize (tc_len xcode + nat (tc_count xcode))
          else if \<not> length (out @ fromrd_pending xcode) < osize
          then x_ok (fromrd_emitted xcode) i (out @ fromrd_pending xcode)
          else fromrd_loop act isize osize
                 (if c = LF then (fromrd_emitted xcode)\<lparr>tc_state := S_BOL\<rparr> else fromrd_emitted xcode)
                 (Suc i) (out @ fromrd_pending xcode @ [c]) iptr)"

definition fromrd_start :: transcoder where
  "fromrd_start = \<lparr>tc_state = S_BOL, tc_count = 0, tc_len = 0\<rparr>"

fun fromrd_decoder :: "transcoder xcoder" where
  "fromrd_decoder xcode mu_filter_init inp osize = x_quiet fromrd_start inp osize"
| "fromrd_decoder xcode mu_filter_done inp osize = x_quiet xcode inp osize"
| "fromrd_decoder xcode cmd inp osize = fromrd_loop fromrd_decoder_act (length inp) osize xcode 0 [] inp"

fun fromrd_encoder :: "transcoder xcoder" where
  "fromrd_encoder xcode mu_filter_init inp osize = x_quiet fromrd_start inp osize"
| "fromrd_encoder xcode mu_filter_done inp osize = x_quiet xcode inp osize"
| "fromrd_encoder xcode cmd inp osize = fromrd_loop fromrd_encoder_act (length inp) osize xcode 0 [] inp"

section \<open>Reference transducers\<close>

text \<open>The loop without buffers. What is pending when the input ends is not written.\<close>

fun fromrd_ref :: "(transcoder \<Rightarrow> byte \<Rightarrow> fromrd_act) \<Rightarrow> transcoder \<Rightarrow> bytes \<Rightarrow> bytes" where
  "fromrd_ref act xcode [] = []"
| "fromrd_ref act xcode (c # cs) =
     (case act xcode c of
        Copy xcode \<Rightarrow> c # fromrd_ref act xcode cs
      | Take xcode \<Rightarrow> fromrd_ref act xcode cs
      | Emit xcode \<Rightarrow> fromrd_pending xcode @ c # fromrd_ref act
          (if c = LF then (fromrd_emitted xcode)\<lparr>tc_state := S_BOL\<rparr> else fromrd_emitted xcode) cs)"

abbreviation "fromrd_dec \<equiv> fromrd_ref fromrd_decoder_act"
abbreviation "fromrd_enc \<equiv> fromrd_ref fromrd_encoder_act"

lemma from_line_facts:
  "from_line ! 0 = 70" "length from_line = 6" "take 5 from_line = FROM_MARK_STR"
  "k \<le> 5 \<Longrightarrow> from_line ! k = 0 \<longleftrightarrow> k = 5"
proof -
  show "from_line ! 0 = 70" "length from_line = 6" "take 5 from_line = FROM_MARK_STR"
    by (simp_all add: from_line_def FROM_MARK_STR_def)
  assume "k \<le> 5"
  then have "k = 0 \<or> k = 1 \<or> k = 2 \<or> k = 3 \<or> k = 4 \<or> k = 5" by arith
  then show "from_line ! k = 0 \<longleftrightarrow> k = 5"
    by (elim disjE) (simp_all add: from_line_def FROM_MARK_STR_def)
qed

text \<open>The states that occur: \<open>count\<close> and \<open>len\<close> are 0 unless something is pending.\<close>

definition fromrd_wf :: "transcoder \<Rightarrow> bool" where
  "fromrd_wf xcode \<longleftrightarrow>
     (case tc_state xcode of
        S_INIT \<Rightarrow> tc_count xcode = 0 \<and> tc_len xcode = 0
      | S_BOL \<Rightarrow> tc_count xcode = 0 \<and> tc_len xcode = 0
      | S_ESC \<Rightarrow> 0 < tc_count xcode \<and> tc_len xcode = 0
      | S_FROM \<Rightarrow> 0 \<le> tc_count xcode \<and> 0 < tc_len xcode \<and> tc_len xcode \<le> 5)"

lemma fromrd_emitted_wf:
  "fromrd_wf (fromrd_emitted xcode)" "fromrd_wf ((fromrd_emitted xcode)\<lparr>tc_state := S_BOL\<rparr>)"
  by (simp_all add: fromrd_wf_def fromrd_emitted_def)

text \<open>Both switches keep the state well-formed; the decoder is only in \<open>S_FROM\<close> after a \<open>>\<close>, so its
  count does not become negative.\<close>

definition fromrd_dec_wf :: "transcoder \<Rightarrow> bool" where
  "fromrd_dec_wf xcode \<longleftrightarrow> fromrd_wf xcode \<and> (tc_state xcode = S_FROM \<longrightarrow> 0 < tc_count xcode)"

definition fromrd_act_wf :: "(transcoder \<Rightarrow> bool) \<Rightarrow> fromrd_act \<Rightarrow> bool" where
  "fromrd_act_wf ok a \<longleftrightarrow>
     (case a of Copy x \<Rightarrow> ok x | Take x \<Rightarrow> ok x
      | Emit x \<Rightarrow> 0 \<le> tc_count x \<and> tc_len x \<le> 5 \<and> ok (fromrd_emitted x) \<and>
          ok ((fromrd_emitted x)\<lparr>tc_state := S_BOL\<rparr>))"

lemma fromrd_encoder_act_wf:
  "fromrd_wf xcode \<Longrightarrow> fromrd_act_wf fromrd_wf (fromrd_encoder_act xcode c)"
  using from_line_facts(4)[of "tc_len xcode"]
  by (auto simp: fromrd_encoder_act_def fromrd_act_wf_def fromrd_wf_def fromrd_emitted_def
      split: fromrd_state.splits)

lemma fromrd_decoder_act_wf:
  "fromrd_dec_wf xcode \<Longrightarrow> fromrd_act_wf fromrd_dec_wf (fromrd_decoder_act xcode c)"
  using from_line_facts(4)[of "tc_len xcode"]
  by (auto simp: fromrd_decoder_act_def fromrd_act_wf_def fromrd_dec_wf_def fromrd_wf_def
      fromrd_emitted_def split: fromrd_state.splits)

lemma fromrd_pending_length:
  "tc_len xcode \<le> 5 \<Longrightarrow> length (fromrd_pending xcode) = tc_len xcode + nat (tc_count xcode)"
  by (simp add: fromrd_pending_def from_line_facts)

text \<open>No \<open>int\<close> overflows on the way.\<close>

fun fromrd_fits :: "(transcoder \<Rightarrow> byte \<Rightarrow> fromrd_act) \<Rightarrow> transcoder \<Rightarrow> bytes \<Rightarrow> bool" where
  "fromrd_fits act xcode [] = True"
| "fromrd_fits act xcode (c # cs) =
     (case act xcode c of
        Copy xcode \<Rightarrow> fromrd_fits act xcode cs
      | Take xcode \<Rightarrow> tc_count xcode \<le> INT_MAX \<and> fromrd_fits act xcode cs
      | Emit xcode \<Rightarrow> int (tc_len xcode) + tc_count xcode \<le> INT_MAX \<and> fromrd_fits act
          (if c = LF then (fromrd_emitted xcode)\<lparr>tc_state := S_BOL\<rparr> else fromrd_emitted xcode) cs)"

text \<open>With room for all that will be written and one byte more, one call consumes the whole
  buffer and writes the reference text.\<close>

lemma fromrd_loop_ref:
  assumes "\<And>x c. ok x \<Longrightarrow> fromrd_act_wf ok (act x c)"
  shows "ok xcode \<Longrightarrow> fromrd_fits act xcode inp \<Longrightarrow> length out + length (fromrd_ref act xcode inp) < osize \<Longrightarrow>
   \<exists>st. fromrd_loop act isize osize xcode i out inp =
        x_ok st (i + length inp) (out @ fromrd_ref act xcode inp)"
proof (induction inp arbitrary: xcode i out)
  case Nil
  then show ?case by (auto intro: exI[of _ xcode])
next
  case (Cons c cs)
  note keeps = assms[OF Cons.prems(1), of c]
  have room: "length out < osize" using Cons.prems(3) by simp
  show ?case
  proof (cases "act xcode c")
    case (Copy x)
    with Cons.IH[of x "out @ [c]" "Suc i"] Cons.prems keeps room show ?thesis
      by (simp add: fromrd_act_wf_def)
  next
    case (Take x)
    with Cons.IH[of x out "Suc i"] Cons.prems keeps room show ?thesis
      by (simp add: fromrd_act_wf_def)
  next
    case (Emit x)
    let ?x = "if c = LF then (fromrd_emitted x)\<lparr>tc_state := S_BOL\<rparr> else fromrd_emitted x"
    have x: "0 \<le> tc_count x" "tc_len x \<le> 5" "ok ?x"
      using keeps Emit by (auto simp: fromrd_act_wf_def)
    with Cons.IH[of ?x "out @ fromrd_pending x @ [c]" "Suc i"] Cons.prems Emit room
      fromrd_pending_length[of x]
    show ?thesis by (simp del: if_split)
  qed
qed

section \<open>Round trip\<close>

abbreviation tc :: "fromrd_state \<Rightarrow> nat \<Rightarrow> nat \<Rightarrow> transcoder" where
  "tc s n k \<equiv> \<lparr>tc_state = s, tc_count = int n, tc_len = k\<rparr>"

lemma from_line_mark: "k < 5 \<Longrightarrow> from_line ! k = FROM_MARK_STR ! k"
  unfolding from_line_def by (rule nth_append_left) (simp add: FROM_MARK_STR_def)

lemma mark_facts: "length FROM_MARK_STR = 5" "FROM_MARK_STR ! 0 = 70" "LF \<notin> set FROM_MARK_STR"
  by (simp_all add: FROM_MARK_STR_def)

lemma dec_init_copy:
  "LF \<notin> set xs \<Longrightarrow> fromrd_dec (tc S_INIT 0 0) (xs @ ys) = xs @ fromrd_dec (tc S_INIT 0 0) ys"
  by (induction xs) (auto simp: fromrd_decoder_act_def)

lemma dec_gts:
  "fromrd_dec (tc S_ESC m 0) (replicate n GT_C @ ys) = fromrd_dec (tc S_ESC (m + n) 0) ys"
proof (induction n arbitrary: m)
  case (Suc n)
  from Suc[of "Suc m"] show ?case by (simp add: fromrd_decoder_act_def add.commute)
qed simp

lemma dec_mark:
  "j \<le> 5 \<Longrightarrow> k \<le> j \<Longrightarrow>
   fromrd_dec (tc S_FROM n k) (take (j - k) (drop k FROM_MARK_STR) @ ys) = fromrd_dec (tc S_FROM n j) ys"
proof (induction "j - k" arbitrary: k)
  case (Suc d)
  then have k: "k < 5" "d = j - Suc k" by auto
  then have "take (j - k) (drop k FROM_MARK_STR) =
      FROM_MARK_STR ! k # take (j - Suc k) (drop (Suc k) FROM_MARK_STR)"
    using Suc.hyps(2) by (metis Cons_nth_drop_Suc mark_facts(1) take_Suc_Cons)
  moreover have "fromrd_decoder_act (tc S_FROM n k) (FROM_MARK_STR ! k) = Take (tc S_FROM n (Suc k))"
    using k from_line_facts(4)[of k] by (simp add: fromrd_decoder_act_def from_line_mark)
  ultimately show ?case using Suc.hyps(1)[OF k(2)] Suc.hyps(2) Suc.prems by simp
qed simp

text \<open>The state after a byte that has been copied.\<close>

abbreviation tc_after :: "byte \<Rightarrow> transcoder" where
  "tc_after c \<equiv> tc (if c = LF then S_BOL else S_INIT) 0 0"

lemma tc_emitted:
  "(if c = LF then (fromrd_emitted x)\<lparr>tc_state := S_BOL\<rparr> else fromrd_emitted x) = tc_after c"
  by (simp add: fromrd_emitted_def)

lemma dec_esc_other:
  assumes "0 < n" "c \<noteq> GT_C" "c \<noteq> 70"
  shows "fromrd_dec (tc S_BOL 0 0) (replicate n GT_C @ c # ys) =
    replicate n GT_C @ c # fromrd_dec (tc_after c) ys"
proof -
  obtain m where n: "n = Suc m" using assms(1) by (cases n) auto
  have "fromrd_dec (tc S_BOL 0 0) (replicate n GT_C @ c # ys) = fromrd_dec (tc S_ESC n 0) (c # ys)"
    using dec_gts[of 1 m "c # ys"] by (simp add: n fromrd_decoder_act_def)
  also have "\<dots> = replicate n GT_C @ c # fromrd_dec (tc_after c) ys"
    using assms by (simp add: fromrd_decoder_act_def fromrd_pending_def fromrd_emitted_def
        from_line_facts(1))
  finally show ?thesis .
qed

lemma dec_from_start:
  assumes "0 < n" "0 < k" "k \<le> 5"
  shows "fromrd_dec (tc S_BOL 0 0) (replicate n GT_C @ take k FROM_MARK_STR @ ys) =
    fromrd_dec (tc S_FROM n k) ys"
proof -
  obtain m where n: "n = Suc m" using assms(1) by (cases n) auto
  have mark: "take k FROM_MARK_STR = 70 # take (k - 1) (drop 1 FROM_MARK_STR)"
    using assms(2) by (cases k) (simp_all add: FROM_MARK_STR_def)
  have "fromrd_dec (tc S_BOL 0 0) (replicate n GT_C @ take k FROM_MARK_STR @ ys)
      = fromrd_dec (tc S_ESC n 0) (take k FROM_MARK_STR @ ys)"
    using dec_gts[of 1 m "take k FROM_MARK_STR @ ys"] by (simp add: n fromrd_decoder_act_def)
  also have "\<dots> = fromrd_dec (tc S_FROM n 1) (take (k - 1) (drop 1 FROM_MARK_STR) @ ys)"
    unfolding mark by (simp add: fromrd_decoder_act_def from_line_facts(1))
  also have "\<dots> = fromrd_dec (tc S_FROM n k) ys"
    using dec_mark[of k 1 n ys] assms by simp
  finally show ?thesis .
qed

lemma dec_quoted:
  "fromrd_dec (tc S_BOL 0 0) (replicate (Suc n) GT_C @ FROM_MARK_STR @ c # ys) =
    replicate n GT_C @ FROM_MARK_STR @ c # fromrd_dec (tc_after c) ys"
proof -
  have "fromrd_dec (tc S_BOL 0 0) (replicate (Suc n) GT_C @ FROM_MARK_STR @ c # ys)
      = fromrd_dec (tc S_FROM (Suc n) 5) (c # ys)"
    using dec_from_start[of "Suc n" 5 "c # ys"] by (simp add: mark_facts)
  also have "\<dots> = replicate n GT_C @ FROM_MARK_STR @ c # fromrd_dec (tc_after c) ys"
    by (simp add: fromrd_decoder_act_def fromrd_pending_def fromrd_emitted_def from_line_facts)
  finally show ?thesis .
qed

lemma dec_partial:
  assumes "0 < k" "k < 5" "c \<noteq> FROM_MARK_STR ! k"
  shows "fromrd_dec (tc S_BOL 0 0) (replicate n GT_C @ take k FROM_MARK_STR @ c # ys) =
    replicate n GT_C @ take k FROM_MARK_STR @ c # fromrd_dec (tc_after c) ys"
proof (cases n)
  case 0
  have mark: "take k FROM_MARK_STR = 70 # take (k - 1) (drop 1 FROM_MARK_STR)"
    using assms(1) by (cases k) (simp_all add: FROM_MARK_STR_def)
  have "LF \<notin> set (take (k - 1) (drop 1 FROM_MARK_STR))"
    using mark_facts(3) by (meson in_set_dropD in_set_takeD)
  then show ?thesis
    using dec_init_copy[of "take (k - 1) (drop 1 FROM_MARK_STR)" "c # ys"]
    unfolding mark 0 by (simp add: fromrd_decoder_act_def)
next
  case (Suc m)
  have "from_line ! k \<noteq> 0" "from_line ! k \<noteq> c"
    using assms from_line_facts(4)[of k] by (auto simp: from_line_mark)
  moreover have "take k from_line = take k FROM_MARK_STR"
    using assms(2) by (simp add: from_line_def mark_facts)
  ultimately have "fromrd_dec (tc S_FROM n k) (c # ys) =
      replicate n GT_C @ take k FROM_MARK_STR @ c # fromrd_dec (tc_after c) ys"
    by (simp add: fromrd_decoder_act_def fromrd_pending_def fromrd_emitted_def)
  then show ?thesis using dec_from_start[of n k "c # ys"] assms Suc by simp
qed

lemma init_acts:
  "fromrd_encoder_act (tc S_INIT 0 0) c = Copy (tc_after c)"
  "fromrd_decoder_act (tc S_INIT 0 0) c = Copy (tc_after c)"
  by (simp_all add: fromrd_encoder_act_def fromrd_decoder_act_def)

lemma bol_acts:
  "fromrd_encoder_act (tc S_BOL 0 0) c =
     (if c = GT_C then Take (tc S_ESC 1 0) else if c = 70 then Take (tc S_FROM 0 1)
      else Copy (tc S_INIT 0 0))"
  "c \<noteq> GT_C \<Longrightarrow> fromrd_decoder_act (tc S_BOL 0 0) c = Copy (tc S_INIT 0 0)"
  by (simp_all add: fromrd_encoder_act_def fromrd_decoder_act_def from_line_facts(1))

lemma esc_act:
  "fromrd_encoder_act (tc S_ESC n 0) c =
     (if c = GT_C then Take (tc S_ESC (Suc n) 0) else if c = 70 then Take (tc S_FROM n 1)
      else Emit (tc S_INIT n 0))"
  by (simp add: fromrd_encoder_act_def from_line_facts(1))

lemma from_acts:
  "fromrd_encoder_act (tc S_FROM n 5) c = Emit (tc S_FROM (Suc n) 5)"
  "k < 5 \<Longrightarrow> fromrd_encoder_act (tc S_FROM n k) c =
     (if c = FROM_MARK_STR ! k then Take (tc S_FROM n (Suc k)) else Emit (tc S_FROM n k))"
  using from_line_facts(4)[of k] from_line_facts(4)[of 5]
  by (simp_all add: fromrd_encoder_act_def from_line_mark)

lemma pending_tc:
  "k \<le> 5 \<Longrightarrow> fromrd_pending (tc s n k) = replicate n GT_C @ take k FROM_MARK_STR"
  by (simp add: fromrd_pending_def from_line_def mark_facts)

lemmas fromrd_steps = fromrd_ref.simps fromrd_act.case tc_emitted

lemma fromrd_dec_enc_gen:
  "cs = [] \<or> last cs = LF \<Longrightarrow>
   fromrd_dec (tc S_INIT 0 0) (fromrd_enc (tc S_INIT 0 0) cs) = cs \<and>
   fromrd_dec (tc S_BOL 0 0) (fromrd_enc (tc S_BOL 0 0) cs) = cs \<and>
   (\<forall>n. cs \<noteq> [] \<longrightarrow> 0 < n \<longrightarrow>
      fromrd_dec (tc S_BOL 0 0) (fromrd_enc (tc S_ESC n 0) cs) = replicate n GT_C @ cs) \<and>
   (\<forall>n k. cs \<noteq> [] \<longrightarrow> 0 < k \<longrightarrow> k \<le> 5 \<longrightarrow>
      fromrd_dec (tc S_BOL 0 0) (fromrd_enc (tc S_FROM n k) cs) =
        replicate n GT_C @ take k FROM_MARK_STR @ cs)"
proof (induction cs)
  case (Cons c cs)
  have lst: "cs = [] \<or> last cs = LF" using Cons.prems by (auto split: if_splits)
  have ne: "c \<noteq> LF \<Longrightarrow> cs \<noteq> []" using Cons.prems by auto
  note IH = Cons.IH[OF lst]
  have init: "fromrd_dec (tc S_INIT 0 0) (fromrd_enc (tc S_INIT 0 0) cs) = cs" using IH by blast
  have after: "fromrd_dec (tc_after c) (fromrd_enc (tc_after c) cs) = cs"
    using IH by simp
  have esc: "fromrd_dec (tc S_BOL 0 0) (fromrd_enc (tc S_ESC n 0) cs) = replicate n GT_C @ cs"
    if "c \<noteq> LF" "0 < n" for n
    using IH ne that by blast
  have frm: "fromrd_dec (tc S_BOL 0 0) (fromrd_enc (tc S_FROM n k) cs) =
      replicate n GT_C @ take k FROM_MARK_STR @ cs" if "c \<noteq> LF" "0 < k" "k \<le> 5" for n k
    using IH ne that by blast
  have 1: "fromrd_dec (tc S_INIT 0 0) (fromrd_enc (tc S_INIT 0 0) (c # cs)) = c # cs"
    using after by (simp only: fromrd_ref.simps init_acts fromrd_act.case)
  have 2: "fromrd_dec (tc S_BOL 0 0) (fromrd_enc (tc S_BOL 0 0) (c # cs)) = c # cs"
  proof -
    consider "c = GT_C" | "c = 70" | "c \<noteq> GT_C" "c \<noteq> 70" by blast
    then show ?thesis
    proof cases
      case 1
      then show ?thesis using esc[of 1] by (simp only: fromrd_steps bol_acts) simp
    next
      case 2
      then show ?thesis using frm[of 1 0] by (simp only: fromrd_steps bol_acts) (simp add: FROM_MARK_STR_def)
    next
      case 3
      then show ?thesis
        by (simp only: fromrd_steps bol_acts(1) bol_acts(2)[OF \<open>c \<noteq> GT_C\<close>] if_False init)
    qed
  qed
  have 3: "fromrd_dec (tc S_BOL 0 0) (fromrd_enc (tc S_ESC n 0) (c # cs)) = replicate n GT_C @ c # cs"
    if "0 < n" for n
  proof -
    consider "c = GT_C" | "c = 70" | "c \<noteq> GT_C" "c \<noteq> 70" by blast
    then show ?thesis
    proof cases
      case 1
      then show ?thesis using esc[of "Suc n"] by (simp only: fromrd_steps esc_act if_True) (simp add: replicate_app_Cons_same)
    next
      case 2
      then show ?thesis using frm[of 1 n] by (simp only: fromrd_steps esc_act) (simp add: FROM_MARK_STR_def)
    next
      case 3
      then show ?thesis
        using that after dec_esc_other[of n c "fromrd_enc (tc_after c) cs"]
        by (simp only: fromrd_steps esc_act pending_tc if_False) simp
    qed
  qed
  have 4: "fromrd_dec (tc S_BOL 0 0) (fromrd_enc (tc S_FROM n k) (c # cs)) =
      replicate n GT_C @ take k FROM_MARK_STR @ c # cs" if k05: "0 < k" "k \<le> 5" for n k
  proof (cases "k = 5")
    case True
    then show ?thesis
      using dec_quoted[of n c "fromrd_enc (tc_after c) cs"] after
      by (simp add: fromrd_steps from_acts pending_tc mark_facts del: of_nat_Suc of_nat_0 of_nat_1)
  next
    case False
    with k05 have k: "k < 5" by simp
    show ?thesis
    proof (cases "c = FROM_MARK_STR ! k")
      case True
      then have "c \<noteq> LF" using k(1) mark_facts by (metis nth_mem)
      moreover have "take (Suc k) FROM_MARK_STR = take k FROM_MARK_STR @ [c]"
        using True k(1) by (simp add: take_Suc_conv_app_nth mark_facts)
      ultimately show ?thesis
        using frm[of "Suc k" n] True k by (simp add: fromrd_steps from_acts del: of_nat_Suc of_nat_0 of_nat_1)
    next
      case False
      then show ?thesis
        using dec_partial[of k c n "fromrd_enc (tc_after c) cs"] after k k05
        by (simp add: fromrd_steps from_acts pending_tc del: of_nat_Suc of_nat_0 of_nat_1)
    qed
  qed
  from 1 2 3 4 show ?case by blast
qed simp

lemma fromrd_dec_enc:
  "cs = [] \<or> last cs = LF \<Longrightarrow> fromrd_dec fromrd_start (fromrd_enc fromrd_start cs) = cs"
  using fromrd_dec_enc_gen by (simp add: fromrd_start_def)

section \<open>Runs of the quoting character\<close>

text \<open>\<open>gt_runs M n cs\<close>: after \<open>n\<close> \<open>>\<close>, no run of \<open>>\<close> gets longer than \<open>M\<close>.\<close>

fun gt_runs :: "nat \<Rightarrow> nat \<Rightarrow> bytes \<Rightarrow> bool" where
  "gt_runs M n [] = True"
| "gt_runs M n (c # cs) = (if c = GT_C then Suc n \<le> M \<and> gt_runs M (Suc n) cs else gt_runs M 0 cs)"

lemma gt_runs_less: "gt_runs M n cs \<Longrightarrow> m \<le> n \<Longrightarrow> gt_runs M m cs"
  by (induction M n cs arbitrary: m rule: gt_runs.induct) auto

lemma gt_runs_gts: "gt_runs M n (replicate k GT_C @ cs) \<longleftrightarrow> (0 < k \<longrightarrow> n + k \<le> M) \<and> gt_runs M (n + k) cs"
  by (induction k arbitrary: n) auto

lemma gt_runs_other: "GT_C \<notin> set xs \<Longrightarrow> xs \<noteq> [] \<Longrightarrow> gt_runs M n (xs @ cs) \<longleftrightarrow> gt_runs M 0 cs"
  by (induction xs arbitrary: n) (auto, (case_tac "xs = []"; simp)+)

lemma gt_runs_sublist:
  assumes "\<And>k. sublist (replicate k GT_C) (replicate n GT_C @ cs) \<Longrightarrow> k \<le> M"
  shows "gt_runs M n cs"
  using assms
proof (induction cs arbitrary: n)
  case (Cons c cs)
  show ?case
  proof (cases "c = GT_C")
    case True
    have eq: "replicate n GT_C @ c # cs = replicate (Suc n) GT_C @ cs"
      using True by (simp add: replicate_app_Cons_same)
    have "Suc n \<le> M" using Cons.prems[of "Suc n"] unfolding eq by simp
    moreover have "gt_runs M (Suc n) cs" using Cons.IH[of "Suc n"] Cons.prems unfolding eq by blast
    ultimately show ?thesis using True by simp
  next
    case False
    have "k \<le> M" if "sublist (replicate k GT_C) (replicate 0 GT_C @ cs)" for k
      using that Cons.prems[of k] by (simp add: sublist_Cons_right sublist_appendI sublist_append)
    with False Cons.IH[of 0] show ?thesis by simp
  qed
qed simp

text \<open>The encoder makes a run at most one longer.\<close>

lemma enc_gt_runs:
  "(\<forall>m. gt_runs M m cs \<longrightarrow> gt_runs (Suc M) m (fromrd_enc (tc S_INIT 0 0) cs)) \<and>
   (gt_runs M 0 cs \<longrightarrow> gt_runs (Suc M) 0 (fromrd_enc (tc S_BOL 0 0) cs)) \<and>
   (\<forall>n. 0 < n \<longrightarrow> gt_runs M n cs \<longrightarrow> n \<le> M \<longrightarrow> gt_runs (Suc M) 0 (fromrd_enc (tc S_ESC n 0) cs)) \<and>
   (\<forall>n k. 0 < k \<longrightarrow> k \<le> 5 \<longrightarrow> gt_runs M 0 cs \<longrightarrow> n \<le> M \<longrightarrow>
      gt_runs (Suc M) 0 (fromrd_enc (tc S_FROM n k) cs))"
proof (induction cs)
  case (Cons c cs)
  have after: "gt_runs (Suc M) m (c # fromrd_enc (tc_after c) cs)" if "gt_runs M m (c # cs)" for m
    using Cons.IH that by (cases "c = LF") auto
  have mark: "GT_C \<notin> set (take k FROM_MARK_STR)" for k
    by (rule contra_subsetD[OF set_take_subset]) (simp add: FROM_MARK_STR_def)
  have 1: "gt_runs (Suc M) m (fromrd_enc (tc S_INIT 0 0) (c # cs))" if "gt_runs M m (c # cs)" for m
    using after[OF that] by (simp only: fromrd_ref.simps init_acts fromrd_act.case)
  have init: "gt_runs M 0 cs \<Longrightarrow> gt_runs (Suc M) 0 (fromrd_enc (tc S_INIT 0 0) cs)" using Cons.IH by blast
  have esc: "0 < n \<Longrightarrow> gt_runs M n cs \<Longrightarrow> n \<le> M \<Longrightarrow> gt_runs (Suc M) 0 (fromrd_enc (tc S_ESC n 0) cs)" for n
    using Cons.IH by blast
  have frm: "0 < k \<Longrightarrow> k \<le> 5 \<Longrightarrow> gt_runs M 0 cs \<Longrightarrow> n \<le> M \<Longrightarrow>
      gt_runs (Suc M) 0 (fromrd_enc (tc S_FROM n k) cs)" for n k
    using Cons.IH by blast
  have zero: "gt_runs M m (c # cs) \<Longrightarrow> gt_runs M 0 cs" for m
    by (auto dest: gt_runs_less split: if_splits)
  have 2: "gt_runs (Suc M) 0 (fromrd_enc (tc S_BOL 0 0) (c # cs))" if "gt_runs M 0 (c # cs)"
  proof -
    consider "c = GT_C" | "c = 70" | "c \<noteq> GT_C" "c \<noteq> 70" by blast
    then show ?thesis
    proof cases
      case 1
      then show ?thesis using esc[of 1] that by (simp only: fromrd_steps bol_acts) simp
    next
      case 2
      then show ?thesis using frm[of 1 0] zero[OF that] by (simp only: fromrd_steps bol_acts) simp
    next
      case 3
      then show ?thesis using init zero[OF that] by (simp only: fromrd_steps bol_acts) simp
    qed
  qed
  have 3: "gt_runs (Suc M) 0 (fromrd_enc (tc S_ESC n 0) (c # cs))" if "0 < n" "gt_runs M n (c # cs)" "n \<le> M" for n
  proof -
    consider "c = GT_C" | "c = 70" | "c \<noteq> GT_C" "c \<noteq> 70" by blast
    then show ?thesis
    proof cases
      case 1
      then show ?thesis using esc[of "Suc n"] that by (simp only: fromrd_steps esc_act) simp
    next
      case 2
      then show ?thesis using frm[of 1 n] zero[OF that(2)] that by (simp only: fromrd_steps esc_act) simp
    next
      case 3
      with that have "gt_runs (Suc M) n (c # fromrd_enc (tc_after c) cs)"
        using after[OF that(2)] by blast
      with 3 that show ?thesis
        by (simp only: fromrd_steps esc_act pending_tc if_False) (simp add: gt_runs_gts)
    qed
  qed
  have 4: "gt_runs (Suc M) 0 (fromrd_enc (tc S_FROM n k) (c # cs))"
    if "0 < k" "k \<le> 5" "gt_runs M 0 (c # cs)" "n \<le> M" for n k
  proof -
    have k5: "k \<le> 5" by (rule that(2))
    have ne: "take k FROM_MARK_STR \<noteq> []" using that(1) by (simp add: FROM_MARK_STR_def)
    have run: "gt_runs (Suc M) 0 (replicate j GT_C @ take k FROM_MARK_STR @ c # fromrd_enc (tc_after c) cs)"
      if "j \<le> Suc M" for j
      using that after[OF \<open>gt_runs M 0 (c # cs)\<close>] gt_runs_other[OF mark ne]
      by (simp only: gt_runs_gts add_0) simp
    consider "k = 5" | "k < 5" "c = FROM_MARK_STR ! k" | "k < 5" "c \<noteq> FROM_MARK_STR ! k"
      using k5 by fastforce
    then show ?thesis
    proof cases
      case 1
      then show ?thesis using run[of "Suc n"] that(4)
        by (simp add: fromrd_steps from_acts pending_tc mark_facts del: of_nat_Suc of_nat_0 of_nat_1 gt_runs.simps replicate_Suc)
    next
      case 2
      then show ?thesis using frm[of "Suc k" n] zero[OF that(3)] that
        by (simp add: fromrd_steps from_acts del: of_nat_Suc of_nat_0 of_nat_1 gt_runs.simps)
    next
      case 3
      then show ?thesis using run[of n] that
        by (simp add: fromrd_steps from_acts pending_tc del: of_nat_Suc of_nat_0 of_nat_1 gt_runs.simps)
    qed
  qed
  from 1 2 3 4 show ?case by blast
qed simp

text \<open>How much of the run before the next byte is in the count.\<close>

definition gt_room :: "nat \<Rightarrow> transcoder \<Rightarrow> bytes \<Rightarrow> bool" where
  "gt_room M x cs \<longleftrightarrow> tc_count x \<le> int M \<and> gt_runs M 0 cs \<and>
     (tc_state x = S_ESC \<longrightarrow> gt_runs M (nat (tc_count x)) cs)"

lemma gt_room_emitted:
  "gt_runs M 0 cs \<Longrightarrow> gt_room M (fromrd_emitted x) cs"
  "gt_runs M 0 cs \<Longrightarrow> gt_room M ((fromrd_emitted x)\<lparr>tc_state := S_BOL\<rparr>) cs"
  by (simp_all add: gt_room_def fromrd_emitted_def)

lemma gt_runs_tail: "gt_runs M n (c # cs) \<Longrightarrow> gt_runs M 0 cs"
  by (auto dest: gt_runs_less split: if_splits)

lemma enc_act_room:
  assumes "fromrd_wf x" "gt_room M x (c # cs)"
  shows "case fromrd_encoder_act x c of Copy y \<Rightarrow> gt_room M y cs | Take y \<Rightarrow> gt_room M y cs
    | Emit y \<Rightarrow> tc_len y \<le> 5 \<and> tc_count y \<le> int M + 1"
  using assms gt_runs_tail[of M 0 c cs]
  by (auto simp: fromrd_encoder_act_def gt_room_def fromrd_wf_def nat_add_distrib
      split: fromrd_state.splits if_splits)

lemma dec_act_room:
  assumes "fromrd_dec_wf x" "gt_room M x (c # cs)"
  shows "case fromrd_decoder_act x c of Copy y \<Rightarrow> gt_room M y cs | Take y \<Rightarrow> gt_room M y cs
    | Emit y \<Rightarrow> tc_len y \<le> 5 \<and> tc_count y \<le> int M"
  using assms gt_runs_tail[of M 0 c cs]
  by (auto simp: fromrd_decoder_act_def gt_room_def fromrd_dec_wf_def fromrd_wf_def nat_add_distrib
      split: fromrd_state.splits if_splits)

lemma fromrd_fits_room:
  assumes wf: "\<And>x c. ok x \<Longrightarrow> fromrd_act_wf ok (act x c)"
    and room: "\<And>x c cs. ok x \<Longrightarrow> gt_room M x (c # cs) \<Longrightarrow>
      (case act x c of Copy y \<Rightarrow> gt_room M y cs | Take y \<Rightarrow> gt_room M y cs
       | Emit y \<Rightarrow> int (tc_len y) + tc_count y \<le> INT_MAX)"
    and "int M \<le> INT_MAX"
  shows "ok x \<Longrightarrow> gt_room M x cs \<Longrightarrow> fromrd_fits act x cs"
proof (induction cs arbitrary: x)
  case (Cons c cs)
  have tl: "gt_runs M 0 cs" using Cons.prems(2) gt_runs_tail by (auto simp: gt_room_def)
  from wf[OF Cons.prems(1), of c] room[OF Cons.prems] show ?case
  proof (cases "act x c")
    case (Emit y)
    with wf[OF Cons.prems(1), of c] room[OF Cons.prems] Cons.IH gt_room_emitted[OF tl, of y]
    show ?thesis by (simp add: fromrd_act_wf_def)
  next
    case (Take y)
    with wf[OF Cons.prems(1), of c] room[OF Cons.prems] Cons.IH[of y] assms(3)
    show ?thesis by (simp add: fromrd_act_wf_def gt_room_def)
  next
    case (Copy y)
    with wf[OF Cons.prems(1), of c] room[OF Cons.prems] Cons.IH[of y]
    show ?thesis by (simp add: fromrd_act_wf_def)
  qed
qed simp

lemma fromrd_enc_fits:
  assumes "int M + 6 \<le> INT_MAX" "fromrd_wf x" "gt_room M x cs"
  shows "fromrd_fits fromrd_encoder_act x cs"
proof (rule fromrd_fits_room[where ok = fromrd_wf and M = M])
  fix x c cs
  assume "fromrd_wf x" "gt_room M x (c # cs)"
  from enc_act_room[OF this] assms(1)
  show "case fromrd_encoder_act x c of Copy y \<Rightarrow> gt_room M y cs | Take y \<Rightarrow> gt_room M y cs
      | Emit y \<Rightarrow> int (tc_len y) + tc_count y \<le> INT_MAX"
    by (auto split: fromrd_act.splits)
qed (use assms fromrd_encoder_act_wf in auto)

lemma fromrd_dec_fits:
  assumes "int M + 5 \<le> INT_MAX" "fromrd_dec_wf x" "gt_room M x cs"
  shows "fromrd_fits fromrd_decoder_act x cs"
proof (rule fromrd_fits_room[where ok = fromrd_dec_wf and M = M])
  fix x c cs
  assume "fromrd_dec_wf x" "gt_room M x (c # cs)"
  from dec_act_room[OF this] assms(1)
  show "case fromrd_decoder_act x c of Copy y \<Rightarrow> gt_room M y cs | Take y \<Rightarrow> gt_room M y cs
      | Emit y \<Rightarrow> int (tc_len y) + tc_count y \<le> INT_MAX"
    by (auto split: fromrd_act.splits)
qed (use assms fromrd_decoder_act_wf in auto)

text \<open>Texts whose runs of \<open>>\<close> leave room in an \<open>int\<close> for one more and the five bytes of the mark.\<close>

lemma fromrd_fits_both:
  assumes "\<forall>n. sublist (replicate n GT_C) bs \<longrightarrow> int n + 6 \<le> INT_MAX"
  shows "fromrd_fits fromrd_encoder_act fromrd_start bs"
    "fromrd_fits fromrd_decoder_act fromrd_start (fromrd_enc fromrd_start bs)"
proof -
  let ?M = "nat (INT_MAX - 6)"
  have M: "int ?M + 6 \<le> INT_MAX" "int (Suc ?M) + 5 \<le> INT_MAX" by (simp_all add: INT_MAX_def)
  have runs: "gt_runs ?M 0 bs" using assms by (intro gt_runs_sublist) fastforce
  have start: "fromrd_wf fromrd_start" "fromrd_dec_wf fromrd_start"
    by (simp_all add: fromrd_start_def fromrd_wf_def fromrd_dec_wf_def)
  from runs show "fromrd_fits fromrd_encoder_act fromrd_start bs"
    by (intro fromrd_enc_fits[OF M(1) start(1)]) (simp add: gt_room_def fromrd_start_def)
  have "gt_runs (Suc ?M) 0 (fromrd_enc fromrd_start bs)"
    using enc_gt_runs[of ?M bs] runs by (simp add: fromrd_start_def)
  then show "fromrd_fits fromrd_decoder_act fromrd_start (fromrd_enc fromrd_start bs)"
    by (intro fromrd_dec_fits[OF M(2) start(2)]) (simp add: gt_room_def fromrd_start_def)
qed

end
