(* ===== verification/Base64_Trip.thy ===== *)
theory Base64_Trip
  imports Flt_Base64
begin

text \<open>
  The two directions of the base64 code put together: \<open>mu_base64_decode\<close> undoes
  \<open>mu_base64_encode\<close>, the decoder reads what the encoder writes, line breaks included, the
  lines keep to their limit, and where the decoder goes wrong.
\<close>

section \<open>Round trips\<close>

lemma b64_tables:
  "length b64tab = 64" "map b64digit b64tab = map of_nat [0..<64]"
  "list_all (\<lambda>c. b64val ! unat c \<noteq> -1 \<and> unat c < 128 \<and> c \<noteq> EQ_C \<and> c \<noteq> LF) b64tab"
  by code_simp+

text \<open>The characters of the code stand for the values below 64.\<close>

lemma b64_char:
  assumes "unat (v :: byte) < 64"
  shows "b64digit (b64char v) = v" "b64val ! unat (b64char v) \<noteq> -1" "unat (b64char v) < 128"
    "b64char v \<noteq> EQ_C" "b64char v \<noteq> LF"
proof -
  have "map b64digit b64tab ! unat v = map of_nat [0..<64] ! unat v"
    by (simp only: b64_tables(2))
  with assms show "b64digit (b64char v) = v" by (simp add: b64char_def b64_tables(1))
  have "b64char v \<in> set b64tab" using assms by (simp add: b64char_def b64_tables(1))
  with b64_tables(3) show "b64val ! unat (b64char v) \<noteq> -1" "unat (b64char v) < 128"
    "b64char v \<noteq> EQ_C" "b64char v \<noteq> LF" by (simp_all add: list_all_iff)
qed

lemma b64_low:
  fixes a b :: byte
  shows "unat (drop_bit 2 a) < 64" "unat (a AND 0x3f) < 64" "unat (push_bit 4 a AND 0x30) < 64"
    "unat (push_bit 2 a AND 0x3c) < 64"
    "unat ((push_bit 4 a AND 0x30) OR drop_bit 4 b) < 64" "unat ((push_bit 2 a AND 0x3c) OR drop_bit 6 b) < 64"
proof -
  show "unat (drop_bit 2 a) < 64"
    by (rule all_bytesI[of "\<lambda>a. unat (drop_bit 2 a) < 64"]; code_simp)
  have low: "unat (a AND 0x3f) < 64" for a :: byte
    by (rule all_bytesI[of "\<lambda>a. unat (a AND 0x3f) < 64"]; code_simp)
  then show "unat (a AND 0x3f) < 64" .
  show "unat (push_bit 4 a AND 0x30) < 64" "unat (push_bit 2 a AND 0x3c) < 64"
    using low[of "push_bit 4 a"] low[of "push_bit 2 a"] by (simp_all add: b64_masks)
  show "unat ((push_bit 4 a AND 0x30) OR drop_bit 4 b) < 64" "unat ((push_bit 2 a AND 0x3c) OR drop_bit 6 b) < 64"
    using low[of "push_bit 4 a + drop_bit 4 b"] low[of "push_bit 2 a + drop_bit 6 b"]
    by (simp_all only: b64_bits)
qed

lemmas b64_chars = b64_char[OF b64_low(1)] b64_char[OF b64_low(2)] b64_char[OF b64_low(3)]
  b64_char[OF b64_low(4)] b64_char[OF b64_low(5)] b64_char[OF b64_low(6)]

text \<open>Taking the groups apart again, one bit at a time.\<close>

lemma b64_mask_bits: "(0x30 :: byte) = push_bit 4 (mask 2)" "(0x3c :: byte) = push_bit 2 (mask 4)" 
 "(0x3f :: byte) = mask 6" "(0xf0 :: byte) = push_bit 4 (mask 4)" "(0xc0 :: byte) = push_bit 6 (mask 2)"
  "(0xf :: byte) = mask 4" "(0x3 :: byte) = mask 2"
  by (simp_all add: mask_eq_exp_minus_1 push_bit_eq_mult)

lemma byte_eqI:
  fixes a b :: byte
  assumes "bit a 0 = bit b 0" "bit a 1 = bit b 1" "bit a 2 = bit b 2" "bit a 3 = bit b 3"
    "bit a 4 = bit b 4" "bit a 5 = bit b 5" "bit a 6 = bit b 6" "bit a 7 = bit b 7"
  shows "a = b"
proof (rule bit_word_eqI)
  fix n assume "n < LENGTH(8)"
  then have "n = 0 \<or> n = 1 \<or> n = 2 \<or> n = 3 \<or> n = 4 \<or> n = 5 \<or> n = 6 \<or> n = 7" by auto
  with assms show "bit a n = bit b n" by auto
qed

lemma b64_pieces:
  fixes a :: byte
  shows "push_bit 2 (drop_bit 2 a) OR drop_bit 4 (push_bit 4 a) AND 0x3 = a"
    "push_bit 4 (drop_bit 4 a) OR drop_bit 2 (push_bit 2 a) AND 0xf = a"
    "push_bit 6 (drop_bit 6 a) OR (a AND 0x3f) = a"
    "push_bit 4 (push_bit 4 a AND 0x30) AND 0xf0 = 0" "push_bit 4 (drop_bit 4 a) AND 0xf0 = push_bit 4 (drop_bit 4 a)"
    "push_bit 6 (push_bit 2 a AND 0x3c) AND 0xc0 = 0" "push_bit 6 (drop_bit 6 a) AND 0xc0 = push_bit 6 (drop_bit 6 a)"
    "drop_bit 4 (drop_bit 4 a) = 0" "drop_bit 2 (drop_bit 6 a) = 0"
    "(push_bit 4 a AND 0x30) AND 0x30 = push_bit 4 a AND 0x30" "drop_bit 4 a AND 0x30 = 0"
    "(push_bit 4 a AND 0x30) AND 0xf = 0" "drop_bit 4 a AND 0xf = drop_bit 4 a"
    "(push_bit 2 a AND 0x3c) AND 0x3c = push_bit 2 a AND 0x3c" "drop_bit 6 a AND 0x3c = 0"
    "(push_bit 2 a AND 0x3c) AND 0x3 = 0" "drop_bit 6 a AND 0x3 = drop_bit 6 a"
  unfolding b64_mask_bits
  by (rule byte_eqI; auto simp: bit_simps dest: bit_imp_le_length)+

lemma b64_or_zero: "(0 :: byte) OR a = a" "(a :: byte) OR 0 = a"
  by simp_all

lemmas b64_undo = bit.conj_disj_distrib2 drop_bit_or push_bit_or b64_pieces b64_or_zero

lemma b64_block_bytes:
  "b64_block [drop_bit 2 a, (push_bit 4 a AND 0x30) OR drop_bit 4 b,
     (push_bit 2 b AND 0x3c) OR drop_bit 6 c, c AND 0x3f] = [a, b, c]"
  by (simp add: b64_block_def b64_undo)

lemma b64_block_two:
  "b64_block [drop_bit 2 a, (push_bit 4 a AND 0x30) OR drop_bit 4 b, push_bit 2 b AND 0x3c, 0] = [a, b, 0]"
  using b64_block_bytes[of a b 0] by simp

lemma b64_block_one: "b64_block [drop_bit 2 a, push_bit 4 a AND 0x30, 0, 0] = [a, 0, 0]"
  using b64_block_bytes[of a 0 0] by simp

lemma b64_bad_char:
  assumes "unat v < 64"
  shows "\<not> b64bad pad (b64char v)"
  using b64_char[OF assms] by (simp add: b64bad_def)

lemma b64_bad_pad: "\<not> b64bad True EQ_C"
  by (simp add: b64bad_def)

lemmas b64_good = b64_bad_pad b64_bad_char[OF b64_low(1)] b64_bad_char[OF b64_low(2)] b64_bad_char[OF b64_low(3)]
  b64_bad_char[OF b64_low(4)] b64_bad_char[OF b64_low(5)] b64_bad_char[OF b64_low(6)]

text \<open>\<open>mu_base64_decode\<close> gives back what \<open>mu_base64_encode\<close> was given.\<close>

lemma mu_base64_encode_Nil [simp]: "mu_base64_encode bs = [] \<longleftrightarrow> bs = []"
  by (cases bs rule: mu_base64_encode.cases) (auto simp: b64_triple_def)

lemma base64_decode_loop_encode:
  "bs \<noteq> [] \<Longrightarrow> length bs \<le> room \<Longrightarrow> base64_decode_loop room (mu_base64_encode bs) = Inr bs"
proof (induction bs arbitrary: room rule: mu_base64_encode.induct)
  case (1 a b c input)
  then show ?case
    by (subst base64_decode_loop.simps) (auto simp: b64_triple_def b64_good b64_chars Let_def b64_undo)
next
  case (2 a b)
  then show ?case
    by (subst base64_decode_loop.simps) (simp add: b64_good b64_chars Let_def b64_undo)
next
  case (3 a)
  then show ?case
    by (subst base64_decode_loop.simps) (simp add: b64_good b64_chars Let_def b64_undo)
qed simp

text \<open>The encoder's text is longer than what it stands for, and with its zero fits into the block the
  encoder allocates.\<close>

lemma mu_base64_encode_longer: "length bs \<le> length (mu_base64_encode bs)"
  by (induction bs rule: mu_base64_encode.induct) (auto simp: b64_triple_def)

lemma mu_base64_encode_fits:
  "length (mu_base64_encode bs) + 1 \<le> 4 * (length bs + 2) div 3 + 1"
  by (induction bs rule: mu_base64_encode.induct) (auto simp: b64_triple_def)

lemma mu_base64_decode_encode:
  "bs \<noteq> [] \<Longrightarrow> int (length (mu_base64_encode bs)) \<le> INT_MAX \<Longrightarrow>
   mu_base64_decode (mu_base64_encode bs) = Inr bs"
  by (simp add: mu_base64_decode_int base64_decode_loop_encode mu_base64_encode_longer)

text \<open>The decoder on lines: line breaks are skipped, and characters go to the digits collected.\<close>

definition b64_item :: "byte \<Rightarrow> bool" where
  "b64_item c \<longleftrightarrow> c = EQ_C \<or> (unat c < 128 \<and> b64val ! unat c \<noteq> -1)"

definition b64_value :: "byte \<Rightarrow> byte" where
  "b64_value c = (if c = EQ_C then 0 else b64digit c)"

definition b64_pads :: "bytes \<Rightarrow> nat" where
  "b64_pads cs = length (filter (\<lambda>c. c = EQ_C) cs)"

lemma b64_pads_simps [simp]:
  "b64_pads [] = 0" "b64_pads (c # cs) = (if c = EQ_C then Suc (b64_pads cs) else b64_pads cs)"
  by (simp_all add: b64_pads_def)

lemma b64_collect_newline: "length data < 4 \<Longrightarrow> b64_collect data pad (LF # cs) = b64_collect data pad cs"
  by (simp add: b64val_def)

lemma b64_collect_item:
  assumes "b64_item c" "length data < 4" "pad + b64_pads [c] \<le> 3"
  shows "b64_collect data pad (c # cs) = b64_collect (data @ [b64_value c]) (pad + b64_pads [c]) cs"
proof (cases "c = EQ_C")
  case True
  then have "b64val ! unat c = -1" by (simp add: b64val_def)
  with True assms show ?thesis by (simp add: b64_value_def)
next
  case False
  with assms show ?thesis by (auto simp: b64_item_def b64_value_def b64digit_def Let_def)
qed

lemma b64_collect_lines:
  assumes "list_all b64_item cs" "length data + length cs \<le> 4" "pad + b64_pads cs \<le> 3"
  shows "\<exists>cur'. b64_collect data pad (b64_lines m cur (cs @ t)) =
     b64_collect (data @ map b64_value cs) (pad + b64_pads cs) (b64_lines m cur' t)"
  using assms
proof (induction cs arbitrary: data pad cur)
  case (Cons c cs)
  have one: "b64_collect data pad (c # t) = b64_collect (data @ [b64_value c]) (pad + b64_pads [c]) t" for t
    by (rule b64_collect_item) (use Cons.prems in \<open>auto split: if_splits\<close>)
  define cur1 where "cur1 = (if m \<noteq> 0 \<and> cur = m then 1 else Suc cur)"
  have "b64_collect data pad (b64_lines m cur ((c # cs) @ t)) = b64_collect data pad (c # b64_lines m cur1 (cs @ t))"
    using Cons.prems(2) by (auto simp: cur1_def b64_collect_newline simp del: b64_collect.simps(2))
  also have "\<dots> = b64_collect (data @ [b64_value c]) (pad + b64_pads [c]) (b64_lines m cur1 (cs @ t))"
    by (rule one)
  finally show ?case
    using Cons.IH[of "data @ [b64_value c]" "pad + b64_pads [c]" cur1] Cons.prems by (auto split: if_splits)
next
  case Nil
  show ?case by (rule exI[of _ cur]) simp
qed

lemma b64_collect_four: "length data = 4 \<Longrightarrow> b64_collect data pad cs = Inr (data, pad, cs)"
  by (cases cs) auto

lemma b64_decoder_quad:
  assumes "list_all b64_item q" "length q = 4" "b64_pads q \<le> 3" "length buf + 3 < osize"
  shows "\<exists>cur'. base64_decoder_loop mu_filter_lastbuf osize 0 consumed (length buf) buf (b64_lines m cur (q @ t)) =
      base64_decoder_loop mu_filter_lastbuf osize (b64_pads q)
        (consumed + (length (b64_lines m cur (q @ t)) - length (b64_lines m cur' t)))
        (length buf + (3 - b64_pads q)) (buf @ b64_block (map b64_value q)) (b64_lines m cur' t) \<and>
      length (b64_lines m cur' t) \<le> length (b64_lines m cur (q @ t))"
proof -
  obtain cur' where c: "b64_collect [] 0 (b64_lines m cur (q @ t)) =
      Inr (map b64_value q, b64_pads q, b64_lines m cur' t)"
    using b64_collect_lines[OF assms(1), of "[]" 0 m cur t] assms(2,3) by (auto simp: b64_collect_four)
  have ne: "b64_lines m cur (q @ t) \<noteq> []" using assms(2) by (cases q) auto
  have "length (b64_lines m cur' t) \<le> length (b64_lines m cur (q @ t))"
    using b64_collect_shorter[OF c] by simp
  moreover have "base64_decoder_loop mu_filter_lastbuf osize 0 consumed (length buf) buf (b64_lines m cur (q @ t)) =
      base64_decoder_loop mu_filter_lastbuf osize (b64_pads q)
        (consumed + (length (b64_lines m cur (q @ t)) - length (b64_lines m cur' t)))
        (length buf + (3 - b64_pads q)) (buf @ b64_block (map b64_value q)) (b64_lines m cur' t)"
    using ne assms(2,4) by (subst base64_decoder_loop.simps) (simp add: c)
  ultimately show ?thesis by blast
qed

lemma b64_decoder_end:
  assumes "nbytes + 3 < osize"
  shows "base64_decoder_loop mu_filter_lastbuf osize pad consumed nbytes buf (b64_lines m cur []) =
    x_ok () (consumed + length (b64_lines m cur [])) (take nbytes buf)"
  using assms by (subst base64_decoder_loop.simps) (auto simp: b64val_def x_ret_def)

lemma b64_decoder_last_quad:
  assumes "list_all b64_item q" "length q = 4" "b64_pads q \<le> 3" "length buf + (3 - b64_pads q) + 3 < osize"
  shows "base64_decoder_loop mu_filter_lastbuf osize 0 consumed (length buf) buf (b64_lines m cur q) =
    x_ok () (consumed + length (b64_lines m cur q)) (buf @ take (3 - b64_pads q) (b64_block (map b64_value q)))"
proof -
  obtain cur' where q: "base64_decoder_loop mu_filter_lastbuf osize 0 consumed (length buf) buf (b64_lines m cur (q @ [])) =
      base64_decoder_loop mu_filter_lastbuf osize (b64_pads q)
        (consumed + (length (b64_lines m cur (q @ [])) - length (b64_lines m cur' [])))
        (length buf + (3 - b64_pads q)) (buf @ b64_block (map b64_value q)) (b64_lines m cur' [])"
    and len: "length (b64_lines m cur' []) \<le> length (b64_lines m cur (q @ []))"
    using b64_decoder_quad[OF assms(1-3), of buf osize consumed m cur "[]"] assms(4) by fastforce
  show ?thesis
    using q len unfolding append_Nil2 b64_decoder_end[OF assms(4)] by (simp del: b64_lines.simps)
qed

lemma b64_items:
  "list_all b64_item (b64_triple a b c)" "b64_pads (b64_triple a b c) = 0"
  "map b64_value (b64_triple a b c) = [drop_bit 2 a, (push_bit 4 a AND 0x30) OR drop_bit 4 b,
     (push_bit 2 b AND 0x3c) OR drop_bit 6 c, c AND 0x3f]"
  by (simp_all add: b64_triple_def b64_item_def b64_value_def b64_chars)

lemma b64_triple_length: "length (b64_triple a b c) = 4"
  by (simp add: b64_triple_def)

lemma base64_decoder_lines:
  assumes "length buf + length bs + 3 < osize"
  shows "base64_decoder_loop mu_filter_lastbuf osize 0 consumed (length buf) buf (b64_lines m cur (mu_base64_encode bs)) =
    x_ok () (consumed + length (b64_lines m cur (mu_base64_encode bs))) (buf @ bs)"
  using assms
proof (induction bs arbitrary: buf cur consumed rule: mu_base64_encode.induct)
  case (1 a b c input)
  let ?t = "mu_base64_encode input"
  obtain cur' where q: "base64_decoder_loop mu_filter_lastbuf osize 0 consumed (length buf) buf
        (b64_lines m cur (b64_triple a b c @ ?t)) =
      base64_decoder_loop mu_filter_lastbuf osize 0
        (consumed + (length (b64_lines m cur (b64_triple a b c @ ?t)) - length (b64_lines m cur' ?t)))
        (length buf + 3) (buf @ [a, b, c]) (b64_lines m cur' ?t)"
    and len: "length (b64_lines m cur' ?t) \<le> length (b64_lines m cur (b64_triple a b c @ ?t))"
    using b64_decoder_quad[OF b64_items(1)[of a b c] b64_triple_length, of buf osize consumed m cur ?t] "1.prems"
    unfolding b64_items(2,3) b64_block_bytes by auto
  have "length (buf @ [a, b, c]) = length buf + 3" by simp
  with "1.IH"[of "buf @ [a, b, c]"] "1.prems" len show ?case
    unfolding mu_base64_encode.simps q by (simp del: length_append)
next
  case (2 a b)
  let ?q = "mu_base64_encode [a, b]"
  have v: "list_all b64_item ?q" "length ?q = 4" "b64_pads ?q = 1"
    "map b64_value ?q = [drop_bit 2 a, (push_bit 4 a AND 0x30) OR drop_bit 4 b, push_bit 2 b AND 0x3c, 0]"
    by (simp_all add: b64_item_def b64_value_def b64_chars)
  show ?case
    using b64_decoder_last_quad[OF v(1,2), of buf osize consumed m cur] "2.prems"
    unfolding v(3,4) b64_block_two by (simp del: mu_base64_encode.simps b64_lines.simps)
next
  case (3 a)
  let ?q = "mu_base64_encode [a]"
  have v: "list_all b64_item ?q" "length ?q = 4" "b64_pads ?q = 2"
    "map b64_value ?q = [drop_bit 2 a, push_bit 4 a AND 0x30, 0, 0]"
    by (simp_all add: b64_item_def b64_value_def b64_chars)
  show ?case
    using b64_decoder_last_quad[OF v(1,2), of buf osize consumed m cur] "3.prems"
    unfolding v(3,4) b64_block_one by (simp del: mu_base64_encode.simps b64_lines.simps)
next
  case 4
  then show ?case
    using b64_decoder_end[of "length buf" osize 0 consumed buf m cur] by (simp del: b64_lines.simps)
qed

text \<open>Data after padding: the count of bytes stands still, the place of the next byte does not.\<close>

lemma base64_decoder_after_padding:
  assumes "length buf \<le> osize" "3 < osize" "osize < length buf + 3 * k"
  shows "base64_decoder_loop cmd osize 3 consumed 0 buf (replicate (4 * k) 65) = x_failure () OUT_OF_BOUNDS"
  using assms
proof (induction k arbitrary: buf consumed)
  case (Suc k)
  have r: "replicate (4 * Suc k) (65 :: byte) = [65, 65, 65, 65] @ replicate (4 * k) 65"
    by (simp add: numeral_eq_Suc)
  have c: "b64_collect [] 3 (65 # 65 # 65 # 65 # cs) = Inr ([0, 0, 0, 0], 3, cs)" for cs
    by (simp add: b64val_def b64_collect_four)
  show ?case
  proof (cases "length buf + 3 > osize")
    case True
    with Suc.prems show ?thesis
      unfolding r by (subst base64_decoder_loop.simps) (simp add: c del: b64_collect.simps)
  next
    case False
    have l: "length (b64_block [0, 0, 0, 0]) = 3" by (simp add: b64_block_def)
    from False Suc.prems show ?thesis
      unfolding r
      by (subst base64_decoder_loop.simps) (simp add: c l Suc.IH del: b64_collect.simps)
  qed
qed simp

lemma base64_decoder_past_buffer:
  assumes "cmd \<notin> {mu_filter_init, mu_filter_done}" "3 < osize" "osize < 3 * (k + 1)"
  shows "base64_decoder () cmd ([65, EQ_C, EQ_C, EQ_C] @ replicate (4 * k) 65) osize = x_failure () OUT_OF_BOUNDS"
proof -
  have c: "b64_collect [] 0 (65 # EQ_C # EQ_C # EQ_C # cs) = Inr ([0, 0, 0, 0], 3, cs)" for cs
    by (simp add: b64val_def b64_collect_four)
  have l: "length (b64_block [0, 0, 0, 0]) = 3" by (simp add: b64_block_def)
  have "base64_decoder_loop cmd osize 0 0 0 [] ([65, EQ_C, EQ_C, EQ_C] @ replicate (4 * k) 65) =
    base64_decoder_loop cmd osize 3 4 0 (b64_block [0, 0, 0, 0]) (replicate (4 * k) 65)"
    using assms(2) by (subst base64_decoder_loop.simps) (simp add: c del: b64_collect.simps)
  also have "\<dots> = x_failure () OUT_OF_BOUNDS"
    by (rule base64_decoder_after_padding) (use assms l in auto)
  finally show ?thesis using assms(1,2) by (cases cmd) auto
qed

text \<open>The lines of the encoder are no longer than the limit.\<close>

fun b64_short :: "nat \<Rightarrow> nat \<Rightarrow> bytes \<Rightarrow> bool" where
  "b64_short m cur [] \<longleftrightarrow> cur \<le> m"
| "b64_short m cur (c # cs) \<longleftrightarrow> cur \<le> m \<and> (if c = LF then b64_short m 0 cs else b64_short m (Suc cur) cs)"

lemma b64_lines_short: "0 < m \<Longrightarrow> cur \<le> m \<Longrightarrow> LF \<notin> set cs \<Longrightarrow> b64_short m cur (b64_lines m cur cs)"
  by (induction m cur cs rule: b64_lines.induct) auto

lemma mu_base64_encode_no_LF: "LF \<notin> set (mu_base64_encode bs)"
  by (induction bs rule: mu_base64_encode.induct) (auto simp: b64_triple_def dest: sym simp: b64_chars)

text \<open>A group interrupted by a line break at the end of a window: the decoder steps back over as
  many characters as it has digits, so the first digits of the group are lost.\<close>

lemma base64_decoder_splits:
  "feeds base64_decoder ((), [84, LF, 87, 70, 117], []) [(5, 32)] = ((), [], [77, 97, 110])"
  "feeds base64_decoder ((), [84, LF, 87, 70, 117], []) [(3, 32), (5, 32)] = ((), [87, 70, 117], [])"
  by code_simp+

end
