(* ===== verification/List_Sort.thy ===== *)
theory List_Sort
  imports Mu_Prelude "HOL-Library.Multiset"
begin

text \<open>
  Sorting of \<open>mu_list_t\<close> (\<open>libmailutils/list/sort.c\<close>): the quicksort on the linked entries, with a
  list standing for the chain of items. For a comparator that decides a linear order the result
  is the sorted list.
\<close>

section \<open>The quicksort\<close>

text \<open>The loop that moves every entry but \<open>middle\<close> to one of the two sublists.\<close>

fun qsort_split :: "('a \<Rightarrow> 'a \<Rightarrow> int) \<Rightarrow> 'a \<Rightarrow> 'a list \<Rightarrow> 'a list \<times> 'a list \<Rightarrow> 'a list \<times> 'a list" where
  "qsort_split cmp middle [] (low, high) = (low, high)"
| "qsort_split cmp middle (cur # rest) (low, high) =
     qsort_split cmp middle rest
       (if cmp middle cur < 0 then (low, high @ [cur]) else (low @ [cur], high))"

lemma qsort_split_filter:
  "qsort_split cmp m xs (low, high) =
     (low @ filter (\<lambda>x. \<not> cmp m x < 0) xs, high @ filter (\<lambda>x. cmp m x < 0) xs)"
  by (induction xs arbitrary: low high) auto

lemma qsort_split_length:
  assumes "(low', high') = qsort_split cmp m xs ([], [])"
  shows "length low' \<le> length xs \<and> length high' \<le> length xs"
  using assms by (simp add: qsort_split_filter)

function list_qsort :: "('a \<Rightarrow> 'a \<Rightarrow> int) \<Rightarrow> 'a list \<Rightarrow> 'a list" where
  "list_qsort cmp xs =
     (if length xs < 2 then xs
      else if length xs = 2 then
        (if cmp (last xs) (hd xs) < 0 then [last xs, hd xs] else xs)
      else
        let k = length xs div 2;
            (low, high) = qsort_split cmp (xs ! k) (take k xs @ drop (Suc k) xs) ([], [])
        in list_qsort cmp low @ (xs ! k) # list_qsort cmp high)"
  by pat_completeness auto
termination
proof (relation "measure (\<lambda>(cmp, xs). length xs)", goal_cases)
  case (2 cmp xs k p low high)
  with qsort_split_length[of low high cmp "xs ! k" "take k xs @ drop (Suc k) xs"] show ?case by (simp; linarith)
next
  case (3 cmp xs k p low high)
  with qsort_split_length[of low high cmp "xs ! k" "take k xs @ drop (Suc k) xs"] show ?case by (simp; linarith)
qed simp

declare list_qsort.simps [simp del]

section \<open>It sorts\<close>

text \<open>A comparator that decides the order of the items.\<close>

definition decides :: "('a :: linorder \<Rightarrow> 'a \<Rightarrow> int) \<Rightarrow> bool" where
  "decides cmp \<longleftrightarrow> (\<forall>x y. cmp x y < 0 \<longleftrightarrow> x < y)"

lemma take_drop_mset:
  assumes "k < length xs"
  shows "mset (take k xs @ drop (Suc k) xs) + {#xs ! k#} = mset xs"
proof -
  have "mset (take k xs @ xs ! k # drop (Suc k) xs) = mset xs"
    using assms by (simp only: id_take_nth_drop[symmetric])
  then show ?thesis by (simp add: union_commute)
qed

lemma mset_list_qsort: "mset (list_qsort cmp xs) = mset xs"
proof (induction cmp xs rule: list_qsort.induct)
  case (1 cmp xs)
  let ?k = "length xs div 2" and ?xs = "take (length xs div 2) xs @ drop (Suc (length xs div 2)) xs"
  show ?case
  proof (cases "length xs \<le> 2")
    case True
    then show ?thesis
      by (cases xs rule: remdups_adj.cases) (auto simp: list_qsort.simps)
  next
    case False
    let ?low = "filter (\<lambda>x. \<not> cmp (xs ! ?k) x < 0) ?xs" and ?high = "filter (\<lambda>x. cmp (xs ! ?k) x < 0) ?xs"
    have split: "qsort_split cmp (xs ! ?k) ?xs ([], []) = (?low, ?high)"
      by (simp add: qsort_split_filter)
    have "mset (list_qsort cmp ?low) = mset ?low" "mset (list_qsort cmp ?high) = mset ?high"
      using "1.IH"[OF _ _ refl split[symmetric] refl] False by auto
    moreover have "mset ?low + mset ?high = mset ?xs"
      by (simp only: mset_filter multiset_partition[of "mset ?xs" "\<lambda>x. cmp (xs ! ?k) x < 0", symmetric] add.commute)
    ultimately show ?thesis
      using False take_drop_mset[of ?k xs] by (subst list_qsort.simps) (simp add: split Let_def)
  qed
qed

lemma sorted_list_qsort:
  "decides cmp \<Longrightarrow> sorted (list_qsort cmp xs)"
proof (induction cmp xs rule: list_qsort.induct)
  case (1 cmp xs)
  let ?k = "length xs div 2" and ?xs = "take (length xs div 2) xs @ drop (Suc (length xs div 2)) xs"
  show ?case
  proof (cases "length xs \<le> 2")
    case True
    then show ?thesis using 1(3)
      by (cases xs rule: remdups_adj.cases) (auto simp: list_qsort.simps decides_def)
  next
    case False
    let ?low = "filter (\<lambda>x. \<not> cmp (xs ! ?k) x < 0) ?xs" and ?high = "filter (\<lambda>x. cmp (xs ! ?k) x < 0) ?xs"
    have split: "qsort_split cmp (xs ! ?k) ?xs ([], []) = (?low, ?high)"
      by (simp add: qsort_split_filter)
    have sorted: "sorted (list_qsort cmp ?low)" "sorted (list_qsort cmp ?high)"
      using "1.IH"[OF _ _ refl split[symmetric] refl] "1.prems" False by auto
    have "set (list_qsort cmp ?low) = set ?low" "set (list_qsort cmp ?high) = set ?high"
      by (simp_all only: mset_list_qsort flip: set_mset_mset)
    then have "\<forall>x \<in> set (list_qsort cmp ?low). x \<le> xs ! ?k" "\<forall>y \<in> set (list_qsort cmp ?high). xs ! ?k \<le> y"
      using "1.prems" by (auto simp: decides_def)
    with sorted show ?thesis
      using False by (subst list_qsort.simps) (fastforce simp: split Let_def sorted_append)
  qed
qed

lemma list_qsort_sort: "decides cmp \<Longrightarrow> list_qsort cmp xs = sort xs"
  by (rule properties_for_sort[symmetric]) (simp_all add: mset_list_qsort sorted_list_qsort)

end
