(* ===== verification/Msgset.thy ===== *)
theory Msgset
  imports List_Sort
begin

text \<open>
  Message sets (\<open>libmailutils/msgset\<close>): a list of ranges of message numbers, the order the
  ranges are sorted by, and aggregation, which brings the list into normal form. The list of
  ranges is a HOL list; a loop with an iterator that deletes the current entry is a recursion
  over the entries still to come. Pointers are not null and allocation succeeds.
\<close>

section \<open>Ranges\<close>

text \<open>\<open>struct mu_msgrange\<close>. An end of 0 (\<open>MU_MSGNO_LAST\<close>) is the last message, whatever its number.
  A datatype rather than a record, so that the order of the source can be its \<open>linorder\<close>.\<close>

datatype msgrange = Msgrange (msg_beg: nat) (msg_end: nat)

definition MU_MSGNO_LAST :: nat where "MU_MSGNO_LAST = 0"

text \<open>Numbers are of type \<open>size_t\<close>; the one after the largest (\<open>SIZE_MAX\<close>) is 0.\<close>

definition SIZE_T_MAX :: nat where "SIZE_T_MAX = 2 ^ 64 - 1"

definition size_inc :: "nat \<Rightarrow> nat" where
  "size_inc n = (n + 1) mod 2 ^ 64"

lemma size_inc_less [simp]: "n < SIZE_T_MAX \<Longrightarrow> size_inc n = n + 1"
  by (simp add: size_inc_def SIZE_T_MAX_def)

lemma size_inc_le: "size_inc n \<le> n + 1"
  by (simp add: size_inc_def)

definition compare_msgrange :: "msgrange \<Rightarrow> msgrange \<Rightarrow> int" where
  "compare_msgrange sa sb =
     (if msg_end sa \<noteq> msg_end sb \<and> msg_end sa = MU_MSGNO_LAST then 1
      else if msg_end sa \<noteq> msg_end sb \<and> msg_end sb = MU_MSGNO_LAST then -1
      else if msg_beg sa < msg_beg sb then -1
      else if msg_beg sa > msg_beg sb then 1
      else if msg_end sa = msg_end sb then 0
      else if msg_end sa < msg_end sb then -1
      else 1)"

text \<open>The comparator is a linear order: open ranges last, then by beginning, then by end.\<close>

instantiation msgrange :: linorder
begin

definition less_eq_msgrange :: "msgrange \<Rightarrow> msgrange \<Rightarrow> bool" where
  "r \<le> s \<longleftrightarrow> compare_msgrange r s \<le> 0"

definition less_msgrange :: "msgrange \<Rightarrow> msgrange \<Rightarrow> bool" where
  "r < s \<longleftrightarrow> compare_msgrange r s < 0"

instance
proof
  fix x y z :: msgrange
  note defs = less_eq_msgrange_def less_msgrange_def compare_msgrange_def MU_MSGNO_LAST_def
  show "(x < y) = (x \<le> y \<and> \<not> y \<le> x)" by (auto simp: defs)
  show "x \<le> x" by (simp add: defs)
  show "x \<le> y \<Longrightarrow> y \<le> z \<Longrightarrow> x \<le> z" by (auto simp: defs split: if_splits)
  show "x \<le> y \<Longrightarrow> y \<le> x \<Longrightarrow> x = y" by (cases x; cases y) (auto simp: defs split: if_splits)
  show "x \<le> y \<or> y \<le> x" by (auto simp: defs)
qed

end

lemma compare_decides: "decides compare_msgrange"
  by (simp add: decides_def less_msgrange_def)

text \<open>The messages of a range; an open one has all from its beginning on.\<close>

definition range_msgs :: "msgrange \<Rightarrow> nat set" where
  "range_msgs r = (if msg_end r = MU_MSGNO_LAST then {msg_beg r..} else {msg_beg r..msg_end r})"

definition msgs :: "msgrange list \<Rightarrow> nat set" where
  "msgs rs = (\<Union>r \<in> set rs. range_msgs r)"

lemma msgs_simps [simp]:
  "msgs [] = {}" "msgs (r # rs) = range_msgs r \<union> msgs rs" "msgs (rs @ ss) = msgs rs \<union> msgs ss"
  "msgs (rev rs) = msgs rs"
  by (auto simp: msgs_def)

lemma msgs_set: "set rs = set ss \<Longrightarrow> msgs rs = msgs ss"
  by (simp add: msgs_def)

lemma range_msgs_open [simp]: "range_msgs (Msgrange b MU_MSGNO_LAST) = {b..}"
  by (simp add: range_msgs_def)

text \<open>The ranges the operations make: numbers from 1 on, in order. \<open>closed\<close> ranges are those with
  an end of their own.\<close>

definition range_ok :: "msgrange \<Rightarrow> bool" where
  "range_ok r \<longleftrightarrow> 1 \<le> msg_beg r \<and> (msg_end r = MU_MSGNO_LAST \<or> msg_beg r \<le> msg_end r)"

definition range_closed :: "msgrange \<Rightarrow> bool" where
  "range_closed r \<longleftrightarrow> 1 \<le> msg_beg r \<and> msg_beg r \<le> msg_end r"

lemma range_closed_ok: "range_closed r \<Longrightarrow> range_ok r"
  by (simp add: range_closed_def range_ok_def)

lemma range_closed_msgs: "range_closed r \<Longrightarrow> range_msgs r = {msg_beg r..msg_end r}"
  by (simp add: range_closed_def range_msgs_def MU_MSGNO_LAST_def)

section \<open>Aggregation\<close>

text \<open>The backward loop: the entries before the last one, nearest first, are merged into the open
  range \<open>last\<close> as long as they touch it.\<close>

fun aggr_last :: "msgrange \<Rightarrow> msgrange list \<Rightarrow> msgrange \<times> msgrange list" where
  "aggr_last lst [] = (lst, [])"
| "aggr_last lst (mr # rest) =
     (if msg_end mr = MU_MSGNO_LAST then aggr_last (Msgrange (msg_beg mr) (msg_end lst)) rest
      else if msg_beg mr \<ge> msg_beg lst then aggr_last lst rest
      else if size_inc (msg_end mr) \<ge> msg_beg lst then aggr_last (Msgrange (msg_beg mr) (msg_end lst)) rest
      else (lst, mr # rest))"

text \<open>The forward loop; \<open>prev\<close> is the entry the next one may be merged into. The sum
  \<open>prev->msg_end + 1\<close> is compared with a beginning, which is at least 1, so whether it wraps to 0
  makes no difference.\<close>

fun aggr_merge :: "msgrange \<Rightarrow> msgrange list \<Rightarrow> msgrange list" where
  "aggr_merge prev [] = [prev]"
| "aggr_merge prev (mr # rest) =
     (if msg_end mr = MU_MSGNO_LAST then prev # mr # rest
      else if msg_beg prev \<le> msg_beg mr \<and> msg_beg mr \<le> msg_end prev then
        aggr_merge (if msg_end mr > msg_end prev then Msgrange (msg_beg prev) (msg_end mr) else prev) rest
      else if msg_end prev + 1 = msg_beg mr then aggr_merge (Msgrange (msg_beg prev) (msg_end mr)) rest
      else prev # aggr_merge mr rest)"

definition aggr_forward :: "msgrange list \<Rightarrow> msgrange list" where
  "aggr_forward rs =
     (case rs of [] \<Rightarrow> [] | mr # rest \<Rightarrow> if msg_end mr = MU_MSGNO_LAST then rs else aggr_merge mr rest)"

definition aggr_ranges :: "msgrange list \<Rightarrow> msgrange list" where
  "aggr_ranges rs =
     (if length rs < 2 then rs
      else
        let rs = list_qsort compare_msgrange rs;
            mr = last rs;
            rs = (if msg_end mr = MU_MSGNO_LAST
                  then (case aggr_last mr (tl (rev rs)) of (l, rest) \<Rightarrow> rev rest @ [l])
                  else rs)
        in aggr_forward rs)"

subsection \<open>Aggregation keeps the messages\<close>

text \<open>What the loop needs of the entries: they are sorted and no open one begins behind \<open>lst\<close>.\<close>

definition before_open :: "msgrange \<Rightarrow> msgrange list \<Rightarrow> bool" where
  "before_open lst rest \<longleftrightarrow> sorted (rev rest) \<and>
     (\<forall>r \<in> set rest. range_ok r \<and> (msg_end r = MU_MSGNO_LAST \<longrightarrow> msg_beg r \<le> msg_beg lst))"

lemma le_open:
  "r \<le> s \<Longrightarrow> msg_end r = MU_MSGNO_LAST \<Longrightarrow> msg_end s = MU_MSGNO_LAST \<and> msg_beg r \<le> msg_beg s"
  by (simp add: less_eq_msgrange_def compare_msgrange_def split: if_splits)

lemma before_open_Cons:
  assumes "before_open lst (mr # rest)"
  shows "range_ok mr" "before_open lst rest" "before_open (Msgrange (msg_beg mr) e) rest"
  using assms le_open[of _ mr] by (auto simp: before_open_def sorted_append)

lemma aggr_last_msgs:
  "msg_end lst = MU_MSGNO_LAST \<Longrightarrow> before_open lst rest \<Longrightarrow> aggr_last lst rest = (l, rest') \<Longrightarrow>
   msg_end l = MU_MSGNO_LAST \<and> range_msgs l \<union> msgs rest' = range_msgs lst \<union> msgs rest"
proof (induction lst rest rule: aggr_last.induct)
  case (2 lst mr rest)
  note ok = before_open_Cons[OF "2.prems"(2)]
  let ?lst = "Msgrange (msg_beg mr) (msg_end lst)"
  have lst: "range_msgs lst = {msg_beg lst..}" using "2.prems"(1) by (simp add: range_msgs_def)
  consider (open_end) "msg_end mr = MU_MSGNO_LAST"
    | (inside) "msg_end mr \<noteq> MU_MSGNO_LAST" "msg_beg mr \<ge> msg_beg lst"
    | (touch) "msg_end mr \<noteq> MU_MSGNO_LAST" "\<not> msg_beg mr \<ge> msg_beg lst" "size_inc (msg_end mr) \<ge> msg_beg lst"
    | (apart) "msg_end mr \<noteq> MU_MSGNO_LAST" "\<not> msg_beg mr \<ge> msg_beg lst" "\<not> size_inc (msg_end mr) \<ge> msg_beg lst"
    by linarith
  then show ?case
  proof cases
    case open_end
    have "aggr_last ?lst rest = (l, rest')" using open_end "2.prems"(3) by simp
    from "2.IH"(1)[OF open_end _ ok(3) this] "2.prems"(1)
    have "msg_end l = MU_MSGNO_LAST" "range_msgs l \<union> msgs rest' = {msg_beg mr..} \<union> msgs rest"
      by simp_all
    moreover have "{msg_beg mr..} = range_msgs mr \<union> range_msgs lst"
      using open_end "2.prems"(2) by (auto simp: range_msgs_def before_open_def MU_MSGNO_LAST_def split: if_splits)
    ultimately show ?thesis by auto
  next
    case inside
    have "aggr_last lst rest = (l, rest')" using inside "2.prems"(3) by simp
    from "2.IH"(2)[OF inside "2.prems"(1) ok(2) this]
    have "msg_end l = MU_MSGNO_LAST" "range_msgs l \<union> msgs rest' = range_msgs lst \<union> msgs rest" by simp_all
    moreover have "range_msgs mr \<subseteq> range_msgs lst" using inside by (auto simp: lst) (auto simp: range_msgs_def split: if_splits)
    ultimately show ?thesis by auto
  next
    case touch
    have "aggr_last ?lst rest = (l, rest')" using touch "2.prems"(3) by simp
    from "2.IH"(3)[OF touch _ ok(3) this] "2.prems"(1)
    have "msg_end l = MU_MSGNO_LAST" "range_msgs l \<union> msgs rest' = {msg_beg mr..} \<union> msgs rest"
      by simp_all
    moreover have "range_msgs mr = {msg_beg mr..msg_end mr}" using touch by (simp add: range_msgs_def)
    then have "{msg_beg mr..} = range_msgs mr \<union> range_msgs lst"
      using touch size_inc_le[of "msg_end mr"] by (auto simp: lst)
    ultimately show ?thesis by auto
  next
    case apart
    with "2.prems" show ?thesis by auto
  qed
qed simp

lemma aggr_merge_msgs:
  "range_closed prev \<Longrightarrow> \<forall>r \<in> set rest. range_ok r \<Longrightarrow>
   msgs (aggr_merge prev rest) = range_msgs prev \<union> msgs rest \<and> (\<forall>r \<in> set (aggr_merge prev rest). range_ok r)"
proof (induction prev rest rule: aggr_merge.induct)
  case (2 prev mr rest)
  show ?case
  proof (cases "msg_end mr = MU_MSGNO_LAST")
    case True
    with "2.prems" show ?thesis by (simp add: range_closed_ok)
  next
    case False
    with "2.prems" have mr: "range_closed mr" by (simp add: range_ok_def range_closed_def)
    show ?thesis
    proof (cases "msg_beg prev \<le> msg_beg mr \<and> msg_beg mr \<le> msg_end prev")
      case within: True
      let ?p = "if msg_end mr > msg_end prev then Msgrange (msg_beg prev) (msg_end mr) else prev"
      have "range_closed ?p" "range_msgs ?p = range_msgs prev \<union> range_msgs mr"
        using within mr "2.prems" by (auto simp: range_closed_msgs range_closed_def range_msgs_def MU_MSGNO_LAST_def)
      with "2.IH"(1)[OF False within] "2.prems" False within show ?thesis by (simp add: Un_assoc)
    next
      case beyond: False
      let ?p = "Msgrange (msg_beg prev) (msg_end mr)"
      show ?thesis
      proof (cases "msg_end prev + 1 = msg_beg mr")
        case touch: True
        have "range_closed ?p" "range_msgs ?p = range_msgs prev \<union> range_msgs mr"
          using touch mr "2.prems" by (auto simp: range_closed_msgs range_closed_def range_msgs_def MU_MSGNO_LAST_def)
        with "2.IH"(2)[OF False beyond touch] "2.prems" False beyond touch show ?thesis by (simp add: Un_assoc)
      next
        case apart: False
        then have "aggr_merge prev (mr # rest) = prev # aggr_merge mr rest" using False beyond by auto
        with "2.IH"(3)[OF False beyond apart mr] "2.prems" show ?thesis
          by (simp add: range_closed_ok del: aggr_merge.simps)
      qed
    qed
  qed
qed (simp add: range_closed_ok)

subsection \<open>Aggregation of closed ranges is a normal form\<close>

text \<open>Between two ranges at least one message is missing.\<close>

definition separated :: "msgrange list \<Rightarrow> bool" where
  "separated rs \<longleftrightarrow> (\<forall>r \<in> set rs. range_closed r) \<and> sorted_wrt (\<lambda>r s. msg_end r + 1 < msg_beg s) rs"

lemma aggr_merge_separated:
  "range_closed prev \<Longrightarrow> \<forall>r \<in> set rest. range_closed r \<and> msg_beg prev \<le> msg_beg r \<Longrightarrow>
   sorted_wrt (\<lambda>r s. msg_beg r \<le> msg_beg s) rest \<Longrightarrow>
   separated (aggr_merge prev rest) \<and> (\<forall>r \<in> set (aggr_merge prev rest). msg_beg prev \<le> msg_beg r)"
proof (induction prev rest rule: aggr_merge.induct)
  case (2 prev mr rest)
  then have mr: "range_closed mr" "msg_beg prev \<le> msg_beg mr" "msg_end mr \<noteq> MU_MSGNO_LAST"
    by (simp_all add: range_closed_def MU_MSGNO_LAST_def)
  have rest: "\<forall>r \<in> set rest. range_closed r \<and> msg_beg prev \<le> msg_beg r \<and> msg_beg mr \<le> msg_beg r"
    "sorted_wrt (\<lambda>r s. msg_beg r \<le> msg_beg s) rest" using "2.prems" by auto
  show ?case
  proof (cases "msg_beg mr \<le> msg_end prev")
    case True
    let ?p = "if msg_end mr > msg_end prev then Msgrange (msg_beg prev) (msg_end mr) else prev"
    have p: "range_closed ?p" "msg_beg ?p = msg_beg prev"
      using mr "2.prems"(1) by (auto simp: range_closed_def)
    have "separated (aggr_merge ?p rest) \<and> (\<forall>r \<in> set (aggr_merge ?p rest). msg_beg prev \<le> msg_beg r)"
      using "2.IH"(1)[OF mr(3) conjI[OF mr(2) True] p(1) _ rest(2)] rest(1) unfolding p(2) by blast
    with True mr show ?thesis by simp
  next
    case beyond: False
    let ?p = "Msgrange (msg_beg prev) (msg_end mr)"
    show ?thesis
    proof (cases "msg_end prev + 1 = msg_beg mr")
      case True
      have "range_closed ?p" using mr "2.prems"(1) by (simp add: range_closed_def)
      then have "separated (aggr_merge ?p rest) \<and> (\<forall>r \<in> set (aggr_merge ?p rest). msg_beg prev \<le> msg_beg r)"
        using "2.IH"(2)[OF mr(3) _ True _ _ rest(2)] rest(1) beyond by simp
      with True beyond mr show ?thesis by simp
    next
      case False
      with "2.IH"(3)[OF mr(3) _ False mr(1) _ rest(2)] rest(1) beyond
      have "separated (aggr_merge mr rest)" "\<forall>r \<in> set (aggr_merge mr rest). msg_beg mr \<le> msg_beg r" by simp_all
      moreover from False beyond have "msg_end prev + 1 < msg_beg mr" by simp
      ultimately show ?thesis
        using False beyond mr "2.prems"(1) by (auto simp: separated_def)
    qed
  qed
qed (simp add: separated_def)

text \<open>Both facts for the whole function.\<close>

lemma sorted_last_open:
  assumes "sorted rs" "rs \<noteq> []" "\<forall>r \<in> set rs. range_ok r" "msg_end (last rs) = MU_MSGNO_LAST"
  shows "before_open (last rs) (tl (rev rs))"
proof -
  obtain us u where rs: "rs = us @ [u]" using assms(2) by (cases rs rule: rev_cases) auto
  with assms show ?thesis using le_open[of _ u] by (auto simp: before_open_def sorted_append)
qed

lemma aggr_last_ok:
  "before_open lst rest \<Longrightarrow> range_ok lst \<Longrightarrow> msg_end lst = MU_MSGNO_LAST \<Longrightarrow> aggr_last lst rest = (l, rest') \<Longrightarrow>
   range_ok l \<and> (\<forall>r \<in> set rest'. range_ok r)"
proof (induction lst rest rule: aggr_last.induct)
  case (2 lst mr rest)
  note ok = before_open_Cons[OF "2.prems"(1)]
  have "range_ok (Msgrange (msg_beg mr) (msg_end lst))" using ok(1) "2.prems"(3) by (simp add: range_ok_def)
  with 2 ok show ?case
    by (auto simp: before_open_def split: if_splits)
qed simp

lemma aggr_forward_msgs:
  "\<forall>r \<in> set rs. range_ok r \<Longrightarrow> msgs (aggr_forward rs) = msgs rs \<and> (\<forall>r \<in> set (aggr_forward rs). range_ok r)"
  using aggr_merge_msgs[of "hd rs" "tl rs"]
  by (auto simp: aggr_forward_def range_ok_def range_closed_def split: list.split)

theorem aggr_ranges_msgs:
  assumes "\<forall>r \<in> set rs. range_ok r"
  shows "msgs (aggr_ranges rs) = msgs rs \<and> (\<forall>r \<in> set (aggr_ranges rs). range_ok r)"
proof (cases "length rs < 2")
  case False
  let ?rs = "list_qsort compare_msgrange rs"
  have qs: "?rs = sort rs" by (rule list_qsort_sort[OF compare_decides])
  have ne: "sort rs \<noteq> []" using False by (cases rs) auto
  have rs: "sorted ?rs" "set ?rs = set rs" "?rs \<noteq> []" "\<forall>r \<in> set ?rs. range_ok r"
    unfolding qs using assms ne by simp_all
  then have same: "msgs ?rs = msgs rs" by (intro msgs_set)
  show ?thesis
  proof (cases "msg_end (last ?rs) = MU_MSGNO_LAST")
    case True
    note before = sorted_last_open[OF rs(1,3,4) True]
    obtain l rest where l: "aggr_last (last ?rs) (tl (rev ?rs)) = (l, rest)" by (rule prod.exhaust)
    obtain us u where us: "?rs = us @ [u]" using rs(3) by (cases ?rs rule: rev_cases) auto
    have "range_msgs (last ?rs) \<union> msgs (tl (rev ?rs)) = msgs ?rs" by (simp add: us Un_commute)
    with aggr_last_msgs[OF True before l] have m: "range_msgs l \<union> msgs rest = msgs rs" using same by simp
    have "last ?rs \<in> set ?rs" using rs(3) by simp
    with rs(4) have "range_ok (last ?rs)" by blast
    from aggr_last_ok[OF before this True l] have ok: "\<forall>r \<in> set (rev rest @ [l]). range_ok r" by simp
    have aggr: "aggr_ranges rs = aggr_forward (rev rest @ [l])"
      using False True l by (simp add: aggr_ranges_def Let_def)
    have "msgs (rev rest @ [l]) = msgs rs" using m by auto
    then show ?thesis unfolding aggr using aggr_forward_msgs[OF ok] by blast
  next
    case closed: False
    with False same aggr_forward_msgs[OF rs(4)] show ?thesis by (simp add: aggr_ranges_def)
  qed
qed (simp add: aggr_ranges_def assms)

theorem aggr_ranges_separated:
  assumes "\<forall>r \<in> set rs. range_closed r"
  shows "separated (aggr_ranges rs)"
proof (cases "length rs < 2")
  case True
  then show ?thesis using assms by (cases rs) (auto simp: aggr_ranges_def separated_def)
next
  case False
  let ?rs = "list_qsort compare_msgrange rs"
  have qs: "?rs = sort rs" by (rule list_qsort_sort[OF compare_decides])
  have ne: "sort rs \<noteq> []" using False by (cases rs) auto
  have rs: "sorted ?rs" "\<forall>r \<in> set ?rs. range_closed r" "?rs \<noteq> []"
    unfolding qs using assms ne by simp_all
  obtain mr rest where mr: "?rs = mr # rest" using rs(3) by (cases ?rs) auto
  have "sorted_wrt (\<lambda>r s. msg_beg r \<le> msg_beg s) ?rs"
    by (rule sorted_wrt_mono_rel[OF _ rs(1)])
      (use rs(2) in \<open>auto simp: less_eq_msgrange_def compare_msgrange_def range_closed_def MU_MSGNO_LAST_def split: if_splits\<close>)
  then have "separated (aggr_merge mr rest)"
    using aggr_merge_separated[of mr rest] rs(2) by (simp add: mr)
  moreover have "msg_end (last ?rs) \<noteq> MU_MSGNO_LAST" "msg_end mr \<noteq> MU_MSGNO_LAST"
    using rs(2) last_in_set[OF rs(3)] by (auto simp: mr range_closed_def MU_MSGNO_LAST_def simp del: last.simps)
  ultimately show ?thesis using False by (simp add: aggr_ranges_def aggr_forward_def mr)
qed

end
