(* ===== verification/Msgset_Ops.thy ===== *)
theory Msgset_Ops
  imports Msgset
begin

text \<open>
  The operations on message sets. A function that returns an error code returns the set it has
  left behind and the code, \<open>None\<close> for 0. The mailbox a set belongs to is known by what it
  answers: its message count, its next UID and the translation between numbers and UIDs.
  \<open>size_t\<close> is \<open>nat\<close>; where 1 is added to a number given by the caller or the sum of the counts is
  made, the wrap is written out (\<open>size_inc\<close>). Negation and translation only add 1 to numbers of
  the mailbox, which are below \<open>SIZE_MAX\<close>.
\<close>

section \<open>The state\<close>

definition MU_MSGSET_NUM :: nat where "MU_MSGSET_NUM = 0"
definition MU_MSGSET_UID :: nat where "MU_MSGSET_UID = 1"

lemmas mode_defs = MU_MSGSET_NUM_def MU_MSGSET_UID_def MU_MSGNO_LAST_def

record mailbox =
  mbx_count :: "mu_error + nat"
  mbx_uidnext :: "mu_error + nat"
  mbx_to_msgno :: "nat \<Rightarrow> mu_error + nat"
  mbx_to_uid :: "nat \<Rightarrow> mu_error + nat"

record msgset =
  mg_list :: "msgrange list"
  mg_mbox :: "mailbox option"
  mg_mode :: nat
  mg_aggregated :: bool

type_synonym status = "mu_error option"

definition mu_msgset_create :: "mailbox option \<Rightarrow> nat \<Rightarrow> msgset" where
  "mu_msgset_create mbox mode = \<lparr>mg_list = [], mg_mbox = mbox, mg_mode = mode, mg_aggregated = False\<rparr>"

definition mu_msgset_aggregate :: "msgset \<Rightarrow> msgset" where
  "mu_msgset_aggregate ms =
     (if mg_aggregated ms \<or> length (mg_list ms) < 2 then ms
      else ms\<lparr>mg_list := aggr_ranges (mg_list ms), mg_aggregated := True\<rparr>)"

definition mu_msgset_clear :: "msgset \<Rightarrow> msgset" where
  "mu_msgset_clear ms = ms\<lparr>mg_list := []\<rparr>"

definition mu_msgset_is_empty :: "msgset \<Rightarrow> bool" where
  "mu_msgset_is_empty ms \<longleftrightarrow> mg_list ms = []"

text \<open>\<open>mu_list_foreach\<close>: the action is applied to the items in turn until one returns an error.\<close>

fun list_foreach :: "('a \<Rightarrow> 's \<Rightarrow> 's \<times> status) \<Rightarrow> 'a list \<Rightarrow> 's \<Rightarrow> 's \<times> status" where
  "list_foreach act [] s = (s, None)"
| "list_foreach act (x # xs) s =
     (case act x s of (s, None) \<Rightarrow> list_foreach act xs s | (s, Some e) \<Rightarrow> (s, Some e))"

section \<open>Translation between numbers and UIDs\<close>

text \<open>\<open>mu_mailbox_translate\<close> with the command for the target mode.\<close>

definition mailbox_translate :: "mailbox \<Rightarrow> nat \<Rightarrow> nat \<Rightarrow> mu_error + nat" where
  "mailbox_translate mbox mode n =
     (if mode = MU_MSGSET_NUM then mbx_to_msgno mbox n else mbx_to_uid mbox n)"

text \<open>The two search loops for a UID that exists; \<open>trans_up\<close> returns what was found and where
  \<open>beg\<close> has got to, one behind the UID found.\<close>

function trans_up :: "(nat \<Rightarrow> mu_error + nat) \<Rightarrow> nat \<Rightarrow> nat \<Rightarrow> mu_error + (nat \<times> nat)" where
  "trans_up tr beg x =
     (if beg \<le> x then
        (case tr beg of
           Inr n \<Rightarrow> Inr (n, beg + 1)
         | Inl e \<Rightarrow> if e = MU_ERR_NOENT then trans_up tr (beg + 1) x else Inl e)
      else Inl MU_ERR_NOENT)"
  by pat_completeness auto
termination by (relation "measure (\<lambda>(tr, beg, x). x + 1 - beg)") auto

fun trans_down :: "(nat \<Rightarrow> mu_error + nat) \<Rightarrow> nat \<Rightarrow> nat \<Rightarrow> mu_error + nat" where
  "trans_down tr beg 0 = Inl MU_ERR_NOENT"
| "trans_down tr beg (Suc e) =
     (if beg < Suc e then
        (case tr (Suc e) of
           Inr n \<Rightarrow> Inr n
         | Inl err \<Rightarrow> if err = MU_ERR_NOENT then trans_down tr beg e else Inl err)
      else Inl MU_ERR_NOENT)"

declare trans_up.simps [simp del]

text \<open>Lines 51--71: the beginning. When the end is open, \<open>rc\<close> holds the answer of
  \<open>mu_mailbox_uidnext\<close>, so the search does not start and \<open>n\<close> keeps its initial value 1.\<close>

definition translate_beg :: "mailbox \<Rightarrow> nat \<Rightarrow> nat \<times> nat \<Rightarrow> mu_error + (nat \<times> nat)" where
  "translate_beg mbox mode = (\<lambda>(beg, e).
     case mailbox_translate mbox mode beg of
       Inr n \<Rightarrow> Inr (n, beg)
     | Inl err \<Rightarrow>
         if err = MU_ERR_NOENT \<and> mode = MU_MSGSET_NUM then
           (if e = MU_MSGNO_LAST then
              (case mbx_uidnext mbox of Inl err \<Rightarrow> Inl err | Inr x \<Rightarrow> Inr (1, beg))
            else trans_up (mailbox_translate mbox mode) beg e)
         else Inl err)"

definition translate_pair :: "msgset \<Rightarrow> nat \<Rightarrow> nat \<times> nat \<Rightarrow> mu_error + (nat \<times> nat)" where
  "translate_pair ms mode = (\<lambda>(beg, e).
     case mg_mbox ms of
       None \<Rightarrow> Inr (beg, e)
     | Some mbox \<Rightarrow>
         if mode \<noteq> MU_MSGSET_NUM \<and> mode \<noteq> MU_MSGSET_UID then Inl EINVAL
         else (case translate_beg mbox mode (beg, e) of
             Inl err \<Rightarrow> Inl err
           | Inr (n, beg) \<Rightarrow>
               if beg = e then Inr (n, n)
               else if e = MU_MSGNO_LAST then Inr (n, e)
               else (case mailbox_translate mbox mode e of
                   Inr m \<Rightarrow> Inr (n, m)
                 | Inl err \<Rightarrow>
                     if err = MU_ERR_NOENT \<and> mode = MU_MSGSET_NUM
                     then (case trans_down (mailbox_translate mbox mode) beg e of
                             Inr m \<Rightarrow> Inr (n, m) | Inl err \<Rightarrow> Inl err)
                     else Inl err)))"

section \<open>Adding\<close>

definition ordered_pair :: "nat \<Rightarrow> nat \<Rightarrow> nat \<times> nat" where
  "ordered_pair beg e = (if e \<noteq> MU_MSGNO_LAST \<and> beg > e then (e, beg) else (beg, e))"

definition mu_msgset_add_range :: "msgset \<Rightarrow> nat \<Rightarrow> nat \<Rightarrow> nat \<Rightarrow> msgset \<times> status" where
  "mu_msgset_add_range ms beg e mode =
     (if beg = 0 then (ms, Some EINVAL)
      else case (if mode \<noteq> mg_mode ms then translate_pair ms (mg_mode ms) (ordered_pair beg e)
                 else Inr (ordered_pair beg e)) of
        Inl err \<Rightarrow> (ms, Some err)
      | Inr (beg, e) \<Rightarrow>
          (ms\<lparr>mg_list := mg_list ms @ [Msgrange beg e], mg_aggregated := False\<rparr>, None))"

definition mu_msgset_add :: "msgset \<Rightarrow> msgset option \<Rightarrow> msgset \<times> status" where
  "mu_msgset_add a b =
     (case b of
        None \<Rightarrow> (a, None)
      | Some b \<Rightarrow> list_foreach (\<lambda>r dest. mu_msgset_add_range dest (msg_beg r) (msg_end r) (mg_mode b))
                    (mg_list b) a)"

text \<open>\<open>mu_msgset_copy\<close> appends to \<open>dst\<close> and leaves its flags alone.\<close>

definition mu_msgset_copy :: "msgset \<Rightarrow> msgset \<Rightarrow> msgset" where
  "mu_msgset_copy src dst = dst\<lparr>mg_list := mg_list dst @ mg_list src\<rparr>"

section \<open>Removing\<close>

text \<open>\<open>sub_msgno_last\<close>: the loop runs from the end of the list.\<close>

fun sub_last_loop :: "nat \<Rightarrow> msgrange list \<Rightarrow> msgrange list" where
  "sub_last_loop beg [] = []"
| "sub_last_loop beg (r # rest) =
     (if msg_beg r > beg then sub_last_loop beg rest
      else if msg_beg r = beg then rest
      else r # rest)"

definition sub_msgno_last :: "msgset \<Rightarrow> nat \<Rightarrow> msgset" where
  "sub_msgno_last ms beg =
     ms\<lparr>mg_list := (if beg = 1 then [] else rev (sub_last_loop beg (rev (mg_list ms))))\<rparr>"

fun sub_range_loop :: "nat \<Rightarrow> nat \<Rightarrow> msgrange list \<Rightarrow> msgrange list" where
  "sub_range_loop beg e [] = []"
| "sub_range_loop beg e (mr # rest) =
     (if msg_end mr = MU_MSGNO_LAST then
        (if msg_beg mr = beg then rest
         else if msg_beg mr > beg then Msgrange (size_inc e) (msg_end mr) # rest
         else mr # rest)
      else if msg_beg mr = beg \<and> msg_end mr = e then rest
      else if msg_beg mr \<le> beg \<and> beg \<le> msg_end mr then
        (if msg_beg mr \<le> e \<and> e \<le> msg_end mr then
           (if msg_beg mr = beg then [] else [Msgrange (msg_beg mr) (beg - 1)])
           @ (if e \<noteq> msg_end mr then [Msgrange (size_inc e) (msg_end mr)] else []) @ rest
         else if msg_beg mr = beg then sub_range_loop (msg_end mr) e rest
         else Msgrange (msg_beg mr) (beg - 1) # sub_range_loop (msg_end mr) e rest)
      else if msg_beg mr \<le> e \<and> e \<le> msg_end mr then
        (if size_inc e \<ge> msg_end mr then rest else Msgrange (size_inc e) (msg_end mr) # rest)
      else if beg \<le> msg_beg mr \<and> msg_beg mr \<le> e then sub_range_loop beg e rest
      else mr # sub_range_loop beg e rest)"

text \<open>The border cases, then the loop.\<close>

definition sub_range_list :: "nat \<Rightarrow> nat \<Rightarrow> msgrange list \<Rightarrow> msgrange list" where
  "sub_range_list beg e rs =
     (if e < msg_beg (hd rs) then rs
      else
        let beg = max beg (msg_beg (hd rs)); lst = msg_end (last rs)
        in if lst \<noteq> MU_MSGNO_LAST \<and> beg > lst then rs
           else sub_range_loop beg (if lst \<noteq> MU_MSGNO_LAST then min e lst else e) rs)"

definition mu_msgset_sub_range :: "msgset \<Rightarrow> nat \<Rightarrow> nat \<Rightarrow> nat \<Rightarrow> msgset \<times> status" where
  "mu_msgset_sub_range ms beg e mode =
     (if mg_list ms = [] then (ms, Some MU_ERR_NOENT)
      else case (if mode \<noteq> mg_mode ms then translate_pair ms (mg_mode ms) (ordered_pair beg e)
                 else Inr (ordered_pair beg e)) of
        Inl err \<Rightarrow> (ms, if err = MU_ERR_NOENT then None else Some err)
      | Inr (beg, e) \<Rightarrow>
          let ms = mu_msgset_aggregate ms
          in if e = MU_MSGNO_LAST then (sub_msgno_last ms beg, None)
             else (ms\<lparr>mg_list := sub_range_list beg e (mg_list ms)\<rparr>, None))"

definition mu_msgset_sub :: "msgset \<Rightarrow> msgset option \<Rightarrow> msgset \<times> status" where
  "mu_msgset_sub a b =
     (case b of
        None \<Rightarrow> (a, None)
      | Some b \<Rightarrow> list_foreach (\<lambda>r dest. mu_msgset_sub_range dest (msg_beg r) (msg_end r) (mg_mode b))
                    (mg_list b) a)"

section \<open>Negation and translation of sets\<close>

text \<open>The closure: the new set and the next number that has not been seen.\<close>

definition invert_range :: "msgrange \<Rightarrow> msgset \<times> nat \<Rightarrow> (msgset \<times> nat) \<times> status" where
  "invert_range r = (\<lambda>(nset, next_num).
     case (if next_num < msg_beg r - 1
           then mu_msgset_add_range nset next_num (msg_beg r - 1) (mg_mode nset)
           else (nset, None)) of
       (nset, None) \<Rightarrow> ((nset, msg_end r + 1), None)
     | (nset, Some err) \<Rightarrow> ((nset, next_num), Some err))"

text \<open>Returns the aggregated argument and the new set or an error.\<close>

definition mu_msgset_negate :: "msgset \<Rightarrow> msgset \<times> (mu_error + msgset)" where
  "mu_msgset_negate ms =
     (case mg_mbox ms of
        None \<Rightarrow> (ms, Inl MU_ERR_NOT_OPEN)
      | Some mbox \<Rightarrow>
          let ms = mu_msgset_aggregate ms in
          case (case mbx_count mbox of
                  Inl err \<Rightarrow> Inl err
                | Inr tot \<Rightarrow> if mg_mode ms \<noteq> MU_MSGSET_NUM then mbx_to_uid mbox tot else Inr tot) of
            Inl err \<Rightarrow> (ms, Inl err)
          | Inr tot \<Rightarrow>
              (case list_foreach invert_range (mg_list ms) (mu_msgset_create (Some mbox) (mg_mode ms), 1) of
                 (_, Some err) \<Rightarrow> (ms, Inl err)
               | ((nset, next_num), None) \<Rightarrow>
                   if next_num < tot then
                     (case mu_msgset_add_range nset next_num tot (mg_mode nset) of
                        (nset, None) \<Rightarrow> (ms, Inr nset) | (_, Some err) \<Rightarrow> (ms, Inl err))
                   else (ms, Inr nset)))"

definition trans_range :: "nat \<Rightarrow> bool \<Rightarrow> msgrange \<Rightarrow> msgset \<Rightarrow> msgset \<times> status" where
  "trans_range mode ignore r ms =
     (case translate_pair ms mode (msg_beg r, msg_end r) of
        Inr (beg, e) \<Rightarrow> (ms\<lparr>mg_list := mg_list ms @ [Msgrange beg e]\<rparr>, None)
      | Inl err \<Rightarrow> (ms, if err = MU_ERR_NOENT \<and> ignore then None else Some err))"

text \<open>The new set keeps the mode of \<open>src\<close>. The modes are only found equal when \<open>src\<close> has not been
  aggregated, as that flag is part of the word compared.\<close>

definition mu_msgset_translate :: "msgset \<Rightarrow> nat \<Rightarrow> bool \<Rightarrow> mu_error + msgset" where
  "mu_msgset_translate src mode ignore =
     (let tmp = mu_msgset_create (mg_mbox src) (mg_mode src) in
      if mode = mg_mode src \<and> \<not> mg_aggregated src then Inr (mu_msgset_copy src tmp)
      else case list_foreach (trans_range mode ignore) (mg_list src) tmp of
        (tmp, None) \<Rightarrow> Inr tmp
      | (_, Some err) \<Rightarrow> Inl err)"

section \<open>Queries\<close>

definition count_messages :: "msgrange \<Rightarrow> nat \<Rightarrow> nat" where
  "count_messages r n = (n + (msg_end r + 2 ^ 64 - msg_beg r) + 1) mod 2 ^ 64"

definition mu_msgset_count :: "msgset \<Rightarrow> nat" where
  "mu_msgset_count ms = fold count_messages (mg_list ms) 0"

definition mu_msgset_first :: "msgset \<Rightarrow> msgset \<times> (mu_error + nat)" where
  "mu_msgset_first ms =
     (if mu_msgset_is_empty ms then (ms, Inl EINVAL)
      else let ms = mu_msgset_aggregate ms in (ms, Inr (msg_beg (hd (mg_list ms)))))"

definition mu_msgset_last :: "msgset \<Rightarrow> msgset \<times> (mu_error + nat)" where
  "mu_msgset_last ms =
     (if mu_msgset_is_empty ms then (ms, Inl EINVAL)
      else let ms = mu_msgset_aggregate ms in (ms, Inr (msg_end (last (mg_list ms)))))"

definition compare_msgnum :: "nat \<Rightarrow> msgrange \<Rightarrow> bool" where
  "compare_msgnum msgno r \<longleftrightarrow> msg_beg r \<le> msgno \<and> msgno \<le> msg_end r"

definition mu_msgset_locate :: "msgset \<Rightarrow> nat \<Rightarrow> msgset \<times> (mu_error + msgrange)" where
  "mu_msgset_locate ms n =
     (if n = 0 then (ms, Inl EINVAL)
      else let ms = mu_msgset_aggregate ms
           in (ms, case List.find (compare_msgnum n) (mg_list ms) of
                       Some r \<Rightarrow> Inr r | None \<Rightarrow> Inl MU_ERR_NOENT))"

definition mu_msgset_get_list :: "msgset \<Rightarrow> msgset \<times> msgrange list" where
  "mu_msgset_get_list ms = (let ms = mu_msgset_aggregate ms in (ms, mg_list ms))"

section \<open>Iteration over the messages\<close>

text \<open>\<open>call_action\<close>: a message that has no translation is passed over.\<close>

definition call_action ::
  "(nat \<Rightarrow> 's \<Rightarrow> 's \<times> status) \<Rightarrow> msgset \<Rightarrow> nat \<Rightarrow> nat \<Rightarrow> 's \<Rightarrow> 's \<times> status" where
  "call_action act ms mode i s =
     (if mg_mode ms \<noteq> mode then
        (if mode \<noteq> MU_MSGSET_NUM \<and> mode \<noteq> MU_MSGSET_UID then (s, Some EINVAL)
         else case mg_mbox ms of
           None \<Rightarrow> (s, Some EINVAL)
         | Some mbox \<Rightarrow>
             (case mailbox_translate mbox mode i of
                Inr n \<Rightarrow> act n s
              | Inl err \<Rightarrow> (s, if err = MU_ERR_NOENT then None else Some err)))
      else act i s)"

text \<open>The loops over a range visit its numbers from either end.\<close>

definition procrange ::
  "(nat \<Rightarrow> 's \<Rightarrow> 's \<times> status) \<Rightarrow> msgset \<Rightarrow> nat \<Rightarrow> bool \<Rightarrow> msgrange \<Rightarrow> 's \<Rightarrow> 's \<times> status" where
  "procrange act ms mode backward r =
     (let is = [msg_beg r..<Suc (msg_end r)]
      in list_foreach (call_action act ms mode) (if backward then rev is else is))"

definition mu_msgset_foreach_num ::
  "msgset \<Rightarrow> nat \<Rightarrow> bool \<Rightarrow> (nat \<Rightarrow> 's \<Rightarrow> 's \<times> status) \<Rightarrow> 's \<Rightarrow> msgset \<times> 's \<times> status" where
  "mu_msgset_foreach_num ms mode backward act s =
     (let ms = mu_msgset_aggregate ms; rs = mg_list ms
      in (ms, list_foreach (procrange act ms mode backward) (if backward then rev rs else rs) s))"

end
