(* ===== verification/Msgset_Facts.thy ===== *)
theory Msgset_Facts
  imports Msgset_Ops
begin

text \<open>
  What the operations on message sets do to the set of messages. The facts are about sets of
  closed ranges (no \<open>*\<close>), which aggregation keeps separated.
\<close>

section \<open>Separated ranges\<close>

lemma separated_Cons:
  "separated (r # rs) \<longleftrightarrow> range_closed r \<and> (\<forall>s \<in> set rs. msg_end r + 1 < msg_beg s) \<and> separated rs"
  by (auto simp: separated_def)

lemma separated_Nil [simp]: "separated []" by (simp add: separated_def)

lemma separated_append:
  "separated (rs @ ss) \<longleftrightarrow> separated rs \<and> separated ss \<and>
     (\<forall>r \<in> set rs. \<forall>s \<in> set ss. msg_end r + 1 < msg_beg s)"
  by (auto simp: separated_def sorted_wrt_append)

lemma closed_msgs_iff:
  "\<forall>r \<in> set rs. range_closed r \<Longrightarrow> x \<in> msgs rs \<longleftrightarrow> (\<exists>r \<in> set rs. msg_beg r \<le> x \<and> x \<le> msg_end r)"
  by (auto simp: msgs_def range_closed_msgs)

lemma separated_closed: "separated rs \<Longrightarrow> \<forall>r \<in> set rs. range_closed r"
  by (simp add: separated_def)

text \<open>The set of a message set, and the two forms a list of its may have.\<close>

definition mg_msgs :: "msgset \<Rightarrow> nat set" where
  "mg_msgs ms = msgs (mg_list ms)"

definition mg_closed :: "msgset \<Rightarrow> bool" where
  "mg_closed ms \<longleftrightarrow> (\<forall>r \<in> set (mg_list ms). range_closed r) \<and>
     (mg_aggregated ms \<longrightarrow> separated (mg_list ms))"

lemma aggregate_closed:
  assumes "mg_closed ms"
  shows "separated (mg_list (mu_msgset_aggregate ms))" "mg_msgs (mu_msgset_aggregate ms) = mg_msgs ms"
    "mg_closed (mu_msgset_aggregate ms)"
proof -
  have closed: "\<forall>r \<in> set (mg_list ms). range_closed r" using assms by (simp add: mg_closed_def)
  have one: "length (mg_list ms) < 2 \<Longrightarrow> separated (mg_list ms)"
    using closed by (cases "mg_list ms") (auto simp: separated_Cons)
  show sep: "separated (mg_list (mu_msgset_aggregate ms))"
    using assms one aggr_ranges_separated[OF closed] by (auto simp: mu_msgset_aggregate_def mg_closed_def)
  have "\<forall>r \<in> set (mg_list ms). range_ok r" using closed range_closed_ok by blast
  then show "mg_msgs (mu_msgset_aggregate ms) = mg_msgs ms"
    using aggr_ranges_msgs[of "mg_list ms"] by (simp add: mu_msgset_aggregate_def mg_msgs_def)
  show "mg_closed (mu_msgset_aggregate ms)"
    using sep separated_closed[OF sep] by (simp add: mg_closed_def)
qed

lemma aggregate_fields:
  "mg_mode (mu_msgset_aggregate ms) = mg_mode ms" "mg_mbox (mu_msgset_aggregate ms) = mg_mbox ms"
  by (simp_all add: mu_msgset_aggregate_def)

lemma aggregate_empty: "mg_list (mu_msgset_aggregate ms) = [] \<longleftrightarrow> mg_list ms = []"
proof (cases "mg_aggregated ms \<or> length (mg_list ms) < 2")
  case False
  then obtain r s rs where l: "mg_list ms = r # s # rs" by (cases "mg_list ms" rule: remdups_adj.cases) auto
  have forward: "aggr_forward xs = [] \<longleftrightarrow> xs = []" for xs
  proof -
    have "aggr_merge p ys \<noteq> []" for p ys by (induction p ys rule: aggr_merge.induct) auto
    then show ?thesis by (auto simp: aggr_forward_def split: list.split)
  qed
  have "list_qsort compare_msgrange (mg_list ms) \<noteq> []"
    using mset_list_qsort[of compare_msgrange "mg_list ms"] l by (metis list.distinct(1) mset_zero_iff)
  then have "aggr_ranges (mg_list ms) \<noteq> []"
    using False by (auto simp: aggr_ranges_def forward Let_def split: prod.split)
  then show ?thesis using False l by (simp add: mu_msgset_aggregate_def)
qed (auto simp: mu_msgset_aggregate_def)

section \<open>Adding\<close>

lemma add_range_msgs:
  assumes "1 \<le> beg" "1 \<le> e" "mg_closed ms"
  shows "\<exists>ms'. mu_msgset_add_range ms beg e (mg_mode ms) = (ms', None) \<and> mg_closed ms' \<and>
    mg_msgs ms' = mg_msgs ms \<union> {min beg e..max beg e} \<and> mg_mode ms' = mg_mode ms \<and> mg_mbox ms' = mg_mbox ms"
  using assms
  by (auto simp: mu_msgset_add_range_def ordered_pair_def mg_closed_def mg_msgs_def range_closed_def
      range_msgs_def MU_MSGNO_LAST_def split: prod.split)

lemma add_ranges_msgs:
  assumes "\<forall>r \<in> set rs. range_closed r" "mg_closed a"
  shows "\<exists>a'. list_foreach (\<lambda>r dest. mu_msgset_add_range dest (msg_beg r) (msg_end r) (mg_mode a)) rs a = (a', None)
    \<and> mg_closed a' \<and> mg_msgs a' = mg_msgs a \<union> msgs rs \<and> mg_mode a' = mg_mode a \<and> mg_mbox a' = mg_mbox a"
  using assms
proof (induction rs arbitrary: a)
  case (Cons r rs)
  then obtain a1 where a1: "mu_msgset_add_range a (msg_beg r) (msg_end r) (mg_mode a) = (a1, None)" "mg_closed a1"
    "mg_msgs a1 = mg_msgs a \<union> {min (msg_beg r) (msg_end r)..max (msg_beg r) (msg_end r)}"
    "mg_mode a1 = mg_mode a" "mg_mbox a1 = mg_mbox a"
    using add_range_msgs[of "msg_beg r" "msg_end r" a] by (force simp: range_closed_def)
  have "range_msgs r = {min (msg_beg r) (msg_end r)..max (msg_beg r) (msg_end r)}"
    using Cons.prems by (simp add: range_closed_msgs range_closed_def min_def max_def)
  with Cons.IH[of a1] Cons.prems a1 show ?case by (auto simp: Un_assoc)
qed simp

section \<open>Removing\<close>

text \<open>The one message removed by mistake: when a range behind the first begins inside the part to be
  removed and ends one behind it.\<close>

definition sub_lost :: "nat \<Rightarrow> nat \<Rightarrow> msgrange list \<Rightarrow> nat set" where
  "sub_lost beg e rs =
     (if \<exists>r \<in> set rs. beg < msg_beg r \<and> msg_beg r \<le> e \<and> msg_end r = e + 1 then {e + 1} else {})"

lemma sub_lost_Cons:
  "sub_lost beg e (r # rs) =
     (if beg < msg_beg r \<and> msg_beg r \<le> e \<and> msg_end r = e + 1 then {e + 1} else {}) \<union> sub_lost beg e rs"
  by (auto simp: sub_lost_def)

lemma separated_above:
  assumes "separated rs" "\<forall>r \<in> set rs. n < msg_beg r" "x \<in> msgs rs"
  shows "n < x"
  using assms closed_msgs_iff[OF separated_closed[OF assms(1)], of x] by force

lemma sub_lost_none:
  "\<forall>r \<in> set rs. e < msg_beg r \<Longrightarrow> sub_lost beg e rs = {}"
  by (auto simp: sub_lost_def)

lemma sub_lost_from:
  assumes "\<forall>r \<in> set rs. n < msg_beg r" "beg \<le> n"
  shows "sub_lost n e rs = sub_lost beg e rs"
  using assms by (force simp: sub_lost_def)

lemma sub_range_loop_msgs:
  "separated rs \<Longrightarrow> 1 \<le> beg \<Longrightarrow> beg \<le> e \<Longrightarrow> e < SIZE_T_MAX \<Longrightarrow>
   separated (sub_range_loop beg e rs) \<and>
   msgs (sub_range_loop beg e rs) = msgs rs - {beg..e} - sub_lost beg e rs \<and>
   (\<forall>n. (\<forall>r \<in> set rs. n < msg_beg r) \<longrightarrow> (\<forall>r \<in> set (sub_range_loop beg e rs). n < msg_beg r))"
proof (induction beg e rs rule: sub_range_loop.induct)
  case (2 beg e mr rest)
  have sep: "range_closed mr" "\<forall>s \<in> set rest. msg_end mr + 1 < msg_beg s" "separated rest"
    using "2.prems"(1) by (simp_all add: separated_Cons)
  have mr: "msg_end mr \<noteq> MU_MSGNO_LAST" "msg_beg mr \<le> msg_end mr" "1 \<le> msg_beg mr"
    "range_msgs mr = {msg_beg mr..msg_end mr}"
    using sep(1) range_closed_msgs by (simp_all add: range_closed_def MU_MSGNO_LAST_def)
  have above: "x \<in> msgs rest \<Longrightarrow> msg_end mr + 1 < x" for x
    using separated_above[OF sep(3) sep(2)] .
  have far: "e \<le> msg_end mr + 1 \<Longrightarrow> msgs rest \<inter> {beg..e} = {}" for e
    using above by force
  let ?loop = "sub_range_loop beg e (mr # rest)"
  note loop = sub_range_loop.simps(2)[of beg e mr rest, unfolded size_inc_less[OF "2.prems"(4)]]
  consider (exact) "msg_beg mr = beg" "msg_end mr = e"
    | (split) "\<not> (msg_beg mr = beg \<and> msg_end mr = e)" "msg_beg mr \<le> beg" "e \<le> msg_end mr"
    | (cut) "msg_beg mr \<le> beg" "beg \<le> msg_end mr" "msg_end mr < e"
    | (front) "beg < msg_beg mr" "msg_beg mr \<le> e" "e \<le> msg_end mr"
    | (whole) "beg < msg_beg mr" "msg_end mr < e"
    | (miss) "e < msg_beg mr \<or> msg_end mr < beg"
    using "2.prems"(3) mr(2) by linarith
  then show ?case
  proof cases
    case exact
    then have res: "?loop = rest" using loop mr(1) by simp
    have "\<forall>r \<in> set (mr # rest). \<not> (beg < msg_beg r \<and> msg_beg r \<le> e)" using exact sep(2) by auto
    then have "sub_lost beg e (mr # rest) = {}" by (auto simp: sub_lost_def)
    then show ?thesis using exact sep mr far[of e] by (auto simp: res)
  next
    case split
    have res: "?loop = (if msg_beg mr = beg then [] else [Msgrange (msg_beg mr) (beg - 1)])
        @ (if e \<noteq> msg_end mr then [Msgrange (e + 1) (msg_end mr)] else []) @ rest"
      using split "2.prems"(3) mr(1) by (subst loop) auto
    have lost: "sub_lost beg e (mr # rest) = {}" using split sep(2) by (auto simp: sub_lost_def)
    have "separated ?loop"
      unfolding res using split "2.prems"(2,3) sep mr
      by (auto simp: separated_append separated_Cons range_closed_def)
    moreover have "msgs ?loop = msgs (mr # rest) - {beg..e} - sub_lost beg e (mr # rest)"
    proof -
      have "msgs ?loop = {msg_beg mr..<beg} \<union> {e<..msg_end mr} \<union> msgs rest"
        unfolding res using split "2.prems"(2,3) mr
        by (auto simp: range_msgs_def MU_MSGNO_LAST_def)
      then show ?thesis unfolding lost using split "2.prems"(3) mr far[of e] by auto
    qed
    moreover have "\<forall>n. (\<forall>r \<in> set (mr # rest). n < msg_beg r) \<longrightarrow> (\<forall>r \<in> set ?loop. n < msg_beg r)"
      unfolding res using split "2.prems"(3) mr by auto
    ultimately show ?thesis by blast
  next
    case cut
    let ?rest = "sub_range_loop (msg_end mr) e rest"
    have res: "?loop = (if msg_beg mr = beg then [] else [Msgrange (msg_beg mr) (beg - 1)]) @ ?rest"
      using cut mr(1) by (subst loop) auto
    have ex: "\<not> (msg_beg mr = beg \<and> msg_end mr = e)" and no: "\<not> (msg_beg mr \<le> e \<and> e \<le> msg_end mr)"
      and bound: "1 \<le> msg_end mr" "msg_end mr \<le> e" using cut mr by auto
    have ih: "separated ?rest" "msgs ?rest = msgs rest - {msg_end mr..e} - sub_lost (msg_end mr) e rest"
      "\<forall>n. (\<forall>r \<in> set rest. n < msg_beg r) \<longrightarrow> (\<forall>r \<in> set ?rest. n < msg_beg r)"
      using "2.IH"(1)[OF mr(1) ex conjI[OF cut(1,2)] no _ sep(3)] "2.IH"(2)[OF mr(1) ex conjI[OF cut(1,2)] no _ sep(3)] bound "2.prems"(4)
      by (cases "msg_beg mr = beg"; blast)+
    have "\<forall>r \<in> set rest. msg_end mr < msg_beg r" using sep(2) by auto
    then have lost: "sub_lost (msg_end mr) e rest = sub_lost beg e (mr # rest)"
      using sub_lost_from[of rest "msg_end mr" beg e] cut by (simp add: sub_lost_Cons)
    have "\<forall>s \<in> set ?rest. msg_end mr + 1 < msg_beg s" using ih(3) sep(2) by blast
    then have "separated ?loop"
      unfolding res using cut "2.prems"(2) ih(1) mr by (auto simp: separated_append separated_Cons range_closed_def)
    moreover have "msgs ?loop = msgs (mr # rest) - {beg..e} - sub_lost beg e (mr # rest)"
    proof -
      have "msgs ?loop = {msg_beg mr..<beg} \<union> msgs ?rest"
        unfolding res using cut "2.prems"(2) mr by (auto simp: range_msgs_def MU_MSGNO_LAST_def)
      moreover have "msgs rest - {msg_end mr..e} = msgs rest - {beg..e}"
      proof -
        have inter: "msgs rest \<inter> {beg..msg_end mr} = {}" by (rule far) simp
        have "{beg..e} = {beg..msg_end mr} \<union> {msg_end mr..e}" using cut by auto
        then have "msgs rest - {beg..e} = (msgs rest - {beg..msg_end mr}) \<inter> (msgs rest - {msg_end mr..e})"
          by (simp only: Diff_Un)
        also have "msgs rest - {beg..msg_end mr} = msgs rest" using inter by (rule Diff_triv)
        also have "msgs rest \<inter> (msgs rest - {msg_end mr..e}) = msgs rest - {msg_end mr..e}" by blast
        finally show ?thesis by (rule sym)
      qed
      moreover have "range_msgs mr - {beg..e} = {msg_beg mr..<beg}"
        unfolding mr(4) using cut by (intro set_eqI) (simp, linarith)
      moreover have "{msg_beg mr..<beg} \<inter> sub_lost beg e (mr # rest) = {}"
        using cut by (auto simp: sub_lost_def)
      ultimately show ?thesis unfolding ih(2) lost msgs_simps by blast
    qed
    moreover have "\<forall>n. (\<forall>r \<in> set (mr # rest). n < msg_beg r) \<longrightarrow> (\<forall>r \<in> set ?loop. n < msg_beg r)"
      unfolding res using ih(3) by auto
    ultimately show ?thesis by blast
  next
    case front
    then have res: "?loop = (if e + 1 \<ge> msg_end mr then rest else Msgrange (e + 1) (msg_end mr) # rest)"
      using mr(1) by (subst loop) auto
    have above_e: "\<forall>r \<in> set rest. e < msg_beg r" using sep(2) front by auto
    have lost: "sub_lost beg e (mr # rest) = (if msg_end mr = e + 1 then {e + 1} else {})"
      using front sub_lost_none[OF above_e] by (auto simp: sub_lost_Cons)
    have "separated ?loop" unfolding res using front sep mr by (auto simp: separated_Cons range_closed_def)
    moreover have "msgs ?loop = msgs (mr # rest) - {beg..e} - sub_lost beg e (mr # rest)"
    proof -
      have "msgs ?loop = (if e + 1 \<ge> msg_end mr then {} else {e<..msg_end mr}) \<union> msgs rest"
        unfolding res using mr by (auto simp: range_msgs_def MU_MSGNO_LAST_def)
      then show ?thesis unfolding lost using front mr far[of "e + 1"] far[of e] by auto
    qed
    moreover have "\<forall>n. (\<forall>r \<in> set (mr # rest). n < msg_beg r) \<longrightarrow> (\<forall>r \<in> set ?loop. n < msg_beg r)"
      unfolding res using front by auto
    ultimately show ?thesis by blast
  next
    case whole
    then have res: "?loop = sub_range_loop beg e rest" using mr(1,2) by (subst loop) auto
    have ih: "separated (sub_range_loop beg e rest)"
      "msgs (sub_range_loop beg e rest) = msgs rest - {beg..e} - sub_lost beg e rest"
      "\<forall>n. (\<forall>r \<in> set rest. n < msg_beg r) \<longrightarrow> (\<forall>r \<in> set (sub_range_loop beg e rest). n < msg_beg r)"
      using "2.IH"(3) whole mr sep "2.prems" by simp_all
    have "sub_lost beg e (mr # rest) = sub_lost beg e rest" using whole by (simp add: sub_lost_Cons)
    then show ?thesis unfolding res using ih whole mr by auto
  next
    case miss
    have res: "?loop = mr # sub_range_loop beg e rest" using miss "2.prems"(3) mr(1,2) by (subst loop) auto
    have ih: "separated (sub_range_loop beg e rest)"
      "msgs (sub_range_loop beg e rest) = msgs rest - {beg..e} - sub_lost beg e rest"
      "\<forall>n. (\<forall>r \<in> set rest. n < msg_beg r) \<longrightarrow> (\<forall>r \<in> set (sub_range_loop beg e rest). n < msg_beg r)"
      using "2.IH"(4) miss mr sep "2.prems" by auto
    have lost: "sub_lost beg e (mr # rest) = sub_lost beg e rest" using miss mr(2) by (auto simp: sub_lost_Cons)
    have "\<forall>s \<in> set (sub_range_loop beg e rest). msg_end mr + 1 < msg_beg s" using ih(3) sep(2) by blast
    then have "separated ?loop" unfolding res using ih(1) sep(1) by (simp add: separated_Cons)
    moreover have "range_msgs mr \<inter> {beg..e} = {}" unfolding mr(4) using miss by auto
    moreover have "range_msgs mr \<inter> sub_lost beg e rest = {}"
    proof (cases "e + 1 \<le> msg_end mr")
      case True
      then have "\<forall>r \<in> set rest. e < msg_beg r" using sep(2) by auto
      then show ?thesis by (simp add: sub_lost_none)
    next
      case False
      then show ?thesis unfolding mr(4) by (auto simp: sub_lost_def)
    qed
    ultimately have "separated ?loop" "msgs ?loop = msgs (mr # rest) - {beg..e} - sub_lost beg e (mr # rest)"
      unfolding res lost msgs_simps ih(2) by blast+
    moreover have "\<forall>n. (\<forall>r \<in> set (mr # rest). n < msg_beg r) \<longrightarrow> (\<forall>r \<in> set ?loop. n < msg_beg r)"
      unfolding res using ih(3) by auto
    ultimately show ?thesis by blast
  qed
qed (simp add: sub_lost_def)

lemma separated_bounds:
  "separated rs \<Longrightarrow> r \<in> set rs \<Longrightarrow> msg_beg (hd rs) \<le> msg_beg r \<and> msg_end r \<le> msg_end (last rs)"
proof (induction rs arbitrary: r)
  case (Cons s rs)
  then have sep: "range_closed s" "\<forall>t \<in> set rs. msg_end s + 1 < msg_beg t" "separated rs"
    by (simp_all add: separated_Cons)
  show ?case
  proof (cases "rs = []")
    case False
    then have "last rs \<in> set rs" "hd rs \<in> set rs" by simp_all
    with sep separated_closed[OF sep(3)]
    have "msg_end s + 1 < msg_beg (last rs)" "msg_beg (last rs) \<le> msg_end (last rs)" "msg_beg s \<le> msg_end s"
      by (auto simp: range_closed_def)
    then have "msg_end s \<le> msg_end (last rs)" by linarith
    moreover have "t \<in> set rs \<Longrightarrow> msg_beg s \<le> msg_beg t" for t
      using sep(1,2) by (force simp: range_closed_def)
    ultimately show ?thesis using Cons sep(3) False by auto
  qed (use Cons in auto)
qed simp

lemma separated_msgs_bounds:
  assumes "separated rs" "x \<in> msgs rs"
  shows "msg_beg (hd rs) \<le> x \<and> x \<le> msg_end (last rs)"
proof -
  obtain r where "r \<in> set rs" "msg_beg r \<le> x" "x \<le> msg_end r"
    using assms closed_msgs_iff[OF separated_closed[OF assms(1)], of x] by auto
  then show ?thesis using separated_bounds[OF assms(1), of r] by linarith
qed

lemma sub_range_list_msgs:
  assumes "separated rs" "rs \<noteq> []" "beg \<le> e" "e < SIZE_T_MAX \<or> msg_end (last rs) < SIZE_T_MAX"
  shows "separated (sub_range_list beg e rs) \<and>
    msgs (sub_range_list beg e rs) = msgs rs - {beg..e} - sub_lost beg e (tl rs)"
proof -
  obtain r t where rs: "rs = r # t" using assms(2) by (cases rs) auto
  then have hd: "hd rs = r" by simp
  let ?lst = "msg_end (last rs)"
  note bounds = separated_bounds[OF assms(1)] and inside = separated_msgs_bounds[OF assms(1)]
  have r: "range_closed r" "\<forall>s \<in> set t. msg_end r + 1 < msg_beg s"
    using assms(1) by (simp_all add: rs separated_Cons)
  have lst: "msg_beg r \<le> ?lst" "1 \<le> msg_beg r" "?lst \<noteq> MU_MSGNO_LAST"
    using bounds[of r] r(1) by (auto simp: rs range_closed_def MU_MSGNO_LAST_def)
  consider (below) "e < msg_beg r" | (above) "msg_beg r \<le> e" "?lst < max beg (msg_beg r)"
    | (loop) "msg_beg r \<le> e" "max beg (msg_beg r) \<le> ?lst" by linarith
  then show ?thesis
  proof cases
    case below
    then have res: "sub_range_list beg e rs = rs" by (simp add: sub_range_list_def rs)
    have "\<forall>s \<in> set t. e < msg_beg s" using r below by (auto simp: range_closed_def)
    then have "sub_lost beg e (tl rs) = {}" by (simp add: rs sub_lost_none)
    moreover have "msgs rs \<inter> {beg..e} = {}" using inside below by (fastforce simp: rs)
    ultimately show ?thesis using assms(1) unfolding res by blast
  next
    case above
    then have lt: "?lst < beg" using lst(1) by linarith
    then have res: "sub_range_list beg e rs = rs" using lst above(1)
      by (simp add: sub_range_list_def Let_def hd max_def)
    have "\<not> (\<exists>s \<in> set t. beg < msg_beg s)"
    proof
      assume "\<exists>s \<in> set t. beg < msg_beg s"
      then obtain s where s: "s \<in> set t" "beg < msg_beg s" by blast
      with bounds[of s] separated_closed[OF assms(1)] have "msg_beg s \<le> ?lst"
        by (force simp: rs range_closed_def)
      with s(2) lt show False by linarith
    qed
    then have "sub_lost beg e (tl rs) = {}" by (auto simp: rs sub_lost_def)
    moreover have "msgs rs \<inter> {beg..e} = {}" using inside lt by fastforce
    ultimately show ?thesis using assms(1) unfolding res by blast
  next
    case loop
    let ?b = "max beg (msg_beg r)" and ?e = "min e ?lst"
    have no: "\<not> ?lst < ?b" "\<not> e < msg_beg r" using loop by linarith+
    have "sub_range_list beg e rs = sub_range_loop ?b ?e rs"
      unfolding sub_range_list_def Let_def hd by (simp only: no lst(3) if_False if_True simp_thms)
    moreover have "1 \<le> ?b" "?b \<le> ?e" "?e < SIZE_T_MAX" using loop lst assms(3,4) by linarith+
    note sub_range_loop_msgs[OF assms(1) this]
    moreover have "msgs rs - {?b..?e} = msgs rs - {beg..e}"
    proof -
      have "x \<in> msgs rs \<Longrightarrow> x \<in> {?b..?e} \<longleftrightarrow> x \<in> {beg..e}" for x
        using inside[of x] by (auto simp: rs)
      then show ?thesis by blast
    qed
    moreover have "sub_lost ?b ?e rs = sub_lost beg e (tl rs)"
    proof -
      have "(?b < msg_beg s \<and> msg_beg s \<le> ?e \<and> msg_end s = ?e + 1) \<longleftrightarrow>
          (beg < msg_beg s \<and> msg_beg s \<le> e \<and> msg_end s = e + 1)" if s: "s \<in> set t" for s
      proof -
        have "msg_end s \<le> ?lst" "msg_beg r < msg_beg s" "msg_beg s \<le> msg_end s"
          using s bounds[of s] r separated_closed[OF assms(1)] by (auto simp: rs range_closed_def)
        then show ?thesis by (cases "e \<le> ?lst") auto
      qed
      moreover have "e \<le> ?lst \<or> \<not> (\<exists>s \<in> set t. msg_end s = e + 1)" using bounds by (fastforce simp: rs)
      moreover have "e \<le> ?lst \<or> \<not> (\<exists>s \<in> set t. msg_end s = ?e + 1)" using bounds by (fastforce simp: rs)
      ultimately show ?thesis by (cases "e \<le> ?lst") (auto simp: rs sub_lost_def)
    qed
    ultimately show ?thesis by (simp only:) 
  qed
qed

text \<open>The number after the part removed must be a \<open>size_t\<close>, unless the set ends before it anyway.\<close>

definition sub_in_range :: "msgset \<Rightarrow> nat \<Rightarrow> bool" where
  "sub_in_range ms n \<longleftrightarrow> n < SIZE_T_MAX \<or> (\<forall>r \<in> set (mg_list ms). msg_end r < SIZE_T_MAX)"

lemma sub_in_range_last:
  assumes "sub_in_range ms n" "mg_closed ms" "mg_list ms \<noteq> []"
  shows "n < SIZE_T_MAX \<or> msg_end (last (mg_list (mu_msgset_aggregate ms))) < SIZE_T_MAX"
proof -
  let ?rs = "mg_list (mu_msgset_aggregate ms)"
  note agg = aggregate_closed[OF assms(2)]
  have ne: "?rs \<noteq> []" using assms(3) by (simp add: aggregate_empty)
  then have "last ?rs \<in> set ?rs" "range_closed (last ?rs)" using separated_closed[OF agg(1)] by auto
  then have "msg_end (last ?rs) \<in> msgs ?rs"
    using closed_msgs_iff[OF separated_closed[OF agg(1)]] by (auto simp: range_closed_def)
  then have "msg_end (last ?rs) \<in> msgs (mg_list ms)" using agg(2) by (simp add: mg_msgs_def)
  then obtain r where "r \<in> set (mg_list ms)" "msg_end (last ?rs) \<le> msg_end r"
    using closed_msgs_iff[of "mg_list ms"] assms(2) by (auto simp: mg_closed_def)
  then show ?thesis using assms(1) by (auto simp: sub_in_range_def)
qed

lemma sub_range_msgs:
  assumes "mg_closed ms" "mg_list ms \<noteq> []" "e \<noteq> MU_MSGNO_LAST" "sub_in_range ms (max beg e)"
  shows "\<exists>ms'. mu_msgset_sub_range ms beg e (mg_mode ms) = (ms', None) \<and> mg_closed ms' \<and>
    mg_mode ms' = mg_mode ms \<and>
    mg_msgs ms' = mg_msgs ms - {min beg e..max beg e}
      - sub_lost (min beg e) (max beg e) (tl (mg_list (mu_msgset_aggregate ms)))"
proof -
  let ?ms = "mu_msgset_aggregate ms" and ?rs = "sub_range_list (min beg e) (max beg e) (mg_list (mu_msgset_aggregate ms))"
  have pair: "ordered_pair beg e = (min beg e, max beg e)" "max beg e \<noteq> MU_MSGNO_LAST"
    using assms(3) by (auto simp: ordered_pair_def MU_MSGNO_LAST_def)
  have res: "mu_msgset_sub_range ms beg e (mg_mode ms) = (?ms\<lparr>mg_list := ?rs\<rparr>, None)"
    using assms(2) pair by (simp add: mu_msgset_sub_range_def Let_def)
  note agg = aggregate_closed[OF assms(1)]
  have "separated ?rs" and "msgs ?rs = mg_msgs ms - {min beg e..max beg e}
      - sub_lost (min beg e) (max beg e) (tl (mg_list ?ms))"
    using sub_range_list_msgs[OF agg(1), of "min beg e" "max beg e"] agg(2) assms(2)
      sub_in_range_last[OF assms(4,1,2)]
    by (simp_all add: aggregate_empty mg_msgs_def)
  then show ?thesis unfolding res using separated_closed[of ?rs]
    by (simp add: mg_closed_def mg_msgs_def aggregate_fields)
qed

text \<open>With an open end, the ranges that begin at \<open>beg\<close> or later go; one that begins before it stays
  as it is.\<close>

lemma sub_last_loop_filter:
  "separated rs \<Longrightarrow> sub_last_loop beg (rev rs) = rev (filter (\<lambda>r. msg_beg r < beg) rs)"
proof (induction rs rule: rev_induct)
  case (snoc r rs)
  then have sep: "separated rs" "\<forall>s \<in> set rs. msg_end s + 1 < msg_beg r" "\<forall>s \<in> set rs. range_closed s"
    by (auto simp: separated_append separated_Cons separated_closed)
  then have "msg_beg r \<le> beg \<Longrightarrow> filter (\<lambda>s. msg_beg s < beg) rs = rs"
    by (force simp: filter_id_conv range_closed_def)
  with snoc sep show ?case by auto
qed simp

lemma sub_msgno_last_list:
  assumes "separated (mg_list ms)"
  shows "mg_list (sub_msgno_last ms beg) = filter (\<lambda>r. msg_beg r < beg) (mg_list ms)"
proof (cases "beg = 1")
  case True
  have "filter (\<lambda>r. msg_beg r < 1) (mg_list ms) = []"
    using separated_closed[OF assms] by (auto simp: filter_empty_conv range_closed_def)
  then show ?thesis using True by (simp add: sub_msgno_last_def)
qed (simp add: sub_msgno_last_def sub_last_loop_filter[OF assms])

text \<open>Without that the sum wraps, and a range from 0 on is left where nothing should be.\<close>

lemma sub_range_wraps:
  "sub_range_list 15 SIZE_T_MAX [Msgrange 5 10, Msgrange 20 SIZE_T_MAX] = [Msgrange 5 10, Msgrange 0 SIZE_T_MAX]"
  by (simp add: sub_range_list_def size_inc_def SIZE_T_MAX_def MU_MSGNO_LAST_def)

section \<open>Negation\<close>

text \<open>A gap of one message is taken for none. \<open>gaps n rs\<close> are the messages from \<open>n\<close> up to the last range
  that are found missing.\<close>

definition gaps :: "nat \<Rightarrow> msgrange list \<Rightarrow> nat set" where
  "gaps n rs = {x. n \<le> x \<and> (\<exists>r \<in> set rs. x \<le> msg_end r) \<and> x \<notin> msgs rs \<and>
     \<not> ((x = n \<or> x - 1 \<in> msgs rs) \<and> x + 1 \<in> msgs rs)}"

lemma gaps_Cons:
  assumes sep: "separated (r # rs)" and n: "1 \<le> n" "n \<le> msg_beg r"
  shows "gaps n (r # rs) = (if n < msg_beg r - 1 then {n..msg_beg r - 1} else {}) \<union> gaps (msg_end r + 1) rs"
proof -
  have r: "range_msgs r = {msg_beg r..msg_end r}" "msg_beg r \<le> msg_end r"
    and rs: "\<forall>s \<in> set rs. msg_end r + 1 < msg_beg s" "separated rs"
    using sep by (simp_all add: separated_Cons range_closed_msgs range_closed_def)
  have far: "x \<in> msgs rs \<Longrightarrow> msg_end r + 1 < x" for x using separated_above[OF rs(2,1)] .
  have "x \<in> gaps n (r # rs) \<longleftrightarrow>
      x \<in> (if n < msg_beg r - 1 then {n..msg_beg r - 1} else {}) \<or> x \<in> gaps (msg_end r + 1) rs" for x
  proof -
    consider (before) "x < msg_beg r" | (inside) "msg_beg r \<le> x" "x \<le> msg_end r" | (behind) "msg_end r < x"
      by linarith
    then show ?thesis
    proof cases
      case before
      then have "x \<notin> msgs rs" "x + 1 \<notin> msgs rs" "x - 1 \<notin> msgs rs" "x \<notin> gaps (msg_end r + 1) rs"
        using far[of x] far[of "x + 1"] far[of "x - 1"] r(2) by (auto simp: gaps_def)
      then have "x \<in> gaps n (r # rs) \<longleftrightarrow> n \<le> x \<and> \<not> (x = n \<and> x + 1 = msg_beg r)"
        using before r n by (auto simp: gaps_def)
      then show ?thesis using before n \<open>x \<notin> gaps (msg_end r + 1) rs\<close> by auto
    next
      case inside
      then show ?thesis using r n by (auto simp: gaps_def)
    next
      case behind
      then have "x \<in> gaps n (r # rs) \<longleftrightarrow> x \<in> gaps (msg_end r + 1) rs"
        using r n by (auto simp: gaps_def)
      then show ?thesis using behind r(2) by auto
    qed
  qed
  then show ?thesis by blast
qed

lemma invert_ranges:
  assumes "separated rs" "1 \<le> n" "\<forall>r \<in> set rs. n \<le> msg_beg r" "mg_closed nset"
  shows "\<exists>nset'. list_foreach invert_range rs (nset, n) =
      ((nset', if rs = [] then n else msg_end (last rs) + 1), None) \<and> mg_closed nset' \<and>
      mg_msgs nset' = mg_msgs nset \<union> gaps n rs \<and> mg_mode nset' = mg_mode nset"
  using assms
proof (induction rs arbitrary: n nset)
  case (Cons r rs)
  have r: "range_closed r" "\<forall>s \<in> set rs. msg_end r + 1 \<le> msg_beg s" "separated rs" "n \<le> msg_beg r"
    using Cons.prems by (auto simp: separated_Cons)
  obtain ns where ns: "(if n < msg_beg r - 1 then mu_msgset_add_range nset n (msg_beg r - 1) (mg_mode nset)
      else (nset, None)) = (ns, None)" "mg_closed ns" "mg_mode ns = mg_mode nset"
    "mg_msgs ns = mg_msgs nset \<union> (if n < msg_beg r - 1 then {n..msg_beg r - 1} else {})"
  proof (cases "n < msg_beg r - 1")
    case True
    then have "{min n (msg_beg r - 1)..max n (msg_beg r - 1)} = {n..msg_beg r - 1}" by simp
    with True that show ?thesis using add_range_msgs[of n "msg_beg r - 1" nset] Cons.prems(2,4) by auto
  qed (use that[of nset] Cons.prems(4) in simp)
  then have step: "invert_range r (nset, n) = ((ns, msg_end r + 1), None)"
    by (simp add: invert_range_def)
  obtain nset' where "list_foreach invert_range rs (ns, msg_end r + 1) =
      ((nset', if rs = [] then msg_end r + 1 else msg_end (last rs) + 1), None)" "mg_closed nset'"
      "mg_msgs nset' = mg_msgs ns \<union> gaps (msg_end r + 1) rs" "mg_mode nset' = mg_mode ns"
    using Cons.IH[OF r(3) _ r(2) ns(2)] by auto
  then show ?case using step ns(3,4) gaps_Cons[OF Cons.prems(1,2) r(4)] by auto
qed (simp add: gaps_def)

text \<open>A message alone between two that are in the set, or between one and an end of the mailbox.\<close>

definition lonely :: "nat \<Rightarrow> nat set \<Rightarrow> nat set" where
  "lonely tot S = {x. x \<notin> S \<and> (x = 1 \<or> x - 1 \<in> S) \<and> (x + 1 \<in> S \<or> x = tot)}"

lemma last_in_msgs: "separated rs \<Longrightarrow> rs \<noteq> [] \<Longrightarrow> msg_end (last rs) \<in> msgs rs"
  using closed_msgs_iff[OF separated_closed, of rs "msg_end (last rs)"] separated_closed[of rs]
  by (metis last_in_set order_refl range_closed_def)

lemma gaps_complement:
  assumes sep: "separated rs" and tot: "msgs rs \<subseteq> {1..tot}"
    and n: "n = (if rs = [] then 1 else msg_end (last rs) + 1)"
  shows "gaps 1 rs \<union> (if n < tot then {n..tot} else {}) = {1..tot} - msgs rs - lonely tot (msgs rs)"
proof -
  note inside = separated_msgs_bounds[OF sep]
  have below: "x < n \<longleftrightarrow> (\<exists>r \<in> set rs. x \<le> msg_end r)" if "1 \<le> x" for x
  proof (cases "rs = []")
    case False
    then have "x < n \<longleftrightarrow> x \<le> msg_end (last rs)" using n by auto
    moreover have "last rs \<in> set rs" using False by simp
    ultimately show ?thesis using separated_bounds[OF sep] by (meson order_trans)
  qed (use n that in simp)
  have top: "x \<in> msgs rs \<Longrightarrow> x < n" for x using inside[of x] n by (cases rs) auto
  have pred: "n = 1 \<or> n - 1 \<in> msgs rs" using last_in_msgs[OF sep] n by auto
  have tot': "n - 1 \<le> tot" using last_in_msgs[OF sep] tot n by (cases "rs = []") auto
  have "x \<in> gaps 1 rs \<union> (if n < tot then {n..tot} else {}) \<longleftrightarrow>
      x \<in> {1..tot} - msgs rs - lonely tot (msgs rs)" for x
  proof (cases "1 \<le> x \<and> x < n")
    case True
    have le: "x \<le> tot" using True tot' by linarith
    have strict: "x \<noteq> tot" if "x \<notin> msgs rs"
    proof
      assume "x = tot"
      then have "n - 1 = x" using True tot' by linarith
      moreover have "n \<noteq> 1" using True by linarith
      ultimately show False using pred that by blast
    qed
    have "x \<in> gaps 1 rs \<longleftrightarrow> x \<notin> msgs rs \<and> \<not> ((x = 1 \<or> x - 1 \<in> msgs rs) \<and> x + 1 \<in> msgs rs)"
      using True below[of x] by (simp add: gaps_def)
    moreover have "x \<notin> (if n < tot then {n..tot} else {})" using True by simp
    ultimately show ?thesis using True le strict by (simp add: lonely_def) blast
  next
    case False
    then have "x \<notin> gaps 1 rs" using below by (auto simp: gaps_def)
    moreover have "x \<notin> msgs rs" "x + 1 \<notin> msgs rs" if "n \<le> x" using top[of x] top[of "x + 1"] that by auto
    moreover have "(x = 1 \<or> x - 1 \<in> msgs rs) \<longleftrightarrow> x = n" if "n \<le> x"
      using top[of "x - 1"] pred that n by (cases "rs = []") auto
    moreover have "x \<in> (if n < tot then {n..tot} else {}) \<longleftrightarrow> n \<le> x \<and> x \<le> tot \<and> n \<noteq> tot" by auto
    moreover have "1 \<le> n" using n by simp
    ultimately show ?thesis using False by (cases "n \<le> x") (auto simp: lonely_def)
  qed
  then show ?thesis by blast
qed

lemma negate_msgs:
  assumes "mg_closed ms" "mg_mode ms = MU_MSGSET_NUM" "mg_mbox ms = Some mbox" "mbx_count mbox = Inr tot"
    and tot: "mg_msgs ms \<subseteq> {1..tot}"
  shows "\<exists>ms' nset. mu_msgset_negate ms = (ms', Inr nset) \<and> mg_msgs ms' = mg_msgs ms \<and>
    mg_msgs nset = {1..tot} - mg_msgs ms - lonely tot (mg_msgs ms)"
proof -
  let ?ms = "mu_msgset_aggregate ms" and ?new = "mu_msgset_create (Some mbox) (mg_mode ms)"
  let ?rs = "mg_list ?ms"
  let ?n = "if ?rs = [] then 1 else msg_end (last ?rs) + 1"
  note agg = aggregate_closed[OF assms(1)]
  have pos: "\<forall>r \<in> set ?rs. 1 \<le> msg_beg r" using separated_closed[OF agg(1)] by (simp add: range_closed_def)
  have new: "mg_closed ?new" "mg_msgs ?new = {}" "mg_mode ?new = mg_mode ms"
    by (simp_all add: mu_msgset_create_def mg_closed_def mg_msgs_def)
  obtain ns where ns: "list_foreach invert_range ?rs (?new, 1) = ((ns, ?n), None)" "mg_closed ns"
    "mg_msgs ns = gaps 1 ?rs" "mg_mode ns = mg_mode ms"
    using invert_ranges[OF agg(1) _ pos new(1)] by (auto simp: new(2,3))
  obtain ns' where ns': "(if ?n < tot then mu_msgset_add_range ns ?n tot (mg_mode ns) else (ns, None)) = (ns', None)"
    "mg_msgs ns' = gaps 1 ?rs \<union> (if ?n < tot then {?n..tot} else {})"
  proof (cases "?n < tot")
    case True
    then have "{min ?n tot..max ?n tot} = {?n..tot}" "1 \<le> ?n" "1 \<le> tot" by simp_all
    with True that show ?thesis using add_range_msgs[of ?n tot ns] ns(2,3) by auto
  qed (use that[of ns] ns(3) in simp)
  have msgs: "msgs ?rs = mg_msgs ms" using agg(2) by (simp add: mg_msgs_def)
  have "mu_msgset_negate ms = (?ms, Inr ns')"
    using assms(2,3,4) ns(1) ns'(1)
    by (auto simp: mu_msgset_negate_def Let_def aggregate_fields split: if_splits)
  moreover have "mg_msgs ns' = {1..tot} - mg_msgs ms - lonely tot (mg_msgs ms)"
    unfolding ns'(2) using gaps_complement[OF agg(1) _ refl, of tot] tot unfolding msgs by blast
  ultimately show ?thesis using agg(2) by blast
qed

section \<open>Queries and iteration\<close>

lemma count_separated:
  "separated rs \<Longrightarrow> n < 2 ^ 64 \<Longrightarrow> fold count_messages rs n = (n + card (msgs rs)) mod 2 ^ 64"
proof (induction rs arbitrary: n)
  case (Cons r rs)
  then have sep: "range_closed r" "\<forall>s \<in> set rs. msg_end r + 1 < msg_beg s" "separated rs"
    by (simp_all add: separated_Cons)
  then have r: "range_msgs r = {msg_beg r..msg_end r}" "msg_beg r \<le> msg_end r"
    by (simp_all add: range_closed_msgs range_closed_def)
  have "finite (msgs rs)"
    using separated_closed[OF sep(3)] by (auto simp: msgs_def range_closed_msgs)
  moreover have "range_msgs r \<inter> msgs rs = {}"
    using separated_above[OF sep(3,2)] r by fastforce
  ultimately have card: "card (msgs (r # rs)) = (msg_end r - msg_beg r + 1) + card (msgs rs)"
    using r by (simp add: card_Un_disjoint)
  have "msg_end r + 2 ^ 64 - msg_beg r = (msg_end r - msg_beg r) + 2 ^ 64" using r(2) by simp
  then have "count_messages r n = (n + (msg_end r - msg_beg r + 1) + 2 ^ 64) mod 2 ^ 64"
    unfolding count_messages_def by (simp only: add.assoc add.commute add.left_commute)
  then have step: "count_messages r n = (n + (msg_end r - msg_beg r + 1)) mod 2 ^ 64"
    by (simp only: mod_add_self2)
  have "fold count_messages (r # rs) n = (count_messages r n + card (msgs rs)) mod 2 ^ 64"
    using Cons.IH[OF sep(3), of "count_messages r n"] by (simp add: step)
  also have "\<dots> = (n + (msg_end r - msg_beg r + 1) + card (msgs rs)) mod 2 ^ 64"
    unfolding step by (rule mod_add_left_eq)
  finally show ?case by (simp only: card add.assoc)
qed simp

lemma locate_msgs:
  assumes "mg_closed ms" "n \<noteq> 0"
  shows "case snd (mu_msgset_locate ms n) of
      Inr r \<Rightarrow> r \<in> set (mg_list (mu_msgset_aggregate ms)) \<and> n \<in> range_msgs r \<and> n \<in> mg_msgs ms
    | Inl e \<Rightarrow> e = MU_ERR_NOENT \<and> n \<notin> mg_msgs ms"
proof -
  let ?rs = "mg_list (mu_msgset_aggregate ms)"
  note agg = aggregate_closed[OF assms(1)] and closed = separated_closed[OF aggregate_closed(1)[OF assms(1)]]
  have mem: "n \<in> mg_msgs ms \<longleftrightarrow> (\<exists>r \<in> set ?rs. compare_msgnum n r)"
    using closed_msgs_iff[OF closed, of n] agg(2) by (auto simp: mg_msgs_def compare_msgnum_def)
  show ?thesis
  proof (cases "List.find (compare_msgnum n) ?rs")
    case None
    then have "n \<notin> mg_msgs ms" using mem by (simp add: find_None_iff)
    with None show ?thesis using assms(2) by (simp add: mu_msgset_locate_def Let_def)
  next
    case (Some r)
    then have "r \<in> set ?rs" "compare_msgnum n r" by (auto simp: find_Some_iff)
    then show ?thesis using mem assms(2) Some closed range_closed_msgs[of r]
      by (auto simp: mu_msgset_locate_def Let_def compare_msgnum_def)
  qed
qed

lemma list_foreach_append:
  "list_foreach f (xs @ ys) s =
     (case list_foreach f xs s of (s, None) \<Rightarrow> list_foreach f ys s | (s, Some e) \<Rightarrow> (s, Some e))"
  by (induction xs arbitrary: s) (auto split: prod.splits option.splits)

lemma list_foreach_concat:
  "list_foreach (\<lambda>x. list_foreach f (g x)) xs s = list_foreach f (concat (map g xs)) s"
  by (induction xs arbitrary: s) (auto simp: list_foreach_append split: prod.splits option.splits)

lemma separated_numbers:
  assumes "separated rs"
  shows "concat (map (\<lambda>r. [msg_beg r..<Suc (msg_end r)]) rs) = sorted_list_of_set (msgs rs)"
proof -
  let ?l = "concat (map (\<lambda>r. [msg_beg r..<Suc (msg_end r)]) rs)"
  have "set ?l = msgs rs" using separated_closed[OF assms] by (auto simp: msgs_def range_closed_msgs)
  moreover have "sorted_wrt (<) ?l" using assms
  proof (induction rs)
    case (Cons r rs)
    then have sep: "\<forall>s \<in> set rs. msg_end r + 1 < msg_beg s" "separated rs" by (simp_all add: separated_Cons)
    then have "x \<in> set (concat (map (\<lambda>r. [msg_beg r..<Suc (msg_end r)]) rs)) \<Longrightarrow> msg_end r < x" for x by force
    then have "\<forall>x \<in> set [msg_beg r..<Suc (msg_end r)]. \<forall>y \<in> set (concat (map (\<lambda>r. [msg_beg r..<Suc (msg_end r)]) rs)). x < y"
      by (fastforce simp del: upt_Suc)
    with Cons.IH[OF sep(2)] show ?case by (simp add: sorted_wrt_append del: upt_Suc)
  qed simp
  then have "sorted ?l" "distinct ?l" by (simp_all add: strict_sorted_iff)
  ultimately show ?thesis by (metis sorted_list_of_set.idem_if_sorted_distinct)
qed

lemma foreach_num_msgs:
  assumes "mg_closed ms"
  shows "snd (mu_msgset_foreach_num ms (mg_mode ms) False act s) =
    list_foreach act (sorted_list_of_set (mg_msgs ms)) s"
proof -
  let ?rs = "mg_list (mu_msgset_aggregate ms)"
  have "snd (mu_msgset_foreach_num ms (mg_mode ms) False act s) =
      list_foreach (\<lambda>r. list_foreach act [msg_beg r..<Suc (msg_end r)]) ?rs s"
    by (simp add: mu_msgset_foreach_num_def procrange_def[abs_def] call_action_def[abs_def] aggregate_fields Let_def
        del: upt_Suc)
  then show ?thesis
    using separated_numbers[OF aggregate_closed(1)[OF assms]] aggregate_closed(2)[OF assms]
    by (simp only: list_foreach_concat mg_msgs_def)
qed

section \<open>The life of a message set\<close>

text \<open>Adding and removing a range, aggregating and clearing, on closed ranges and in the mode of the
  set. Copying into a set is not among the steps, as it leaves the flag of an aggregated set up,
  nor are removals whose end wraps.\<close>

inductive msgset_step :: "msgset \<Rightarrow> msgset \<Rightarrow> bool" where
  add: "e \<noteq> MU_MSGNO_LAST \<Longrightarrow> mu_msgset_add_range ms beg e (mg_mode ms) = (ms', None) \<Longrightarrow> msgset_step ms ms'"
| sub: "e \<noteq> MU_MSGNO_LAST \<Longrightarrow> sub_in_range ms (max beg e) \<Longrightarrow> mu_msgset_sub_range ms beg e (mg_mode ms) = (ms', None) \<Longrightarrow> msgset_step ms ms'"
| sub_last: "mu_msgset_sub_range ms beg MU_MSGNO_LAST (mg_mode ms) = (ms', None) \<Longrightarrow> msgset_step ms ms'"
| aggregate: "msgset_step ms (mu_msgset_aggregate ms)"
| clear: "msgset_step ms (mu_msgset_clear ms)"

inductive_cases msgset_stepE: "msgset_step ms ms'"

lemma add_range_error: "mu_msgset_add_range ms 0 e mode = (ms, Some EINVAL)"
  by (simp add: mu_msgset_add_range_def)

lemma sub_last_closed:
  assumes "mg_closed ms" "mu_msgset_sub_range ms beg MU_MSGNO_LAST (mg_mode ms) = (ms', None)"
  shows "mg_closed ms'" "mg_msgs ms' \<subseteq> mg_msgs ms"
proof -
  let ?ms = "mu_msgset_aggregate ms"
  have ms': "ms' = sub_msgno_last ?ms beg"
    using assms(2) by (auto simp: mu_msgset_sub_range_def ordered_pair_def Let_def split: if_splits)
  note agg = aggregate_closed[OF assms(1)]
  have l: "mg_list ms' = filter (\<lambda>r. msg_beg r < beg) (mg_list ?ms)"
    unfolding ms' by (rule sub_msgno_last_list[OF agg(1)])
  have "separated (mg_list ms')"
    using agg(1) unfolding l by (auto simp: separated_def sorted_wrt_filter)
  then show "mg_closed ms'" using separated_closed by (simp add: mg_closed_def)
  show "mg_msgs ms' \<subseteq> mg_msgs ms" unfolding agg(2)[symmetric] by (auto simp: mg_msgs_def l msgs_def)
qed

lemma msgset_step_closed:
  assumes "msgset_step ms ms'" "mg_closed ms"
  shows "mg_closed ms'"
  using assms(1)
proof (elim msgset_stepE, goal_cases)
  case (1 e beg)
  then have "1 \<le> beg" "1 \<le> e" using add_range_error[of ms e "mg_mode ms"] by (cases beg; auto simp: MU_MSGNO_LAST_def)+
  with add_range_msgs[OF _ _ assms(2), of beg e] 1 show ?thesis by auto
next
  case (2 e beg)
  then have "mg_list ms \<noteq> []" by (auto simp: mu_msgset_sub_range_def)
  with sub_range_msgs[OF assms(2) _ 2(1,2)] 2 show ?thesis by auto
next
  case (3 beg)
  then show ?thesis using sub_last_closed(1)[OF assms(2)] by simp
next
  case 4
  then show ?thesis using aggregate_closed(3)[OF assms(2)] by simp
next
  case 5
  then show ?thesis by (simp add: mu_msgset_clear_def mg_closed_def)
qed

lemma msgset_reachable_closed:
  "msgset_step\<^sup>*\<^sup>* (mu_msgset_create mbox mode) ms \<Longrightarrow> mg_closed ms"
proof (induction rule: rtranclp_induct)
  case base
  show ?case by (simp add: mu_msgset_create_def mg_closed_def)
next
  case (step ms ms')
  then show ?case by (blast intro: msgset_step_closed)
qed

end
