(* ===== verification/Msgset_Text.thy ===== *)
theory Msgset_Text
  imports Msgset_Facts
begin

text \<open>
  Message sets as text: the parser for IMAP sets (\<open>msgset/parse.c\<close>), with \<open>strtoul\<close> of the C
  library in base 10, and the printer (\<open>msgset/print.c\<close>); what is printed is parsed back.
  A C string is the list of its bytes before the terminating NUL.
\<close>

section \<open>\<open>strtoul\<close>\<close>

text \<open>Value, rest of the string, and whether \<open>errno\<close> is set to \<open>ERANGE\<close>. Blanks and a sign are
  skipped; without a digit the rest is the whole string.\<close>

definition c_isspace :: "byte \<Rightarrow> bool" where "c_isspace c \<longleftrightarrow> 9 \<le> c \<and> c \<le> 13 \<or> c = 32"
definition c_isdigit :: "byte \<Rightarrow> bool" where "c_isdigit c \<longleftrightarrow> 48 \<le> c \<and> c \<le> 57"

definition digits_value :: "bytes \<Rightarrow> nat" where
  "digits_value ds = foldl (\<lambda>v d. v * 10 + unat (d - 48)) 0 ds"

definition ULONG_MAX :: nat where "ULONG_MAX = 2 ^ 64 - 1"

definition strtoul_sign :: "bytes \<Rightarrow> bool \<times> bytes" where
  "strtoul_sign s =
     (case dropWhile c_isspace s of
        [] \<Rightarrow> (False, [])
      | c # t \<Rightarrow> if c = 45 then (True, t) else if c = 43 then (False, t) else (False, c # t))"

definition strtoul10 :: "bytes \<Rightarrow> nat \<times> bytes \<times> bool" where
  "strtoul10 s =
     (case strtoul_sign s of (neg, t) \<Rightarrow>
        let ds = takeWhile c_isdigit t; v = digits_value ds
        in if ds = [] then (0, s, False)
           else if v > ULONG_MAX then (ULONG_MAX, dropWhile c_isdigit t, True)
           else (if neg \<and> v \<noteq> 0 then 2 ^ 64 - v else v, dropWhile c_isdigit t, False))"

section \<open>The parser\<close>

text \<open>\<open>pe_empty\<close> stands for the mode \<open>MU_MSGSET_EMPTY\<close>.\<close>

record parse_msgnum_env =
  pe_s :: bytes
  pe_minval :: nat
  pe_maxval :: nat
  pe_msgset :: msgset
  pe_mode :: nat
  pe_empty :: bool

definition get_msgnum :: "parse_msgnum_env \<Rightarrow> parse_msgnum_env \<times> (mu_error + nat)" where
  "get_msgnum env =
     (case strtoul10 (pe_s env) of
        (msgnum, p, erange) \<Rightarrow>
          if erange then (env, Inl MU_ERR_PARSE)
          else
            let msgnum = (if pe_minval env \<noteq> 0 \<and> msgnum < pe_minval env then pe_minval env else msgnum);
                msgnum = (if pe_maxval env \<noteq> 0 \<and> msgnum > pe_maxval env then pe_maxval env else msgnum)
            in (env\<lparr>pe_s := p\<rparr>, Inr msgnum))"

text \<open>The two ends of a range: a star or a number.\<close>

definition parse_end :: "parse_msgnum_env \<Rightarrow> parse_msgnum_env \<times> (mu_error + nat)" where
  "parse_end env =
     (if pe_s env \<noteq> [] \<and> hd (pe_s env) = 42 then (env\<lparr>pe_s := tl (pe_s env)\<rparr>, Inr (pe_maxval env))
      else get_msgnum env)"

definition parse_add :: "parse_msgnum_env \<Rightarrow> nat \<Rightarrow> nat \<Rightarrow> parse_msgnum_env \<times> status" where
  "parse_add env beg e =
     (case (if e \<noteq> 0 \<and> e < beg then (e, beg) else (beg, e)) of
        (beg, e) \<Rightarrow>
          if pe_empty env then (env, None)
          else case mu_msgset_add_range (pe_msgset env) beg e (pe_mode env) of
            (ms, rc) \<Rightarrow> (env\<lparr>pe_msgset := ms\<rparr>, rc))"

definition parse_msgrange :: "parse_msgnum_env \<Rightarrow> parse_msgnum_env \<times> status" where
  "parse_msgrange env =
     (case parse_end env of
        (env, Inl err) \<Rightarrow> (env, Some err)
      | (env, Inr beg) \<Rightarrow>
          if pe_s env \<noteq> [] \<and> hd (pe_s env) = 58 then
            let env = env\<lparr>pe_s := tl (pe_s env)\<rparr>
            in if pe_s env = [] then (env, Some MU_ERR_PARSE)
               else (case parse_end env of
                   (env, Inl err) \<Rightarrow> (env, Some err)
                 | (env, Inr e) \<Rightarrow> parse_add env beg e)
          else parse_add env beg beg)"

lemma strtoul_sign_shorter:
  assumes "strtoul_sign s = (neg, t)"
  shows "length t \<le> length s"
proof -
  obtain u where u: "dropWhile c_isspace s = u" by simp
  have "length u \<le> length s" unfolding u[symmetric] by (rule length_dropWhile_le)
  with assms show ?thesis by (cases u) (auto simp: strtoul_sign_def u split: if_splits)
qed

lemma strtoul10_shorter: "strtoul10 s = (n, p, r) \<Longrightarrow> length p \<le> length s"
  using strtoul_sign_shorter[of s] length_dropWhile_le[of c_isdigit "snd (strtoul_sign s)"]
  by (auto simp: strtoul10_def Let_def split: prod.splits if_splits)

lemma parse_end_shorter: "parse_end env = (env', r) \<Longrightarrow> length (pe_s env') \<le> length (pe_s env)"
  using strtoul10_shorter[of "pe_s env"]
  by (auto simp: parse_end_def get_msgnum_def Let_def split: if_splits prod.splits)

lemma parse_add_same: "parse_add env beg e = (env', r) \<Longrightarrow> pe_s env' = pe_s env"
  by (auto simp: parse_add_def split: if_splits prod.splits)

lemma parse_msgrange_shorter:
  assumes "parse_msgrange env = (env', r)"
  shows "length (pe_s env') \<le> length (pe_s env)"
proof -
  obtain env1 r1 where e1: "parse_end env = (env1, r1)" by (rule prod.exhaust)
  let ?env2 = "env1\<lparr>pe_s := tl (pe_s env1)\<rparr>"
  obtain env3 r3 where e3: "parse_end ?env2 = (env3, r3)" by (rule prod.exhaust)
  have "length (pe_s env3) \<le> length (pe_s env1)" using parse_end_shorter[OF e3] by simp
  then show ?thesis
    using assms e1 e3 parse_end_shorter[OF e1] parse_add_same
    by (auto simp: parse_msgrange_def Let_def split: sum.splits if_splits)
qed

function parse_loop :: "parse_msgnum_env \<Rightarrow> parse_msgnum_env \<times> status" where
  "parse_loop env =
     (case parse_msgrange env of
        (env1, Some err) \<Rightarrow> (env1, Some err)
      | (env1, None) \<Rightarrow>
          (case pe_s env1 of
             [] \<Rightarrow> (env1, None)
           | c # s \<Rightarrow>
               if c \<noteq> 44 then (env1, Some MU_ERR_PARSE)
               else if s = [] then (env1\<lparr>pe_s := s\<rparr>, Some MU_ERR_PARSE)
               else parse_loop (env1\<lparr>pe_s := s\<rparr>)))"
  by pat_completeness auto
termination by (relation "measure (\<lambda>env. length (pe_s env))") (auto dest!: parse_msgrange_shorter[OF sym])

declare parse_loop.simps [simp del]

text \<open>The limits taken from the mailbox, if there is one.\<close>

definition parse_limits :: "msgset \<Rightarrow> nat \<Rightarrow> parse_msgnum_env \<Rightarrow> mu_error + parse_msgnum_env" where
  "parse_limits ms mode env =
     (case mg_mbox ms of
        None \<Rightarrow> Inr env
      | Some mbox \<Rightarrow>
          (case mbx_count mbox of
             Inl err \<Rightarrow> Inl err
           | Inr lastmsgno \<Rightarrow>
               if lastmsgno = 0 then Inr (env\<lparr>pe_empty := True\<rparr>)
               else if mode = MU_MSGSET_UID then
                 (case mbx_to_uid mbox lastmsgno of
                    Inl err \<Rightarrow> Inl err
                  | Inr hi \<Rightarrow>
                      (case mbx_to_uid mbox 1 of
                         Inl err \<Rightarrow> Inl err
                       | Inr lo \<Rightarrow> Inr (env\<lparr>pe_maxval := hi, pe_minval := lo\<rparr>)))
               else Inr (env\<lparr>pe_maxval := lastmsgno\<rparr>)))"

text \<open>Returns the set, the status and where parsing has ended.\<close>

definition mu_msgset_parse_imap :: "msgset \<Rightarrow> nat \<Rightarrow> bytes \<Rightarrow> msgset \<times> status \<times> bytes" where
  "mu_msgset_parse_imap ms mode s =
     (if s = [] then (ms, Some MU_ERR_PARSE, s)
      else
        case parse_limits ms mode \<lparr>pe_s = s, pe_minval = 1, pe_maxval = 0, pe_msgset = ms, pe_mode = mode,
               pe_empty = False\<rparr> of
          Inl err \<Rightarrow> (ms, Some err, s)
        | Inr env \<Rightarrow> (case parse_loop env of (env, rc) \<Rightarrow> (pe_msgset env, rc, pe_s env)))"

section \<open>The printer\<close>

record msgset_format =
  fmt_range :: bytes
  fmt_delim :: bytes
  fmt_last :: bytes
  fmt_empty :: "bytes option"

definition msgset_fmt_imap :: msgset_format where
  "msgset_fmt_imap =
     \<lparr>fmt_range = bytes_of '':'', fmt_delim = bytes_of '','', fmt_last = bytes_of ''*'', fmt_empty = Some (bytes_of ''NIL'')\<rparr>"

definition msgset_fmt_mh :: msgset_format where
  "msgset_fmt_mh =
     \<lparr>fmt_range = bytes_of ''-'', fmt_delim = bytes_of '' '', fmt_last = bytes_of ''last'', fmt_empty = None\<rparr>"

definition msgrange_printer :: "msgset_format \<Rightarrow> msgrange \<Rightarrow> bytes" where
  "msgrange_printer fmt r =
     (if msg_beg r = msg_end r then decimal (msg_beg r)
      else if msg_end r = 0 then decimal (msg_beg r) @ fmt_range fmt @ fmt_last fmt
      else if msg_end r = msg_beg r + 1 then decimal (msg_beg r) @ fmt_delim fmt @ decimal (msg_end r)
      else decimal (msg_beg r) @ fmt_range fmt @ decimal (msg_end r))"

text \<open>\<open>cont\<close> says whether something has been printed.\<close>

fun print_ranges :: "msgset_format \<Rightarrow> bool \<Rightarrow> msgrange list \<Rightarrow> bytes" where
  "print_ranges fmt cont [] = []"
| "print_ranges fmt cont (r # rs) =
     (if cont then fmt_delim fmt else []) @ msgrange_printer fmt r @ print_ranges fmt True rs"

definition mu_stream_msgset_format :: "msgset_format \<Rightarrow> msgset \<Rightarrow> msgset \<times> bytes" where
  "mu_stream_msgset_format fmt ms =
     (if mg_list ms = [] then (ms, case fmt_empty fmt of None \<Rightarrow> [] | Some e \<Rightarrow> e)
      else let ms = mu_msgset_aggregate ms in (ms, print_ranges fmt False (mg_list ms)))"

section \<open>Numbers are read back\<close>

lemma digit_facts:
  assumes "k < 10"
  shows "c_isdigit (48 + of_nat k)" "unat ((48 + of_nat k :: byte) - 48) = k"
    "\<not> c_isspace (48 + of_nat k)" "(48 + of_nat k :: byte) \<noteq> 45" "(48 + of_nat k :: byte) \<noteq> 43"
    "(48 + of_nat k :: byte) \<noteq> 42"
proof -
  from assms have "k = 0 \<or> k = 1 \<or> k = 2 \<or> k = 3 \<or> k = 4 \<or> k = 5 \<or> k = 6 \<or> k = 7 \<or> k = 8 \<or> k = 9" by arith
  then show "c_isdigit (48 + of_nat k)" "unat ((48 + of_nat k :: byte) - 48) = k"
    "\<not> c_isspace (48 + of_nat k)" "(48 + of_nat k :: byte) \<noteq> 45" "(48 + of_nat k :: byte) \<noteq> 43"
    "(48 + of_nat k :: byte) \<noteq> 42"
    by (elim disjE; simp add: c_isdigit_def c_isspace_def)+
qed

lemma decimal_digits: "\<forall>d \<in> set (decimal n). \<exists>k < 10. d = 48 + of_nat k"
proof (induction n rule: decimal.induct)
  case (1 n)
  show ?case
  proof (cases "n < 10")
    case False
    with 1 show ?thesis by (subst decimal.simps) (auto intro: exI[of _ "n mod 10"])
  qed (auto simp: decimal.simps[of n])
qed

lemma digits_value_decimal: "digits_value (decimal n) = n"
proof (induction n rule: decimal.induct)
  case (1 n)
  show ?case
  proof (cases "n < 10")
    case False
    then have "decimal n = decimal (n div 10) @ [48 + of_nat (n mod 10)]" by (simp add: decimal.simps[of n])
    then show ?thesis using 1[OF False] digit_facts(2)[of "n mod 10"] by (simp add: digits_value_def)
  qed (use digit_facts(2)[of n] in \<open>simp add: decimal.simps[of n] digits_value_def\<close>)
qed

lemma strtoul10_decimal:
  assumes "n \<le> ULONG_MAX" "rest = [] \<or> \<not> c_isdigit (hd rest)"
  shows "strtoul10 (decimal n @ rest) = (n, rest, False)"
proof -
  obtain d ds where d: "decimal n = d # ds" by (cases "decimal n") simp_all
  then obtain k where k: "k < 10" "d = 48 + of_nat k" using decimal_digits[of n] by auto
  have "strtoul_sign (decimal n @ rest) = (False, decimal n @ rest)"
    using digit_facts[OF k(1)] by (simp add: strtoul_sign_def d k(2))
  moreover have "\<forall>x \<in> set (decimal n). c_isdigit x" using decimal_digits[of n] digit_facts(1) by auto
  then have "takeWhile c_isdigit (decimal n @ rest) = decimal n" "dropWhile c_isdigit (decimal n @ rest) = rest"
    using assms(2) by (cases rest; simp add: takeWhile_append2 dropWhile_append2)+
  ultimately show ?thesis using assms(1) by (simp add: strtoul10_def Let_def digits_value_decimal)
qed

section \<open>A printed set is read back\<close>

text \<open>The items of the printed text: a range of two messages is printed as two numbers.\<close>

definition range_items :: "msgrange \<Rightarrow> msgrange list" where
  "range_items r =
     (if msg_end r = msg_beg r + 1 then [Msgrange (msg_beg r) (msg_beg r), Msgrange (msg_end r) (msg_end r)]
      else [r])"

definition item_text :: "msgrange \<Rightarrow> bytes" where
  "item_text r =
     (if msg_beg r = msg_end r then decimal (msg_beg r)
      else decimal (msg_beg r) @ 58 # (if msg_end r = 0 then [42] else decimal (msg_end r)))"

fun items_text :: "msgrange list \<Rightarrow> bytes" where
  "items_text [] = []"
| "items_text (r # rs) = item_text r @ (if rs = [] then [] else 44 # items_text rs)"

lemma items_text_append:
  "rs \<noteq> [] \<Longrightarrow> items_text (qs @ rs) = (if qs = [] then [] else items_text qs @ [44]) @ items_text rs"
  by (induction qs) auto

lemma msgrange_printer_items: "range_ok r \<Longrightarrow> msgrange_printer msgset_fmt_imap r = items_text (range_items r)"
  by (auto simp: msgrange_printer_def range_items_def item_text_def msgset_fmt_imap_def bytes_of_def range_ok_def)

lemma range_items_not_empty [simp]: "range_items r \<noteq> []" by (simp add: range_items_def)

lemma print_ranges_items:
  "\<forall>r \<in> set rs. range_ok r \<Longrightarrow> rs \<noteq> [] \<Longrightarrow>
   print_ranges msgset_fmt_imap cont rs = (if cont then [44] else []) @ items_text (concat (map range_items rs))"
proof (induction rs arbitrary: cont)
  case (Cons r rs)
  have delim: "fmt_delim msgset_fmt_imap = [44]" by (simp add: msgset_fmt_imap_def bytes_of_def)
  show ?case
  proof (cases rs)
    case Nil
    with Cons.prems show ?thesis by (simp add: delim msgrange_printer_items)
  next
    case (Cons s ss)
    then have "concat (map range_items rs) \<noteq> []" "rs \<noteq> []" by simp_all
    moreover have "concat (map range_items (r # rs)) = range_items r @ concat (map range_items rs)" by simp
    ultimately show ?thesis
      using Cons.IH[of True] Cons.prems(1) items_text_append[of "concat (map range_items rs)" "range_items r"]
      by (simp only: print_ranges.simps delim) (simp add: msgrange_printer_items)
  qed
qed simp

text \<open>What the parser does with one item, when no mailbox sets limits.\<close>

definition item_ok :: "msgrange \<Rightarrow> bool" where
  "item_ok r \<longleftrightarrow> range_ok r \<and> msg_beg r \<le> ULONG_MAX \<and> msg_end r \<le> ULONG_MAX"

definition free_env :: "bytes \<Rightarrow> msgset \<Rightarrow> parse_msgnum_env" where
  "free_env s ms = \<lparr>pe_s = s, pe_minval = 1, pe_maxval = 0, pe_msgset = ms, pe_mode = mg_mode ms, pe_empty = False\<rparr>"

definition added :: "msgset \<Rightarrow> msgrange list \<Rightarrow> msgset" where
  "added ms rs = (if rs = [] then ms else ms\<lparr>mg_list := mg_list ms @ rs, mg_aggregated := False\<rparr>)"

lemma parse_end_number:
  assumes "1 \<le> n" "n \<le> ULONG_MAX" "rest = [] \<or> \<not> c_isdigit (hd rest)"
  shows "parse_end (free_env (decimal n @ rest) ms) = (free_env rest ms, Inr n)"
proof -
  obtain d ds where d: "decimal n = d # ds" by (cases "decimal n") simp_all
  then obtain k where k: "k < 10" "d = 48 + of_nat k" using decimal_digits[of n] by auto
  then have "hd (decimal n @ rest) \<noteq> 42" using digit_facts(6)[of k] by (simp add: d)
  then show ?thesis
    using assms(1) strtoul10_decimal[OF assms(2,3)]
    by (simp add: parse_end_def get_msgnum_def free_env_def Let_def)
qed

lemma parse_item:
  assumes "item_ok r" "rest = [] \<or> hd rest = 44"
  shows "parse_msgrange (free_env (item_text r @ rest) ms) = (free_env rest (added ms [r]), None)"
proof -
  have stop: "rest = [] \<or> \<not> c_isdigit (hd rest)" "rest = [] \<or> hd rest \<noteq> 58"
    using assms(2) by (auto simp: c_isdigit_def)
  have colon: "\<not> c_isdigit 58" by (simp add: c_isdigit_def)
  have r: "1 \<le> msg_beg r" "msg_end r = 0 \<or> msg_beg r \<le> msg_end r" "msg_beg r \<le> ULONG_MAX" "msg_end r \<le> ULONG_MAX"
    using assms(1) by (auto simp: item_ok_def range_ok_def MU_MSGNO_LAST_def)
  have add: "parse_add (free_env rest ms) (msg_beg r) (msg_end r) = (free_env rest (added ms [r]), None)"
    using r(1,2) by (cases r) (auto simp: parse_add_def mu_msgset_add_range_def ordered_pair_def MU_MSGNO_LAST_def
        free_env_def added_def)
  consider (one) "msg_beg r = msg_end r" | (open_end) "msg_end r = 0" "msg_beg r \<noteq> msg_end r"
    | (closed) "msg_beg r \<noteq> msg_end r" "1 \<le> msg_end r" by linarith
  then show ?thesis
  proof cases
    case one
    then show ?thesis
      using parse_end_number[OF r(1,3) stop(1), of ms] add stop(2)
      by (auto simp: parse_msgrange_def item_text_def free_env_def)
  next
    case open_end
    have star: "parse_end (free_env (42 # rest) ms) = (free_env rest ms, Inr 0)"
      by (simp add: parse_end_def free_env_def)
    show ?thesis
      using parse_end_number[OF r(1,3), of "58 # 42 # rest" ms] colon star add open_end
      by (simp add: parse_msgrange_def item_text_def free_env_def Let_def)
  next
    case closed
    have "parse_end (free_env (decimal (msg_end r) @ rest) ms) = (free_env rest ms, Inr (msg_end r))"
      by (rule parse_end_number[OF closed(2) r(4) stop(1)])
    then show ?thesis
      using parse_end_number[OF r(1,3), of "58 # decimal (msg_end r) @ rest" ms] colon add closed
      by (simp add: parse_msgrange_def item_text_def free_env_def Let_def)
  qed
qed

lemma parse_items:
  "rs \<noteq> [] \<Longrightarrow> \<forall>r \<in> set rs. item_ok r \<Longrightarrow>
   parse_loop (free_env (items_text rs) ms) = (free_env [] (added ms rs), None)"
proof (induction rs arbitrary: ms)
  case (Cons r rs)
  show ?case
  proof (cases "rs = []")
    case True
    with parse_item[of r "[]" ms] Cons.prems show ?thesis
      by (subst parse_loop.simps) (simp add: free_env_def)
  next
    case False
    then have "items_text rs \<noteq> []" by (cases rs) (auto simp: item_text_def)
    moreover have "added (added ms [r]) rs = added ms (r # rs)" using False by (simp add: added_def)
    moreover have "mg_mode (added ms [r]) = mg_mode ms" by (simp add: added_def)
    ultimately show ?thesis
      using parse_item[of r "44 # items_text rs" ms] Cons.IH[OF False, of "added ms [r]"] Cons.prems False
      by (subst parse_loop.simps) (simp add: free_env_def)
  qed
qed simp

lemma items_msgs:
  assumes "range_ok r" "msg_beg r \<le> ULONG_MAX" "msg_end r \<le> ULONG_MAX"
  shows "msgs (range_items r) = range_msgs r \<and> (\<forall>i \<in> set (range_items r). item_ok i)"
  using assms by (auto simp: range_items_def item_ok_def range_ok_def range_msgs_def MU_MSGNO_LAST_def)

lemma concat_items_msgs:
  "\<forall>r \<in> set rs. range_ok r \<and> msg_beg r \<le> ULONG_MAX \<and> msg_end r \<le> ULONG_MAX \<Longrightarrow>
   msgs (concat (map range_items rs)) = msgs rs \<and> (\<forall>i \<in> set (concat (map range_items rs)). item_ok i)"
  using items_msgs by (induction rs) (auto simp del: msgs_simps simp: msgs_simps(2,3) msgs_simps(1))

lemma print_parse_ranges:
  assumes "\<forall>r \<in> set rs. range_ok r \<and> msg_beg r \<le> ULONG_MAX \<and> msg_end r \<le> ULONG_MAX" "rs \<noteq> []"
    and "mg_mbox ms = None"
  shows "\<exists>ms'. mu_msgset_parse_imap ms (mg_mode ms) (print_ranges msgset_fmt_imap False rs) = (ms', None, [])
    \<and> mg_msgs ms' = mg_msgs ms \<union> msgs rs"
proof -
  let ?items = "concat (map range_items rs)"
  have items: "?items \<noteq> []" using assms(2) by (cases rs) auto
  have printed: "print_ranges msgset_fmt_imap False rs = items_text ?items" "items_text ?items \<noteq> []"
    using print_ranges_items[of rs False] assms(1,2) items by (simp, cases "?items") (auto simp: item_text_def)
  note msgs = concat_items_msgs[OF assms(1)]
  have "parse_loop (free_env (items_text ?items) ms) = (free_env [] (added ms ?items), None)"
    by (rule parse_items[OF items]) (use msgs in blast)
  then have "mu_msgset_parse_imap ms (mg_mode ms) (items_text ?items) = (added ms ?items, None, [])"
    using printed(2) assms(3) by (simp add: mu_msgset_parse_imap_def parse_limits_def free_env_def)
  then show ?thesis using msgs items printed(1) by (auto simp: mg_msgs_def added_def)
qed

end
