(* ===== verification/Open_Hash.thy ===== *)
theory Open_Hash
  imports Mu_Prelude "HOL-Library.Multiset"
begin

text \<open>
  Open addressing with linear probing, as \<open>libmailutils/base/assoc.c\<close> does it: the probing loop of
  \<open>assoc_find_slot\<close> and the loop of \<open>assoc_remove\<close> that closes the gap a removed entry leaves. The
  loops are partial functions; a locale for a table whose entries have a home slot shows that they
  return and keep every entry reachable from its home.
\<close>

section \<open>The two loops\<close>

definition next_slot :: "nat \<Rightarrow> nat \<Rightarrow> nat" where
  "next_slot n i = (if Suc i \<ge> n then 0 else Suc i)"

datatype probe = Found nat | Vacant nat | Full | Outside

text \<open>\<open>n\<close> is the number of slots in use, \<open>tab\<close> may be longer.\<close>

partial_function (option) probe_loop ::
  "nat \<Rightarrow> ('e \<Rightarrow> bool) \<Rightarrow> 'e option list \<Rightarrow> nat \<Rightarrow> nat \<Rightarrow> probe option" where
  "probe_loop n same tab pos i =
     (if \<not> i < length tab then Some Outside
      else case tab ! i of
        None \<Rightarrow> Some (Vacant i)
      | Some e \<Rightarrow>
          if same e then Some (Found i)
          else if next_slot n i = pos then Some Full
          else probe_loop n same tab pos (next_slot n i))"

text \<open>\<open>j\<close> is the gap, \<open>i\<close> the slot last looked at.\<close>

partial_function (option) close_gap ::
  "nat \<Rightarrow> ('e \<Rightarrow> nat) \<Rightarrow> 'e option list \<Rightarrow> nat \<Rightarrow> nat \<Rightarrow> (mu_error + 'e option list) option" where
  "close_gap n hash tab j i =
     (let i = next_slot n i
      in if \<not> i < length tab then Some (Inl OUT_OF_BOUNDS)
         else case tab ! i of
           None \<Rightarrow> Some (Inr tab)
         | Some e \<Rightarrow>
             let r = hash e
             in if (j < r \<and> r \<le> i) \<or> (i < j \<and> j < r) \<or> (r \<le> i \<and> i < j)
                then close_gap n hash tab j i
                else close_gap n hash (tab[j := Some e, i := None]) i i)"

declare probe_loop.simps [code] close_gap.simps [code]

section \<open>Distances on the ring of slots\<close>

definition dist :: "nat \<Rightarrow> nat \<Rightarrow> nat \<Rightarrow> nat" where
  "dist n a b = (if a \<le> b then b - a else b + n - a)"

lemma dist_self [simp]: "dist n a a = 0"
  by (simp add: dist_def)

lemma dist_less: "a < n \<Longrightarrow> b < n \<Longrightarrow> dist n a b < n"
  by (auto simp: dist_def)

lemma dist_inj: "b < n \<Longrightarrow> c < n \<Longrightarrow> a < n \<Longrightarrow> dist n a b = dist n a c \<Longrightarrow> b = c"
  by (auto simp: dist_def split: if_splits)

lemma dist_zero: "a < n \<Longrightarrow> b < n \<Longrightarrow> dist n a b = 0 \<longleftrightarrow> a = b"
  by (auto simp: dist_def)

lemma next_slot_less: "i < n \<Longrightarrow> next_slot n i < n"
  by (auto simp: next_slot_def)

lemma dist_next: "a < n \<Longrightarrow> i < n \<Longrightarrow> next_slot n i \<noteq> a \<Longrightarrow> dist n a (next_slot n i) = Suc (dist n a i)"
  by (auto simp: dist_def next_slot_def split: if_splits)

lemma dist_next_back: "a < n \<Longrightarrow> i < n \<Longrightarrow> next_slot n i = a \<Longrightarrow> Suc (dist n a i) = n"
  by (auto simp: dist_def next_slot_def split: if_splits)

text \<open>The test of the loop: an entry with home \<open>r\<close> at \<open>i\<close> may stay when the gap \<open>j\<close> is not on its way.\<close>

lemma stays_iff:
  assumes "i < n" "j < n" "r < n" "i \<noteq> j"
  shows "(j < r \<and> r \<le> i) \<or> (i < j \<and> j < r) \<or> (r \<le> i \<and> i < j) \<longleftrightarrow> \<not> dist n r j < dist n r i"
  using assms by (auto simp: dist_def)

lemma dist_between:
  assumes "r < n" "j < n" "i < n" "p < n" "dist n r j < dist n r p" "dist n j i < dist n j p"
  shows "dist n r i < dist n r p"
  using assms by (auto simp: dist_def split: if_splits)

section \<open>Tables\<close>

text \<open>Every entry can be reached: no free slot between its home and its place.\<close>

definition reachable_in :: "nat \<Rightarrow> ('e \<Rightarrow> nat) \<Rightarrow> 'e option list \<Rightarrow> bool" where
  "reachable_in n hash tab \<longleftrightarrow>
     (\<forall>p < n. \<forall>e. tab ! p = Some e \<longrightarrow> (\<forall>q < n. dist n (hash e) q < dist n (hash e) p \<longrightarrow> tab ! q \<noteq> None))"

text \<open>The same with a gap at \<open>j\<close> that may be on the way to entries beyond \<open>i\<close>.\<close>

definition reachable_but :: "nat \<Rightarrow> ('e \<Rightarrow> nat) \<Rightarrow> 'e option list \<Rightarrow> nat \<Rightarrow> nat \<Rightarrow> bool" where
  "reachable_but n hash tab j i \<longleftrightarrow> tab ! j = None \<and>
     (\<forall>p < n. \<forall>e. tab ! p = Some e \<longrightarrow> (\<forall>q < n. dist n (hash e) q < dist n (hash e) p \<longrightarrow>
        tab ! q \<noteq> None \<or> (q = j \<and> dist n j i < dist n j p)))"

text \<open>What a probe from \<open>pos\<close> may answer.\<close>

lemma reachable_inD:
  assumes "reachable_in n hash tab" "p < n" "tab ! p = Some e" "q < n" "dist n (hash e) q < dist n (hash e) p"
  shows "tab ! q \<noteq> None"
  using assms unfolding reachable_in_def by blast

lemma reachable_butD:
  assumes "reachable_but n hash tab j i" "p < n" "tab ! p = Some e" "q < n" "dist n (hash e) q < dist n (hash e) p"
  shows "tab ! q \<noteq> None \<or> (q = j \<and> dist n j i < dist n j p)"
  using assms unfolding reachable_but_def by blast

definition occupied_by_others :: "('e \<Rightarrow> bool) \<Rightarrow> 'e option list \<Rightarrow> nat \<Rightarrow> bool" where
  "occupied_by_others same tab q \<longleftrightarrow> (\<exists>e. tab ! q = Some e \<and> \<not> same e)"

fun probe_post :: "nat \<Rightarrow> ('e \<Rightarrow> bool) \<Rightarrow> 'e option list \<Rightarrow> nat \<Rightarrow> probe \<Rightarrow> bool" where
  "probe_post n same tab pos (Found p) \<longleftrightarrow> p < n \<and> (\<exists>e. tab ! p = Some e \<and> same e)"
| "probe_post n same tab pos (Vacant p) \<longleftrightarrow> p < n \<and> tab ! p = None \<and>
     (\<forall>q < n. dist n pos q < dist n pos p \<longrightarrow> occupied_by_others same tab q)"
| "probe_post n same tab pos Full \<longleftrightarrow> (\<forall>q < n. occupied_by_others same tab q)"
| "probe_post n same tab pos Outside \<longleftrightarrow> False"

lemma probe_loop_returns:
  assumes "pos < n" "i < n" "n \<le> length tab"
    and "\<And>q. q < n \<Longrightarrow> dist n pos q < dist n pos i \<Longrightarrow> occupied_by_others same tab q"
  shows "\<exists>r. probe_loop n same tab pos i = Some r \<and> probe_post n same tab pos r"
  using assms(2,4)
proof (induction "n - dist n pos i" arbitrary: i rule: less_induct)
  case less
  have len: "i < length tab" using less.prems(1) assms(3) by simp
  show ?case
  proof (cases "tab ! i")
    case None
    then show ?thesis
      using less.prems len by (subst probe_loop.simps) auto
  next
    case (Some e)
    show ?thesis
    proof (cases "same e")
      case True
      with Some less.prems len show ?thesis by (subst probe_loop.simps) auto
    next
      case False
      let ?i = "next_slot n i"
      have i: "?i < n" by (rule next_slot_less[OF less.prems(1)])
      have here: "occupied_by_others same tab i" using Some False by (simp add: occupied_by_others_def)
      show ?thesis
      proof (cases "?i = pos")
        case True
        have "occupied_by_others same tab q" if "q < n" for q
        proof (cases "q = i")
          case False
          have "dist n pos q \<noteq> dist n pos i" using dist_inj[OF that less.prems(1) assms(1)] False by blast
          moreover have "dist n pos q < n" by (rule dist_less[OF assms(1) that])
          ultimately have "dist n pos q < dist n pos i"
            using dist_next_back[OF assms(1) less.prems(1) True] by simp
          then show ?thesis by (rule less.prems(2)[OF that])
        qed (use here in simp)
        with True Some False len show ?thesis by (subst probe_loop.simps) auto
      next
        case go: False
        have d: "dist n pos ?i = Suc (dist n pos i)" by (rule dist_next[OF assms(1) less.prems(1) go])
        have "\<exists>r. probe_loop n same tab pos ?i = Some r \<and> probe_post n same tab pos r"
        proof (rule less.hyps)
          show "n - dist n pos ?i < n - dist n pos i"
            using d dist_less[OF assms(1) i] by simp
          fix q assume q: "q < n" "dist n pos q < dist n pos ?i"
          show "occupied_by_others same tab q"
          proof (cases "q = i")
            case False
            then have "dist n pos q \<noteq> dist n pos i" using dist_inj[OF q(1) less.prems(1) assms(1)] by blast
            with q(2) d have "dist n pos q < dist n pos i" by simp
            then show ?thesis by (rule less.prems(2)[OF q(1)])
          qed (use here in simp)
        qed (rule i)
        moreover have "probe_loop n same tab pos i = probe_loop n same tab pos ?i"
          using go Some False len by (subst probe_loop.simps) simp
        ultimately show ?thesis by simp
      qed
    qed
  qed
qed

locale slots =
  fixes n :: nat and hash :: "'e \<Rightarrow> nat"
  assumes home: "hash e < n"
begin

lemma probe_returns:
  assumes "pos < n" "n \<le> length tab"
  shows "\<exists>r. probe_loop n same tab pos pos = Some r \<and> probe_post n same tab pos r"
  by (rule probe_loop_returns) (use assms in auto)

text \<open>An entry that is in the table is found, from its home.\<close>

lemma probe_finds:
  assumes inv: "reachable_in n hash tab" and r: "probe_post n same tab (hash e) r"
    and e: "p < n" "tab ! p = Some e" "same e"
  shows "\<exists>p' e'. r = Found p' \<and> p' < n \<and> tab ! p' = Some e' \<and> same e'"
proof (cases r)
  case (Vacant v)
  with r have v: "v < n" "tab ! v = None"
    "\<And>q. q < n \<Longrightarrow> dist n (hash e) q < dist n (hash e) v \<Longrightarrow> occupied_by_others same tab q"
    by auto
  have "\<not> dist n (hash e) p < dist n (hash e) v"
    using v(3)[OF e(1)] e(2,3) by (auto simp: occupied_by_others_def)
  moreover have "\<not> dist n (hash e) v < dist n (hash e) p"
    using reachable_inD[OF inv e(1,2) v(1)] v(2) by blast
  ultimately have "v = p" using dist_inj[OF v(1) e(1) home, of e] by simp
  with v(2) e(2) show ?thesis by simp
next
  case Full
  with r e show ?thesis by (auto simp: occupied_by_others_def)
qed (use r in auto)

text \<open>A new entry may go to the vacant slot the probe has stopped at.\<close>

lemma reachable_insert:
  assumes "reachable_in n hash tab" "n \<le> length tab" "probe_post n same tab (hash e) (Vacant v)"
  shows "reachable_in n hash (tab[v := Some e])"
  using assms unfolding reachable_in_def probe_post.simps
  by (auto simp: nth_list_update occupied_by_others_def)

section \<open>Closing the gap\<close>

definition displacement :: "'e option list \<Rightarrow> nat" where
  "displacement tab = (\<Sum>p < n. case tab ! p of None \<Rightarrow> 0 | Some e \<Rightarrow> dist n (hash e) p)"

lemma displacement_move:
  assumes "i < n" "j < n" "i \<noteq> j" "n \<le> length tab" "tab ! i = Some e" "tab ! j = None"
    and "dist n (hash e) j < dist n (hash e) i"
  shows "displacement (tab[j := Some e, i := None]) < displacement tab"
proof -
  let ?f = "\<lambda>tab p. case tab ! p of None \<Rightarrow> 0 | Some e \<Rightarrow> dist n (hash e) p"
  let ?t = "tab[j := Some e, i := None]"
  have split: "sum g {..<n} = g i + (g j + sum g ({..<n} - {i} - {j}))" for g :: "nat \<Rightarrow> nat"
    using assms(1-3) by (simp add: sum.remove[of "{..<n}" i] sum.remove[of "{..<n} - {i}" j])
  have "sum (?f ?t) ({..<n} - {i} - {j}) = sum (?f tab) ({..<n} - {i} - {j})"
    by (rule sum.cong) auto
  moreover have "?f ?t i = 0" "?f ?t j = dist n (hash e) j" "?f tab i = dist n (hash e) i" "?f tab j = 0"
    using assms by simp_all
  ultimately show ?thesis using assms(7) by (simp add: displacement_def split)
qed

lemma reachable_gap:
  assumes "reachable_in n hash tab" "j < n" "n \<le> length tab"
  shows "reachable_but n hash (tab[j := None]) j j"
  unfolding reachable_but_def
proof (intro conjI allI impI)
  show "tab[j := None] ! j = None" using assms(2,3) by simp
  fix p e q
  assume p: "p < n" "tab[j := None] ! p = Some e" and q: "q < n" "dist n (hash e) q < dist n (hash e) p"
  have "p \<noteq> j" using p assms(2,3) by auto
  then have "tab ! p = Some e" "dist n j p \<noteq> 0" using p dist_zero[OF assms(2) p(1)] by auto
  with reachable_inD[OF assms(1) p(1) _ q]
  show "tab[j := None] ! q \<noteq> None \<or> q = j \<and> dist n j j < dist n j p"
    by (cases "q = j") auto
qed

lemma reachable_but_stop:
  assumes inv: "reachable_but n hash tab j i" and "i < n" "j < n" "tab ! next_slot n i = None"
  shows "reachable_in n hash tab"
  unfolding reachable_in_def
proof (intro allI impI)
  fix p e q
  assume p: "p < n" "tab ! p = Some e" and q: "q < n" "dist n (hash e) q < dist n (hash e) p"
  let ?i = "next_slot n i"
  have i: "?i < n" by (rule next_slot_less[OF assms(2)])
  show "tab ! q \<noteq> None"
  proof
    assume "tab ! q = None"
    with reachable_butD[OF inv p q] q have q: "q = j" "dist n (hash e) j < dist n (hash e) p" "dist n j i < dist n j p"
      by auto
    have "?i \<noteq> j"
      using dist_next_back[OF assms(3,2)] dist_less[OF assms(3) p(1)] q(3) by auto
    then have d: "dist n j ?i = Suc (dist n j i)" by (rule dist_next[OF assms(3,2)])
    moreover have "?i \<noteq> p" using assms(4) p(2) by auto
    ultimately have "dist n j ?i < dist n j p"
      using q(3) dist_inj[OF i p(1) assms(3)] by fastforce
    then have "dist n (hash e) ?i < dist n (hash e) p"
      by (rule dist_between[OF home assms(3) i p(1) q(2)])
    with reachable_butD[OF inv p i] assms(4) have "?i = j" by blast
    with \<open>?i \<noteq> j\<close> show False ..
  qed
qed

lemma reachable_but_stay:
  assumes inv: "reachable_but n hash tab j i" and "i < n" "j < n"
    and e: "tab ! next_slot n i = Some e" "\<not> dist n (hash e) j < dist n (hash e) (next_slot n i)"
  shows "reachable_but n hash tab j (next_slot n i)"
  unfolding reachable_but_def
proof (intro conjI allI impI)
  show "tab ! j = None" using inv by (simp add: reachable_but_def)
  fix p e' q
  assume p: "p < n" "tab ! p = Some e'" and q: "q < n" "dist n (hash e') q < dist n (hash e') p"
  let ?i = "next_slot n i"
  have i: "?i < n" by (rule next_slot_less[OF assms(2)])
  have "?i \<noteq> j" using \<open>tab ! j = None\<close> e(1) by auto
  then have d: "dist n j ?i = Suc (dist n j i)" by (rule dist_next[OF assms(3,2)])
  show "tab ! q \<noteq> None \<or> q = j \<and> dist n j ?i < dist n j p"
  proof (cases "tab ! q = None")
    case True
    with reachable_butD[OF inv p q] have q': "q = j" "dist n j i < dist n j p" by auto
    have "p \<noteq> ?i" using q' q(2) e p(2) by auto
    then have "dist n j p \<noteq> dist n j ?i" using dist_inj[OF p(1) i assms(3)] by blast
    with q' d show ?thesis by simp
  qed simp
qed

lemma reachable_but_move:
  assumes inv: "reachable_but n hash tab j i" and "i < n" "j < n" "n \<le> length tab"
    and e: "tab ! next_slot n i = Some e" "dist n (hash e) j < dist n (hash e) (next_slot n i)"
  shows "reachable_but n hash (tab[j := Some e, next_slot n i := None]) (next_slot n i) (next_slot n i)"
  unfolding reachable_but_def
proof (intro conjI allI impI)
  let ?i = "next_slot n i" let ?t = "tab[j := Some e, ?i := None]"
  have i: "?i < n" by (rule next_slot_less[OF assms(2)])
  show "?t ! ?i = None" using i assms(4) by simp
  fix p e' q
  assume p: "p < n" "?t ! p = Some e'" and q: "q < n" "dist n (hash e') q < dist n (hash e') p"
  have "p \<noteq> ?i" using p i assms(4) by auto
  show "?t ! q \<noteq> None \<or> q = ?i \<and> dist n ?i ?i < dist n ?i p"
  proof (cases "q = ?i")
    case True
    have "dist n ?i p \<noteq> 0" using dist_zero[OF i p(1)] \<open>p \<noteq> ?i\<close> by auto
    with True show ?thesis by simp
  next
    case False
    show ?thesis
    proof (cases "q = j")
      case True
      with False assms(3,4) show ?thesis by (simp add: nth_list_update)
    next
      case other: False
      have t: "?t ! q = tab ! q" using False other by simp
      have "tab ! q \<noteq> None"
      proof (cases "p = j")
        case True
        with p(2) \<open>p \<noteq> ?i\<close> assms(3,4) have "e' = e" by simp
        with q(2) True e(2) have "dist n (hash e) q < dist n (hash e) ?i" by simp
        with reachable_butD[OF inv i e(1) q(1)] other show ?thesis by blast
      next
        case False
        with p \<open>p \<noteq> ?i\<close> have "tab ! p = Some e'" by simp
        with reachable_butD[OF inv p(1) _ q] other show ?thesis by blast
      qed
      with t show ?thesis by simp
    qed
  qed
qed

text \<open>The loop returns: each move brings an entry nearer to its home, and between two moves it goes
  once around at most. No entry is lost.\<close>

lemma close_gap_returns:
  assumes "reachable_but n hash tab j i" "i < n" "j < n" "n \<le> length tab"
  shows "\<exists>tab'. close_gap n hash tab j i = Some (Inr tab') \<and> reachable_in n hash tab' \<and>
    length tab' = length tab \<and> mset tab' = mset tab \<and> drop n tab' = drop n tab"
  using assms
proof (induction "(displacement tab, n - dist n j i)" arbitrary: tab j i rule: wf_induct_rule[OF wf_lex_prod[OF wf_less_than wf_less_than]])
  case (1 tab j i)
  note prems = "1.prems"
  have IH: "\<exists>tab''. close_gap n hash tab' j' i' = Some (Inr tab'') \<and> reachable_in n hash tab'' \<and>
      length tab'' = length tab' \<and> mset tab'' = mset tab' \<and> drop n tab'' = drop n tab'"
    if "displacement tab' < displacement tab \<or> displacement tab' = displacement tab \<and> n - dist n j' i' < n - dist n j i"
      "reachable_but n hash tab' j' i'" "i' < n" "j' < n" "n \<le> length tab'" for tab' j' i'
    by (rule "1.hyps") (use that in auto)
  let ?i = "next_slot n i"
  have i: "?i < n" "?i < length tab" using next_slot_less[OF prems(2)] prems(4) by simp_all
  show ?case
  proof (cases "tab ! ?i")
    case None
    then show ?thesis
      using i reachable_but_stop[OF prems(1-3)] by (subst close_gap.simps) (simp add: Let_def)
  next
    case (Some e)
    have "tab ! j = None" using prems(1) by (simp add: reachable_but_def)
    with Some have ne: "?i \<noteq> j" by auto
    note stays = stays_iff[OF i(1) prems(3) home ne, of e]
    show ?thesis
    proof (cases "dist n (hash e) j < dist n (hash e) ?i")
      case False
      have "close_gap n hash tab j i = close_gap n hash tab j ?i"
        by (subst close_gap.simps) (simp only: Let_def i(2) Some option.case stays False simp_thms if_True if_False not_False_eq_True)
      moreover have "n - dist n j ?i < n - dist n j i"
        using dist_next[OF prems(3,2) ne] dist_less[OF prems(3) i(1)] by simp
      ultimately show ?thesis
        using IH[of tab j ?i] reachable_but_stay[OF prems(1-3) Some False] i(1) prems(3,4)
        by simp
    next
      case True
      let ?t = "tab[j := Some e, ?i := None]"
      have "close_gap n hash tab j i = close_gap n hash ?t ?i ?i"
        by (subst close_gap.simps) (simp only: Let_def i(2) Some option.case stays True simp_thms if_True if_False not_True_eq_False)
      moreover have "displacement ?t < displacement tab"
        by (rule displacement_move[OF i(1) prems(3) ne prems(4) Some \<open>tab ! j = None\<close> True])
      moreover have "mset ?t = mset tab"
        using mset_swap[of ?i tab j] i(2) prems(3,4) Some \<open>tab ! j = None\<close> by (simp add: list_update_swap ne)
      moreover have "drop n ?t = drop n tab" using i(1) prems(3) by simp
      ultimately show ?thesis
        using IH[of ?t ?i ?i] reachable_but_move[OF prems(1-4) Some True] i(1) prems(4)
        by simp
    qed
  qed
qed

end

end
