(* ===== verification/Assoc.thy ===== *)
theory Assoc
  imports Open_Hash C_String
begin

text \<open>
  Associative arrays (\<open>libmailutils/base/assoc.c\<close>): a hash table with linear probing whose entries
  are also kept in a list, in the order they were installed. The elements are heap cells; the table
  and the list refer to them by address. The array is a record, one definition per function.
\<close>

section \<open>Data\<close>

definition hash_size :: "nat list" where
  "hash_size = [37, 101, 229, 487, 1009, 2039, 4091, 8191, 16411]"

definition max_rehash :: nat where
  "max_rehash = length hash_size"

text \<open>The sizes by number; \<open>hash_num\<close> never leaves the table of sizes (\<open>assoc_ok\<close>), 1 stands for what
  C leaves undefined there.\<close>

definition hash_size_at :: "nat \<Rightarrow> nat" where
  "hash_size_at k = (if k < max_rehash then hash_size ! k else 1)"

type_synonym cell = nat

record 'd assoc_elem =
  ae_name :: bytes
  ae_mark :: bool
  ae_data :: "'d option"

text \<open>
  \<open>ac_cells\<close> is the heap the elements are in and \<open>ac_brk\<close> the first address not yet allocated.
  \<open>ac_list\<close> lists the elements from \<open>head\<close> to \<open>tail\<close>, for the \<open>next\<close> and \<open>prev\<close> links. \<open>ac_free\<close> tells
  that a destructor is set, and \<open>ac_freed\<close> records what it has been called with.
\<close>

record 'd assoc =
  ac_icase :: bool
  ac_hash_num :: nat
  ac_tab :: "cell option list option"
  ac_cells :: "cell \<Rightarrow> 'd assoc_elem"
  ac_brk :: cell
  ac_list :: "cell list"
  ac_free :: bool
  ac_freed :: "'d option list"

section \<open>Names\<close>

definition hash_dfl :: "bytes \<Rightarrow> nat \<Rightarrow> nat" where
  "hash_dfl name hash_num =
     unat (foldl (\<lambda>i c. push_bit 1 i XOR ucast c) (0 :: 32 word) name) mod hash_size_at hash_num"

definition hash_ci :: "bytes \<Rightarrow> nat \<Rightarrow> nat" where
  "hash_ci name hash_num =
     unat (foldl (\<lambda>i c. push_bit 1 i XOR ucast (mu_tolower c)) (0 :: 32 word) name) mod hash_size_at hash_num"

definition assoc_hash :: "'d assoc \<Rightarrow> bytes \<Rightarrow> nat" where
  "assoc_hash a name = (if ac_icase a then hash_ci name (ac_hash_num a) else hash_dfl name (ac_hash_num a))"

definition name_cmp :: "'d assoc \<Rightarrow> bytes \<Rightarrow> bytes \<Rightarrow> bool" where
  "name_cmp a x y \<longleftrightarrow> (if ac_icase a then mu_c_strcasecmp x y = 0 else x = y)"

abbreviation cell_name :: "'d assoc \<Rightarrow> cell \<Rightarrow> bytes" where
  "cell_name a c \<equiv> ae_name (ac_cells a c)"

abbreviation cell_data :: "'d assoc \<Rightarrow> cell \<Rightarrow> 'd option" where
  "cell_data a c \<equiv> ae_data (ac_cells a c)"

definition assoc_size :: "'d assoc \<Rightarrow> nat" where
  "assoc_size a = hash_size_at (ac_hash_num a)"

definition assoc_home :: "'d assoc \<Rightarrow> cell \<Rightarrow> nat" where
  "assoc_home a c = assoc_hash a (cell_name a c)"

section \<open>Finding a slot\<close>

text \<open>
  \<open>assoc_find_slot\<close> and \<open>assoc_rehash\<close> call each other; the first argument bounds the depth of the
  calls. Each rehash raises \<open>hash_num\<close>, of which there are nine, and takes three calls more, so
  \<open>assoc_depth\<close> is enough. A \<open>None\<close> is a run that does not return. The answer of \<open>assoc_find_slot\<close>
  is the slot and \<open>*install\<close>.
\<close>

fun assoc_find_slot ::
    "nat \<Rightarrow> 'd assoc \<Rightarrow> bytes \<Rightarrow> bool \<Rightarrow> ('d assoc \<times> (mu_error + nat \<times> bool)) option"
  and assoc_rehash :: "nat \<Rightarrow> 'd assoc \<Rightarrow> ('d assoc \<times> (mu_error + unit)) option"
  and assoc_rehash_loop :: "nat \<Rightarrow> cell option list \<Rightarrow> 'd assoc \<Rightarrow> ('d assoc \<times> (mu_error + unit)) option"
where
  "assoc_find_slot 0 a name install = None"
| "assoc_find_slot (Suc d) a name install =
     (case (if ac_tab a = None then if install then assoc_rehash d a else Some (a, Inl MU_ERR_NOENT)
            else Some (a, Inr ())) of
        None \<Rightarrow> None
      | Some (a, Inl e) \<Rightarrow> Some (a, Inl e)
      | Some (a, Inr u) \<Rightarrow>
          let pos = assoc_hash a name
          in case probe_loop (assoc_size a) (\<lambda>c. name_cmp a (cell_name a c) name) (the (ac_tab a)) pos pos of
               None \<Rightarrow> None
             | Some (Found i) \<Rightarrow> Some (a, Inr (i, False))
             | Some (Vacant i) \<Rightarrow> Some (a, if install then Inr (i, True) else Inl MU_ERR_NOENT)
             | Some Full \<Rightarrow>
                 if \<not> install then Some (a, Inl MU_ERR_NOENT)
                 else (case assoc_rehash d a of
                         None \<Rightarrow> None
                       | Some (a, Inl e) \<Rightarrow> Some (a, Inl e)
                       | Some (a, Inr u) \<Rightarrow> assoc_find_slot d a name install)
             | Some Outside \<Rightarrow> Some (a, Inl OUT_OF_BOUNDS))"
| "assoc_rehash 0 a = None"
| "assoc_rehash (Suc d) a =
     (let hash_num = Suc (ac_hash_num a)
      in if max_rehash \<le> hash_num then Some (a, Inl MU_ERR_BUFSPACE)
         else
           let new_tab = replicate (hash_size_at hash_num) None
           in case ac_tab a of
                None \<Rightarrow> Some (a\<lparr>ac_tab := Some new_tab\<rparr>, Inr ())
              | Some old_tab \<Rightarrow>
                  assoc_rehash_loop d (take (hash_size_at (hash_num - 1)) old_tab)
                    (a\<lparr>ac_tab := Some new_tab, ac_hash_num := hash_num\<rparr>))"
| "assoc_rehash_loop 0 es a = None"
| "assoc_rehash_loop (Suc d) [] a = Some (a, Inr ())"
| "assoc_rehash_loop (Suc d) (None # es) a = assoc_rehash_loop (Suc d) es a"
| "assoc_rehash_loop (Suc d) (Some c # es) a =
     (case assoc_find_slot d a (cell_name a c) True of
        None \<Rightarrow> None
      | Some (a, Inl e) \<Rightarrow> Some (a, Inl e)
      | Some (a, Inr (slot, inst)) \<Rightarrow>
          assoc_rehash_loop (Suc d) es (a\<lparr>ac_tab := Some ((the (ac_tab a))[slot := Some c])\<rparr>))"

definition assoc_depth :: nat where
  "assoc_depth = 40"

definition find_slot :: "'d assoc \<Rightarrow> bytes \<Rightarrow> bool \<Rightarrow> ('d assoc \<times> (mu_error + nat \<times> bool)) option" where
  "find_slot = assoc_find_slot assoc_depth"

section \<open>Creation, lookup and installation\<close>

definition mu_assoc_create :: "bool \<Rightarrow> 'd assoc" where
  "mu_assoc_create icase =
     \<lparr>ac_icase = icase, ac_hash_num = 0, ac_tab = None,
      ac_cells = (\<lambda>c. \<lparr>ae_name = [], ae_mark = False, ae_data = None\<rparr>), ac_brk = 0, ac_list = [],
      ac_free = False, ac_freed = []\<rparr>"

definition mu_assoc_set_destroy_item :: "'d assoc \<Rightarrow> bool \<Rightarrow> 'd assoc" where
  "mu_assoc_set_destroy_item a fn = a\<lparr>ac_free := fn\<rparr>"

definition slot_cell :: "'d assoc \<Rightarrow> nat \<Rightarrow> cell" where
  "slot_cell a idx = the (the (ac_tab a) ! idx)"

definition mu_assoc_lookup :: "'d assoc \<Rightarrow> bytes \<Rightarrow> (mu_error + 'd option) option" where
  "mu_assoc_lookup a name =
     (case find_slot a name False of
        None \<Rightarrow> None
      | Some (a, Inl e) \<Rightarrow> Some (Inl e)
      | Some (a, Inr (idx, inst)) \<Rightarrow> Some (Inr (cell_data a (slot_cell a idx))))"

definition mu_assoc_get :: "'d assoc \<Rightarrow> bytes \<Rightarrow> 'd option option" where
  "mu_assoc_get a name =
     (case find_slot a name False of
        None \<Rightarrow> None
      | Some (a, Inl e) \<Rightarrow> Some None
      | Some (a, Inr (idx, inst)) \<Rightarrow> Some (cell_data a (slot_cell a idx)))"

text \<open>The reference is the address of the element whose data it points to.\<close>

definition mu_assoc_lookup_ref :: "'d assoc \<Rightarrow> bytes \<Rightarrow> (mu_error + cell) option" where
  "mu_assoc_lookup_ref a name =
     (case find_slot a name False of
        None \<Rightarrow> None
      | Some (a, Inl e) \<Rightarrow> Some (Inl e)
      | Some (a, Inr (idx, inst)) \<Rightarrow> Some (Inr (slot_cell a idx)))"

text \<open>A new element is allocated, entered into the slot and linked in at the tail. Its mark is not set:
  it is what the memory at the new address had there (which \<open>mu_assoc_create\<close> leaves open: the steps
  of an array include the change of any mark, also in memory not yet allocated).\<close>

definition assoc_elem_link :: "'d assoc \<Rightarrow> nat \<Rightarrow> 'd assoc" where
  "assoc_elem_link a idx = a\<lparr>ac_list := ac_list a @ [slot_cell a idx]\<rparr>"

definition assoc_new_elem :: "'d assoc \<Rightarrow> nat \<Rightarrow> bytes \<Rightarrow> 'd option \<Rightarrow> 'd assoc" where
  "assoc_new_elem a idx name value =
     (let c = ac_brk a
      in assoc_elem_link
           (a\<lparr>ac_cells := (ac_cells a)(c := \<lparr>ae_name = name, ae_mark = ae_mark (ac_cells a c), ae_data = value\<rparr>),
              ac_brk := Suc c,
              ac_tab := Some ((the (ac_tab a))[idx := Some c])\<rparr>) idx)"

definition mu_assoc_install :: "'d assoc \<Rightarrow> bytes \<Rightarrow> 'd option \<Rightarrow> ('d assoc \<times> (mu_error + unit)) option" where
  "mu_assoc_install a name value =
     (case find_slot a name True of
        None \<Rightarrow> None
      | Some (a, Inl e) \<Rightarrow> Some (a, Inl e)
      | Some (a, Inr (idx, inst)) \<Rightarrow>
          if \<not> inst then Some (a, Inl MU_ERR_EXISTS)
          else Some (assoc_new_elem a idx name value, Inr ()))"

text \<open>The reference, the name in the array, and whether the entry is new.\<close>

definition mu_assoc_install_ref2 ::
  "'d assoc \<Rightarrow> bytes \<Rightarrow> ('d assoc \<times> (mu_error + cell \<times> bytes \<times> bool)) option" where
  "mu_assoc_install_ref2 a name =
     (case find_slot a name True of
        None \<Rightarrow> None
      | Some (a, Inl e) \<Rightarrow> Some (a, Inl e)
      | Some (a, Inr (idx, inst)) \<Rightarrow>
          let a = (if inst then assoc_new_elem a idx name None else a)
          in Some (a, Inr (slot_cell a idx, cell_name a (slot_cell a idx), inst)))"

section \<open>Removal\<close>

definition assoc_elem_unlink :: "'d assoc \<Rightarrow> nat \<Rightarrow> 'd assoc" where
  "assoc_elem_unlink a idx = a\<lparr>ac_list := remove1 (slot_cell a idx) (ac_list a)\<rparr>"

definition assoc_free_elem :: "'d assoc \<Rightarrow> nat \<Rightarrow> 'd assoc" where
  "assoc_free_elem a idx =
     (case the (ac_tab a) ! idx of
        None \<Rightarrow> a
      | Some c \<Rightarrow>
          let a = assoc_elem_unlink a idx
          in a\<lparr>ac_freed := ac_freed a @ (if ac_free a then [cell_data a c] else []),
               ac_tab := Some ((the (ac_tab a))[idx := None])\<rparr>)"

definition assoc_remove :: "'d assoc \<Rightarrow> nat \<Rightarrow> ('d assoc \<times> (mu_error + unit)) option" where
  "assoc_remove a idx =
     (if \<not> idx < assoc_size a then Some (a, Inl EINVAL)
      else
        let a = assoc_free_elem a idx
        in case close_gap (assoc_size a) (assoc_home a) ((the (ac_tab a))[idx := None]) idx idx of
             None \<Rightarrow> None
           | Some (Inl e) \<Rightarrow> Some (a, Inl e)
           | Some (Inr tab) \<Rightarrow> Some (a\<lparr>ac_tab := Some tab\<rparr>, Inr ()))"

definition mu_assoc_remove :: "'d assoc \<Rightarrow> bytes \<Rightarrow> ('d assoc \<times> (mu_error + unit)) option" where
  "mu_assoc_remove a name =
     (case find_slot a name False of
        None \<Rightarrow> None
      | Some (a, Inl e) \<Rightarrow> Some (a, Inl e)
      | Some (a, Inr (idx, inst)) \<Rightarrow> assoc_remove a idx)"

text \<open>Removal by element: the first slot that refers to it; \<open>nd\<close> spares the data.\<close>

definition assoc_remove_elem ::
  "'d assoc \<Rightarrow> cell option \<Rightarrow> bool \<Rightarrow> ('d assoc \<times> (mu_error + unit)) option" where
  "assoc_remove_elem a elem nd =
     (case elem of
        None \<Rightarrow> Some (a, Inl MU_ERR_NOENT)
      | Some c \<Rightarrow>
          (case find (\<lambda>i. the (ac_tab a) ! i = Some c) [0..<assoc_size a] of
             None \<Rightarrow> Some (a, Inl MU_ERR_NOENT)
           | Some i \<Rightarrow>
               let a = (if nd then a\<lparr>ac_cells := (ac_cells a)(c := (ac_cells a c)\<lparr>ae_data := None\<rparr>)\<rparr> else a)
               in (case assoc_remove a i of None \<Rightarrow> None | Some (a, r) \<Rightarrow> Some (a, Inr ()))))"

definition mu_assoc_clear :: "'d assoc \<Rightarrow> 'd assoc" where
  "mu_assoc_clear a =
     (if ac_tab a = None then a else fold (\<lambda>i a. assoc_free_elem a i) [0..<assoc_size a] a)"

text \<open>\<open>mu_assoc_pop\<close> and \<open>mu_assoc_shift\<close> give the data of the last and the first element; \<open>want\<close>
  tells that the caller passed a place for it.\<close>

definition mu_assoc_pop :: "'d assoc \<Rightarrow> bool \<Rightarrow> ('d assoc \<times> (mu_error + unit) \<times> 'd option option) option" where
  "mu_assoc_pop a want =
     (let elem = (if ac_list a = [] then None else Some (last (ac_list a)));
          ret = (if want then map_option (cell_data a) elem else None)
      in map_option (\<lambda>(a, r). (a, r, ret)) (assoc_remove_elem a elem want))"

definition mu_assoc_shift :: "'d assoc \<Rightarrow> bool \<Rightarrow> ('d assoc \<times> (mu_error + unit) \<times> 'd option option) option" where
  "mu_assoc_shift a want =
     (let elem = (if ac_list a = [] then None else Some (hd (ac_list a)));
          ret = (if want then map_option (cell_data a) elem else None)
      in map_option (\<lambda>(a, r). (a, r, ret)) (assoc_remove_elem a elem want))"

section \<open>Counting and iteration\<close>

definition mu_assoc_count :: "'d assoc \<Rightarrow> nat" where
  "mu_assoc_count a = length (ac_list a)"

definition mu_assoc_is_empty :: "'d assoc \<Rightarrow> bool" where
  "mu_assoc_is_empty a \<longleftrightarrow> ac_list a = []"

text \<open>An action is called with name, data and the client's state, and gives the new state and 0 or an
  error that ends the iteration.\<close>

fun assoc_foreach :: "(bytes \<Rightarrow> 'd option \<Rightarrow> 's \<Rightarrow> 's \<times> int) \<Rightarrow> 'd assoc \<Rightarrow> cell list \<Rightarrow> 's \<Rightarrow> 's \<times> int" where
  "assoc_foreach action a [] s = (s, 0)"
| "assoc_foreach action a (c # cs) s =
     (case action (cell_name a c) (cell_data a c) s of
        (s, rc) \<Rightarrow> if rc \<noteq> 0 then (s, rc) else assoc_foreach action a cs s)"

definition mu_assoc_foreach :: "'d assoc \<Rightarrow> (bytes \<Rightarrow> 'd option \<Rightarrow> 's \<Rightarrow> 's \<times> int) \<Rightarrow> 's \<Rightarrow> 's \<times> int" where
  "mu_assoc_foreach a action s = assoc_foreach action a (ac_list a) s"

section \<open>Sorting\<close>

fun assoc_merge :: "(cell \<Rightarrow> cell \<Rightarrow> int) \<Rightarrow> cell list \<Rightarrow> cell list \<Rightarrow> cell list" where
  "assoc_merge cmp (l # left) (r # right) =
     (if cmp l r \<le> 0 then l # assoc_merge cmp left (r # right) else r # assoc_merge cmp (l # left) right)"
| "assoc_merge cmp [] right = right"
| "assoc_merge cmp left [] = left"

fun assoc_merge_sort :: "(cell \<Rightarrow> cell \<Rightarrow> int) \<Rightarrow> cell list \<Rightarrow> nat \<Rightarrow> cell list" where
  "assoc_merge_sort cmp list len =
     (if len \<le> 1 then list
      else if len = 2 then
        (if cmp (list ! 0) (list ! 1) > 0 then [list ! 1, list ! 0] else list)
      else
        let left_len = (len + 1) div 2; right_len = len div 2
        in assoc_merge cmp (assoc_merge_sort cmp (take left_len list) left_len)
             (assoc_merge_sort cmp (drop left_len list) right_len))"

declare assoc_merge_sort.simps [simp del]

definition mu_assoc_sort_r ::
  "'d assoc \<Rightarrow> (bytes \<Rightarrow> 'd option \<Rightarrow> bytes \<Rightarrow> 'd option \<Rightarrow> int) option \<Rightarrow> 'd assoc" where
  "mu_assoc_sort_r a cmp =
     (case cmp of
        None \<Rightarrow> a
      | Some cmp \<Rightarrow>
          a\<lparr>ac_list := assoc_merge_sort (\<lambda>c c'. cmp (cell_name a c) (cell_data a c) (cell_name a c') (cell_data a c'))
              (ac_list a) (mu_assoc_count a)\<rparr>)"

section \<open>Marks\<close>

definition set_cell_mark :: "cell \<Rightarrow> bool \<Rightarrow> 'd assoc \<Rightarrow> 'd assoc" where
  "set_cell_mark c mark a = a\<lparr>ac_cells := (ac_cells a)(c := (ac_cells a c)\<lparr>ae_mark := mark\<rparr>)\<rparr>"

definition mu_assoc_mark :: "'d assoc \<Rightarrow> (bytes \<Rightarrow> 'd option \<Rightarrow> bool) \<Rightarrow> 'd assoc" where
  "mu_assoc_mark a cond = fold (\<lambda>c a. set_cell_mark c (cond (cell_name a c) (cell_data a c)) a) (ac_list a) a"

definition mu_assoc_set_mark :: "'d assoc \<Rightarrow> bytes \<Rightarrow> bool \<Rightarrow> ('d assoc \<times> (mu_error + unit)) option" where
  "mu_assoc_set_mark a name mark =
     (case find_slot a name False of
        None \<Rightarrow> None
      | Some (a, Inl e) \<Rightarrow> Some (a, Inl e)
      | Some (a, Inr (idx, inst)) \<Rightarrow> Some (set_cell_mark (slot_cell a idx) mark a, Inr ()))"

definition mu_assoc_head_set_mark :: "'d assoc \<Rightarrow> bool \<Rightarrow> 'd assoc" where
  "mu_assoc_head_set_mark a mark = (if ac_list a = [] then a else set_cell_mark (hd (ac_list a)) mark a)"

definition mu_assoc_tail_set_mark :: "'d assoc \<Rightarrow> bool \<Rightarrow> 'd assoc" where
  "mu_assoc_tail_set_mark a mark = (if ac_list a = [] then a else set_cell_mark (last (ac_list a)) mark a)"

text \<open>The sweep goes down through the slots; removal of an entry can move another into its slot.\<close>

fun assoc_sweep_loop :: "nat \<Rightarrow> 'd assoc \<Rightarrow> 'd assoc option" where
  "assoc_sweep_loop 0 a = Some a"
| "assoc_sweep_loop (Suc i) a =
     (case the (ac_tab a) ! i of
        None \<Rightarrow> assoc_sweep_loop i a
      | Some c \<Rightarrow>
          if ae_mark (ac_cells a c)
          then (case assoc_remove a i of None \<Rightarrow> None | Some (a, r) \<Rightarrow> assoc_sweep_loop i a)
          else assoc_sweep_loop i a)"

definition mu_assoc_sweep :: "'d assoc \<Rightarrow> 'd assoc option" where
  "mu_assoc_sweep a = (if ac_tab a = None then Some a else assoc_sweep_loop (assoc_size a) a)"

text \<open>Here the test is on the slot below \<open>i\<close>, and the data dropped that of the slot \<open>i\<close> itself: a null
  pointer or a read past the table when that slot has no element.\<close>

fun assoc_sweep_unset_loop :: "nat \<Rightarrow> 'd assoc \<Rightarrow> mu_error + 'd assoc" where
  "assoc_sweep_unset_loop 0 a = Inr a"
| "assoc_sweep_unset_loop (Suc i) a =
     (case the (ac_tab a) ! i of
        None \<Rightarrow> assoc_sweep_unset_loop i a
      | Some c \<Rightarrow>
          if ae_mark (ac_cells a c)
          then (if \<not> Suc i < length (the (ac_tab a)) then Inl OUT_OF_BOUNDS
                else case the (ac_tab a) ! Suc i of
                  None \<Rightarrow> Inl OUT_OF_BOUNDS
                | Some c' \<Rightarrow>
                    assoc_sweep_unset_loop i
                      (a\<lparr>ac_freed := ac_freed a @ (if ac_free a then [cell_data a c'] else []),
                         ac_cells := (ac_cells a)(c' := (ac_cells a c')\<lparr>ae_data := None\<rparr>)\<rparr>))
          else assoc_sweep_unset_loop i a)"

definition mu_assoc_sweep_unset :: "'d assoc \<Rightarrow> mu_error + 'd assoc" where
  "mu_assoc_sweep_unset a = (if ac_tab a = None then Inr a else assoc_sweep_unset_loop (assoc_size a) a)"

text \<open>\<open>mu_assoc_pull\<close>: two arrays; the entries of \<open>a\<close> take their data from \<open>b\<close> or are removed.\<close>

fun assoc_pull_loop :: "nat list \<Rightarrow> 'd assoc \<Rightarrow> 'd assoc \<Rightarrow> ('d assoc \<times> 'd assoc) option" where
  "assoc_pull_loop [] a b = Some (a, b)"
| "assoc_pull_loop (i # is) a b =
     (case the (ac_tab a) ! i of
        None \<Rightarrow> assoc_pull_loop is a b
      | Some c \<Rightarrow>
          (case find_slot b (cell_name a c) False of
             None \<Rightarrow> None
           | Some (b, Inr (j, inst)) \<Rightarrow>
               let a = a\<lparr>ac_freed := ac_freed a @ (if ac_free a then [cell_data a c] else []),
                         ac_cells := (ac_cells a)(c := (ac_cells a c)\<lparr>ae_data := cell_data b (slot_cell b j)\<rparr>)\<rparr>;
                   b = b\<lparr>ac_cells := (ac_cells b)(slot_cell b j := (ac_cells b (slot_cell b j))\<lparr>ae_data := None\<rparr>)\<rparr>
               in (case assoc_remove b j of None \<Rightarrow> None | Some (b, r) \<Rightarrow> assoc_pull_loop is a b)
           | Some (b, Inl e) \<Rightarrow>
               (case assoc_remove a i of None \<Rightarrow> None | Some (a, r) \<Rightarrow> assoc_pull_loop is a b)))"

definition mu_assoc_pull :: "'d assoc \<Rightarrow> 'd assoc \<Rightarrow> (mu_error + 'd assoc \<times> 'd assoc) option" where
  "mu_assoc_pull a b =
     (if ac_tab a = None then Some (Inl OUT_OF_BOUNDS)
      else map_option Inr (assoc_pull_loop [0..<assoc_size a] a b))"

end
