(* ===== verification/Assoc_Facts.thy ===== *)
theory Assoc_Facts
  imports Assoc
begin

text \<open>
  What associative arrays do, as maps: a well-formed array stands for a map from names (up to case,
  when the array ignores it) to data. Lookup, installation and removal return and act on the map;
  the invariant holds for every array the operations can produce.
\<close>

section \<open>Names, hashes and sizes\<close>

definition assoc_key :: "'d assoc \<Rightarrow> bytes \<Rightarrow> bytes" where
  "assoc_key a name = (if ac_icase a then map mu_tolower name else name)"

abbreviation cell_key :: "'d assoc \<Rightarrow> cell \<Rightarrow> bytes" where
  "cell_key a c \<equiv> assoc_key a (cell_name a c)"

lemma name_cmp_key:
  assumes "0 \<notin> set x" "0 \<notin> set y"
  shows "name_cmp a x y \<longleftrightarrow> assoc_key a x = assoc_key a y"
  using mu_c_strcasecmp_eq[OF assms] by (simp add: name_cmp_def assoc_key_def)

lemma hash_ci_lower: "hash_ci name k = hash_dfl (map mu_tolower name) k"
  by (simp add: hash_ci_def hash_dfl_def foldl_map)

text \<open>The hash depends on the key only.\<close>

lemma assoc_hash_key: "assoc_hash a name = hash_dfl (assoc_key a name) (ac_hash_num a)"
  by (simp add: assoc_hash_def assoc_key_def hash_ci_lower)

lemma hash_size_pos: "0 < hash_size_at k"
proof -
  have "list_all (\<lambda>n. 0 < n) hash_size" by code_simp
  then show ?thesis by (auto simp: hash_size_at_def max_rehash_def list_all_length)
qed

lemma hash_size_less: "Suc k < max_rehash \<Longrightarrow> hash_size_at k < hash_size_at (Suc k)"
proof -
  assume "Suc k < max_rehash"
  then have "k \<in> set [0..<8]" by (auto simp: max_rehash_def hash_size_def)
  moreover have "list_all (\<lambda>k. hash_size_at k < hash_size_at (Suc k)) [0..<8]"
    by (simp add: upt_rec hash_size_at_def hash_size_def max_rehash_def)
  ultimately show ?thesis by (simp add: list_all_iff)
qed

lemma assoc_home_less: "assoc_home a c < assoc_size a"
  by (simp add: assoc_home_def assoc_hash_key assoc_size_def hash_dfl_def hash_size_pos)

interpretation assoc_slots: slots "assoc_size a" "assoc_home a" for a
  by unfold_locales (rule assoc_home_less)

lemma assoc_fields [simp]:
  "assoc_home (a\<lparr>ac_tab := t\<rparr>) = assoc_home a" "assoc_size (a\<lparr>ac_tab := t\<rparr>) = assoc_size a"
  "assoc_key (a\<lparr>ac_tab := t\<rparr>) = assoc_key a" "assoc_hash (a\<lparr>ac_tab := t\<rparr>) = assoc_hash a"
  "assoc_home (a\<lparr>ac_list := l\<rparr>) = assoc_home a" "assoc_size (a\<lparr>ac_list := l\<rparr>) = assoc_size a"
  "assoc_key (a\<lparr>ac_list := l\<rparr>) = assoc_key a" "assoc_hash (a\<lparr>ac_list := l\<rparr>) = assoc_hash a"
  "assoc_home (a\<lparr>ac_freed := f\<rparr>) = assoc_home a" "assoc_size (a\<lparr>ac_freed := f\<rparr>) = assoc_size a"
  "assoc_key (a\<lparr>ac_freed := f\<rparr>) = assoc_key a" "assoc_key (a\<lparr>ac_hash_num := k\<rparr>) = assoc_key a"
  "assoc_key (a\<lparr>ac_cells := h\<rparr>) = assoc_key a" "assoc_hash (a\<lparr>ac_cells := h\<rparr>) = assoc_hash a"
  "assoc_size (a\<lparr>ac_cells := h\<rparr>) = assoc_size a" "assoc_key (a\<lparr>ac_brk := b\<rparr>) = assoc_key a"
  "assoc_hash (a\<lparr>ac_brk := b\<rparr>) = assoc_hash a" "assoc_size (a\<lparr>ac_brk := b\<rparr>) = assoc_size a"
  "assoc_home (a\<lparr>ac_brk := b\<rparr>) = assoc_home a" "assoc_size (a\<lparr>ac_hash_num := k\<rparr>) = hash_size_at k"
  by (simp_all add: fun_eq_iff assoc_home_def assoc_hash_def assoc_size_def assoc_key_def)

section \<open>The cells of a table\<close>

definition tab_cells :: "'e option list \<Rightarrow> 'e multiset" where
  "tab_cells tab = image_mset the (filter_mset (\<lambda>x. x \<noteq> None) (mset tab))"

lemma tab_cells_simps [simp]:
  "tab_cells [] = {#}" "tab_cells (None # tab) = tab_cells tab"
  "tab_cells (Some c # tab) = add_mset c (tab_cells tab)"
  "tab_cells (t @ u) = tab_cells t + tab_cells u" "tab_cells (replicate n None) = {#}"
  by (simp_all add: tab_cells_def)

lemma tab_cells_mem: "c \<in># tab_cells tab \<longleftrightarrow> (\<exists>p < length tab. tab ! p = Some c)"
proof -
  have "c \<in># tab_cells tab \<longleftrightarrow> Some c \<in> set tab" by (force simp: tab_cells_def)
  then show ?thesis by (simp add: in_set_conv_nth)
qed

lemma tab_cells_fill:
  "i < length tab \<Longrightarrow> tab ! i = None \<Longrightarrow> tab_cells (tab[i := Some c]) = add_mset c (tab_cells tab)"
  by (simp add: tab_cells_def mset_update)

lemma tab_cells_clear:
  "i < length tab \<Longrightarrow> tab ! i = Some c \<Longrightarrow> tab_cells (tab[i := None]) = tab_cells tab - {#c#}"
proof -
  assume i: "i < length tab" "tab ! i = Some c"
  let ?m = "filter_mset (\<lambda>x. x \<noteq> None) (mset tab)"
  have "Some c \<in># ?m" using i nth_mem[OF i(1)] by simp
  then have "image_mset the (?m - {#Some c#}) = image_mset the ?m - image_mset the {#Some c#}"
    by (intro image_mset_Diff) simp
  then show ?thesis using i by (simp add: tab_cells_def mset_update)
qed

lemma tab_cells_none: "\<forall>x \<in> set tab. x = None \<Longrightarrow> tab_cells tab = {#}"
  by (induction tab) auto

lemma tab_cells_take:
  assumes "\<forall>x \<in> set (drop n tab). x = None"
  shows "tab_cells (take n tab) = tab_cells tab"
proof -
  have "tab_cells tab = tab_cells (take n tab) + tab_cells (drop n tab)"
    by (subst append_take_drop_id[of n tab, symmetric]) (simp only: tab_cells_simps)
  with tab_cells_none[OF assms] show ?thesis by simp
qed

lemma tab_cells_size: "size (tab_cells tab) \<le> length tab"
  unfolding tab_cells_def by (metis size_filter_mset_lesseq size_image_mset size_mset)

lemma tab_cells_full:
  assumes "n \<le> length tab" "\<forall>q < n. tab ! q \<noteq> None"
  shows "n \<le> size (tab_cells tab)"
proof -
  have "filter_mset (\<lambda>x. x \<noteq> None) (mset (take n tab)) = mset (take n tab)"
    using assms by (auto simp: filter_mset_eq_conv in_set_conv_nth)
  then have "size (tab_cells (take n tab)) = n" using assms(1) by (simp add: tab_cells_def)
  moreover have "tab_cells tab = tab_cells (take n tab) + tab_cells (drop n tab)"
    by (subst append_take_drop_id[of n tab, symmetric]) (simp only: tab_cells_simps)
  ultimately show ?thesis by simp
qed

section \<open>The invariant\<close>

text \<open>The table holds the cells \<open>cs\<close>, each where a probe finds it.\<close>

definition assoc_table :: "'d assoc \<Rightarrow> cell multiset \<Rightarrow> bool" where
  "assoc_table a cs \<longleftrightarrow> ac_hash_num a < max_rehash \<and>
     (\<exists>tab. ac_tab a = Some tab \<and> assoc_size a \<le> length tab \<and>
        (\<forall>x \<in> set (drop (assoc_size a) tab). x = None) \<and>
        reachable_in (assoc_size a) (assoc_home a) tab \<and> tab_cells tab = cs)"

text \<open>A well-formed array: the list has distinct allocated cells with distinct keys, and the table,
  once there is one, holds just these.\<close>

definition assoc_ok :: "'d assoc \<Rightarrow> bool" where
  "assoc_ok a \<longleftrightarrow>
     distinct (map (cell_key a) (ac_list a)) \<and> (\<forall>c \<in> set (ac_list a). c < ac_brk a \<and> 0 \<notin> set (cell_name a c)) \<and>
     (if ac_tab a = None then ac_list a = [] \<and> ac_hash_num a = 0 else assoc_table a (mset (ac_list a)))"

definition assoc_map :: "'d assoc \<Rightarrow> bytes \<Rightarrow> 'd option option" where
  "assoc_map a = map_of (map (\<lambda>c. (cell_key a c, cell_data a c)) (ac_list a))"

lemma assoc_ok_distinct: "assoc_ok a \<Longrightarrow> distinct (ac_list a)"
  by (auto simp: assoc_ok_def distinct_map)

lemma assoc_map_None: "assoc_map a k = None \<longleftrightarrow> (\<forall>c \<in> set (ac_list a). cell_key a c \<noteq> k)"
  by (auto simp: assoc_map_def map_of_eq_None_iff image_image)

lemma assoc_map_Some:
  assumes "distinct (map (cell_key a) (ac_list a))" "c \<in> set (ac_list a)"
  shows "assoc_map a (cell_key a c) = Some (cell_data a c)"
proof -
  have "distinct (map fst (map (\<lambda>c. (cell_key a c, cell_data a c)) (ac_list a)))"
    using assms(1) by (simp add: comp_def)
  then show ?thesis using assms(2) by (simp add: assoc_map_def map_of_eq_Some_iff)
qed

section \<open>Finding a slot\<close>

text \<open>In a table: the probe answers with the slot of the entry of that name, if there is one, and
  otherwise with a free slot, unless the table is full.\<close>

definition names_in :: "'d assoc \<Rightarrow> cell multiset \<Rightarrow> bool" where
  "names_in a cs \<longleftrightarrow> (\<forall>c \<in># cs. 0 \<notin> set (cell_name a c))"

lemma probe_in_table:
  assumes "assoc_table a cs" "names_in a cs" "0 \<notin> set name"
  obtains tab r where "ac_tab a = Some tab"
    "probe_loop (assoc_size a) (\<lambda>c. name_cmp a (cell_name a c) name) tab (assoc_hash a name) (assoc_hash a name) = Some r"
    "probe_post (assoc_size a) (\<lambda>c. name_cmp a (cell_name a c) name) tab (assoc_hash a name) r"
    "(\<exists>c \<in># cs. cell_key a c = assoc_key a name) \<Longrightarrow> \<exists>i. r = Found i"
    "\<And>i. r = Found i \<Longrightarrow> i < assoc_size a \<and> (\<exists>c \<in># cs. tab ! i = Some c \<and> cell_key a c = assoc_key a name)"
    "size cs < assoc_size a \<Longrightarrow> r \<noteq> Full"
    "r = Full \<Longrightarrow> size cs = assoc_size a"
proof -
  let ?same = "\<lambda>c. name_cmp a (cell_name a c) name"
  let ?pos = "assoc_hash a name"
  obtain tab where tab: "ac_tab a = Some tab" "assoc_size a \<le> length tab" "reachable_in (assoc_size a) (assoc_home a) tab"
    "tab_cells tab = cs" "\<forall>x \<in> set (drop (assoc_size a) tab). x = None"
    using assms(1) by (auto simp: assoc_table_def)
  have pos: "?pos < assoc_size a" by (simp add: assoc_hash_key assoc_size_def hash_dfl_def hash_size_pos)
  obtain r where r: "probe_loop (assoc_size a) ?same tab ?pos ?pos = Some r"
    and post: "probe_post (assoc_size a) ?same tab ?pos r"
    using assoc_slots.probe_returns[OF pos tab(2)] by blast
  have same: "?same c \<longleftrightarrow> cell_key a c = assoc_key a name" if "c \<in># cs" for c
    using that assms(2,3) by (intro name_cmp_key) (auto simp: names_in_def)
  have place: "\<exists>p < assoc_size a. tab ! p = Some c" if "c \<in># cs" for c
  proof -
    have "c \<in># tab_cells (take (assoc_size a) tab)" using that tab_cells_take[OF tab(5)] by (simp add: tab(4))
    then obtain p where "p < length (take (assoc_size a) tab)" "take (assoc_size a) tab ! p = Some c"
      by (auto simp only: tab_cells_mem)
    then show ?thesis by auto
  qed
  have found: "\<exists>i. r = Found i" if ex: "\<exists>c \<in># cs. cell_key a c = assoc_key a name"
  proof -
    obtain c where c: "c \<in># cs" "cell_key a c = assoc_key a name" using ex by blast
    obtain p where p: "p < assoc_size a" "tab ! p = Some c" using place[OF c(1)] by blast
    have "assoc_home a c = ?pos" using c(2) by (simp add: assoc_home_def assoc_hash_key)
    then show ?thesis
      using assoc_slots.probe_finds[OF tab(3), of ?same c r p] post p c same by auto
  qed
  have at: "i < assoc_size a \<and> (\<exists>c \<in># cs. tab ! i = Some c \<and> cell_key a c = assoc_key a name)" if found: "r = Found i" for i
  proof -
    obtain c where i: "i < assoc_size a" "tab ! i = Some c" "?same c"
      using post unfolding found probe_post.simps by blast
    then have "c \<in># cs" using tab(2) by (auto simp: tab(4)[symmetric] tab_cells_mem intro: exI[of _ i])
    with i same show ?thesis by auto
  qed
  have full: "size cs = assoc_size a" if "r = Full"
  proof -
    have "\<forall>q < assoc_size a. tab ! q \<noteq> None" using post that by (auto simp: occupied_by_others_def)
    then have "assoc_size a \<le> size cs" using tab_cells_full[OF tab(2)] by (simp add: tab(4))
    moreover have "size cs \<le> assoc_size a"
      using tab_cells_size[of "take (assoc_size a) tab"] tab_cells_take[OF tab(5)] tab(4) by simp
    ultimately show ?thesis by simp
  qed
  show ?thesis by (rule that[OF tab(1) r post found at]) (use full in auto)
qed

text \<open>Without permission to install, the array is left as it is.\<close>

lemma find_in_table:
  assumes "assoc_table a cs" "names_in a cs" "0 \<notin> set name" "c \<in># cs" "cell_key a c = assoc_key a name"
  shows "\<exists>i c'. assoc_find_slot (Suc d) a name install = Some (a, Inr (i, False)) \<and> i < assoc_size a \<and>
    the (ac_tab a) ! i = Some c' \<and> c' \<in># cs \<and> cell_key a c' = assoc_key a name"
proof (rule probe_in_table[OF assms(1-3)])
  fix tab r
  assume tab: "ac_tab a = Some tab"
    and r: "probe_loop (assoc_size a) (\<lambda>c. name_cmp a (cell_name a c) name) tab (assoc_hash a name) (assoc_hash a name) = Some r"
    and ex: "\<exists>c \<in># cs. cell_key a c = assoc_key a name \<Longrightarrow> \<exists>i. r = Found i"
    and at: "\<And>i. r = Found i \<Longrightarrow> i < assoc_size a \<and> (\<exists>c \<in># cs. tab ! i = Some c \<and> cell_key a c = assoc_key a name)"
  obtain i where "r = Found i" using ex assms(4,5) by blast
  with at[OF this] tab r show ?thesis by (auto simp: Let_def)
qed

lemma find_missing:
  assumes "assoc_table a cs" "names_in a cs" "0 \<notin> set name" "\<forall>c \<in># cs. cell_key a c \<noteq> assoc_key a name"
  shows "assoc_find_slot (Suc d) a name False = Some (a, Inl MU_ERR_NOENT)"
proof (rule probe_in_table[OF assms(1-3)])
  fix tab r
  assume tab: "ac_tab a = Some tab"
    and r: "probe_loop (assoc_size a) (\<lambda>c. name_cmp a (cell_name a c) name) tab (assoc_hash a name) (assoc_hash a name) = Some r"
    and post: "probe_post (assoc_size a) (\<lambda>c. name_cmp a (cell_name a c) name) tab (assoc_hash a name) r"
    and at: "\<And>i. r = Found i \<Longrightarrow> i < assoc_size a \<and> (\<exists>c \<in># cs. tab ! i = Some c \<and> cell_key a c = assoc_key a name)"
  have "r \<noteq> Found i" for i using at[of i] assms(4) by blast
  with post tab r show ?thesis by (cases r) (auto simp: Let_def)
qed

text \<open>With permission to install, the answer is a free slot, or the table is full and grows.\<close>

lemma find_absent:
  assumes "assoc_table a cs" "names_in a cs" "0 \<notin> set name" "\<forall>c \<in># cs. cell_key a c \<noteq> assoc_key a name"
  shows "(\<exists>i. assoc_find_slot (Suc d) a name True = Some (a, Inr (i, True)) \<and> i < assoc_size a \<and>
      probe_post (assoc_size a) (\<lambda>c. name_cmp a (cell_name a c) name) (the (ac_tab a)) (assoc_hash a name) (Vacant i)) \<or>
    (size cs = assoc_size a \<and> assoc_find_slot (Suc d) a name True = (case assoc_rehash d a of
         None \<Rightarrow> None
       | Some (a, Inl e) \<Rightarrow> Some (a, Inl e)
       | Some (a, Inr u) \<Rightarrow> assoc_find_slot d a name True))"
proof (rule probe_in_table[OF assms(1-3)])
  fix tab r
  assume tab: "ac_tab a = Some tab"
    and r: "probe_loop (assoc_size a) (\<lambda>c. name_cmp a (cell_name a c) name) tab (assoc_hash a name) (assoc_hash a name) = Some r"
    and post: "probe_post (assoc_size a) (\<lambda>c. name_cmp a (cell_name a c) name) tab (assoc_hash a name) r"
    and at: "\<And>i. r = Found i \<Longrightarrow> i < assoc_size a \<and> (\<exists>c \<in># cs. tab ! i = Some c \<and> cell_key a c = assoc_key a name)"
    and full: "r = Full \<Longrightarrow> size cs = assoc_size a"
  show ?thesis
  proof (cases r)
    case (Found i)
    with at[of i] assms(4) show ?thesis by blast
  next
    case (Vacant i)
    with post tab r show ?thesis by (auto simp: Let_def)
  next
    case Full
    with full tab r show ?thesis by (simp add: Let_def split: option.split prod.split sum.split)
  qed (use post in simp)
qed

lemma find_vacant:
  assumes "assoc_table a cs" "names_in a cs" "0 \<notin> set name" "\<forall>c \<in># cs. cell_key a c \<noteq> assoc_key a name"
    and "size cs < assoc_size a"
  shows "\<exists>i. assoc_find_slot (Suc d) a name True = Some (a, Inr (i, True)) \<and> i < assoc_size a \<and>
    probe_post (assoc_size a) (\<lambda>c. name_cmp a (cell_name a c) name) (the (ac_tab a)) (assoc_hash a name) (Vacant i)"
  using find_absent[OF assms(1-4), of d] assms(5) by auto

text \<open>A cell of that name may go to the free slot.\<close>

lemma assoc_table_fill:
  assumes tab: "assoc_table a cs" and i: "i < assoc_size a"
    and post: "probe_post (assoc_size a) same (the (ac_tab a)) (assoc_home a c) (Vacant i)"
  shows "assoc_table (a\<lparr>ac_tab := Some ((the (ac_tab a))[i := Some c])\<rparr>) (add_mset c cs)"
proof -
  obtain t where t: "ac_tab a = Some t" "assoc_size a \<le> length t" "\<forall>x \<in> set (drop (assoc_size a) t). x = None"
    "reachable_in (assoc_size a) (assoc_home a) t" "tab_cells t = cs" "ac_hash_num a < max_rehash"
    using tab by (auto simp: assoc_table_def)
  have "t ! i = None" using post t(1) by simp
  with assoc_slots.reachable_insert[OF t(4,2) post[unfolded t(1) option.sel]] t i show ?thesis
    by (auto simp: assoc_table_def tab_cells_fill)
qed

lemma assoc_table_empty:
  assumes "ac_hash_num a < max_rehash" "assoc_size a \<le> n"
  shows "assoc_table (a\<lparr>ac_tab := Some (replicate n None)\<rparr>) {#}"
  using assms by (auto simp: assoc_table_def reachable_in_def)

section \<open>Growing the table\<close>

lemma distinct_mset_key:
  assumes "distinct (map f L)" "mset L = cs + add_mset c rest" "c' \<in># cs"
  shows "f c' \<noteq> f c"
proof
  assume same: "f c' = f c"
  have "mset (map f L) = image_mset f cs + add_mset (f c) (image_mset f rest)" using assms(2) by simp
  then have "2 \<le> count (mset (map f L)) (f c)"
    using assms(3) same by (simp add: Suc_le_eq) (metis image_eqI set_image_mset)
  moreover have "count (mset (map f L)) (f c) \<le> 1" using assms(1) by (simp add: distinct_count_atmost_1)
  ultimately show False by simp
qed

lemma rehash_loop_ok:
  assumes "assoc_table a cs" "mset L = cs + tab_cells es" "distinct (map (cell_key a) L)"
    and "\<forall>c \<in> set L. 0 \<notin> set (cell_name a c)" "length L < assoc_size a"
  shows "\<exists>tab. assoc_rehash_loop (Suc (Suc d)) es a = Some (a\<lparr>ac_tab := Some tab\<rparr>, Inr ()) \<and>
    assoc_table (a\<lparr>ac_tab := Some tab\<rparr>) (mset L)"
  using assms
proof (induction es arbitrary: a cs)
  case Nil
  then obtain tab where "ac_tab a = Some tab" by (auto simp: assoc_table_def)
  then have "a\<lparr>ac_tab := Some tab\<rparr> = a" by simp
  with Nil show ?case by (intro exI[of _ tab]) simp
next
  case (Cons x es)
  show ?case
  proof (cases x)
    case None
    with Cons show ?thesis by simp
  next
    case (Some c)
    have L: "mset L = cs + add_mset c (tab_cells es)" using Cons.prems(2) Some by simp
    have mem: "c' \<in># cs \<or> c' = c \<Longrightarrow> c' \<in> set L" for c' using L by (metis set_mset_mset union_iff insert_iff set_mset_add_mset_insert)
    have "size (mset L) = size cs + Suc (size (tab_cells es))" unfolding L by simp
    then have room: "size cs < assoc_size a" using Cons.prems(5) by simp
    have keys: "\<forall>c' \<in># cs. cell_key a c' \<noteq> cell_key a c"
      using distinct_mset_key[OF Cons.prems(3) L] by blast
    have names: "names_in a cs" "0 \<notin> set (cell_name a c)"
      using Cons.prems(4) mem by (auto simp: names_in_def)
    obtain i where i: "assoc_find_slot (Suc d) a (cell_name a c) True = Some (a, Inr (i, True))" "i < assoc_size a"
      and post: "probe_post (assoc_size a) (\<lambda>c'. name_cmp a (cell_name a c') (cell_name a c)) (the (ac_tab a))
        (assoc_hash a (cell_name a c)) (Vacant i)"
      using find_vacant[OF Cons.prems(1) names keys room] by blast
    let ?a = "a\<lparr>ac_tab := Some ((the (ac_tab a))[i := Some c])\<rparr>"
    have "assoc_table ?a (add_mset c cs)"
      by (rule assoc_table_fill[OF Cons.prems(1) i(2)]) (use post in \<open>simp only: assoc_home_def\<close>)
    then have "\<exists>tab. assoc_rehash_loop (Suc (Suc d)) es ?a = Some (?a\<lparr>ac_tab := Some tab\<rparr>, Inr ()) \<and>
        assoc_table (?a\<lparr>ac_tab := Some tab\<rparr>) (mset L)"
      by (rule Cons.IH) (use Cons.prems L in auto)
    then show ?thesis using Some i(1) by simp
  qed
qed

lemma rehash_ok:
  assumes ok: "assoc_ok a" and tab: "ac_tab a = Some t"
  shows "if max_rehash \<le> Suc (ac_hash_num a) then assoc_rehash (Suc d) a = Some (a, Inl MU_ERR_BUFSPACE)
    else \<exists>tab. assoc_rehash (Suc (Suc (Suc d))) a =
        Some (a\<lparr>ac_tab := Some tab, ac_hash_num := Suc (ac_hash_num a)\<rparr>, Inr ()) \<and>
      assoc_ok (a\<lparr>ac_tab := Some tab, ac_hash_num := Suc (ac_hash_num a)\<rparr>) \<and>
      assoc_size a < assoc_size (a\<lparr>ac_tab := Some tab, ac_hash_num := Suc (ac_hash_num a)\<rparr>)"
proof (cases "max_rehash \<le> Suc (ac_hash_num a)")
  case True
  then show ?thesis by (simp add: Let_def)
next
  case False
  let ?n = "hash_size_at (Suc (ac_hash_num a))"
  let ?a = "a\<lparr>ac_tab := Some (replicate ?n None), ac_hash_num := Suc (ac_hash_num a)\<rparr>"
  let ?es = "take (hash_size_at (ac_hash_num a)) t"
  have t: "assoc_size a \<le> length t" "\<forall>x \<in> set (drop (assoc_size a) t). x = None" "tab_cells t = mset (ac_list a)"
    using ok tab by (auto simp: assoc_ok_def assoc_table_def)
  have grows: "assoc_size a < ?n" using hash_size_less[of "ac_hash_num a"] False by (simp add: assoc_size_def)
  have cells: "tab_cells ?es = mset (ac_list a)"
    using tab_cells_take[OF t(2)] t(3) by (simp add: assoc_size_def)
  have "size (tab_cells ?es) \<le> assoc_size a"
    using tab_cells_size[of ?es] by (simp add: assoc_size_def)
  then have len: "length (ac_list a) < ?n" using grows by (simp add: cells)
  have "assoc_table ((a\<lparr>ac_hash_num := Suc (ac_hash_num a)\<rparr>)\<lparr>ac_tab := Some (replicate ?n None)\<rparr>) {#}"
    by (rule assoc_table_empty) (use False in simp_all)
  moreover have "(a\<lparr>ac_hash_num := Suc (ac_hash_num a)\<rparr>)\<lparr>ac_tab := Some (replicate ?n None)\<rparr> = ?a" by simp
  ultimately have empty: "assoc_table ?a {#}" by (simp only:)
  have key: "cell_key ?a = cell_key a" by (simp add: assoc_key_def fun_eq_iff)
  obtain tab where tab': "assoc_rehash_loop (Suc (Suc d)) ?es ?a = Some (?a\<lparr>ac_tab := Some tab\<rparr>, Inr ())"
    "assoc_table (?a\<lparr>ac_tab := Some tab\<rparr>) (mset (ac_list a))"
    using rehash_loop_ok[OF empty, of "ac_list a" ?es d] ok len
    by (auto simp: cells key assoc_ok_def)
  let ?b = "a\<lparr>ac_tab := Some tab, ac_hash_num := Suc (ac_hash_num a)\<rparr>"
  have b: "?a\<lparr>ac_tab := Some tab\<rparr> = ?b" by simp
  have "assoc_rehash (Suc (Suc (Suc d))) a = Some (?b, Inr ())"
    using False tab tab'(1) b by (simp add: Let_def)
  moreover have "assoc_ok ?b"
    using tab'(2) ok unfolding b assoc_ok_def by (simp add: assoc_key_def)
  ultimately show ?thesis using False grows by auto
qed

section \<open>What \<open>find_slot\<close> answers\<close>

lemma names_ok: "assoc_ok a \<Longrightarrow> names_in a (mset (ac_list a))"
  by (simp add: assoc_ok_def names_in_def)

lemma find_slot_depth:
  obtains d where "find_slot = assoc_find_slot (Suc (Suc (Suc (Suc (Suc d)))))"
  by (rule that[of 35]) (simp add: find_slot_def assoc_depth_def)

lemma find_slot_lookup:
  fixes a :: "'d assoc"
  assumes ok: "assoc_ok a" and name: "0 \<notin> set name"
  shows "if \<exists>c \<in> set (ac_list a). cell_key a c = assoc_key a name
    then \<exists>i c. find_slot a name install = Some (a, Inr (i, False)) \<and> i < assoc_size a \<and> ac_tab a \<noteq> None \<and>
      the (ac_tab a) ! i = Some c \<and> c \<in> set (ac_list a) \<and> cell_key a c = assoc_key a name
    else find_slot a name False = Some (a, Inl MU_ERR_NOENT)"
proof -
  obtain d where depth: "(find_slot :: 'd assoc \<Rightarrow> _) = assoc_find_slot (Suc (Suc (Suc (Suc (Suc d)))))"
    using find_slot_depth by blast
  show ?thesis
  proof (cases "ac_tab a")
  case None
  with ok have "ac_list a = []" by (simp add: assoc_ok_def)
  with None show ?thesis by (simp add: depth)
next
  case (Some t)
  then have tab: "assoc_table a (mset (ac_list a))" using ok by (simp add: assoc_ok_def)
  show ?thesis
  proof (cases "\<exists>c \<in> set (ac_list a). cell_key a c = assoc_key a name")
    case True
    then obtain c where c: "c \<in># mset (ac_list a)" "cell_key a c = assoc_key a name" by auto
    have "\<exists>i c'. find_slot a name install = Some (a, Inr (i, False)) \<and> i < assoc_size a \<and>
        the (ac_tab a) ! i = Some c' \<and> c' \<in># mset (ac_list a) \<and> cell_key a c' = assoc_key a name"
      unfolding depth by (rule find_in_table[OF tab names_ok[OF ok] name c])
    with True Some show ?thesis by auto
  next
    case False
    then have "\<forall>c \<in># mset (ac_list a). cell_key a c \<noteq> assoc_key a name" by simp
    from find_missing[OF tab names_ok[OF ok] name this] False show ?thesis
      by (simp only: depth if_False)
  qed
qed
qed

text \<open>Installing: the array may have got its first table or a larger one.\<close>

definition assoc_grown :: "'d assoc \<Rightarrow> 'd assoc \<Rightarrow> bool" where
  "assoc_grown a b \<longleftrightarrow> (\<exists>t k. b = a\<lparr>ac_tab := Some t, ac_hash_num := k\<rparr>)"

lemma assoc_grown_same:
  assumes "assoc_grown a b"
  shows "ac_list b = ac_list a" "ac_cells b = ac_cells a" "assoc_key b = assoc_key a" "ac_brk b = ac_brk a"
    "ac_free b = ac_free a" "ac_freed b = ac_freed a" "assoc_map b = assoc_map a" "ac_icase b = ac_icase a"
  using assms by (auto simp: assoc_grown_def assoc_map_def)

definition vacant_for :: "'d assoc \<Rightarrow> bytes \<Rightarrow> nat \<Rightarrow> bool" where
  "vacant_for b name i \<longleftrightarrow> i < assoc_size b \<and>
     probe_post (assoc_size b) (\<lambda>c. name_cmp b (cell_name b c) name) (the (ac_tab b)) (assoc_hash b name) (Vacant i)"

definition assoc_limit :: nat where
  "assoc_limit = hash_size_at (max_rehash - 1)"

lemma find_slot_install:
  fixes a :: "'d assoc"
  assumes ok: "assoc_ok a" and name: "0 \<notin> set name"
    and new: "\<forall>c \<in> set (ac_list a). cell_key a c \<noteq> assoc_key a name"
  shows "(\<exists>b i. find_slot a name True = Some (b, Inr (i, True)) \<and> assoc_grown a b \<and> assoc_ok b \<and> vacant_for b name i) \<or>
    (find_slot a name True = Some (a, Inl MU_ERR_BUFSPACE) \<and> mu_assoc_count a = assoc_limit)"
proof -
  obtain d where depth: "(find_slot :: 'd assoc \<Rightarrow> _) = assoc_find_slot (Suc (Suc (Suc (Suc (Suc d)))))"
    using find_slot_depth by blast
  show ?thesis
  proof (cases "ac_tab a")
  case None
  then have l: "ac_list a = []" "ac_hash_num a = 0" using ok by (simp_all add: assoc_ok_def)
  let ?b = "a\<lparr>ac_tab := Some (replicate 101 None)\<rparr>"
  have r: "assoc_rehash (Suc d) a = Some (?b, Inr ())" for d
    using None l by (simp add: Let_def max_rehash_def hash_size_def hash_size_at_def)
  have tab: "assoc_table ?b {#}"
    by (rule assoc_table_empty) (simp_all add: l assoc_size_def max_rehash_def hash_size_def hash_size_at_def)
  have ok': "assoc_ok ?b" using tab by (simp add: assoc_ok_def l)
  have "find_slot a name True = find_slot ?b name True"
    using None by (simp add: depth r Let_def del: assoc_rehash.simps)
  moreover have "\<exists>i. find_slot ?b name True = Some (?b, Inr (i, True)) \<and> vacant_for ?b name i"
    unfolding depth vacant_for_def
    by (rule find_vacant[OF tab]) (simp_all add: names_in_def name assoc_size_def hash_size_pos)
  moreover have "assoc_grown a ?b"
    unfolding assoc_grown_def by (rule exI[of _ "replicate 101 None"], rule exI[of _ 0]) (use l in simp)
  ultimately show ?thesis using ok' by auto
next
  case (Some t)
  then have tab: "assoc_table a (mset (ac_list a))" using ok by (simp add: assoc_ok_def)
  have new': "\<forall>c \<in># mset (ac_list a). cell_key a c \<noteq> assoc_key a name" using new by simp
  have self: "assoc_grown a a" unfolding assoc_grown_def
    by (rule exI[of _ t], rule exI[of _ "ac_hash_num a"]) (use Some in simp)
  from find_absent[OF tab names_ok[OF ok] name new', of "Suc (Suc (Suc (Suc d)))"]
  consider (free) i where "find_slot a name True = Some (a, Inr (i, True))" "vacant_for a name i"
    | (full) "length (ac_list a) = assoc_size a"
        "find_slot a name True = (case assoc_rehash (Suc (Suc (Suc (Suc d)))) a of
           None \<Rightarrow> None
         | Some (a, Inl e) \<Rightarrow> Some (a, Inl e)
         | Some (a, Inr u) \<Rightarrow> assoc_find_slot (Suc (Suc (Suc (Suc d)))) a name True)"
    unfolding depth vacant_for_def size_mset by blast
  then show ?thesis
  proof cases
    case free
    with self ok show ?thesis by blast
  next
    case full
    show ?thesis
    proof (cases "max_rehash \<le> Suc (ac_hash_num a)")
      case True
      have "ac_hash_num a < max_rehash" using tab by (simp add: assoc_table_def)
      with True have "ac_hash_num a = max_rehash - 1" by simp
      with full rehash_ok[OF ok Some, of "Suc (Suc (Suc d))"] True show ?thesis
        by (simp add: mu_assoc_count_def assoc_limit_def assoc_size_def)
    next
      case False
      then obtain u where u: "assoc_rehash (Suc (Suc (Suc (Suc d)))) a =
          Some (a\<lparr>ac_tab := Some u, ac_hash_num := Suc (ac_hash_num a)\<rparr>, Inr ())"
        "assoc_ok (a\<lparr>ac_tab := Some u, ac_hash_num := Suc (ac_hash_num a)\<rparr>)"
        "assoc_size a < assoc_size (a\<lparr>ac_tab := Some u, ac_hash_num := Suc (ac_hash_num a)\<rparr>)"
        using rehash_ok[OF ok Some, of "Suc d"] by auto
      let ?b = "a\<lparr>ac_tab := Some u, ac_hash_num := Suc (ac_hash_num a)\<rparr>"
      have grown: "assoc_grown a ?b" by (auto simp: assoc_grown_def)
      have tab': "assoc_table ?b (mset (ac_list ?b))" using u(2) by (simp add: assoc_ok_def)
      have "\<exists>i. assoc_find_slot (Suc (Suc (Suc (Suc d)))) ?b name True = Some (?b, Inr (i, True)) \<and> i < assoc_size ?b \<and>
        probe_post (assoc_size ?b) (\<lambda>c. name_cmp ?b (cell_name ?b c) name) (the (ac_tab ?b)) (assoc_hash ?b name) (Vacant i)"
        by (rule find_vacant[OF tab' names_ok[OF u(2)] name])
          (use new full(1) u(3) assoc_grown_same[OF grown] in simp_all)
      then obtain i where "assoc_find_slot (Suc (Suc (Suc (Suc d)))) ?b name True = Some (?b, Inr (i, True))"
        "vacant_for ?b name i" unfolding vacant_for_def by blast
      with full(2) u(1) have "find_slot a name True = Some (?b, Inr (i, True))" by simp
      with grown u(2) \<open>vacant_for ?b name i\<close> show ?thesis by blast
    qed
  qed
qed
qed

end
