(* ===== verification/Assoc_Map.thy ===== *)
theory Assoc_Map
  imports Assoc_Facts
begin

text \<open>
  The operations of associative arrays on the map they stand for, and the invariant of all arrays
  that can be reached.
\<close>

section \<open>Installation\<close>

definition assoc_keys :: "'d assoc \<Rightarrow> bytes list" where
  "assoc_keys a = map (cell_key a) (ac_list a)"

lemma reachable_in_cong:
  assumes "\<And>p e. p < n \<Longrightarrow> tab ! p = Some e \<Longrightarrow> h e = h' e"
  shows "reachable_in n h tab \<longleftrightarrow> reachable_in n h' tab"
  using assms unfolding reachable_in_def by metis

text \<open>Changes to cells outside the table, or to marks and data, do not matter to it.\<close>

lemma assoc_table_cells:
  assumes "assoc_table a cs" "\<And>c. c \<in># cs \<Longrightarrow> ae_name (h c) = cell_name a c"
  shows "assoc_table (a\<lparr>ac_cells := h\<rparr>) cs"
proof -
  obtain t where t: "ac_tab a = Some t" "assoc_size a \<le> length t" "\<forall>x \<in> set (drop (assoc_size a) t). x = None"
    "reachable_in (assoc_size a) (assoc_home a) t" "tab_cells t = cs" "ac_hash_num a < max_rehash"
    using assms(1) by (auto simp: assoc_table_def)
  have "assoc_home (a\<lparr>ac_cells := h\<rparr>) e = assoc_home a e" if "p < assoc_size a" "t ! p = Some e" for p e
  proof -
    have "e \<in># cs" using that t(2) by (auto simp: t(5)[symmetric] tab_cells_mem intro: exI[of _ p])
    then show ?thesis using assms(2) by (simp add: assoc_home_def)
  qed
  then have "reachable_in (assoc_size a) (assoc_home (a\<lparr>ac_cells := h\<rparr>)) t"
    using t(4) reachable_in_cong[of "assoc_size a" t "assoc_home a" "assoc_home (a\<lparr>ac_cells := h\<rparr>)"] by simp
  with t show ?thesis by (simp add: assoc_table_def)
qed

lemma assoc_table_same:
  "assoc_table a cs \<Longrightarrow> assoc_table (a\<lparr>ac_brk := k\<rparr>) cs" "assoc_table a cs \<Longrightarrow> assoc_table (a\<lparr>ac_list := l\<rparr>) cs"
  "assoc_table a cs \<Longrightarrow> assoc_table (a\<lparr>ac_freed := f\<rparr>) cs"
  by (simp_all add: assoc_table_def)

lemma assoc_new_elem_map:
  fixes b name i v
  defines "b' \<equiv> assoc_new_elem b i name v"
  assumes ok: "assoc_ok b" and tab: "ac_tab b \<noteq> None" and vacant: "vacant_for b name i" and name: "0 \<notin> set name"
    and new: "\<forall>c \<in> set (ac_list b). cell_key b c \<noteq> assoc_key b name"
  shows "assoc_ok b'" "assoc_map b' = (assoc_map b)(assoc_key b name \<mapsto> v)"
    "assoc_keys b' = assoc_keys b @ [assoc_key b name]" "ac_icase b' = ac_icase b"
proof -
  define c where "c = ac_brk b"
  define h where "h = (ac_cells b)(c := \<lparr>ae_name = name, ae_mark = ae_mark (ac_cells b c), ae_data = v\<rparr>)"
  obtain t where t: "ac_tab b = Some t" using tab by blast
  have table: "assoc_table b (mset (ac_list b))" using ok tab by (simp add: assoc_ok_def)
  then have i: "i < length t" using vacant t by (auto simp: assoc_table_def vacant_for_def)
  have fresh: "c' \<noteq> c" if "c' \<in> set (ac_list b)" for c' using ok that by (auto simp: assoc_ok_def c_def)
  let ?b0 = "b\<lparr>ac_cells := h, ac_brk := Suc c\<rparr>"
  let ?b1 = "?b0\<lparr>ac_tab := Some (t[i := Some c])\<rparr>"
  have b': "b' = ?b1\<lparr>ac_list := ac_list b @ [c]\<rparr>"
    using i by (simp add: b'_def assoc_new_elem_def Let_def assoc_elem_link_def slot_cell_def t c_def h_def)
  have "assoc_table ?b0 (mset (ac_list b))"
    by (intro assoc_table_same(1) assoc_table_cells[OF table]) (use fresh in \<open>auto simp: h_def\<close>)
  moreover have "assoc_home ?b0 c = assoc_hash b name" by (simp add: assoc_home_def h_def)
  ultimately have "assoc_table ?b1 (add_mset c (mset (ac_list b)))"
    using assoc_table_fill[of ?b0 "mset (ac_list b)" i _ c] vacant t unfolding vacant_for_def by auto
  then have table': "assoc_table b' (mset (ac_list b'))"
    unfolding b' by (intro assoc_table_same(2)) simp
  have key: "assoc_key b' = assoc_key b" by (simp add: b')
  have names: "cell_name b' c' = (if c' = c then name else cell_name b c')"
    "cell_data b' c' = (if c' = c then v else cell_data b c')" for c'
    by (simp_all add: b' h_def)
  have list: "map (cell_key b') (ac_list b) = map (cell_key b) (ac_list b)"
    by (rule map_cong) (use fresh in \<open>auto simp: names key\<close>)
  have l: "ac_list b' = ac_list b @ [c]" by (simp add: b')
  have keys: "map (cell_key b') (ac_list b') = map (cell_key b) (ac_list b) @ [assoc_key b name]"
    unfolding l map_append list by (simp add: names key)
  have "distinct (map (cell_key b') (ac_list b'))"
    unfolding keys using ok new by (auto simp: assoc_ok_def)
  moreover have "\<forall>c' \<in> set (ac_list b'). c' < ac_brk b' \<and> 0 \<notin> set (cell_name b' c')"
    using ok name by (auto simp: l names assoc_ok_def) (auto simp: b' c_def)
  ultimately show "assoc_ok b'" using table' by (simp add: assoc_ok_def b')
  show "assoc_keys b' = assoc_keys b @ [assoc_key b name]" by (simp only: assoc_keys_def keys)
  have vals: "map (\<lambda>c'. (cell_key b' c', cell_data b' c')) (ac_list b) = map (\<lambda>c'. (cell_key b c', cell_data b c')) (ac_list b)"
    by (rule map_cong) (use fresh in \<open>auto simp: names key\<close>)
  have "assoc_map b' = [assoc_key b name \<mapsto> v] ++ assoc_map b"
    unfolding assoc_map_def l map_append map_of_append vals by (simp add: names key)
  moreover have "assoc_map b (assoc_key b name) = None" using new by (simp add: assoc_map_None)
  ultimately show "assoc_map b' = (assoc_map b)(assoc_key b name \<mapsto> v)"
    by (auto simp: fun_eq_iff map_add_def split: option.splits)
  show "ac_icase b' = ac_icase b" by (simp add: b')
qed

lemma install_map:
  assumes ok: "assoc_ok a" and name: "0 \<notin> set name"
  shows "if assoc_map a (assoc_key a name) \<noteq> None then mu_assoc_install a name v = Some (a, Inl MU_ERR_EXISTS)
    else (\<exists>b. mu_assoc_install a name v = Some (b, Inr ()) \<and> assoc_ok b \<and> ac_icase b = ac_icase a \<and>
        assoc_map b = (assoc_map a)(assoc_key a name \<mapsto> v) \<and> assoc_keys b = assoc_keys a @ [assoc_key a name]) \<or>
      (mu_assoc_install a name v = Some (a, Inl MU_ERR_BUFSPACE) \<and> mu_assoc_count a = assoc_limit)"
proof (cases "\<exists>c \<in> set (ac_list a). cell_key a c = assoc_key a name")
  case True
  then have "assoc_map a (assoc_key a name) \<noteq> None" by (auto simp: assoc_map_None)
  with find_slot_lookup[OF ok name, of True] True show ?thesis by (auto simp: mu_assoc_install_def)
next
  case False
  then have new: "\<forall>c \<in> set (ac_list a). cell_key a c \<noteq> assoc_key a name" by blast
  then have none: "assoc_map a (assoc_key a name) = None" by (simp add: assoc_map_None)
  from find_slot_install[OF ok name new]
  consider (new) b i where "find_slot a name True = Some (b, Inr (i, True))" "assoc_grown a b" "assoc_ok b" "vacant_for b name i"
    | (full) "find_slot a name True = Some (a, Inl MU_ERR_BUFSPACE)" "mu_assoc_count a = assoc_limit" by blast
  then show ?thesis
  proof cases
    case full
    with none show ?thesis by (simp add: mu_assoc_install_def)
  next
    case new: (new b i)
    note same = assoc_grown_same[OF new(2)]
    have tab: "ac_tab b \<noteq> None" using new(2) by (auto simp: assoc_grown_def)
    have fresh: "\<forall>c \<in> set (ac_list b). cell_key b c \<noteq> assoc_key b name"
      using False by (simp add: same)
    note m = assoc_new_elem_map[OF new(3) tab new(4) name fresh, of v]
    have "assoc_keys b = assoc_keys a" by (simp add: assoc_keys_def same)
    with m new(1) none show ?thesis by (simp add: mu_assoc_install_def same)
  qed
qed

section \<open>Lookup\<close>

lemma lookup_map:
  assumes ok: "assoc_ok a" and name: "0 \<notin> set name"
  shows "mu_assoc_lookup a name =
    Some (case assoc_map a (assoc_key a name) of None \<Rightarrow> Inl MU_ERR_NOENT | Some v \<Rightarrow> Inr v)"
proof (cases "\<exists>c \<in> set (ac_list a). cell_key a c = assoc_key a name")
  case True
  then obtain i c where f: "find_slot a name False = Some (a, Inr (i, False))" "the (ac_tab a) ! i = Some c"
    "c \<in> set (ac_list a)" "cell_key a c = assoc_key a name"
    using find_slot_lookup[OF ok name, of False] by auto
  have "assoc_map a (assoc_key a name) = Some (cell_data a c)"
    using assoc_map_Some[OF _ f(3)] ok f(4) by (simp add: assoc_ok_def)
  with f show ?thesis by (simp add: mu_assoc_lookup_def slot_cell_def)
next
  case False
  then have "assoc_map a (assoc_key a name) = None" by (auto simp: assoc_map_None)
  with False find_slot_lookup[OF ok name, of False] show ?thesis by (simp add: mu_assoc_lookup_def)
qed

section \<open>Removal\<close>

lemma map_of_remove1:
  assumes "distinct (map f L)" "c \<in> set L"
  shows "map_of (map (\<lambda>x. (f x, g x)) (remove1 c L)) = (map_of (map (\<lambda>x. (f x, g x)) L))(f c := None)"
  using assms
proof (induction L)
  case (Cons a L)
  show ?case
  proof (cases "a = c")
    case True
    with Cons.prems have "f c \<notin> set (map f L)" by simp
    then have "map_of (map (\<lambda>x. (f x, g x)) L) (f c) = None" by (force simp: map_of_eq_None_iff image_image)
    with True show ?thesis by (auto simp: fun_eq_iff)
  next
    case False
    with Cons.prems have "c \<in> set L" "f a \<noteq> f c" by (auto dest: imageI[of c _ f])
    with Cons False show ?thesis by (auto simp: fun_eq_iff)
  qed
qed simp

lemma map_remove1_distinct:
  "distinct (map f L) \<Longrightarrow> c \<in> set L \<Longrightarrow> map f (remove1 c L) = remove1 (f c) (map f L)"
proof (induction L)
  case (Cons a L)
  show ?case
  proof (cases "a = c")
    case False
    then have "f c \<in> f ` set L" using Cons.prems(2) by simp
    then have "f a \<noteq> f c" using Cons.prems(1) by auto
    with Cons False show ?thesis by simp
  qed simp
qed simp

text \<open>The removal of a cell from a slot returns: the gap is closed, the list and the map lose the
  cell, and its data goes to the destructor.\<close>

lemma assoc_remove_map:
  assumes ok: "assoc_ok a" and tab: "ac_tab a = Some t" and i: "i < assoc_size a" "t ! i = Some c"
  shows "\<exists>b. assoc_remove a i = Some (b, Inr ()) \<and> assoc_ok b \<and> c \<in> set (ac_list a) \<and>
    assoc_map b = (assoc_map a)(cell_key a c := None) \<and> assoc_keys b = remove1 (cell_key a c) (assoc_keys a) \<and>
    ac_list b = remove1 c (ac_list a) \<and> ac_icase b = ac_icase a \<and> ac_cells b = ac_cells a \<and> ac_hash_num b = ac_hash_num a \<and>
    ac_tab b \<noteq> None \<and> ac_freed b = ac_freed a @ (if ac_free a then [cell_data a c] else [])"
proof -
  have t: "assoc_size a \<le> length t" "\<forall>x \<in> set (drop (assoc_size a) t). x = None"
    "reachable_in (assoc_size a) (assoc_home a) t" "tab_cells t = mset (ac_list a)" "ac_hash_num a < max_rehash"
    using ok tab by (auto simp: assoc_ok_def assoc_table_def)
  have c: "c \<in> set (ac_list a)"
  proof -
    have "c \<in># tab_cells t" using i t(1) by (auto simp: tab_cells_mem intro: exI[of _ i])
    then show ?thesis by (simp add: t(4))
  qed
  let ?t = "t[i := None]"
  let ?a = "a\<lparr>ac_list := remove1 c (ac_list a), ac_freed := ac_freed a @ (if ac_free a then [cell_data a c] else []),
    ac_tab := Some ?t\<rparr>"
  have free: "assoc_free_elem a i = ?a"
    using tab i by (simp add: assoc_free_elem_def assoc_elem_unlink_def slot_cell_def Let_def)
  have size: "assoc_size ?a = assoc_size a" "assoc_home ?a = assoc_home a" by simp_all
  obtain u where u: "close_gap (assoc_size a) (assoc_home a) ?t i i = Some (Inr u)"
    "reachable_in (assoc_size a) (assoc_home a) u" "length u = length t" "mset u = mset ?t"
    "drop (assoc_size a) u = drop (assoc_size a) ?t"
    using assoc_slots.close_gap_returns[OF assoc_slots.reachable_gap[OF t(3) i(1) t(1)] i(1) i(1)] t(1) by auto
  let ?b = "?a\<lparr>ac_tab := Some u\<rparr>"
  have "assoc_remove a i = Some (?b, Inr ())"
    using i(1) u(1) by (simp add: assoc_remove_def free size Let_def)
  moreover have "tab_cells u = mset (ac_list ?b)"
    using tab_cells_clear[of i t c] i t(1,4) by (simp add: tab_cells_def u(4))
  then have table: "assoc_table ?b (mset (ac_list ?b))"
    using u t i(1) unfolding assoc_table_def by simp
  have "distinct (map (cell_key a) (remove1 c (ac_list a)))"
    using ok c by (simp add: assoc_ok_def map_remove1_distinct)
  then have "assoc_ok ?b"
    using table ok by (auto simp: assoc_ok_def dest: notin_set_remove1 in_set_remove1)
  moreover have "assoc_map ?b = (assoc_map a)(cell_key a c := None)"
    using map_of_remove1[of "cell_key a" "ac_list a" c "cell_data a"] ok c by (simp add: assoc_map_def assoc_ok_def)
  moreover have "assoc_keys ?b = remove1 (cell_key a c) (assoc_keys a)"
    using map_remove1_distinct[of "cell_key a" "ac_list a" c] ok c by (simp add: assoc_keys_def assoc_ok_def)
  ultimately show ?thesis using c by (intro exI[of _ ?b]) simp
qed

lemma remove_map:
  assumes ok: "assoc_ok a" and name: "0 \<notin> set name"
  shows "case assoc_map a (assoc_key a name) of
      None \<Rightarrow> mu_assoc_remove a name = Some (a, Inl MU_ERR_NOENT)
    | Some v \<Rightarrow> \<exists>b. mu_assoc_remove a name = Some (b, Inr ()) \<and> assoc_ok b \<and> ac_icase b = ac_icase a \<and>
        assoc_map b = (assoc_map a)(assoc_key a name := None) \<and>
        assoc_keys b = remove1 (assoc_key a name) (assoc_keys a) \<and>
        ac_freed b = ac_freed a @ (if ac_free a then [v] else [])"
proof (cases "\<exists>c \<in> set (ac_list a). cell_key a c = assoc_key a name")
  case True
  then obtain i c where f: "find_slot a name False = Some (a, Inr (i, False))" "i < assoc_size a" "ac_tab a \<noteq> None"
    "the (ac_tab a) ! i = Some c" "c \<in> set (ac_list a)" "cell_key a c = assoc_key a name"
    using find_slot_lookup[OF ok name, of False] by auto
  have "assoc_map a (assoc_key a name) = Some (cell_data a c)"
    using assoc_map_Some[OF _ f(5)] ok f(6) by (simp add: assoc_ok_def)
  moreover obtain t where "ac_tab a = Some t" using f(3) by blast
  ultimately show ?thesis
    using assoc_remove_map[OF ok, of t i c] f by (auto simp: mu_assoc_remove_def)
next
  case False
  then have "assoc_map a (assoc_key a name) = None" by (auto simp: assoc_map_None)
  with False find_slot_lookup[OF ok name, of False] show ?thesis by (simp add: mu_assoc_remove_def)
qed

end
