(* ===== verification/Assoc_Ops.thy ===== *)
theory Assoc_Ops
  imports Assoc_Map
begin

text \<open>
  The remaining operations of associative arrays: removal by element, clearing, sorting, marks and
  sweeping; the relation of all steps and the invariant of what it reaches.
\<close>

section \<open>Sorting\<close>

lemma merge_mset: "mset (assoc_merge cmp l r) = mset l + mset r"
  by (induction cmp l r rule: assoc_merge.induct) auto

lemma merge_set: "set (assoc_merge cmp l r) = set l \<union> set r"
  using arg_cong[OF merge_mset, of set_mset cmp l r] by simp

text \<open>A comparator that goes by a key.\<close>

definition compares_by :: "(cell \<Rightarrow> cell \<Rightarrow> int) \<Rightarrow> (cell \<Rightarrow> 'k :: linorder) \<Rightarrow> bool" where
  "compares_by cmp key \<longleftrightarrow> (\<forall>x y. cmp x y \<le> 0 \<longleftrightarrow> key x \<le> key y)"

lemma merge_sorted:
  assumes "compares_by cmp key" "sorted (map key l)" "sorted (map key r)"
  shows "sorted (map key (assoc_merge cmp l r))"
  using assms
proof (induction cmp l r rule: assoc_merge.induct)
  case (1 cmp l left r right)
  then show ?case by (auto simp: compares_by_def merge_set)
qed auto

lemma filter_none: "sorted (map key xs) \<Longrightarrow> \<forall>y \<in> set xs. k < key y \<Longrightarrow> filter (\<lambda>x. key x = k) xs = []"
  by (auto simp: filter_empty_conv)

lemma merge_stable:
  assumes "compares_by cmp key" "sorted (map key l)" "sorted (map key r)"
  shows "filter (\<lambda>x. key x = k) (assoc_merge cmp l r) = filter (\<lambda>x. key x = k) l @ filter (\<lambda>x. key x = k) r"
  using assms
proof (induction cmp l r rule: assoc_merge.induct)
  case (1 cmp l left r right)
  show ?case
  proof (cases "cmp l r \<le> 0")
    case True
    with 1 show ?thesis by auto
  next
    case False
    then have "key r < key l" using 1 by (auto simp: compares_by_def not_le[symmetric])
    then have "key r = k \<Longrightarrow> filter (\<lambda>x. key x = k) (l # left) = []"
      using 1(4) by (auto simp: filter_empty_conv)
    with 1 False show ?thesis by auto
  qed
qed auto

lemma merge_sort_props:
  assumes "compares_by cmp key" "length xs = n"
  shows "mset (assoc_merge_sort cmp xs n) = mset xs \<and> sorted (map key (assoc_merge_sort cmp xs n)) \<and>
    (\<forall>k. filter (\<lambda>x. key x = k) (assoc_merge_sort cmp xs n) = filter (\<lambda>x. key x = k) xs)"
  using assms
proof (induction cmp xs n rule: assoc_merge_sort.induct)
  case (1 cmp xs len)
  consider (one) "len \<le> 1" | (two) "len = 2" | (more) "2 < len" by linarith
  then show ?case
  proof cases
    case one
    then have "assoc_merge_sort cmp xs len = xs" by (simp add: assoc_merge_sort.simps)
    with one 1(4) show ?thesis by (cases xs) auto
  next
    case two
    then obtain x y where xs: "xs = [x, y]" using 1(4) by (auto simp: length_Suc_conv numeral_2_eq_2)
    have "cmp x y > 0 \<longleftrightarrow> key y < key x" using 1(3) by (auto simp: compares_by_def not_le[symmetric])
    then show ?thesis using two by (subst (1 2 3) assoc_merge_sort.simps) (auto simp: xs)
  next
    case more
    let ?l = "(len + 1) div 2" let ?r = "len div 2"
    have e: "assoc_merge_sort cmp xs len = assoc_merge cmp (assoc_merge_sort cmp (take ?l xs) ?l) (assoc_merge_sort cmp (drop ?l xs) ?r)"
      using more by (subst assoc_merge_sort.simps) (simp add: Let_def)
    have len: "length (take ?l xs) = ?l" "length (drop ?l xs) = ?r" using 1(4) by auto
    have l: "\<not> len \<le> 1" "len \<noteq> 2" using more by auto
    note left = "1.IH"(1)[OF l refl refl "1.prems"(1) len(1)] and right = "1.IH"(2)[OF l refl refl "1.prems"(1) len(2)]
    have "mset xs = mset (take ?l xs) + mset (drop ?l xs)" by (metis append_take_drop_id mset_append)
    moreover have "filter P xs = filter P (take ?l xs) @ filter P (drop ?l xs)" for P
      by (metis append_take_drop_id filter_append)
    ultimately show ?thesis
      unfolding e using left right merge_sorted[OF "1.prems"(1)] merge_stable[OF "1.prems"(1)] by (simp add: merge_mset)
  qed
qed

lemma merge_sort_key:
  assumes "compares_by cmp key"
  shows "assoc_merge_sort cmp xs (length xs) = sort_key key xs"
  using merge_sort_props[OF assms refl, of xs]
  by (intro properties_for_sort_key[symmetric]) (auto simp: eq_commute)

lemma option_ext: "(\<And>v. x = Some v \<longleftrightarrow> y = Some v) \<Longrightarrow> x = y"
  by (cases x; cases y) auto

lemma sort_r_ok:
  assumes "assoc_ok a" "compares_by (\<lambda>c c'. cmp (cell_name a c) (cell_data a c) (cell_name a c') (cell_data a c')) key"
  shows "ac_list (mu_assoc_sort_r a (Some cmp)) = sort_key key (ac_list a)"
    "assoc_ok (mu_assoc_sort_r a (Some cmp))" "assoc_map (mu_assoc_sort_r a (Some cmp)) = assoc_map a"
    "ac_icase (mu_assoc_sort_r a (Some cmp)) = ac_icase a" "ac_cells (mu_assoc_sort_r a (Some cmp)) = ac_cells a"
proof -
  let ?b = "mu_assoc_sort_r a (Some cmp)"
  have b: "?b = a\<lparr>ac_list := sort_key key (ac_list a)\<rparr>"
    using merge_sort_key[OF assms(2)] by (simp add: mu_assoc_sort_r_def mu_assoc_count_def)
  then show "ac_list ?b = sort_key key (ac_list a)" "ac_icase ?b = ac_icase a" "ac_cells ?b = ac_cells a" by simp_all
  have perm: "mset (map (cell_key a) (sort_key key (ac_list a))) = mset (map (cell_key a) (ac_list a))" by simp
  have dist: "distinct (map (cell_key a) (sort_key key (ac_list a)))"
    using assms(1) mset_eq_imp_distinct_iff[OF perm] by (simp add: assoc_ok_def)
  then show ok: "assoc_ok ?b"
    unfolding b using assms(1) assoc_table_same(2)[of a "mset (ac_list a)"]
    by (auto simp: assoc_ok_def split: if_splits)
  let ?f = "\<lambda>c. (cell_key a c, cell_data a c)"
  have fst: "map fst (map ?f L) = map (cell_key a) L" for L by simp
  have "map_of (map ?f (sort_key key (ac_list a))) k = Some v \<longleftrightarrow> map_of (map ?f (ac_list a)) k = Some v" for k v
    using dist assms(1) by (simp add: assoc_ok_def map_of_eq_Some_iff comp_def)
  then have "map_of (map ?f (sort_key key (ac_list a))) k = map_of (map ?f (ac_list a)) k" for k
    by (rule option_ext)
  then show "assoc_map ?b = assoc_map a" by (simp add: b assoc_map_def fun_eq_iff)
qed

section \<open>Marks\<close>

lemma set_cell_ok:
  assumes "assoc_ok a" "ae_name e = cell_name a c"
  shows "assoc_ok (a\<lparr>ac_cells := (ac_cells a)(c := e)\<rparr>)"
proof -
  have names: "ae_name (((ac_cells a)(c := e)) c') = cell_name a c'" for c' using assms(2) by simp
  have "cell_key (a\<lparr>ac_cells := (ac_cells a)(c := e)\<rparr>) c' = cell_key a c'" for c'
    using names by simp
  then show ?thesis
    using assms(1) assoc_table_cells[of a "mset (ac_list a)" "(ac_cells a)(c := e)"] names
    by (simp add: assoc_ok_def split: if_splits del: fun_upd_apply)
qed

lemma set_mark_ok:
  assumes "assoc_ok a"
  shows "assoc_ok (set_cell_mark c m a)" "assoc_map (set_cell_mark c m a) = assoc_map a"
    "assoc_keys (set_cell_mark c m a) = assoc_keys a" "ac_list (set_cell_mark c m a) = ac_list a"
    "ac_icase (set_cell_mark c m a) = ac_icase a"
proof -
  have cells: "cell_name (set_cell_mark c m a) = cell_name a" "cell_data (set_cell_mark c m a) = cell_data a"
    by (auto simp: set_cell_mark_def fun_eq_iff)
  have key: "assoc_key (set_cell_mark c m a) = assoc_key a" by (simp add: set_cell_mark_def)
  show "assoc_ok (set_cell_mark c m a)"
    unfolding set_cell_mark_def by (rule set_cell_ok[OF assms]) simp
  show list: "ac_list (set_cell_mark c m a) = ac_list a" "ac_icase (set_cell_mark c m a) = ac_icase a"
    by (simp_all add: set_cell_mark_def)
  show "assoc_map (set_cell_mark c m a) = assoc_map a"
    unfolding assoc_map_def list key fun_cong[OF cells(1)] fun_cong[OF cells(2)] ..
  show "assoc_keys (set_cell_mark c m a) = assoc_keys a"
    unfolding assoc_keys_def list key fun_cong[OF cells(1)] ..
qed

section \<open>Removal by element\<close>

lemma remove_elem_ok:
  assumes ok: "assoc_ok a" and c: "c \<in> set (ac_list a)"
  shows "\<exists>b. assoc_remove_elem a (Some c) nd = Some (b, Inr ()) \<and> assoc_ok b \<and>
    ac_icase b = ac_icase a \<and> assoc_keys b = remove1 (cell_key a c) (assoc_keys a) \<and>
    ac_list b = remove1 c (ac_list a)"
proof -
  obtain t where tab: "ac_tab a = Some t" using ok c by (auto simp: assoc_ok_def split: if_splits)
  have t: "assoc_size a \<le> length t" "\<forall>x \<in> set (drop (assoc_size a) t). x = None" "tab_cells t = mset (ac_list a)"
    using ok tab by (auto simp: assoc_ok_def assoc_table_def)
  have "c \<in># tab_cells (take (assoc_size a) t)" using c tab_cells_take[OF t(2)] by (simp add: t(3))
  then obtain p where p: "p < assoc_size a" "t ! p = Some c" by (auto simp: tab_cells_mem)
  then obtain i where f: "find (\<lambda>i. t ! i = Some c) [0..<assoc_size a] = Some i"
    by (cases "find (\<lambda>i. t ! i = Some c) [0..<assoc_size a]") (auto simp: find_None_iff)
  then have i: "i < assoc_size a" "t ! i = Some c" by (auto simp: find_Some_iff)
  let ?a = "if nd then a\<lparr>ac_cells := (ac_cells a)(c := (ac_cells a c)\<lparr>ae_data := None\<rparr>)\<rparr> else a"
  have ok': "assoc_ok ?a" using ok set_cell_ok[OF ok, of "(ac_cells a c)\<lparr>ae_data := None\<rparr>" c] by simp
  have same: "ac_list ?a = ac_list a" "ac_tab ?a = Some t" "assoc_size ?a = assoc_size a" "ac_icase ?a = ac_icase a"
    "assoc_key ?a = assoc_key a" "cell_name ?a = cell_name a"
    using tab by (auto simp: fun_eq_iff)
  have keys: "assoc_keys ?a = assoc_keys a"
    unfolding assoc_keys_def same(1,5) fun_cong[OF same(6)] ..
  obtain b where b: "assoc_remove ?a i = Some (b, Inr ())" "assoc_ok b"
    "assoc_keys b = remove1 (cell_key ?a c) (assoc_keys ?a)" "ac_list b = remove1 c (ac_list ?a)" "ac_icase b = ac_icase ?a"
    using assoc_remove_map[OF ok' same(2), of i c] i unfolding same(3) by blast
  have "assoc_remove_elem a (Some c) nd = Some (b, Inr ())"
    using f tab b(1) by (simp add: assoc_remove_elem_def)
  moreover have "assoc_keys b = remove1 (cell_key a c) (assoc_keys a)"
    unfolding b(3) keys same(5) fun_cong[OF same(6)] ..
  ultimately show ?thesis using b(2,4,5) unfolding same by blast
qed

section \<open>Clearing\<close>

lemma clear_ok:
  assumes ok: "assoc_ok a"
  shows "assoc_ok (mu_assoc_clear a)" "ac_list (mu_assoc_clear a) = []" "ac_icase (mu_assoc_clear a) = ac_icase a"
    "ac_free a \<Longrightarrow> mset (ac_freed (mu_assoc_clear a)) = mset (ac_freed a) + image_mset (cell_data a) (mset (ac_list a))"
proof -
  have main: "assoc_ok (mu_assoc_clear a) \<and> ac_list (mu_assoc_clear a) = [] \<and> ac_icase (mu_assoc_clear a) = ac_icase a \<and>
    (ac_free a \<longrightarrow> mset (ac_freed (mu_assoc_clear a)) = mset (ac_freed a) + image_mset (cell_data a) (mset (ac_list a)))"
  proof (cases "ac_tab a")
    case None
    with ok show ?thesis by (simp add: mu_assoc_clear_def assoc_ok_def)
  next
    case (Some t)
    have t: "assoc_size a \<le> length t" "\<forall>x \<in> set (drop (assoc_size a) t). x = None" "tab_cells t = mset (ac_list a)"
      "ac_hash_num a < max_rehash"
      using ok Some by (auto simp: assoc_ok_def assoc_table_def)
    have step: "\<exists>l f. fold (\<lambda>i a. assoc_free_elem a i) [0..<k] a =
        a\<lparr>ac_list := l, ac_freed := f, ac_tab := Some (replicate k None @ drop k t)\<rparr> \<and>
        mset l = tab_cells (drop k t) \<and>
        (ac_free a \<longrightarrow> mset f + image_mset (cell_data a) (mset l) = mset (ac_freed a) + image_mset (cell_data a) (mset (ac_list a)))"
      if "k \<le> assoc_size a" for k
      using that
    proof (induction k)
      case 0
      show ?case
        by (rule exI[of _ "ac_list a"], rule exI[of _ "ac_freed a"]) (use Some t(3) in simp)
    next
      case (Suc k)
      then obtain l f where lf: "fold (\<lambda>i a. assoc_free_elem a i) [0..<k] a =
          a\<lparr>ac_list := l, ac_freed := f, ac_tab := Some (replicate k None @ drop k t)\<rparr>" "mset l = tab_cells (drop k t)"
        "ac_free a \<longrightarrow> mset f + image_mset (cell_data a) (mset l) = mset (ac_freed a) + image_mset (cell_data a) (mset (ac_list a))"
        by auto
      have k: "k < length t" using Suc.prems t(1) by simp
      then have d: "drop k t = t ! k # drop (Suc k) t" by (simp add: Cons_nth_drop_Suc)
      let ?b = "a\<lparr>ac_list := l, ac_freed := f, ac_tab := Some (replicate k None @ drop k t)\<rparr>"
      have r: "(replicate k None @ drop k t) ! k = t ! k" using k by (simp add: nth_append)
      have u: "(replicate k None @ drop k t)[k := None] = replicate (Suc k) None @ drop (Suc k) t"
        unfolding d by (simp add: list_update_append replicate_append_same)
      show ?case
      proof (cases "t ! k")
        case None
        then have "assoc_free_elem ?b k = ?b" using r by (simp add: assoc_free_elem_def)
        moreover have "replicate k None @ drop k t = replicate (Suc k) None @ drop (Suc k) t"
          unfolding d None by (simp add: replicate_append_same)
        moreover have "mset l = tab_cells (drop (Suc k) t)" using lf(2) unfolding d None by simp
        moreover have "fold (\<lambda>i a. assoc_free_elem a i) [0..<Suc k] a = assoc_free_elem ?b k" by (simp add: lf(1))
        ultimately have "fold (\<lambda>i a. assoc_free_elem a i) [0..<Suc k] a =
            a\<lparr>ac_list := l, ac_freed := f, ac_tab := Some (replicate (Suc k) None @ drop (Suc k) t)\<rparr>"
          "mset l = tab_cells (drop (Suc k) t)" by (simp_all only:)
        with lf(3) show ?thesis by blast
      next
        case c: (Some c)
        then have mem: "c \<in># mset l" unfolding lf(2) d by simp
        have m: "mset l = add_mset c (tab_cells (drop (Suc k) t))" unfolding lf(2) d c by simp
        let ?f = "f @ (if ac_free a then [cell_data a c] else [])"
        have "assoc_free_elem ?b k = a\<lparr>ac_list := remove1 c l, ac_freed := ?f,
            ac_tab := Some (replicate (Suc k) None @ drop (Suc k) t)\<rparr>"
          using r c u by (simp add: assoc_free_elem_def assoc_elem_unlink_def slot_cell_def Let_def)
        moreover have "mset (remove1 c l) = tab_cells (drop (Suc k) t)" by (simp add: m)
        moreover have "ac_free a \<longrightarrow> mset ?f + image_mset (cell_data a) (mset (remove1 c l)) =
            mset (ac_freed a) + image_mset (cell_data a) (mset (ac_list a))"
          using lf(3) by (simp add: m)
        ultimately show ?thesis using lf(1)
          by (intro exI[of _ "remove1 c l"] exI[of _ ?f]) simp
      qed
    qed
    obtain l f where lf: "mu_assoc_clear a = a\<lparr>ac_list := l, ac_freed := f,
        ac_tab := Some (replicate (assoc_size a) None @ drop (assoc_size a) t)\<rparr>" "mset l = tab_cells (drop (assoc_size a) t)"
      "ac_free a \<longrightarrow> mset f + image_mset (cell_data a) (mset l) = mset (ac_freed a) + image_mset (cell_data a) (mset (ac_list a))"
      using step[OF le_refl] Some by (auto simp: mu_assoc_clear_def)
    have l: "l = []" using lf(2) tab_cells_none[OF t(2)] by simp
    have "reachable_in (assoc_size a) (assoc_home a) (replicate (assoc_size a) None @ drop (assoc_size a) t)"
      by (simp add: reachable_in_def nth_append)
    then show ?thesis
      using lf l t tab_cells_none[OF t(2)] by (simp add: assoc_ok_def assoc_table_def)
  qed
  then show "assoc_ok (mu_assoc_clear a)" "ac_list (mu_assoc_clear a) = []" "ac_icase (mu_assoc_clear a) = ac_icase a"
    "ac_free a \<Longrightarrow> mset (ac_freed (mu_assoc_clear a)) = mset (ac_freed a) + image_mset (cell_data a) (mset (ac_list a))"
    by auto
qed

section \<open>Sweeping\<close>

text \<open>The sweep returns and removes marked entries only. It need not remove all of them.\<close>

lemma sweep_loop_ok:
  assumes "assoc_ok a" "ac_tab a \<noteq> None" "k \<le> assoc_size a"
  shows "\<exists>b. assoc_sweep_loop k a = Some b \<and> assoc_ok b \<and> ac_icase b = ac_icase a \<and> ac_cells b = ac_cells a \<and>
    set (ac_list b) \<subseteq> set (ac_list a) \<and> (\<forall>c \<in> set (ac_list a) - set (ac_list b). ae_mark (ac_cells a c))"
  using assms
proof (induction k arbitrary: a)
  case (Suc k)
  then obtain t where t: "ac_tab a = Some t" and ok: "assoc_ok a" and k: "k < assoc_size a" by auto
  show ?case
  proof (cases "t ! k")
    case None
    with Suc.IH[of a] Suc.prems t show ?thesis by simp
  next
    case (Some c)
    show ?thesis
    proof (cases "ae_mark (ac_cells a c)")
      case False
      with Suc.IH[of a] Suc.prems t Some show ?thesis by simp
    next
      case True
      obtain b where b: "assoc_remove a k = Some (b, Inr ())" "assoc_ok b" "ac_list b = remove1 c (ac_list a)"
        "ac_icase b = ac_icase a" "ac_cells b = ac_cells a" "ac_hash_num b = ac_hash_num a" "ac_tab b \<noteq> None"
        using assoc_remove_map[OF ok t k Some] by blast
      have "assoc_size b = assoc_size a" by (simp add: assoc_size_def b(6))
      then obtain b' where "assoc_sweep_loop k b = Some b'" "assoc_ok b'" "ac_icase b' = ac_icase b" "ac_cells b' = ac_cells b"
        "set (ac_list b') \<subseteq> set (ac_list b)" "\<forall>c \<in> set (ac_list b) - set (ac_list b'). ae_mark (ac_cells b c)"
        using Suc.IH[OF b(2,7)] k by auto
      moreover have "set (ac_list b) = set (ac_list a) - {c}"
        using assoc_ok_distinct[OF ok] by (simp add: b(3) set_remove1_eq)
      ultimately show ?thesis using t Some True b by auto
    qed
  qed
qed auto

lemma sweep_ok:
  assumes "assoc_ok a"
  shows "\<exists>b. mu_assoc_sweep a = Some b \<and> assoc_ok b \<and> ac_icase b = ac_icase a \<and> ac_cells b = ac_cells a \<and>
    set (ac_list b) \<subseteq> set (ac_list a) \<and> (\<forall>c \<in> set (ac_list a) - set (ac_list b). ae_mark (ac_cells a c))"
  using sweep_loop_ok[OF assms _ le_refl] assms by (cases "ac_tab a") (auto simp: mu_assoc_sweep_def)

lemma sweep_loop_empty:
  "\<forall>i < k. the (ac_tab a) ! i = None \<Longrightarrow> assoc_sweep_loop k a = Some a"
  by (induction k) auto

text \<open>An entry that has wrapped around to slot 0 moves back to the last slot when the entry there is
  removed, and the sweep has already passed that slot.\<close>

lemma tab_cells_once:
  assumes "tab_cells t = mset L" "distinct L" "p < length t" "q < length t" "t ! p = Some c" "t ! q = Some d" "p \<noteq> q"
  shows "c \<noteq> d" "c \<in> set L" "d \<in> set L"
proof -
  have mem: "c \<in># tab_cells t" "d \<in># tab_cells t" unfolding tab_cells_mem using assms(3-6) by blast+
  then show "c \<in> set L" "d \<in> set L" by (simp_all add: assms(1))
  have "c \<in># tab_cells (t[q := None])" using assms by (auto simp: tab_cells_mem intro: exI[of _ p])
  then have "c \<in> set (remove1 d L)" using tab_cells_clear[OF assms(4,6)] assms(1) by (metis mset_remove1 set_mset_mset)
  then show "c \<noteq> d" using assms(2) by auto
qed

lemma sweep_wraps:
  assumes ok: "assoc_ok a" and tab: "ac_tab a = Some t" and size: "assoc_size a = Suc p" "1 < p"
    and last: "t ! p = Some c" "ae_mark (ac_cells a c)"
    and wrapped: "t ! 0 = Some c'" "assoc_home a c' = p"
    and rest: "\<forall>i. 0 < i \<and> i < p \<longrightarrow> t ! i = None"
  shows "\<exists>b. mu_assoc_sweep a = Some b \<and> ac_list b = remove1 c (ac_list a) \<and> c' \<in> set (ac_list b) \<and> ac_cells b = ac_cells a"
proof -
  have len: "Suc p \<le> length t" and cells: "tab_cells t = mset (ac_list a)"
    using ok tab size(1) by (auto simp: assoc_ok_def assoc_table_def)
  let ?u = "t[p := None]" let ?v = "?u[p := Some c', 0 := None]"
  have p: "next_slot (Suc p) p = 0" "next_slot (Suc p) 0 = 1" using size by (auto simp: next_slot_def)
  have u: "?u ! 0 = Some c'" "?v ! 1 = None" using wrapped rest size(2) len by auto
  have l: "0 < length ?u" "1 < length ?v" using size(2) len by auto
  have "close_gap (Suc p) (assoc_home a) ?u p p = close_gap (Suc p) (assoc_home a) ?v 0 0"
    using l(1) size(2) by (subst close_gap.simps) (simp only: p Let_def u(1) option.case wrapped(2), simp)
  also have "\<dots> = Some (Inr ?v)"
    using l(2) by (subst close_gap.simps) (simp only: p Let_def u(2) option.case, simp)
  finally have gap: "close_gap (Suc p) (assoc_home a) ?u p p = Some (Inr ?v)" .
  obtain b where b: "assoc_remove a p = Some (b, Inr ())" "ac_list b = remove1 c (ac_list a)" "ac_cells b = ac_cells a"
    using assoc_remove_map[OF ok tab _ last(1)] size by auto
  have "ac_tab b = Some ?v"
    using b(1) gap size last(1) tab
    by (simp add: assoc_remove_def assoc_free_elem_def assoc_elem_unlink_def Let_def) auto
  moreover have "?v ! i = None" if "i < p" for i
  proof (cases "i = 0")
    case False
    with rest that show ?thesis by simp
  qed (use l(1) in simp)
  ultimately have none: "\<forall>i < p. the (ac_tab b) ! i = None" by simp
  have "assoc_sweep_loop (Suc p) a = assoc_sweep_loop p b"
    using tab last b(1) by simp
  then have "mu_assoc_sweep a = Some b"
    using sweep_loop_empty[OF none] tab size(1) by (simp add: mu_assoc_sweep_def)
  moreover have "c' \<in> set (ac_list b)"
    using tab_cells_once[OF cells assoc_ok_distinct[OF ok] _ _ last(1) wrapped(1)] len size(2) l(1) by (simp add: b(2))
  ultimately show ?thesis using b by blast
qed

lemma mark_fold_ok:
  "assoc_ok a \<Longrightarrow> assoc_ok (fold (\<lambda>c a. set_cell_mark c (f a c) a) cs a)"
  by (induction cs arbitrary: a) (auto intro: set_mark_ok)

section \<open>All steps\<close>

lemma install_ref2_ok:
  assumes ok: "assoc_ok a" and name: "0 \<notin> set name"
  shows "\<exists>b r. mu_assoc_install_ref2 a name = Some (b, r) \<and> assoc_ok b"
proof (cases "\<exists>c \<in> set (ac_list a). cell_key a c = assoc_key a name")
  case True
  with find_slot_lookup[OF ok name, of True] ok show ?thesis by (auto simp: mu_assoc_install_ref2_def Let_def)
next
  case False
  then have new: "\<forall>c \<in> set (ac_list a). cell_key a c \<noteq> assoc_key a name" by blast
  from find_slot_install[OF ok name new]
  consider (new) b i where "find_slot a name True = Some (b, Inr (i, True))" "assoc_grown a b" "assoc_ok b" "vacant_for b name i"
    | (full) "find_slot a name True = Some (a, Inl MU_ERR_BUFSPACE)" by blast
  then show ?thesis
  proof cases
    case (new b i)
    have tab: "ac_tab b \<noteq> None" using new(2) by (auto simp: assoc_grown_def)
    have fresh: "\<forall>c \<in> set (ac_list b). cell_key b c \<noteq> assoc_key b name"
      using False by (simp add: assoc_grown_same[OF new(2)])
    show ?thesis
      using assoc_new_elem_map(1)[OF new(3) tab new(4) name fresh] new(1)
      by (auto simp: mu_assoc_install_ref2_def Let_def)
  qed (use ok in \<open>simp add: mu_assoc_install_ref2_def\<close>)
qed

section \<open>Pulling and unsetting\<close>

text \<open>Changing the data of a cell, and what has been handed to the destructor, keeps the invariant.\<close>

lemma set_data_ok:
  "assoc_ok a \<Longrightarrow> assoc_ok (a\<lparr>ac_cells := (ac_cells a)(c := (ac_cells a c)\<lparr>ae_data := v\<rparr>)\<rparr>)"
  by (rule set_cell_ok) simp_all

lemma set_freed_ok: "assoc_ok a \<Longrightarrow> assoc_ok (a\<lparr>ac_freed := f\<rparr>)"
proof -
  have same: "assoc_key (a\<lparr>ac_freed := f\<rparr>) = assoc_key a" by (simp add: fun_eq_iff assoc_key_def)
  assume "assoc_ok a"
  then show ?thesis unfolding assoc_ok_def same by (auto intro: assoc_table_same)
qed

text \<open>Pulling into an array that has a table returns, and both arrays stay well-formed.\<close>

lemma pull_loop_ok:
  assumes "assoc_ok a" "ac_tab a \<noteq> None" "assoc_ok b" "\<forall>i \<in> set is. i < assoc_size a"
  shows "\<exists>a' b'. assoc_pull_loop is a b = Some (a', b') \<and> assoc_ok a' \<and> assoc_ok b'"
  using assms
proof (induction "is" arbitrary: a b)
  case (Cons i "is")
  then obtain t where t: "ac_tab a = Some t" and ok: "assoc_ok a" "assoc_ok b" and i: "i < assoc_size a"
    "\<forall>i \<in> set is. i < assoc_size a" by auto
  show ?case
  proof (cases "t ! i")
    case None
    with Cons.IH[of a b] t ok i show ?thesis by simp
  next
    case (Some c)
    have "c \<in> set (ac_list a)" using assoc_remove_map[OF ok(1) t i(1) Some] by blast
    then have name: "0 \<notin> set (cell_name a c)" using ok(1) by (simp add: assoc_ok_def)
    show ?thesis
    proof (cases "\<exists>c' \<in> set (ac_list b). cell_key b c' = assoc_key b (cell_name a c)")
      case True
      then obtain j c' where f: "find_slot b (cell_name a c) False = Some (b, Inr (j, False))" "j < assoc_size b"
        "ac_tab b \<noteq> None" "the (ac_tab b) ! j = Some c'"
        using find_slot_lookup[OF ok(2) name, of False] by auto
      then obtain u where u: "ac_tab b = Some u" "u ! j = Some c'" by auto
      let ?a = "(a\<lparr>ac_freed := ac_freed a @ (if ac_free a then [cell_data a c] else [])\<rparr>)
        \<lparr>ac_cells := (ac_cells a)(c := (ac_cells a c)\<lparr>ae_data := cell_data b c'\<rparr>)\<rparr>"
      let ?b = "b\<lparr>ac_cells := (ac_cells b)(c' := (ac_cells b c')\<lparr>ae_data := None\<rparr>)\<rparr>"
      have "assoc_ok ?a" using set_data_ok[OF set_freed_ok[OF ok(1)], of _ c] by simp
      moreover have "assoc_ok ?b" by (rule set_data_ok[OF ok(2)])
      moreover have "ac_tab ?b = Some u" "j < assoc_size ?b" using u f(2) by (simp_all add: assoc_size_def)
      then obtain b' where "assoc_remove ?b j = Some (b', Inr ())" "assoc_ok b'"
        using assoc_remove_map[OF \<open>assoc_ok ?b\<close>, of u j c'] u(2) by blast
      moreover have "ac_tab ?a \<noteq> None" "\<forall>i \<in> set is. i < assoc_size ?a"
        using t i(2) by (simp_all add: assoc_size_def)
      ultimately show ?thesis
        using Cons.IH[of ?a b'] t Some f(1) u by (simp add: slot_cell_def)
    next
      case False
      then have none: "find_slot b (cell_name a c) False = Some (b, Inl MU_ERR_NOENT)"
        using find_slot_lookup[OF ok(2) name, of False] by simp
      obtain a' where a': "assoc_remove a i = Some (a', Inr ())" "assoc_ok a'" "ac_hash_num a' = ac_hash_num a"
        "ac_tab a' \<noteq> None"
        using assoc_remove_map[OF ok(1) t i(1) Some] by blast
      then show ?thesis
        using Cons.IH[of a' b] ok(2) i(2) t Some none by (simp add: assoc_size_def)
    qed
  qed
qed simp

lemma pull_ok:
  assumes "assoc_ok a" "ac_tab a \<noteq> None" "assoc_ok b"
  shows "\<exists>a' b'. mu_assoc_pull a b = Some (Inr (a', b')) \<and> assoc_ok a' \<and> assoc_ok b'"
  using pull_loop_ok[OF assms, of "[0..<assoc_size a]"] assms(2) by (auto simp: mu_assoc_pull_def)

lemma pull_result:
  assumes "assoc_ok a" "assoc_ok b" "mu_assoc_pull a b = Some (Inr (a', b'))"
  shows "assoc_ok a'" "assoc_ok b'"
proof -
  have "ac_tab a \<noteq> None" using assms(3) by (auto simp: mu_assoc_pull_def split: if_splits)
  from pull_ok[OF assms(1) this assms(2)] assms(3) show "assoc_ok a'" "assoc_ok b'" by auto
qed

lemma sweep_unset_ok:
  assumes "assoc_ok a" "mu_assoc_sweep_unset a = Inr b"
  shows "assoc_ok b"
proof -
  have "assoc_sweep_unset_loop k a = Inr b \<Longrightarrow> assoc_ok a \<Longrightarrow> assoc_ok b" for k
  proof (induction k arbitrary: a)
    case (Suc k)
    have "assoc_ok (a\<lparr>ac_freed := f, ac_cells := (ac_cells a)(c := (ac_cells a c)\<lparr>ae_data := None\<rparr>)\<rparr>)" for f c
      using set_data_ok[OF set_freed_ok[OF Suc.prems(2), of f], of c None] by simp
    with Suc show ?case by (auto split: option.splits if_splits)
  qed simp
  with assms show ?thesis by (auto simp: mu_assoc_sweep_unset_def split: if_splits)
qed

text \<open>
  All that can be done to an array. What another array takes part with is well-formed, as all that
  are reached are (\<open>assoc_reachable_ok\<close>). \<open>step_set_mark\<close> is for the three functions that set one mark,
  and \<open>step_store\<close> for a client that has got the place of an element's data.
\<close>

inductive assoc_step :: "'d assoc \<Rightarrow> 'd assoc \<Rightarrow> bool" where
  step_install: "0 \<notin> set name \<Longrightarrow> mu_assoc_install a name v = Some (b, r) \<Longrightarrow> assoc_step a b"
| step_ref: "0 \<notin> set name \<Longrightarrow> mu_assoc_install_ref2 a name = Some (b, r') \<Longrightarrow> assoc_step a b"
| step_store: "assoc_step a (a\<lparr>ac_cells := (ac_cells a)(c := (ac_cells a c)\<lparr>ae_data := v\<rparr>)\<rparr>)"
| step_remove: "0 \<notin> set name \<Longrightarrow> mu_assoc_remove a name = Some (b, r) \<Longrightarrow> assoc_step a b"
| step_pop: "mu_assoc_pop a want = Some (b, r, d) \<Longrightarrow> assoc_step a b"
| step_shift: "mu_assoc_shift a want = Some (b, r, d) \<Longrightarrow> assoc_step a b"
| step_clear: "assoc_step a (mu_assoc_clear a)"
| step_destroy: "assoc_step a (mu_assoc_set_destroy_item a fn)"
| step_mark: "assoc_step a (mu_assoc_mark a cond)"
| step_set_mark: "assoc_step a (set_cell_mark c m a)"
| step_sweep: "mu_assoc_sweep a = Some b \<Longrightarrow> assoc_step a b"
| step_unset: "mu_assoc_sweep_unset a = Inr b \<Longrightarrow> assoc_step a b"
| step_pull: "assoc_ok b \<Longrightarrow> mu_assoc_pull a b = Some (Inr (a', b')) \<Longrightarrow> assoc_step a a'"
| step_pulled: "assoc_ok a \<Longrightarrow> mu_assoc_pull a b = Some (Inr (a', b')) \<Longrightarrow> assoc_step b b'"
| step_sort: "compares_by (\<lambda>c c'. cmp (cell_name a c) (cell_data a c) (cell_name a c') (cell_data a c')) (key :: cell \<Rightarrow> nat) \<Longrightarrow>
    assoc_step a (mu_assoc_sort_r a (Some cmp))"

text \<open>The operations with a loop whose end is not plain from the code return: those that search a slot,
  grow the table or close a gap. For \<open>mu_assoc_pull\<close> the first array must have a table, without
  which it follows a null pointer. (\<open>mu_assoc_sweep_unset\<close> counts down and so returns, or reads
  through a null pointer or past the table.)\<close>

definition assoc_returns :: "'d assoc \<Rightarrow> bool" where
  "assoc_returns a \<longleftrightarrow>
     (\<forall>name v. 0 \<notin> set name \<longrightarrow> mu_assoc_lookup a name \<noteq> None \<and> mu_assoc_install a name v \<noteq> None \<and>
        mu_assoc_install_ref2 a name \<noteq> None \<and> mu_assoc_remove a name \<noteq> None) \<and>
     (\<forall>want. mu_assoc_pop a want \<noteq> None \<and> mu_assoc_shift a want \<noteq> None) \<and> mu_assoc_sweep a \<noteq> None \<and>
     (\<forall>b. assoc_ok b \<longrightarrow> ac_tab a \<noteq> None \<longrightarrow> (\<exists>a' b'. mu_assoc_pull a b = Some (Inr (a', b'))))"

lemma elem_ok:
  assumes "assoc_ok a" "elem = None \<or> (\<exists>c \<in> set (ac_list a). elem = Some c)"
  shows "\<exists>b r. assoc_remove_elem a elem nd = Some (b, r) \<and> assoc_ok b"
proof (cases elem)
  case None
  with assms(1) show ?thesis by (simp add: assoc_remove_elem_def)
next
  case (Some c)
  with assms remove_elem_ok[of a c nd] show ?thesis by auto
qed

lemma pop_ok: "assoc_ok a \<Longrightarrow> \<exists>b r d. mu_assoc_pop a want = Some (b, r, d) \<and> assoc_ok b"
  using elem_ok[of a "if ac_list a = [] then None else Some (last (ac_list a))" want]
  by (auto simp: mu_assoc_pop_def Let_def)

lemma shift_ok: "assoc_ok a \<Longrightarrow> \<exists>b r d. mu_assoc_shift a want = Some (b, r, d) \<and> assoc_ok b"
  using elem_ok[of a "if ac_list a = [] then None else Some (hd (ac_list a))" want]
  by (auto simp: mu_assoc_shift_def Let_def)

lemma install_ok: "assoc_ok a \<Longrightarrow> 0 \<notin> set name \<Longrightarrow> \<exists>b r. mu_assoc_install a name v = Some (b, r) \<and> assoc_ok b"
  using install_map[of a name v] by (auto split: if_splits)

lemma remove_ok: "assoc_ok a \<Longrightarrow> 0 \<notin> set name \<Longrightarrow> \<exists>b r. mu_assoc_remove a name = Some (b, r) \<and> assoc_ok b"
  using remove_map[of a name] by (auto split: option.splits)

lemma assoc_ok_returns: "assoc_ok a \<Longrightarrow> assoc_returns a"
proof -
  assume ok: "assoc_ok a"
  have "mu_assoc_lookup a name \<noteq> None \<and> mu_assoc_install a name v \<noteq> None \<and>
      mu_assoc_install_ref2 a name \<noteq> None \<and> mu_assoc_remove a name \<noteq> None" if "0 \<notin> set name" for name v
    using lookup_map[OF ok that] install_ok[OF ok that, of v] install_ref2_ok[OF ok that] remove_ok[OF ok that] by auto
  moreover have "mu_assoc_pop a want \<noteq> None \<and> mu_assoc_shift a want \<noteq> None" for want
    using pop_ok[OF ok, of want] shift_ok[OF ok, of want] by auto
  moreover have "mu_assoc_sweep a \<noteq> None" using sweep_ok[OF ok] by auto
  moreover have "\<exists>a' b'. mu_assoc_pull a b = Some (Inr (a', b'))" if "assoc_ok b" "ac_tab a \<noteq> None" for b
    using pull_ok[OF ok that(2,1)] by blast
  ultimately show ?thesis unfolding assoc_returns_def by blast
qed

lemma assoc_step_ok: "assoc_step a b \<Longrightarrow> assoc_ok a \<Longrightarrow> assoc_ok b"
proof (induction rule: assoc_step.induct)
  case (step_install name a v b r)
  with install_ok[of a name v] show ?case by auto
next
  case (step_ref name a b r')
  with install_ref2_ok[of a name] show ?case by auto
next
  case (step_store a c v)
  then show ?case by (auto intro: set_cell_ok)
next
  case (step_remove name a b r)
  with remove_ok[of a name] show ?case by auto
next
  case (step_pop a want b r d)
  with pop_ok[of a want] show ?case by auto
next
  case (step_shift a want b r d)
  with shift_ok[of a want] show ?case by auto
next
  case (step_clear a)
  then show ?case by (rule clear_ok)
next
  case (step_destroy a fn)
  have same: "assoc_home (a\<lparr>ac_free := fn\<rparr>) = assoc_home a" "assoc_key (a\<lparr>ac_free := fn\<rparr>) = assoc_key a"
    "assoc_size (a\<lparr>ac_free := fn\<rparr>) = assoc_size a"
    by (simp_all add: fun_eq_iff assoc_home_def assoc_hash_def assoc_key_def assoc_size_def)
  show ?case
    using step_destroy unfolding mu_assoc_set_destroy_item_def assoc_ok_def assoc_table_def same by simp
next
  case (step_mark a cond)
  then show ?case
    using mark_fold_ok[of a "\<lambda>a c. cond (cell_name a c) (cell_data a c)"] by (simp add: mu_assoc_mark_def)
next
  case (step_set_mark a c m)
  then show ?case by (rule set_mark_ok)
next
  case (step_sweep a b)
  with sweep_ok[of a] show ?case by auto
next
  case (step_unset a b)
  then show ?case using sweep_unset_ok[of a b] by simp
next
  case (step_pull b a a' b')
  then show ?case using pull_result(1)[of a b a' b'] by simp
next
  case (step_pulled a b a' b')
  then show ?case using pull_result(2)[of a b a' b'] by simp
next
  case (step_sort cmp a key)
  then show ?case by (intro sort_r_ok(2))
qed

lemma create_ok: "assoc_ok (mu_assoc_create icase)"
  by (simp add: assoc_ok_def mu_assoc_create_def)

lemma assoc_reachable_ok: "assoc_step\<^sup>*\<^sup>* (mu_assoc_create icase) a \<Longrightarrow> assoc_ok a"
  by (induction rule: rtranclp_induct) (auto intro: create_ok assoc_step_ok)

section \<open>Two arrays\<close>

text \<open>An array with two entries is reachable, and so is the invariant for one whose second entry has
  wrapped around.\<close>

lemma two_entries:
  assumes "x \<noteq> y" "0 \<notin> set x" "0 \<notin> set y"
  shows "\<exists>a. assoc_step\<^sup>*\<^sup>* (mu_assoc_create False) a \<and> assoc_map a = [x \<mapsto> v, y \<mapsto> w] \<and> assoc_keys a = [x, y] \<and>
    \<not> ac_icase a"
proof -
  let ?a = "mu_assoc_create False :: 'a assoc"
  have limit: "assoc_limit = 16411" by (simp add: assoc_limit_def hash_size_at_def max_rehash_def hash_size_def)
  have empty: "assoc_map ?a = Map.empty" "assoc_keys ?a = []" "assoc_key ?a = (\<lambda>n. n)" "mu_assoc_count ?a = 0"
    by (simp_all add: assoc_map_def assoc_keys_def assoc_key_def mu_assoc_create_def mu_assoc_count_def fun_eq_iff)
  have key: "\<not> ac_icase b \<Longrightarrow> assoc_key b = (\<lambda>n. n)" for b :: "'a assoc" by (simp add: assoc_key_def fun_eq_iff)
  obtain b where b: "mu_assoc_install ?a x v = Some (b, Inr ())" "assoc_ok b" "assoc_map b = [x \<mapsto> v]" "assoc_keys b = [x]"
    "\<not> ac_icase b"
    using install_map[OF create_ok[of False] assms(2), of v] by (auto simp: empty limit) (auto simp: mu_assoc_create_def)
  have "mu_assoc_count b = 1" using arg_cong[OF b(4), of length] by (simp add: assoc_keys_def mu_assoc_count_def)
  then obtain d where d: "mu_assoc_install b y w = Some (d, Inr ())" "assoc_map d = [x \<mapsto> v, y \<mapsto> w]" "assoc_keys d = [x, y]"
    "\<not> ac_icase d"
    using install_map[OF b(2) assms(3), of w] assms(1) b(3-5) by (auto simp: key limit)
  have "assoc_step ?a b" "assoc_step b d"
    using step_install[OF assms(2) b(1)] step_install[OF assms(3) d(1)] by auto
  then have "assoc_step\<^sup>*\<^sup>* ?a d" by (meson converse_rtranclp_into_rtranclp rtranclp.rtrancl_refl)
  with d show ?thesis by blast
qed

definition wrapped_assoc :: "unit assoc" where
  "wrapped_assoc =
     \<lparr>ac_icase = False, ac_hash_num = 0, ac_tab = Some ((replicate 101 None)[36 := Some 0, 0 := Some 1]),
      ac_cells = (\<lambda>c. \<lparr>ae_name = (if c = 0 then [73] else [110]), ae_mark = True, ae_data = None\<rparr>),
      ac_brk = 2, ac_list = [0, 1], ac_free = False, ac_freed = []\<rparr>"

lemma wrapped_homes: "assoc_home wrapped_assoc 0 = 36" "assoc_home wrapped_assoc 1 = 36" "assoc_size wrapped_assoc = 37"
  by (simp_all add: wrapped_assoc_def assoc_home_def assoc_hash_def hash_dfl_def assoc_size_def hash_size_at_def max_rehash_def
      hash_size_def)

lemma wrapped_ok: "assoc_ok wrapped_assoc"
proof -
  let ?t = "(replicate 101 None)[36 := Some 0, 0 := Some (1 :: nat)]"
  have tab: "ac_tab wrapped_assoc = Some ?t" by (simp add: wrapped_assoc_def)
  have "reachable_in 37 (assoc_home wrapped_assoc) ?t"
    by (auto simp: reachable_in_def nth_list_update wrapped_homes wrapped_homes(2)[unfolded One_nat_def] dist_def split: if_splits)
  moreover have "tab_cells ?t = {#1, 0#}"
    by (simp add: tab_cells_fill)
  moreover have "\<forall>x \<in> set (drop 37 ?t). x = None" by (simp add: drop_update_cancel)
  ultimately have "assoc_table wrapped_assoc (mset (ac_list wrapped_assoc))"
    unfolding assoc_table_def wrapped_homes tab by (auto simp: wrapped_assoc_def max_rehash_def hash_size_def)
  then show ?thesis
    by (simp add: assoc_ok_def tab) (simp add: wrapped_assoc_def assoc_key_def)
qed

end
