(* ===== verification/Wildmatch.thy ===== *)
theory Wildmatch
  imports Ctype "HOL-Library.Sublist"
begin

text \<open>
  Matching of mailbox names against the wildcard patterns of IMAP
  (\<open>libmailutils/imapio/wildmatch.c\<close>): the matcher with its three results, and the relation
  between patterns and names that RFC 3501 describes. Strings are lists without the NUL at the end.
\<close>

section \<open>The matcher\<close>

datatype wild = WILD_FALSE | WILD_TRUE | WILD_ABORT

abbreviation (input) STAR :: byte where "STAR \<equiv> 42"
abbreviation (input) PCT :: byte where "PCT \<equiv> 37"

definition wild_same :: "bool \<Rightarrow> byte \<Rightarrow> byte \<Rightarrow> bool" where
  "wild_same icase p c \<longleftrightarrow> (if icase then mu_toupper p = mu_toupper c else p = c)"

text \<open>The loops of the two wildcards are functions of their own. \<open>strchr\<close> finds the NUL in any string.\<close>

function wild_match :: "byte \<Rightarrow> bool \<Rightarrow> bytes \<Rightarrow> bytes \<Rightarrow> wild"
  and wild_star :: "byte \<Rightarrow> bool \<Rightarrow> bytes \<Rightarrow> bytes \<Rightarrow> wild"
  and wild_percent :: "byte \<Rightarrow> bool \<Rightarrow> bytes \<Rightarrow> bytes \<Rightarrow> wild"
where
  "wild_match delim icase [] name = (if name = [] then WILD_TRUE else WILD_FALSE)"
| "wild_match delim icase (c # pat) name =
     (if name = [] \<and> c \<noteq> STAR \<and> c \<noteq> PCT then WILD_ABORT
      else if c = STAR then
        let pat = dropWhile (\<lambda>c. c = STAR) pat
        in if pat = [] then WILD_TRUE else wild_star delim icase pat name
      else if c = PCT then
        let pat = dropWhile (\<lambda>c. c = PCT) pat
        in if pat = [] then (if delim \<in> set name \<or> delim = NUL then WILD_FALSE else WILD_TRUE)
           else wild_percent delim icase pat name
      else if \<not> wild_same icase c (hd name) then WILD_FALSE
      else wild_match delim icase pat (tl name))"
| "wild_star delim icase pat [] = WILD_ABORT"
| "wild_star delim icase pat (b # name) =
     (case wild_match delim icase pat (b # name) of
        WILD_FALSE \<Rightarrow> wild_star delim icase pat name
      | res \<Rightarrow> res)"
| "wild_percent delim icase pat [] = wild_match delim icase pat []"
| "wild_percent delim icase pat (b # name) =
     (if b = delim then wild_match delim icase pat (b # name)
      else case wild_match delim icase pat (b # name) of
             WILD_FALSE \<Rightarrow> wild_percent delim icase pat name
           | res \<Rightarrow> res)"
  by pat_completeness auto
termination
  by (relation "(\<lambda>x. case x of Inl (d, i, p, n) \<Rightarrow> length p | Inr (Inl (d, i, p, n)) \<Rightarrow> length p | Inr (Inr (d, i, p, n)) \<Rightarrow> length p)
      <*mlex*> (\<lambda>x. case x of Inl (d, i, p, n) \<Rightarrow> length n | Inr (Inl (d, i, p, n)) \<Rightarrow> length n | Inr (Inr (d, i, p, n)) \<Rightarrow> length n)
      <*mlex*> measure (\<lambda>x. case x of Inl _ \<Rightarrow> 0 | Inr _ \<Rightarrow> 1)")
    (auto simp: wf_mlex mlex_prod_def le_imp_less_Suc length_dropWhile_le)

text \<open>A null pattern is as the empty one. The result is 0 for a match.\<close>

definition mu_imap_wildmatch :: "bytes option \<Rightarrow> bytes \<Rightarrow> byte \<Rightarrow> bool" where
  "mu_imap_wildmatch pattern name delim \<longleftrightarrow>
     wild_match delim False (case pattern of None \<Rightarrow> [] | Some p \<Rightarrow> p) name \<noteq> WILD_TRUE"

definition mu_imap_wildmatch_ci :: "bytes option \<Rightarrow> bytes \<Rightarrow> byte \<Rightarrow> bool" where
  "mu_imap_wildmatch_ci pattern name delim \<longleftrightarrow>
     wild_match delim True (case pattern of None \<Rightarrow> [] | Some p \<Rightarrow> p) name \<noteq> WILD_TRUE"

section \<open>The relation\<close>

inductive wild_matches :: "byte \<Rightarrow> bool \<Rightarrow> bytes \<Rightarrow> bytes \<Rightarrow> bool" for delim icase where
  nil: "wild_matches delim icase [] []"
| star: "wild_matches delim icase pat name \<Longrightarrow> wild_matches delim icase (STAR # pat) (pre @ name)"
| percent: "wild_matches delim icase pat name \<Longrightarrow> delim \<notin> set pre \<Longrightarrow>
    wild_matches delim icase (PCT # pat) (pre @ name)"
| char: "wild_matches delim icase pat name \<Longrightarrow> c \<noteq> STAR \<Longrightarrow> c \<noteq> PCT \<Longrightarrow> wild_same icase c b \<Longrightarrow>
    wild_matches delim icase (c # pat) (b # name)"

inductive_simps wild_matches_nil [simp]: "wild_matches delim icase [] name"
inductive_simps wild_matches_star: "wild_matches delim icase (STAR # pat) name"
inductive_simps wild_matches_percent: "wild_matches delim icase (PCT # pat) name"
inductive_simps wild_matches_Cons: "wild_matches delim icase (c # pat) name"

lemma wild_matches_char:
  "c \<noteq> STAR \<Longrightarrow> c \<noteq> PCT \<Longrightarrow> wild_matches delim icase (c # pat) name \<longleftrightarrow>
   (\<exists>b name'. name = b # name' \<and> wild_same icase c b \<and> wild_matches delim icase pat name')"
  by (subst wild_matches_Cons) auto

text \<open>A run of one wildcard is as a single one.\<close>

lemma wild_star_iff: "wild_matches delim icase (STAR # pat) name \<longleftrightarrow>
    (\<exists>suf. suffix suf name \<and> wild_matches delim icase pat suf)"
  by (subst wild_matches_star) (auto simp: suffix_def)

lemma wild_star_run:
  "wild_matches delim icase (STAR # pat) name \<longleftrightarrow>
   wild_matches delim icase (STAR # dropWhile (\<lambda>c. c = STAR) pat) name"
proof (induction pat arbitrary: name)
  case (Cons c pat)
  then show ?case
    by (cases "c = STAR") (auto simp: wild_star_iff intro: suffix_order.trans)
qed simp

lemma wild_star_all: "wild_matches delim icase [STAR] name"
  by (simp add: wild_star_iff)

lemma wild_percent_iff: "wild_matches delim icase (PCT # pat) name \<longleftrightarrow>
    (\<exists>pre suf. name = pre @ suf \<and> delim \<notin> set pre \<and> wild_matches delim icase pat suf)"
  by (subst wild_matches_percent) auto

lemma wild_percent_run:
  "wild_matches delim icase (PCT # pat) name \<longleftrightarrow>
   wild_matches delim icase (PCT # dropWhile (\<lambda>c. c = PCT) pat) name"
proof (induction pat arbitrary: name)
  case (Cons c pat)
  show ?case
  proof (cases "c = PCT")
    case True
    have "wild_matches delim icase (PCT # PCT # pat) name \<longleftrightarrow> wild_matches delim icase (PCT # pat) name"
    proof
      assume "wild_matches delim icase (PCT # PCT # pat) name"
      then obtain a b c where "name = (a @ b) @ c" "delim \<notin> set (a @ b)" "wild_matches delim icase pat c"
        by (auto simp: wild_percent_iff)
      then show "wild_matches delim icase (PCT # pat) name" unfolding wild_percent_iff by blast
    next
      assume "wild_matches delim icase (PCT # pat) name"
      then show "wild_matches delim icase (PCT # PCT # pat) name"
        by (subst wild_percent_iff) (metis append_Nil empty_iff empty_set)
    qed
    with True Cons show ?thesis by simp
  qed simp
qed simp

lemma wild_percent_Cons: "wild_matches delim icase (PCT # pat) (b # name) \<longleftrightarrow>
    wild_matches delim icase pat (b # name) \<or> b \<noteq> delim \<and> wild_matches delim icase (PCT # pat) name"
proof
  assume "wild_matches delim icase (PCT # pat) (b # name)"
  then obtain pre suf where "b # name = pre @ suf" "delim \<notin> set pre" "wild_matches delim icase pat suf"
    by (auto simp: wild_percent_iff)
  then show "wild_matches delim icase pat (b # name) \<or> b \<noteq> delim \<and> wild_matches delim icase (PCT # pat) name"
    by (cases pre) (auto intro: wild_matches.percent)
next
  assume "wild_matches delim icase pat (b # name) \<or> b \<noteq> delim \<and> wild_matches delim icase (PCT # pat) name"
  then show "wild_matches delim icase (PCT # pat) (b # name)"
  proof
    assume "wild_matches delim icase pat (b # name)"
    then show ?thesis using wild_matches.percent[of delim icase pat "b # name" "[]"] by simp
  next
    assume n: "b \<noteq> delim \<and> wild_matches delim icase (PCT # pat) name"
    then obtain pre suf where "b # name = (b # pre) @ suf" "delim \<notin> set (b # pre)" "wild_matches delim icase pat suf"
      by (auto simp: wild_percent_iff)
    then show ?thesis unfolding wild_percent_iff by blast
  qed
qed

lemma wild_percent_Nil: "wild_matches delim icase (PCT # pat) [] \<longleftrightarrow> wild_matches delim icase pat []"
  by (simp add: wild_percent_iff)

lemma wild_star_Cons: "wild_matches delim icase (STAR # pat) (b # name) \<longleftrightarrow>
    wild_matches delim icase pat (b # name) \<or> wild_matches delim icase (STAR # pat) name"
  by (auto simp: wild_star_iff suffix_Cons)

lemma wild_star_Nil: "wild_matches delim icase (STAR # pat) [] \<longleftrightarrow> wild_matches delim icase pat []"
  by (simp add: wild_star_iff)

lemma wild_star_star: "wild_matches delim icase (STAR # STAR # pat) name \<longleftrightarrow> wild_matches delim icase (STAR # pat) name"
  using wild_star_run[of delim icase "STAR # pat" name] wild_star_run[of delim icase pat name] by simp

lemma wild_star_percent: "wild_matches delim icase (STAR # PCT # pat) name \<Longrightarrow> wild_matches delim icase (STAR # pat) name"
  by (auto simp: wild_star_iff wild_percent_iff suffix_def) (metis append.assoc)

lemma wild_percent_star: "wild_matches delim icase (PCT # pat) name \<Longrightarrow> wild_matches delim icase (STAR # pat) name"
  by (auto simp: wild_star_iff wild_percent_iff suffix_def)

lemma wild_star_char:
  "c \<noteq> STAR \<Longrightarrow> c \<noteq> PCT \<Longrightarrow> wild_matches delim icase (STAR # c # pat) (b # name) \<Longrightarrow>
   wild_matches delim icase (STAR # pat) name"
  by (auto simp: wild_star_iff wild_matches_char suffix_Cons dest: suffix_ConsD)

lemma wild_star_mono:
  "(\<And>s. wild_matches delim icase p s \<Longrightarrow> wild_matches delim icase q s) \<Longrightarrow>
   wild_matches delim icase (STAR # p) name \<Longrightarrow> wild_matches delim icase (STAR # q) name"
  by (auto simp: wild_star_iff)

section \<open>The matcher decides the relation\<close>

text \<open>A star tries its rest at every position but the end of the name. Only a rest of wildcards
  matches there, and one that is not a star itself is missed; \<open>wild_clean\<close> excludes it.\<close>

definition wildcards :: "bytes \<Rightarrow> bool" where
  "wildcards = list_all (\<lambda>c. c = STAR \<or> c = PCT)"

fun wild_clean :: "bytes \<Rightarrow> bool" where
  "wild_clean [] = True"
| "wild_clean [c] = True"
| "wild_clean (c # d # pat) \<longleftrightarrow> \<not> (c = STAR \<and> d = PCT \<and> wildcards pat) \<and> wild_clean (d # pat)"

lemma wild_clean_tl: "wild_clean (c # pat) \<Longrightarrow> wild_clean pat"
  by (cases pat) auto

lemma wild_clean_dropWhile: "wild_clean pat \<Longrightarrow> wild_clean (dropWhile P pat)"
  by (induction pat) (auto dest: wild_clean_tl)

lemma wild_matches_empty: "wild_matches delim icase pat [] \<Longrightarrow> wildcards pat"
  by (induction pat "[] :: bytes" rule: wild_matches.induct) (auto simp: wildcards_def)

lemma wild_clean_star:
  assumes "wild_clean (STAR # pat)" "dropWhile (\<lambda>c. c = STAR) pat \<noteq> []"
  shows "\<not> wild_matches delim icase (dropWhile (\<lambda>c. c = STAR) pat) []"
  using assms
proof (induction pat)
  case (Cons c pat)
  then show ?case by (cases "c = STAR") (auto dest!: wild_matches_empty simp: wildcards_def)
qed simp

lemma wild_percent_end: "wild_matches delim icase [PCT] name \<longleftrightarrow> delim \<notin> set name"
  by (auto simp: wild_percent_iff)

definition wild_decides :: "wild \<Rightarrow> byte \<Rightarrow> bool \<Rightarrow> bytes \<Rightarrow> bytes \<Rightarrow> bool" where
  "wild_decides r delim icase pat name \<longleftrightarrow>
     (r = WILD_TRUE \<longleftrightarrow> wild_matches delim icase pat name) \<and>
     (r = WILD_ABORT \<longrightarrow> \<not> wild_matches delim icase (STAR # pat) name)"

lemma wild_decides_run:
  assumes "\<And>s. wild_matches delim icase p s \<longleftrightarrow> wild_matches delim icase q s"
  shows "wild_decides r delim icase p name \<longleftrightarrow> wild_decides r delim icase q name"
  using assms by (auto simp: wild_decides_def wild_star_iff)

lemma wild_match_correct:
  "delim \<noteq> NUL \<Longrightarrow> wild_clean pat \<Longrightarrow> wild_decides (wild_match delim icase pat name) delim icase pat name"
  "delim \<noteq> NUL \<Longrightarrow> wild_clean pat \<Longrightarrow> \<not> wild_matches delim icase pat [] \<Longrightarrow>
   wild_decides (wild_star delim icase pat name) delim icase (STAR # pat) name"
  "delim \<noteq> NUL \<Longrightarrow> wild_clean pat \<Longrightarrow> wild_decides (wild_percent delim icase pat name) delim icase (PCT # pat) name"
proof (induction delim icase pat name and delim icase pat name and delim icase pat name
    rule: wild_match_wild_star_wild_percent.induct)
  case (1 delim icase name)
  then show ?case by (simp add: wild_decides_def)
next
  case (2 delim icase c pat name)
  let ?drop = "dropWhile (\<lambda>x. x = c) pat"
  consider (star) "c = STAR" | (pct) "c = PCT" | (over) "name = []" "c \<noteq> STAR" "c \<noteq> PCT"
    | (char) b name' where "name = b # name'" "c \<noteq> STAR" "c \<noteq> PCT" by (cases name) auto
  then show ?case
  proof cases
    case star
    have run: "wild_decides r delim icase (c # pat) name \<longleftrightarrow> wild_decides r delim icase (STAR # ?drop) name" for r
      by (rule wild_decides_run) (use star wild_star_run in simp)
    show ?thesis
    proof (cases "?drop = []")
      case True
      then have "\<forall>x \<in> set pat. x = c" by simp
      with star show ?thesis unfolding run True by (simp add: wild_decides_def wild_star_all)
    next
      case False
      with star 2 show ?thesis
        unfolding run by (auto simp: wild_clean_star wild_clean_dropWhile wild_clean_tl)
    qed
  next
    case pct
    have run: "wild_decides r delim icase (c # pat) name \<longleftrightarrow> wild_decides r delim icase (PCT # ?drop) name" for r
      by (rule wild_decides_run) (use pct wild_percent_run in simp)
    show ?thesis
    proof (cases "?drop = []")
      case True
      then have "\<forall>x \<in> set pat. x = c" by simp
      with pct 2 show ?thesis unfolding run True by (simp add: wild_decides_def wild_percent_end)
    next
      case False
      with pct 2 show ?thesis
        unfolding run by (auto simp: wild_clean_dropWhile wild_clean_tl)
    qed
  next
    case over
    then show ?thesis by (simp add: wild_decides_def wild_matches_char wild_star_Nil)
  next
    case char
    show ?thesis
    proof (cases "wild_same icase c b")
      case True
      with char 2 have "wild_decides (wild_match delim icase pat name') delim icase pat name'"
        by (auto dest: wild_clean_tl)
      with True char show ?thesis by (auto simp: wild_decides_def wild_matches_char dest: wild_star_char)
    qed (use char in \<open>simp add: wild_decides_def wild_matches_char\<close>)
  qed
next
  case (3 delim icase pat)
  then show ?case by (simp add: wild_decides_def wild_star_Nil)
next
  case (4 delim icase pat b name)
  then show ?case
    by (auto simp: wild_decides_def wild_star_Cons wild_star_star split: wild.splits)
next
  case (5 delim icase pat)
  then show ?case by (simp add: wild_decides_def wild_star_Nil wild_percent_Nil)
next
  case (6 delim icase pat b name)
  then show ?case
    by (auto simp: wild_decides_def wild_percent_Cons wild_star_Cons dest: wild_star_percent wild_percent_star split: wild.splits)
qed

text \<open>What \<open>wild_clean\<close> excludes: \<open>*%\<close> stands for any name, but the code does not find that in names
  that end with the delimiter, nor in the empty one.\<close>

lemma wild_star_percent_misses:
  assumes "delim \<noteq> NUL"
  shows "wild_matches delim icase [STAR, PCT] name"
    and "wild_match delim icase [STAR, PCT] name = WILD_TRUE \<longleftrightarrow> name \<noteq> [] \<and> last name \<noteq> delim"
proof -
  show "wild_matches delim icase [STAR, PCT] name"
    by (subst wild_star_iff) (rule exI[of _ "[]"], simp add: wild_percent_Nil)
  have "wild_star delim icase [PCT] name = WILD_TRUE \<longleftrightarrow> name \<noteq> [] \<and> last name \<noteq> delim"
    by (induction name) (use assms last_in_set in \<open>auto split: if_splits\<close>)
  then show "wild_match delim icase [STAR, PCT] name = WILD_TRUE \<longleftrightarrow> name \<noteq> [] \<and> last name \<noteq> delim"
    by simp
qed

end
