(* ===== verification/List_Heap.thy ===== *)
theory List_Heap
  imports Mu_Prelude "HOL-Library.Monad_Syntax"
begin

text \<open>
  The doubly linked lists of \<open>libmailutils/list\<close> and their iterators (\<open>libmailutils/base/iterator.c\<close>), on a
  heap of nodes: the circle of nodes goes through \<open>head\<close>, the first field of the list object, so the
  list's own reference is the reference of that node. An access through a reference that is not
  allocated is \<open>None\<close>.
\<close>

section \<open>The heap\<close>

text \<open>References to objects, 0 is \<open>NULL\<close>; items are opaque pointers.\<close>

type_synonym ref = nat
type_synonym item = nat

record list_data =
  ld_item :: item
  ld_next :: ref
  ld_prev :: ref

text \<open>The list object without \<open>head\<close>. A destructor is known by a number, the chain of iterators
  (\<open>itr\<close>, linked by \<open>next_itr\<close>) is a list of references.\<close>

record mu_list =
  ml_count :: nat
  ml_comp :: "(item \<Rightarrow> item \<Rightarrow> int) option"
  ml_destroy_item :: "nat option"
  ml_itr :: "ref list"

text \<open>\<open>struct _mu_iterator\<close> with its owner's data (\<open>struct list_iterator\<close>) as one object.\<close>

record list_iterator =
  li_list :: ref
  li_cur :: ref
  li_backwards :: bool
  li_is_advanced :: nat

text \<open>\<open>calloc\<close> gives the references of \<open>hp_pool\<close> in turn and fails when there are none, \<open>free\<close> puts them
  back in front. The calls of destructors are recorded.\<close>

record lheap =
  hp_node :: "ref \<rightharpoonup> list_data"
  hp_list :: "ref \<rightharpoonup> mu_list"
  hp_itr :: "ref \<rightharpoonup> list_iterator"
  hp_pool :: "ref list"
  hp_destroyed :: "(nat \<times> item) list"

type_synonym lstatus = "mu_error option"

definition calloc :: "lheap \<Rightarrow> (ref \<times> lheap) option" where
  "calloc h = (case hp_pool h of [] \<Rightarrow> None | r # pool \<Rightarrow> Some (r, h\<lparr>hp_pool := pool\<rparr>))"

definition calloc_node :: "lheap \<Rightarrow> (ref \<times> lheap) option" where
  "calloc_node h =
     map_option (\<lambda>(r, h). (r, h\<lparr>hp_node := (hp_node h)(r \<mapsto> \<lparr>ld_item = 0, ld_next = 0, ld_prev = 0\<rparr>)\<rparr>)) (calloc h)"

definition free_node :: "ref \<Rightarrow> lheap \<Rightarrow> lheap" where
  "free_node r h = h\<lparr>hp_node := (hp_node h)(r := None), hp_pool := r # hp_pool h\<rparr>"

definition upd_node :: "ref \<Rightarrow> (list_data \<Rightarrow> list_data) \<Rightarrow> lheap \<Rightarrow> lheap option" where
  "upd_node r f h =
     map_option (\<lambda>d. h\<lparr>hp_node := (hp_node h)(r \<mapsto> f d)\<rparr>) (hp_node h r)"

definition get_item :: "ref \<Rightarrow> lheap \<Rightarrow> item option" where
  "get_item r h = map_option ld_item (hp_node h r)"

definition get_next :: "ref \<Rightarrow> lheap \<Rightarrow> ref option" where
  "get_next r h = map_option ld_next (hp_node h r)"

definition get_prev :: "ref \<Rightarrow> lheap \<Rightarrow> ref option" where
  "get_prev r h = map_option ld_prev (hp_node h r)"

definition set_item :: "ref \<Rightarrow> item \<Rightarrow> lheap \<Rightarrow> lheap option" where
  "set_item r x = upd_node r (\<lambda>d. d\<lparr>ld_item := x\<rparr>)"

definition set_next :: "ref \<Rightarrow> ref \<Rightarrow> lheap \<Rightarrow> lheap option" where
  "set_next r x = upd_node r (\<lambda>d. d\<lparr>ld_next := x\<rparr>)"

definition set_prev :: "ref \<Rightarrow> ref \<Rightarrow> lheap \<Rightarrow> lheap option" where
  "set_prev r x = upd_node r (\<lambda>d. d\<lparr>ld_prev := x\<rparr>)"

definition upd_list :: "ref \<Rightarrow> (mu_list \<Rightarrow> mu_list) \<Rightarrow> lheap \<Rightarrow> lheap option" where
  "upd_list r f h = map_option (\<lambda>l. h\<lparr>hp_list := (hp_list h)(r \<mapsto> f l)\<rparr>) (hp_list h r)"

definition upd_itr :: "ref \<Rightarrow> (list_iterator \<Rightarrow> list_iterator) \<Rightarrow> lheap \<Rightarrow> lheap option" where
  "upd_itr r f h = map_option (\<lambda>i. h\<lparr>hp_itr := (hp_itr h)(r \<mapsto> f i)\<rparr>) (hp_itr h r)"

section \<open>Creation and queries\<close>

definition mu_list_create :: "lheap \<Rightarrow> lheap \<times> (mu_error + ref)" where
  "mu_list_create h =
     (case calloc h of
        None \<Rightarrow> (h, Inl ENOMEM)
      | Some (r, h) \<Rightarrow>
          (h\<lparr>hp_node := (hp_node h)(r \<mapsto> \<lparr>ld_item = 0, ld_next = r, ld_prev = r\<rparr>),
             hp_list := (hp_list h)(r \<mapsto> \<lparr>ml_count = 0, ml_comp = None, ml_destroy_item = None, ml_itr = []\<rparr>)\<rparr>,
           Inr r))"

definition mu_list_count :: "ref \<Rightarrow> lheap \<Rightarrow> (mu_error + nat) option" where
  "mu_list_count list h =
     (if list = 0 then Some (Inl EINVAL) else map_option (\<lambda>l. Inr (ml_count l)) (hp_list h list))"

definition mu_list_is_empty :: "ref \<Rightarrow> lheap \<Rightarrow> bool option" where
  "mu_list_is_empty list h =
     map_option (\<lambda>r. (case r of Inl _ \<Rightarrow> 0 | Inr n \<Rightarrow> n) = 0) (mu_list_count list h)"

definition mu_list_head :: "ref \<Rightarrow> lheap \<Rightarrow> (mu_error + item) option" where
  "mu_list_head list h =
     (if list = 0 then Some (Inl EINVAL)
      else do {
        first \<leftarrow> get_next list h;
        if first = list then Some (Inl MU_ERR_NOENT) else map_option Inr (get_item first h)
      })"

definition mu_list_tail :: "ref \<Rightarrow> lheap \<Rightarrow> (mu_error + item) option" where
  "mu_list_tail list h =
     (if list = 0 then Some (Inl EINVAL)
      else do {
        last \<leftarrow> get_prev list h;
        if last = list then Some (Inl MU_ERR_NOENT) else map_option Inr (get_item last h)
      })"

definition list_ptr_comparator :: "item \<Rightarrow> item \<Rightarrow> int" where
  "list_ptr_comparator x value = (if x \<noteq> value then 1 else 0)"

definition list_comp :: "mu_list \<Rightarrow> item \<Rightarrow> item \<Rightarrow> int" where
  "list_comp l = (case ml_comp l of None \<Rightarrow> list_ptr_comparator | Some cmp \<Rightarrow> cmp)"

text \<open>The loop \<open>for (current = list->head.next; current != &list->head; current = current->next)\<close> that
  stops at the first node with a property of its position and item.\<close>

partial_function (option) list_search ::
  "(nat \<Rightarrow> item \<Rightarrow> bool) \<Rightarrow> lheap \<Rightarrow> ref \<Rightarrow> ref \<Rightarrow> nat \<Rightarrow> ref option option" where
  "list_search found h list current count =
     (if current = list then Some None
      else case hp_node h current of
        None \<Rightarrow> None
      | Some d \<Rightarrow>
          if found count (ld_item d) then Some (Some current)
          else list_search found h list (ld_next d) (Suc count))"


definition list_find :: "(nat \<Rightarrow> item \<Rightarrow> bool) \<Rightarrow> ref \<Rightarrow> lheap \<Rightarrow> ref option option" where
  "list_find found list h = do { first \<leftarrow> get_next list h; list_search found h list first 0 }"

definition list_lookup :: "ref \<Rightarrow> item \<Rightarrow> lheap \<Rightarrow> ref option option" where
  "list_lookup list x h =
     do { l \<leftarrow> hp_list h list; list_find (\<lambda>_ y. list_comp l y x = 0) list h }"

definition mu_list_get :: "ref \<Rightarrow> nat \<Rightarrow> lheap \<Rightarrow> (mu_error + item) option" where
  "mu_list_get list indx h =
     (if list = 0 then Some (Inl EINVAL)
      else do {
        pos \<leftarrow> list_find (\<lambda>count _. count = indx) list h;
        case pos of None \<Rightarrow> Some (Inl MU_ERR_NOENT) | Some current \<Rightarrow> map_option Inr (get_item current h)
      })"

definition mu_list_locate :: "ref \<Rightarrow> item \<Rightarrow> lheap \<Rightarrow> (mu_error + item) option" where
  "mu_list_locate list x h =
     (if list = 0 then Some (Inl EINVAL)
      else do {
        pos \<leftarrow> list_lookup list x h;
        case pos of None \<Rightarrow> Some (Inl MU_ERR_NOENT) | Some current \<Rightarrow> map_option Inr (get_item current h)
      })"

text \<open>\<open>mu_list_to_array\<close> with an array; what is written into its first elements.\<close>

partial_function (option) to_array_loop :: "lheap \<Rightarrow> ref \<Rightarrow> nat \<Rightarrow> ref \<Rightarrow> item list \<Rightarrow> item list option" where
  "to_array_loop h list n current array =
     (if length array < n \<and> current \<noteq> list then
        case hp_node h current of
          None \<Rightarrow> None
        | Some d \<Rightarrow> to_array_loop h list n (ld_next d) (array @ [ld_item d])
      else Some array)"

definition mu_list_to_array :: "ref \<Rightarrow> nat \<Rightarrow> lheap \<Rightarrow> (mu_error + item list \<times> nat) option" where
  "mu_list_to_array list count h =
     (if list = 0 then Some (Inl EINVAL)
      else do {
        l \<leftarrow> hp_list h list;
        first \<leftarrow> get_next list h;
        array \<leftarrow> to_array_loop h list (min count (ml_count l)) first [];
        Some (Inr (array, min count (ml_count l)))
      })"

text \<open>\<open>mu_list_fold\<close> and \<open>mu_list_rfold\<close>: the folder returns a status and the next value.\<close>

partial_function (option) fold_loop ::
  "bool \<Rightarrow> (item \<Rightarrow> 'v \<Rightarrow> lstatus \<times> 'v) \<Rightarrow> lheap \<Rightarrow> ref \<Rightarrow> ref \<Rightarrow> 'v \<Rightarrow> (lstatus \<times> 'v) option" where
  "fold_loop back f h list current prev =
     (if current = list then Some (None, prev)
      else case hp_node h current of
        None \<Rightarrow> None
      | Some d \<Rightarrow>
          (case f (ld_item d) prev of
             (Some e, v) \<Rightarrow> Some (Some e, v)
           | (None, v) \<Rightarrow> fold_loop back f h list (if back then ld_prev d else ld_next d) v))"

definition mu_list_fold ::
  "ref \<Rightarrow> (item \<Rightarrow> 'v \<Rightarrow> lstatus \<times> 'v) \<Rightarrow> 'v \<Rightarrow> lheap \<Rightarrow> (lstatus \<times> 'v) option" where
  "mu_list_fold list f prev h =
     (if list = 0 then Some (Some EINVAL, prev)
      else do { first \<leftarrow> get_next list h; fold_loop False f h list first prev })"

definition mu_list_rfold ::
  "ref \<Rightarrow> (item \<Rightarrow> 'v \<Rightarrow> lstatus \<times> 'v) \<Rightarrow> 'v \<Rightarrow> lheap \<Rightarrow> (lstatus \<times> 'v) option" where
  "mu_list_rfold list f prev h =
     (if list = 0 then Some (Some EINVAL, prev)
      else do { last \<leftarrow> get_prev list h; fold_loop True f h list last prev })"

section \<open>Iterators\<close>

definition itr_first :: "ref \<Rightarrow> lheap \<Rightarrow> lheap option" where
  "itr_first itr h =
     do {
       i \<leftarrow> hp_itr h itr;
       cur \<leftarrow> (if li_backwards i then get_prev (li_list i) h else get_next (li_list i) h);
       upd_itr itr (\<lambda>i. i\<lparr>li_cur := cur\<rparr>) h
     }"

definition itr_next :: "ref \<Rightarrow> lheap \<Rightarrow> lheap option" where
  "itr_next itr h =
     do {
       i \<leftarrow> hp_itr h itr;
       cur \<leftarrow> (if li_backwards i then get_prev (li_cur i) h else get_next (li_cur i) h);
       upd_itr itr (\<lambda>i. i\<lparr>li_cur := cur\<rparr>) h
     }"

definition mu_iterator_first :: "ref \<Rightarrow> lheap \<Rightarrow> lheap option" where
  "mu_iterator_first itr h = do { h \<leftarrow> upd_itr itr (\<lambda>i. i\<lparr>li_is_advanced := 0\<rparr>) h; itr_first itr h }"

definition mu_iterator_next :: "ref \<Rightarrow> lheap \<Rightarrow> lheap option" where
  "mu_iterator_next itr h =
     do {
       i \<leftarrow> hp_itr h itr;
       h \<leftarrow> (if li_is_advanced i = 0 then itr_next itr h else Some h);
       upd_itr itr (\<lambda>i. i\<lparr>li_is_advanced := 0\<rparr>) h
     }"

definition mu_iterator_current :: "ref \<Rightarrow> lheap \<Rightarrow> item option" where
  "mu_iterator_current itr h = do { i \<leftarrow> hp_itr h itr; get_item (li_cur i) h }"

definition mu_iterator_is_done :: "ref \<Rightarrow> lheap \<Rightarrow> bool option" where
  "mu_iterator_is_done itr h = map_option (\<lambda>i. li_cur i = li_list i) (hp_itr h itr)"

text \<open>Every iterator of the chain that stands at the node to be deleted moves on and is marked.\<close>

fun mu_iterator_delitem :: "ref list \<Rightarrow> ref \<Rightarrow> lheap \<Rightarrow> lheap option" where
  "mu_iterator_delitem [] itm h = Some h"
| "mu_iterator_delitem (itr # chain) itm h =
     do {
       i \<leftarrow> hp_itr h itr;
       h \<leftarrow> (if li_cur i = itm
             then do { h \<leftarrow> itr_next itr h; upd_itr itr (\<lambda>i. i\<lparr>li_is_advanced := li_is_advanced i + 1\<rparr>) h }
             else Some h);
       mu_iterator_delitem chain itm h
     }"

definition mu_list_get_iterator :: "ref \<Rightarrow> lheap \<Rightarrow> (lheap \<times> (mu_error + ref)) option" where
  "mu_list_get_iterator list h =
     (if list = 0 then Some (h, Inl EINVAL)
      else case calloc h of
        None \<Rightarrow> Some (h, Inl ENOMEM)
      | Some (itr, h) \<Rightarrow>
          map_option (\<lambda>h. (h, Inr itr))
            (upd_list list (\<lambda>l. l\<lparr>ml_itr := itr # ml_itr l\<rparr>)
              (h\<lparr>hp_itr := (hp_itr h)(itr \<mapsto> \<lparr>li_list = list, li_cur = 0, li_backwards = False, li_is_advanced = 0\<rparr>)\<rparr>)))"

text \<open>The copy is not attached to the list.\<close>

definition mu_iterator_dup :: "ref \<Rightarrow> lheap \<Rightarrow> (lheap \<times> (mu_error + ref)) option" where
  "mu_iterator_dup orig h =
     (if orig = 0 then Some (h, Inl EINVAL)
      else case calloc h of
        None \<Rightarrow> Some (h, Inl ENOMEM)
      | Some (itr, h) \<Rightarrow>
          map_option (\<lambda>i. (h\<lparr>hp_itr := (hp_itr h)(itr \<mapsto> i)\<rparr>, Inr itr)) (hp_itr h orig))"

definition mu_iterator_destroy :: "ref \<Rightarrow> lheap \<Rightarrow> lheap option" where
  "mu_iterator_destroy itr h =
     (if itr = 0 then Some h
      else do {
        i \<leftarrow> hp_itr h itr;
        h \<leftarrow> upd_list (li_list i) (\<lambda>l. l\<lparr>ml_itr := remove1 itr (ml_itr l)\<rparr>) h;
        Some (h\<lparr>hp_itr := (hp_itr h)(itr := None), hp_pool := itr # hp_pool h\<rparr>)
      })"

section \<open>Changing a list\<close>

definition mu_list_append :: "ref \<Rightarrow> item \<Rightarrow> lheap \<Rightarrow> (lheap \<times> lstatus) option" where
  "mu_list_append list x h =
     (if list = 0 then Some (h, Some EINVAL)
      else do {
        last \<leftarrow> get_prev list h;
        case calloc_node h of
          None \<Rightarrow> Some (h, Some ENOMEM)
        | Some (ldata, h) \<Rightarrow> do {
            h \<leftarrow> set_item ldata x h;
            h \<leftarrow> set_next ldata list h;
            prev \<leftarrow> get_prev list h;
            h \<leftarrow> set_prev ldata prev h;
            h \<leftarrow> set_next last ldata h;
            h \<leftarrow> set_prev list ldata h;
            h \<leftarrow> upd_list list (\<lambda>l. l\<lparr>ml_count := ml_count l + 1\<rparr>) h;
            Some (h, None)
          }
      })"

definition mu_list_push :: "ref \<Rightarrow> item \<Rightarrow> lheap \<Rightarrow> (lheap \<times> lstatus) option" where
  "mu_list_push = mu_list_append"

definition mu_list_prepend :: "ref \<Rightarrow> item \<Rightarrow> lheap \<Rightarrow> (lheap \<times> lstatus) option" where
  "mu_list_prepend list x h =
     (if list = 0 then Some (h, Some EINVAL)
      else do {
        first \<leftarrow> get_next list h;
        case calloc_node h of
          None \<Rightarrow> Some (h, Some ENOMEM)
        | Some (ldata, h) \<Rightarrow> do {
            h \<leftarrow> set_item ldata x h;
            h \<leftarrow> set_prev ldata list h;
            next \<leftarrow> get_next list h;
            h \<leftarrow> set_next ldata next h;
            h \<leftarrow> set_prev first ldata h;
            h \<leftarrow> set_next list ldata h;
            h \<leftarrow> upd_list list (\<lambda>l. l\<lparr>ml_count := ml_count l + 1\<rparr>) h;
            Some (h, None)
          }
      })"

text \<open>The chain from \<open>head\<close> to \<open>tail\<close> is linked in before or behind \<open>current\<close>.\<close>

definition list_insert_sublist :: "ref \<Rightarrow> ref \<Rightarrow> ref \<Rightarrow> ref \<Rightarrow> nat \<Rightarrow> bool \<Rightarrow> lheap \<Rightarrow> lheap option" where
  "list_insert_sublist list current head tail count insert_before h =
     do {
       h \<leftarrow> (if insert_before then do {
           prev \<leftarrow> get_prev current h;
           h \<leftarrow> set_prev head prev h;
           h \<leftarrow> set_next tail current h;
           prev \<leftarrow> get_prev current h;
           h \<leftarrow> (if prev \<noteq> list then set_next prev head h else set_next list head h);
           set_prev current tail h
         } else do {
           next \<leftarrow> get_next current h;
           h \<leftarrow> set_next tail next h;
           h \<leftarrow> set_prev head current h;
           next \<leftarrow> get_next current h;
           h \<leftarrow> (if next \<noteq> list then set_prev next tail h else set_prev list tail h);
           set_next current head h
         });
       upd_list list (\<lambda>l. l\<lparr>ml_count := ml_count l + count\<rparr>) h
     }"

definition list_insert_item :: "ref \<Rightarrow> ref \<Rightarrow> item \<Rightarrow> bool \<Rightarrow> lheap \<Rightarrow> (lheap \<times> lstatus) option" where
  "list_insert_item list current new_item insert_before h =
     (case calloc_node h of
        None \<Rightarrow> Some (h, Some ENOMEM)
      | Some (ldata, h) \<Rightarrow> do {
          h \<leftarrow> set_item ldata new_item h;
          h \<leftarrow> list_insert_sublist list current ldata ldata 1 insert_before h;
          Some (h, None)
        })"

definition mu_list_insert :: "ref \<Rightarrow> item \<Rightarrow> item \<Rightarrow> bool \<Rightarrow> lheap \<Rightarrow> (lheap \<times> lstatus) option" where
  "mu_list_insert list x new_item insert_before h =
     (if list = 0 then Some (h, Some EINVAL)
      else do {
        pos \<leftarrow> list_lookup list x h;
        case pos of
          None \<Rightarrow> Some (h, Some MU_ERR_NOENT)
        | Some current \<Rightarrow> list_insert_item list current new_item insert_before h
      })"

definition DESTROY_ITEM :: "ref \<Rightarrow> ref \<Rightarrow> lheap \<Rightarrow> lheap option" where
  "DESTROY_ITEM list elt h =
     do {
       l \<leftarrow> hp_list h list;
       x \<leftarrow> get_item elt h;
       Some (case ml_destroy_item l of None \<Rightarrow> h | Some f \<Rightarrow> h\<lparr>hp_destroyed := hp_destroyed h @ [(f, x)]\<rparr>)
     }"

text \<open>The deletion of a node, which \<open>mu_list_remove\<close>, \<open>mu_list_remove_nth\<close>, \<open>mu_list_pop\<close> and the iterator's
  delete request spell out each. Without \<open>destroy\<close> the item is kept.\<close>

definition list_delete :: "ref \<Rightarrow> ref \<Rightarrow> bool \<Rightarrow> lheap \<Rightarrow> lheap option" where
  "list_delete list current destroy h =
     do {
       previous \<leftarrow> get_prev current h;
       l \<leftarrow> hp_list h list;
       h \<leftarrow> mu_iterator_delitem (ml_itr l) current h;
       next \<leftarrow> get_next current h;
       h \<leftarrow> set_next previous next h;
       next \<leftarrow> get_next current h;
       h \<leftarrow> set_prev next previous h;
       h \<leftarrow> (if destroy then DESTROY_ITEM list current h else Some h);
       upd_list list (\<lambda>l. l\<lparr>ml_count := ml_count l - 1\<rparr>) (free_node current h)
     }"

definition mu_list_remove :: "ref \<Rightarrow> item \<Rightarrow> lheap \<Rightarrow> (lheap \<times> lstatus) option" where
  "mu_list_remove list x h =
     (if list = 0 then Some (h, Some EINVAL)
      else do {
        pos \<leftarrow> list_lookup list x h;
        case pos of
          None \<Rightarrow> Some (h, Some MU_ERR_NOENT)
        | Some current \<Rightarrow> do { h \<leftarrow> list_delete list current True h; Some (h, None) }
      })"

definition mu_list_remove_nth :: "ref \<Rightarrow> nat \<Rightarrow> lheap \<Rightarrow> (lheap \<times> lstatus) option" where
  "mu_list_remove_nth list n h =
     (if list = 0 then Some (h, Some EINVAL)
      else do {
        l \<leftarrow> hp_list h list;
        if n \<ge> ml_count l then Some (h, Some ERANGE)
        else do {
          pos \<leftarrow> list_find (\<lambda>i _. i = n) list h;
          case pos of
            None \<Rightarrow> Some (h, Some MU_ERR_NOENT)
          | Some current \<Rightarrow> do { h \<leftarrow> list_delete list current True h; Some (h, None) }
        }
      })"

definition mu_list_pop :: "ref \<Rightarrow> bool \<Rightarrow> lheap \<Rightarrow> (lheap \<times> (mu_error + item)) option" where
  "mu_list_pop list keep h =
     (if list = 0 then Some (h, Inl EINVAL)
      else do {
        l \<leftarrow> hp_list h list;
        if ml_count l = 0 then Some (h, Inl MU_ERR_NOENT)
        else do {
          last \<leftarrow> get_prev list h;
          x \<leftarrow> get_item last h;
          h \<leftarrow> list_delete list last (\<not> keep) h;
          Some (h, Inr x)
        }
      })"

definition mu_list_replace :: "ref \<Rightarrow> item \<Rightarrow> item \<Rightarrow> lheap \<Rightarrow> (lheap \<times> lstatus) option" where
  "mu_list_replace list old_item new_item h =
     (if list = 0 then Some (h, Some EINVAL)
      else do {
        pos \<leftarrow> list_lookup list old_item h;
        case pos of
          None \<Rightarrow> Some (h, Some MU_ERR_NOENT)
        | Some current \<Rightarrow> do {
            h \<leftarrow> DESTROY_ITEM list current h;
            h \<leftarrow> set_item current new_item h;
            Some (h, None)
          }
      })"

text \<open>The setters; \<open>mu_list_set_destroy_item\<close> does not test for a null list.\<close>

definition mu_list_set_comparator ::
  "ref \<Rightarrow> (item \<Rightarrow> item \<Rightarrow> int) option \<Rightarrow> lheap \<Rightarrow> (lheap \<times> (item \<Rightarrow> item \<Rightarrow> int) option) option" where
  "mu_list_set_comparator list cmp h =
     (if list = 0 then Some (h, None)
      else do { l \<leftarrow> hp_list h list; h \<leftarrow> upd_list list (\<lambda>l. l\<lparr>ml_comp := cmp\<rparr>) h; Some (h, ml_comp l) })"

definition mu_list_set_destroy_item :: "ref \<Rightarrow> nat option \<Rightarrow> lheap \<Rightarrow> (lheap \<times> nat option) option" where
  "mu_list_set_destroy_item list f h =
     do { l \<leftarrow> hp_list h list; h \<leftarrow> upd_list list (\<lambda>l. l\<lparr>ml_destroy_item := f\<rparr>) h; Some (h, ml_destroy_item l) }"

text \<open>The variants that keep the items (\<open>_nd\<close>).\<close>

definition without_destroy ::
  "(lheap \<Rightarrow> (lheap \<times> 'r) option) \<Rightarrow> ref \<Rightarrow> lheap \<Rightarrow> (lheap \<times> 'r) option" where
  "without_destroy act list h =
     do {
       (h, dptr) \<leftarrow> mu_list_set_destroy_item list None h;
       (h, rc) \<leftarrow> act h;
       (h, _) \<leftarrow> mu_list_set_destroy_item list dptr h;
       Some (h, rc)
     }"

definition mu_list_remove_nd :: "ref \<Rightarrow> item \<Rightarrow> lheap \<Rightarrow> (lheap \<times> lstatus) option" where
  "mu_list_remove_nd list x = without_destroy (mu_list_remove list x) list"

definition mu_list_remove_nth_nd :: "ref \<Rightarrow> nat \<Rightarrow> lheap \<Rightarrow> (lheap \<times> lstatus) option" where
  "mu_list_remove_nth_nd list n = without_destroy (mu_list_remove_nth list n) list"

definition mu_list_replace_nd :: "ref \<Rightarrow> item \<Rightarrow> item \<Rightarrow> lheap \<Rightarrow> (lheap \<times> lstatus) option" where
  "mu_list_replace_nd list x y = without_destroy (mu_list_replace list x y) list"

text \<open>\<open>mu_list_clear\<close> tells no iterator.\<close>

partial_function (option) list_clear_loop :: "ref \<Rightarrow> ref \<Rightarrow> lheap \<Rightarrow> lheap option" where
  "list_clear_loop list current h =
     (if current = list then Some h
      else case get_next current h of
        None \<Rightarrow> None
      | Some next \<Rightarrow>
          (case DESTROY_ITEM list current h of
             None \<Rightarrow> None
           | Some h \<Rightarrow> list_clear_loop list next (free_node current h)))"

definition list_reset :: "ref \<Rightarrow> lheap \<Rightarrow> lheap option" where
  "list_reset list h =
     do {
       h \<leftarrow> set_prev list list h;
       h \<leftarrow> set_next list list h;
       upd_list list (\<lambda>l. l\<lparr>ml_count := 0\<rparr>) h
     }"

definition mu_list_clear :: "ref \<Rightarrow> lheap \<Rightarrow> lheap option" where
  "mu_list_clear list h =
     (if list = 0 then Some h
      else do { first \<leftarrow> get_next list h; h \<leftarrow> list_clear_loop list first h; list_reset list h })"

definition mu_list_destroy :: "ref \<Rightarrow> lheap \<Rightarrow> lheap option" where
  "mu_list_destroy list h =
     (if list = 0 then Some h
      else do {
        h \<leftarrow> mu_list_clear list h;
        Some ((free_node list h)\<lparr>hp_list := (hp_list h)(list := None)\<rparr>)
      })"

section \<open>Moving the nodes of one list to another\<close>

definition mu_list_insert_list :: "ref \<Rightarrow> item \<Rightarrow> ref \<Rightarrow> bool \<Rightarrow> lheap \<Rightarrow> (lheap \<times> lstatus) option" where
  "mu_list_insert_list list x new_list insert_before h =
     (if list = 0 then Some (h, Some EINVAL)
      else do {
        pos \<leftarrow> list_lookup list x h;
        case pos of
          None \<Rightarrow> Some (h, Some MU_ERR_NOENT)
        | Some current \<Rightarrow> do {
            first \<leftarrow> get_next new_list h;
            last \<leftarrow> get_prev new_list h;
            n \<leftarrow> hp_list h new_list;
            h \<leftarrow> list_insert_sublist list current first last (ml_count n) insert_before h;
            h \<leftarrow> list_reset new_list h;
            Some (h, None)
          }
      })"

text \<open>\<open>list->head = new_list->head\<close> and the two links of the first and the last node.\<close>

definition list_take_head :: "ref \<Rightarrow> ref \<Rightarrow> lheap \<Rightarrow> lheap option" where
  "list_take_head list new_list h =
     do {
       n \<leftarrow> hp_list h new_list;
       d \<leftarrow> hp_node h new_list;
       h \<leftarrow> upd_node list (\<lambda>_. d) h;
       last \<leftarrow> get_prev list h;
       h \<leftarrow> set_next last list h;
       first \<leftarrow> get_next list h;
       h \<leftarrow> set_prev first list h;
       upd_list list (\<lambda>l. l\<lparr>ml_count := ml_count n\<rparr>) h
     }"

definition mu_list_append_list :: "ref \<Rightarrow> ref \<Rightarrow> lheap \<Rightarrow> lheap option" where
  "mu_list_append_list list new_list h =
     do {
       n \<leftarrow> hp_list h new_list;
       l \<leftarrow> hp_list h list;
       if ml_count n = 0 then Some h
       else do {
         h \<leftarrow> (if ml_count l = 0 then list_take_head list new_list h
               else do {
                 current \<leftarrow> get_prev list h;
                 first \<leftarrow> get_next new_list h;
                 last \<leftarrow> get_prev new_list h;
                 list_insert_sublist list current first last (ml_count n) False h
               });
         list_reset new_list h
       }
     }"

definition mu_list_prepend_list :: "ref \<Rightarrow> ref \<Rightarrow> lheap \<Rightarrow> lheap option" where
  "mu_list_prepend_list list new_list h =
     do {
       n \<leftarrow> hp_list h new_list;
       l \<leftarrow> hp_list h list;
       h \<leftarrow> (if ml_count l = 0 then list_take_head list new_list h
             else do {
               current \<leftarrow> get_next list h;
               first \<leftarrow> get_next new_list h;
               last \<leftarrow> get_prev new_list h;
               list_insert_sublist list current first last (ml_count n) True h
             });
       list_reset new_list h
     }"

section \<open>Requests to an iterator\<close>

text \<open>The cases of \<open>list_itrctl\<close>. The position is counted by walking from the start.\<close>

partial_function (option) itr_tell_loop :: "lheap \<Rightarrow> ref \<Rightarrow> ref \<Rightarrow> ref \<Rightarrow> nat \<Rightarrow> (mu_error + nat) option" where
  "itr_tell_loop h list cur ptr count =
     (if ptr = list then Some (Inl MU_ERR_NOENT)
      else if ptr = cur then Some (Inr count)
      else case get_next ptr h of None \<Rightarrow> None | Some next \<Rightarrow> itr_tell_loop h list cur next (Suc count))"

definition itr_tell :: "ref \<Rightarrow> lheap \<Rightarrow> (mu_error + nat) option" where
  "itr_tell itr h =
     do {
       i \<leftarrow> hp_itr h itr;
       if li_cur i = 0 then Some (Inl MU_ERR_NOENT)
       else do { first \<leftarrow> get_next (li_list i) h; itr_tell_loop h (li_list i) (li_cur i) first 0 }
     }"

definition itr_delete :: "ref \<Rightarrow> bool \<Rightarrow> lheap \<Rightarrow> (lheap \<times> lstatus) option" where
  "itr_delete itr destroy h =
     do {
       i \<leftarrow> hp_itr h itr;
       if li_cur i = 0 then Some (h, Some MU_ERR_NOENT)
       else do { h \<leftarrow> list_delete (li_list i) (li_cur i) destroy h; Some (h, None) }
     }"

definition itr_replace :: "ref \<Rightarrow> bool \<Rightarrow> item \<Rightarrow> lheap \<Rightarrow> (lheap \<times> lstatus) option" where
  "itr_replace itr destroy arg h =
     do {
       i \<leftarrow> hp_itr h itr;
       if li_cur i = 0 then Some (h, Some MU_ERR_NOENT)
       else if arg = 0 then Some (h, Some EINVAL)
       else do {
         h \<leftarrow> (if destroy then DESTROY_ITEM (li_list i) (li_cur i) h else Some h);
         h \<leftarrow> set_item (li_cur i) arg h;
         Some (h, None)
       }
     }"

definition itr_insert :: "ref \<Rightarrow> item \<Rightarrow> lheap \<Rightarrow> (lheap \<times> lstatus) option" where
  "itr_insert itr arg h =
     do {
       i \<leftarrow> hp_itr h itr;
       if li_cur i = 0 then Some (h, Some MU_ERR_NOENT)
       else if arg = 0 then Some (h, Some EINVAL)
       else list_insert_item (li_list i) (li_cur i) arg False h
     }"

definition itr_insert_list :: "ref \<Rightarrow> ref \<Rightarrow> lheap \<Rightarrow> (lheap \<times> lstatus) option" where
  "itr_insert_list itr new_list h =
     do {
       i \<leftarrow> hp_itr h itr;
       if li_cur i = 0 then Some (h, Some MU_ERR_NOENT)
       else if new_list = 0 then Some (h, Some EINVAL)
       else do {
         first \<leftarrow> get_next new_list h;
         last \<leftarrow> get_prev new_list h;
         n \<leftarrow> hp_list h new_list;
         h \<leftarrow> list_insert_sublist (li_list i) (li_cur i) first last (ml_count n) False h;
         h \<leftarrow> list_reset new_list h;
         Some (h, None)
       }
     }"

definition itr_set_direction :: "ref \<Rightarrow> bool \<Rightarrow> lheap \<Rightarrow> lheap option" where
  "itr_set_direction itr back = upd_itr itr (\<lambda>i. i\<lparr>li_backwards := back\<rparr>)"

section \<open>Iteration\<close>

text \<open>\<open>mu_list_foreach_dir\<close> and \<open>mu_list_foreach\<close>: the action may change the list and has a state of its own
  (\<open>cbdata\<close>); it may also not return.\<close>

type_synonym 's list_action = "item \<Rightarrow> lheap \<times> 's \<Rightarrow> ((lheap \<times> 's) \<times> lstatus) option"

partial_function (option) foreach_loop ::
  "'s list_action \<Rightarrow> ref \<Rightarrow> lheap \<times> 's \<Rightarrow> ((lheap \<times> 's) \<times> lstatus) option" where
  "foreach_loop action itr hs =
     (case mu_iterator_is_done itr (fst hs) of
        None \<Rightarrow> None
      | Some d \<Rightarrow>
          if d then Some (hs, None)
          else case mu_iterator_current itr (fst hs) of
            None \<Rightarrow> None
          | Some x \<Rightarrow>
              (case action x hs of
                 None \<Rightarrow> None
               | Some r \<Rightarrow>
                   if snd r \<noteq> None then Some r
                   else case mu_iterator_next itr (fst (fst r)) of
                     None \<Rightarrow> None
                   | Some h \<Rightarrow> foreach_loop action itr (h, snd (fst r))))"

definition mu_list_foreach_dir ::
  "ref \<Rightarrow> bool \<Rightarrow> 's list_action \<Rightarrow> lheap \<times> 's \<Rightarrow> ((lheap \<times> 's) \<times> lstatus) option" where
  "mu_list_foreach_dir list dir action hs =
     (if list = 0 then Some (hs, None)
      else do {
        (h, r) \<leftarrow> mu_list_get_iterator list (fst hs);
        case r of
          Inl e \<Rightarrow> Some ((h, snd hs), Some e)
        | Inr itr \<Rightarrow> do {
            h \<leftarrow> itr_set_direction itr dir h;
            h \<leftarrow> mu_iterator_first itr h;
            (hs, status) \<leftarrow> foreach_loop action itr (h, snd hs);
            h \<leftarrow> mu_iterator_destroy itr (fst hs);
            Some ((h, snd hs), status)
          }
      })"

definition mu_list_foreach ::
  "ref \<Rightarrow> 's list_action \<Rightarrow> lheap \<times> 's \<Rightarrow> ((lheap \<times> 's) \<times> lstatus) option" where
  "mu_list_foreach list action hs =
     (if list = 0 then Some (hs, None)
      else do {
        (h, r) \<leftarrow> mu_list_get_iterator list (fst hs);
        case r of
          Inl e \<Rightarrow> Some ((h, snd hs), Some e)
        | Inr itr \<Rightarrow> do {
            h \<leftarrow> mu_iterator_first itr h;
            (hs, status) \<leftarrow> foreach_loop action itr (h, snd hs);
            h \<leftarrow> mu_iterator_destroy itr (fst hs);
            Some ((h, snd hs), status)
          }
      })"

text \<open>\<open>mu_list_intersect_dup\<close> without \<open>dup_item\<close>; a failed append is not noticed.\<close>

definition intersect_action :: "ref \<Rightarrow> ref \<Rightarrow> unit list_action" where
  "intersect_action dest b x hs =
     do {
       r \<leftarrow> mu_list_locate b x (fst hs);
       case r of
         Inl _ \<Rightarrow> Some (hs, None)
       | Inr _ \<Rightarrow> do { (h, _) \<leftarrow> mu_list_append dest x (fst hs); Some ((h, ()), None) }
     }"

definition mu_list_intersect :: "ref \<Rightarrow> ref \<Rightarrow> lheap \<Rightarrow> (lheap \<times> (mu_error + ref)) option" where
  "mu_list_intersect a b h =
     (case mu_list_create h of
        (h, Inl e) \<Rightarrow> Some (h, Inl e)
      | (h, Inr dest) \<Rightarrow> do {
          lb \<leftarrow> hp_list h b;
          (h, _) \<leftarrow> mu_list_set_comparator dest (ml_comp lb) h;
          (h, r) \<leftarrow> mu_list_get_iterator a h;
          case r of
            Inl e \<Rightarrow> do { h \<leftarrow> mu_list_destroy dest h; Some (h, Inl e) }
          | Inr itr \<Rightarrow> do {
              h \<leftarrow> mu_iterator_first itr h;
              (hs, _) \<leftarrow> foreach_loop (intersect_action dest b) itr (h, ());
              h \<leftarrow> mu_iterator_destroy itr (fst hs);
              Some (h, Inr dest)
            }
        })"

declare list_search.simps [code] to_array_loop.simps [code] fold_loop.simps [code] list_clear_loop.simps [code]
  itr_tell_loop.simps [code] foreach_loop.simps [code]

end
