(* ===== verification/List_Ring.thy ===== *)
theory List_Ring
  imports List_Heap
begin

text \<open>
  The circle of nodes of a list on the heap, the well-formedness of all lists and iterators of a
  heap, and how linking in and out of a chain changes the circle.
\<close>

section \<open>Circles\<close>

type_synonym node_map = "ref \<rightharpoonup> list_data"

definition nxt :: "node_map \<Rightarrow> ref \<Rightarrow> ref option" where
  "nxt N r = map_option ld_next (N r)"

definition prv :: "node_map \<Rightarrow> ref \<Rightarrow> ref option" where
  "prv N r = map_option ld_prev (N r)"

definition itm :: "node_map \<Rightarrow> ref \<Rightarrow> item" where
  "itm N r = ld_item (the (N r))"

definition linked :: "node_map \<Rightarrow> ref \<Rightarrow> ref \<Rightarrow> bool" where
  "linked N a b \<longleftrightarrow> nxt N a = Some b \<and> prv N b = Some a"

text \<open>\<open>rs\<close> are the nodes of the list \<open>p\<close> in order.\<close>

definition ring :: "node_map \<Rightarrow> ref \<Rightarrow> ref list \<Rightarrow> bool" where
  "ring N p rs \<longleftrightarrow> distinct (p # rs) \<and> successively (linked N) (p # rs @ [p])"

lemma successively_frame:
  assumes "\<And>a. a \<in> set (butlast cs) \<Longrightarrow> nxt N' a = nxt N a" "\<And>b. b \<in> set (tl cs) \<Longrightarrow> prv N' b = prv N b"
  shows "successively (linked N') cs = successively (linked N) cs"
  using assms
proof (induction cs rule: induct_list012)
  case (3 a b cs)
  moreover from 3 have "successively (linked N') (b # cs) = successively (linked N) (b # cs)"
    by (intro 3) (auto split: if_splits dest: in_set_butlastD list.set_sel(2))
  ultimately show ?case by (auto simp: linked_def)
qed auto

lemma ring_frame:
  assumes "\<And>a. a \<in> set (p # rs) \<Longrightarrow> nxt N' a = nxt N a \<and> prv N' a = prv N a"
  shows "ring N' p rs \<longleftrightarrow> ring N p rs"
  unfolding ring_def using assms
  by (intro conj_cong refl successively_frame) (auto dest: in_set_butlastD split: if_splits)

lemma ring_Nil: "ring N p [] \<longleftrightarrow> nxt N p = Some p \<and> prv N p = Some p"
  by (auto simp: ring_def linked_def)

lemma ring_dom: "ring N p rs \<Longrightarrow> set (p # rs) \<subseteq> dom N"
proof
  fix x assume r: "ring N p rs" and x: "x \<in> set (p # rs)"
  then obtain ys zs where "p # rs = ys @ x # zs" by (meson split_list)
  then have eq: "p # rs @ [p] = ys @ x # zs @ [p]" by (metis append_Cons append_assoc)
  from r have "successively (linked N) (ys @ x # zs @ [p])" unfolding eq[symmetric] by (simp add: ring_def)
  then have "successively (linked N) (x # zs @ [p])" by (simp add: successively_append_iff)
  then show "x \<in> dom N" by (cases zs) (auto simp: linked_def nxt_def)
qed

text \<open>The neighbours of a node. Any node \<open>u\<close> with what comes before it is \<open>u = last (p # xs)\<close>.\<close>

lemma ring_split:
  "ring N p (xs @ ys) \<longleftrightarrow> distinct (p # xs @ ys) \<and> successively (linked N) (p # xs) \<and>
     successively (linked N) (ys @ [p]) \<and> linked N (last (p # xs)) (hd (ys @ [p]))"
  by (auto simp: ring_def successively_append_iff[of _ "p # xs" "ys @ [p]", simplified])

lemma ring_nxt: "ring N p (xs @ ys) \<Longrightarrow> nxt N (last (p # xs)) = Some (hd (ys @ [p]))"
  by (simp add: ring_split linked_def)

lemma ring_prv: "ring N p (xs @ ys) \<Longrightarrow> prv N (hd (ys @ [p])) = Some (last (p # xs))"
  by (simp add: ring_split linked_def)

lemma ring_first: "ring N p rs \<Longrightarrow> nxt N p = Some (hd (rs @ [p]))"
  using ring_nxt[of N p "[]" rs] by simp

lemma ring_last: "ring N p rs \<Longrightarrow> prv N p = Some (last (p # rs))"
  using ring_prv[of N p rs "[]"] by simp

text \<open>The two halves around a gap keep their links if those at the gap alone change.\<close>

lemma ring_halves:
  assumes d: "distinct (p # xs @ ys)"
    and nxt: "\<And>a. a \<in> set (p # xs @ ys) \<Longrightarrow> a \<noteq> last (p # xs) \<Longrightarrow> nxt N' a = nxt N a"
    and prv: "\<And>a. a \<in> set (p # xs @ ys) \<Longrightarrow> a \<noteq> hd (ys @ [p]) \<Longrightarrow> prv N' a = prv N a"
  shows "successively (linked N') (p # xs) = successively (linked N) (p # xs)"
    and "successively (linked N') (ys @ [p]) = successively (linked N) (ys @ [p])"
proof -
  show "successively (linked N') (p # xs) = successively (linked N) (p # xs)"
  proof (rule successively_frame)
    fix a assume "a \<in> set (butlast (p # xs))"
    with d have "a \<noteq> last (p # xs)" "a \<in> set (p # xs @ ys)"
      by (cases xs rule: rev_cases; auto)+
    then show "nxt N' a = nxt N a" by (intro nxt)
  next
    fix b assume "b \<in> set (tl (p # xs))"
    with d have "b \<noteq> hd (ys @ [p])" "b \<in> set (p # xs @ ys)" by (cases ys; auto)+
    then show "prv N' b = prv N b" by (intro prv)
  qed
  show "successively (linked N') (ys @ [p]) = successively (linked N) (ys @ [p])"
  proof (rule successively_frame)
    fix a assume "a \<in> set (butlast (ys @ [p]))"
    with d have "a \<noteq> last (p # xs)" "a \<in> set (p # xs @ ys)" by (cases xs rule: rev_cases; auto)+
    then show "nxt N' a = nxt N a" by (intro nxt)
  next
    fix b assume "b \<in> set (tl (ys @ [p]))"
    with d have "b \<noteq> hd (ys @ [p])" "b \<in> set (p # xs @ ys)" by (cases ys; auto)+
    then show "prv N' b = prv N b" by (intro prv)
  qed
qed

text \<open>Linking in a chain \<open>zs\<close> behind \<open>u\<close>.\<close>

lemma ring_insert:
  assumes r: "ring N p (xs @ ys)"
    and zs: "zs \<noteq> []" "distinct zs" "set zs \<inter> set (p # xs @ ys) = {}" "successively (linked N') zs"
    and ends: "linked N' (last (p # xs)) (hd zs)" "linked N' (last zs) (hd (ys @ [p]))"
    and nxt: "\<And>a. a \<in> set (p # xs @ ys) \<Longrightarrow> a \<noteq> last (p # xs) \<Longrightarrow> nxt N' a = nxt N a"
    and prv: "\<And>a. a \<in> set (p # xs @ ys) \<Longrightarrow> a \<noteq> hd (ys @ [p]) \<Longrightarrow> prv N' a = prv N a"
  shows "ring N' p (xs @ zs @ ys)"
proof -
  have d: "distinct (p # xs @ ys)" using r by (simp add: ring_def)
  have p: "successively (linked N') (p # xs)" "successively (linked N') (ys @ [p])"
    using ring_halves[OF d nxt prv] r by (simp_all add: ring_split)
  have "successively (linked N') (zs @ ys @ [p])"
    using zs(1,4) p(2) ends(2) by (simp add: successively_append_iff)
  then have "successively (linked N') ((p # xs) @ zs @ ys @ [p])"
    using p(1) ends(1) zs(1) by (simp only: successively_append_iff) simp
  then show ?thesis using d zs by (auto simp: ring_def)
qed

text \<open>Linking out.\<close>

lemma ring_remove:
  assumes r: "ring N p (xs @ c # ys)"
    and ends: "linked N' (last (p # xs)) (hd (ys @ [p]))"
    and nxt: "\<And>a. a \<in> set (p # xs @ ys) \<Longrightarrow> a \<noteq> last (p # xs) \<Longrightarrow> nxt N' a = nxt N a"
    and prv: "\<And>a. a \<in> set (p # xs @ ys) \<Longrightarrow> a \<noteq> hd (ys @ [p]) \<Longrightarrow> prv N' a = prv N a"
  shows "ring N' p (xs @ ys)"
proof -
  have d: "distinct (p # xs @ ys)" using r by (simp add: ring_def)
  have "successively (linked N) (p # xs)" "successively (linked N) (ys @ [p])"
    using r successively_append_iff[of "linked N" "[c]" "ys @ [p]"] by (simp_all add: ring_split)
  then show ?thesis using ring_halves[OF d nxt prv] d ends by (simp only: ring_split) simp
qed

section \<open>Well-formed heaps\<close>

text \<open>\<open>S\<close> has the nodes of every list. The lists are circles without common nodes and have the right
  count; what is free, what is a node and what is an iterator are different references; the attached
  iterators of a list stand at a node of it, or have not been started.\<close>

type_synonym shape = "ref \<rightharpoonup> ref list"

definition region :: "shape \<Rightarrow> ref \<Rightarrow> ref set" where
  "region S p = (case S p of None \<Rightarrow> {} | Some rs \<Rightarrow> insert p (set rs))"

definition chain_ok :: "lheap \<Rightarrow> ref \<Rightarrow> ref set \<Rightarrow> ref list \<Rightarrow> bool" where
  "chain_ok h p R chain \<longleftrightarrow> distinct chain \<and>
     (\<forall>r \<in> set chain. \<exists>i. hp_itr h r = Some i \<and> li_list i = p \<and> (li_cur i = 0 \<or> li_cur i \<in> R))"

definition lists_ok :: "lheap \<Rightarrow> shape \<Rightarrow> bool" where
  "lists_ok h S \<longleftrightarrow> dom (hp_list h) = dom S \<and>
     (\<forall>p rs l. S p = Some rs \<longrightarrow> hp_list h p = Some l \<longrightarrow>
        ring (hp_node h) p rs \<and> ml_count l = length rs \<and> chain_ok h p (region S p) (ml_itr l))"

definition memory_ok :: "lheap \<Rightarrow> shape \<Rightarrow> bool" where
  "memory_ok h S \<longleftrightarrow>
     dom (hp_node h) = (\<Union>p. region S p) \<and> (\<forall>p q. p \<noteq> q \<longrightarrow> region S p \<inter> region S q = {}) \<and>
     distinct (hp_pool h) \<and> 0 \<notin> set (hp_pool h) \<union> dom (hp_node h) \<union> dom (hp_itr h) \<and>
     set (hp_pool h) \<inter> (dom (hp_node h) \<union> dom (hp_itr h)) = {} \<and> dom (hp_node h) \<inter> dom (hp_itr h) = {}"

definition heap_wf :: "lheap \<Rightarrow> shape \<Rightarrow> bool" where
  "heap_wf h S \<longleftrightarrow> lists_ok h S \<and> memory_ok h S"

lemma region_simps [simp]:
  "S p = Some rs \<Longrightarrow> region S p = insert p (set rs)" "S p = None \<Longrightarrow> region S p = {}"
  "region (S(p \<mapsto> rs)) q = (if q = p then insert p (set rs) else region S q)"
  "region (S(p := None)) q = (if q = p then {} else region S q)"
  by (simp_all add: region_def)

lemma memory_okD:
  assumes "memory_ok h S"
  shows "dom (hp_node h) = (\<Union>p. region S p)" "0 \<notin> set (hp_pool h)" "0 \<notin> dom (hp_node h)" "0 \<notin> dom (hp_itr h)"
    "distinct (hp_pool h)" "p \<noteq> q \<Longrightarrow> region S p \<inter> region S q = {}"
    "set (hp_pool h) \<inter> dom (hp_node h) = {}" "set (hp_pool h) \<inter> dom (hp_itr h) = {}"
    "dom (hp_node h) \<inter> dom (hp_itr h) = {}"
  using assms unfolding memory_ok_def by (elim conjE, blast)+

text \<open>What a well-formed heap says of one list.\<close>

lemma heap_wf_list:
  assumes "heap_wf h S" "S p = Some rs"
  obtains l where "hp_list h p = Some l" "ml_count l = length rs" "ring (hp_node h) p rs"
    "chain_ok h p (insert p (set rs)) (ml_itr l)"
proof -
  from assms obtain l where "hp_list h p = Some l"
    unfolding heap_wf_def lists_ok_def by (metis domD domI)
  with assms that show thesis unfolding heap_wf_def lists_ok_def by fastforce
qed

lemma heap_wf_region: "heap_wf h S \<Longrightarrow> S p = Some rs \<Longrightarrow> insert p (set rs) \<subseteq> dom (hp_node h)"
  by (metis heap_wf_list ring_dom list.simps(15))

lemma heap_wf_null: "heap_wf h S \<Longrightarrow> S p = Some rs \<Longrightarrow> p \<noteq> 0 \<and> 0 \<notin> set rs"
proof -
  assume wf: "heap_wf h S" "S p = Some rs"
  have "0 \<notin> dom (hp_node h)" by (rule memory_okD(3)[OF conjunct2[OF wf(1)[unfolded heap_wf_def]]])
  then show "p \<noteq> 0 \<and> 0 \<notin> set rs" using heap_wf_region[OF wf] by (metis insertI1 insertI2 subsetD)
qed

text \<open>A change of one list: nodes it loses go to the pool, nodes it gains come from there.\<close>

text \<open>The accounting of nodes \<open>D\<close>, free references \<open>P\<close> and iterators \<open>I\<close>.\<close>

lemma accounts:
  fixes z :: 'r
  assumes "z \<notin> P" "z \<notin> D" "z \<notin> I" "P \<inter> D = {}" "P \<inter> I = {}" "D \<inter> I = {}"
    and "A \<subseteq> D" "B \<union> P' = A \<union> P" "B \<inter> P' = {}"
  shows "z \<notin> P' \<union> (D - A \<union> B) \<union> I" "P' \<inter> (D - A \<union> B \<union> I) = {}" "(D - A \<union> B) \<inter> I = {}"
proof -
  have sub: "B \<subseteq> A \<union> P" "P' \<subseteq> A \<union> P" using assms(8) by blast+
  show "z \<notin> P' \<union> (D - A \<union> B) \<union> I" using sub assms(1-3,7) by blast
  show "P' \<inter> (D - A \<union> B \<union> I) = {}" using sub(2) assms(4-7,9) by blast
  show "(D - A \<union> B) \<inter> I = {}" using sub(1) assms(5-7) by blast
qed

lemma heap_wf_change:
  assumes wf: "heap_wf h S" and S: "S p = Some rs"
    and list: "hp_list h' = (hp_list h)(p \<mapsto> l')" "ml_count l' = length rs'"
    and ring: "ring (hp_node h') p rs'"
    and nodes: "\<And>q. q \<notin> insert p (set rs \<union> set rs') \<Longrightarrow> hp_node h' q = hp_node h q"
      "dom (hp_node h') = dom (hp_node h) - set rs \<union> set rs'"
    and pool: "distinct (rs' @ hp_pool h')" "set (rs' @ hp_pool h') = set (rs @ hp_pool h)"
    and itrs: "dom (hp_itr h') = dom (hp_itr h)"
      "\<And>q l r. q \<noteq> p \<Longrightarrow> hp_list h q = Some l \<Longrightarrow> r \<in> set (ml_itr l) \<Longrightarrow> hp_itr h' r = hp_itr h r"
    and chain: "chain_ok h' p (insert p (set rs')) (ml_itr l')"
  shows "heap_wf h' (S(p \<mapsto> rs'))"
proof -
  have lists: "lists_ok h S" and mem: "memory_ok h S" using wf by (simp_all add: heap_wf_def)
  have p: "p \<in> dom (hp_node h)" "set rs \<subseteq> dom (hp_node h)" using heap_wf_region[OF wf S] by auto
  have disj: "region S q \<inter> insert p (set rs) = {}" if "q \<noteq> p" for q
    using mem S that unfolding memory_ok_def by (metis region_simps(1))
  have in_nodes: "region S q \<subseteq> dom (hp_node h)" for q using mem by (auto simp: memory_ok_def)
  have disj': "region S q \<inter> insert p (set rs \<union> set rs') = {}" if "q \<noteq> p" for q
  proof -
    have "set rs' \<subseteq> set rs \<union> set (hp_pool h)" using pool(2) by auto
    moreover have "region S q \<inter> set (hp_pool h) = {}" using in_nodes[of q] mem unfolding memory_ok_def by blast
    ultimately show ?thesis using disj[OF that] by blast
  qed
  have "lists_ok h' (S(p \<mapsto> rs'))"
    unfolding lists_ok_def
  proof (intro conjI allI impI)
    show "dom (hp_list h') = dom (S(p \<mapsto> rs'))" using lists by (simp add: list(1) lists_ok_def)
    fix q qs l assume q: "(S(p \<mapsto> rs')) q = Some qs" "hp_list h' q = Some l"
    show "ring (hp_node h') q qs"
    proof (cases "q = p")
      case False
      have "ring (hp_node h) q qs" using lists q False by (auto simp: lists_ok_def list(1))
      moreover have "hp_node h' a = hp_node h a" if "a \<in> set (q # qs)" for a
        using disj'[OF False] that q(1) False by (intro nodes(1)) (auto split: if_splits)
      ultimately show ?thesis by (subst ring_frame) (auto simp: nxt_def prv_def)
    qed (use q ring in simp)
    show "ml_count l = length qs" using lists q list by (auto simp: lists_ok_def split: if_splits)
    show "chain_ok h' q (region (S(p \<mapsto> rs')) q) (ml_itr l)"
    proof (cases "q = p")
      case False
      then have "hp_list h q = Some l" using q(2) list(1) by simp
      moreover have "chain_ok h q (region S q) (ml_itr l)"
        using lists q False by (auto simp: lists_ok_def list(1))
      ultimately show ?thesis using itrs(2)[OF False] False by (auto simp: chain_ok_def)
    qed (use q list(1) chain in simp)
  qed
  moreover have "memory_ok h' (S(p \<mapsto> rs'))"
    unfolding memory_ok_def
  proof (intro conjI allI impI)
    let ?R = "\<Union>q \<in> - {p}. region S q"
    have "(\<Union>q. region S q) = region S p \<union> ?R" by blast
    then have "dom (hp_node h) = insert p (set rs) \<union> ?R" using mem S by (simp add: memory_ok_def)
    moreover have "?R \<inter> insert p (set rs) = {}" using disj by blast
    moreover have "p \<notin> set rs" using heap_wf_list[OF wf S] by (auto simp: ring_def)
    ultimately have "dom (hp_node h') = insert p (set rs') \<union> ?R" unfolding nodes(2) by blast
    also have "\<dots> = (\<Union>q. region (S(p \<mapsto> rs')) q)" by (auto split: if_splits)
    finally show "dom (hp_node h') = (\<Union>q. region (S(p \<mapsto> rs')) q)" .
  next
    fix q r :: ref assume "q \<noteq> r"
    moreover from this have "region S q \<inter> region S r = {}" by (rule memory_okD(6)[OF mem])
    ultimately show "region (S(p \<mapsto> rs')) q \<inter> region (S(p \<mapsto> rs')) r = {}"
      using disj'[of q] disj'[of r] by auto
  next
    show "distinct (hp_pool h')" using pool(1) by simp
    note m = memory_okD[OF mem]
    have sets: "set rs' \<union> set (hp_pool h') = set rs \<union> set (hp_pool h)" "set rs' \<inter> set (hp_pool h') = {}"
      using pool by auto
    note acc = accounts[OF m(2-4,7-9) p(2) sets]
    show "0 \<notin> set (hp_pool h') \<union> dom (hp_node h') \<union> dom (hp_itr h')"
      unfolding nodes(2) itrs(1) by (rule acc(1))
    show "dom (hp_node h') \<inter> dom (hp_itr h') = {}"
      unfolding nodes(2) itrs(1) by (rule acc(3))
    show "set (hp_pool h') \<inter> (dom (hp_node h') \<union> dom (hp_itr h')) = {}"
      unfolding nodes(2) itrs(1) by (rule acc(2))
  qed
  ultimately show ?thesis by (simp add: heap_wf_def)
qed

end
