(* ===== verification/List_Ops.thy ===== *)
theory List_Ops
  imports List_Ring
begin

text \<open>
  The operations on lists as operations on sequences of items: each one returns on a well-formed
  heap, keeps it well-formed, and does to the items what the sequence operation does.
\<close>

named_theorems heap_simps \<open>one step of a pointer program\<close>

section \<open>Steps of a pointer program\<close>

definition with_next :: "ref \<Rightarrow> ref \<Rightarrow> node_map \<Rightarrow> node_map" where
  "with_next r x N = N(r := map_option (\<lambda>d. d\<lparr>ld_next := x\<rparr>) (N r))"

definition with_prev :: "ref \<Rightarrow> ref \<Rightarrow> node_map \<Rightarrow> node_map" where
  "with_prev r x N = N(r := map_option (\<lambda>d. d\<lparr>ld_prev := x\<rparr>) (N r))"

definition with_item :: "ref \<Rightarrow> item \<Rightarrow> node_map \<Rightarrow> node_map" where
  "with_item r x N = N(r := map_option (\<lambda>d. d\<lparr>ld_item := x\<rparr>) (N r))"

lemma with_None [simp]:
  "with_next r x N a = None \<longleftrightarrow> N a = None" "with_prev r x N a = None \<longleftrightarrow> N a = None"
  "with_item r x N a = None \<longleftrightarrow> N a = None"
  by (auto simp: with_next_def with_prev_def with_item_def)

lemma dom_with [simp]: "dom (with_next r x N) = dom N" "dom (with_prev r x N) = dom N" "dom (with_item r x N) = dom N"
  by (auto simp: dom_def)

lemma nxt_with [simp]:
  "nxt (with_next r x N) a = (if a = r \<and> N r \<noteq> None then Some x else nxt N a)"
  "nxt (with_prev r x N) = nxt N" "nxt (with_item r x N) = nxt N"
  by (auto simp: nxt_def with_next_def with_prev_def with_item_def option.map_comp fun_eq_iff comp_def)

lemma prv_with [simp]:
  "prv (with_prev r x N) a = (if a = r \<and> N r \<noteq> None then Some x else prv N a)"
  "prv (with_next r x N) = prv N" "prv (with_item r x N) = prv N"
  by (auto simp: prv_def with_next_def with_prev_def with_item_def option.map_comp fun_eq_iff comp_def)

lemma itm_with [simp]:
  "itm (with_item r x N) a = (if a = r \<and> N r \<noteq> None then x else itm N a)"
  "itm (with_next r x N) = itm N" "itm (with_prev r x N) = itm N"
  by (cases "N r"; auto simp: itm_def with_next_def with_prev_def with_item_def fun_eq_iff)+

lemma with_other:
  "a \<noteq> r \<Longrightarrow> with_next r x N a = N a" "a \<noteq> r \<Longrightarrow> with_prev r x N a = N a" "a \<noteq> r \<Longrightarrow> with_item r x N a = N a"
  by (simp_all add: with_next_def with_prev_def with_item_def)

lemma upd_nodes [heap_simps]:
  "hp_node h r \<noteq> None \<Longrightarrow> set_next r x h = Some (h\<lparr>hp_node := with_next r x (hp_node h)\<rparr>)"
  "hp_node h r \<noteq> None \<Longrightarrow> set_prev r x h = Some (h\<lparr>hp_node := with_prev r x (hp_node h)\<rparr>)"
  "hp_node h r \<noteq> None \<Longrightarrow> set_item r y h = Some (h\<lparr>hp_node := with_item r y (hp_node h)\<rparr>)"
  by (auto simp: set_next_def set_prev_def set_item_def upd_node_def with_next_def with_prev_def with_item_def)

lemma get_nodes [heap_simps]:
  "get_next r h = nxt (hp_node h) r" "get_prev r h = prv (hp_node h) r"
  "hp_node h r \<noteq> None \<Longrightarrow> get_item r h = Some (itm (hp_node h) r)"
  by (auto simp: get_next_def get_prev_def get_item_def nxt_def prv_def itm_def)

lemma upd_list_Some [heap_simps]:
  "hp_list h p = Some l \<Longrightarrow> upd_list p f h = Some (h\<lparr>hp_list := (hp_list h)(p \<mapsto> f l)\<rparr>)"
  by (simp add: upd_list_def)

definition new_node :: list_data where
  "new_node = \<lparr>ld_item = 0, ld_next = 0, ld_prev = 0\<rparr>"

lemma calloc_node_Some [heap_simps]:
  "hp_pool h = r # pool \<Longrightarrow> calloc_node h = Some (r, h\<lparr>hp_node := (hp_node h)(r \<mapsto> new_node), hp_pool := pool\<rparr>)"
  "hp_pool h = [] \<Longrightarrow> calloc_node h = None"
  by (simp_all add: calloc_node_def calloc_def new_node_def)

lemma nxt_upd [simp]: "nxt (N(r \<mapsto> d)) a = (if a = r then Some (ld_next d) else nxt N a)"
  by (simp add: nxt_def)

lemma prv_upd [simp]: "prv (N(r \<mapsto> d)) a = (if a = r then Some (ld_prev d) else prv N a)"
  by (simp add: prv_def)

lemma itm_upd [simp]: "itm (N(r \<mapsto> d)) a = (if a = r then ld_item d else itm N a)"
  by (simp add: itm_def)

section \<open>The items of the lists\<close>

definition contents :: "lheap \<Rightarrow> shape \<Rightarrow> ref \<rightharpoonup> item list" where
  "contents h S p = map_option (map (itm (hp_node h))) (S p)"

lemma contents_change:
  assumes wf: "heap_wf h S" and S: "S p = Some rs" and xs: "map (itm (hp_node h')) rs' = xs"
    and same: "\<And>a. a \<notin> insert p (set rs) \<Longrightarrow> hp_node h a \<noteq> None \<Longrightarrow> itm (hp_node h') a = itm (hp_node h) a"
  shows "contents h' (S(p \<mapsto> rs')) = (contents h S)(p \<mapsto> xs)"
proof
  fix q
  have "map (itm (hp_node h')) qs = map (itm (hp_node h)) qs" if "S q = Some qs" "q \<noteq> p" for qs
  proof (rule map_cong[OF refl])
    fix a assume a: "a \<in> set qs"
    have mem: "memory_ok h S" using wf by (simp add: heap_wf_def)
    have "region S q \<inter> region S p = {}" by (rule memory_okD(6)[OF mem that(2)])
    with a S that have "a \<notin> insert p (set rs)" by auto
    moreover have "hp_node h a \<noteq> None" using a heap_wf_region[OF wf that(1)] by auto
    ultimately show "itm (hp_node h') a = itm (hp_node h) a" by (rule same)
  qed
  then show "contents h' (S(p \<mapsto> rs')) q = ((contents h S)(p \<mapsto> xs)) q"
    using xs by (cases "S q") (auto simp: contents_def)
qed

section \<open>Insertion\<close>

text \<open>A new node \<open>n\<close> between two neighbours.\<close>

lemma insert_node:
  assumes wf: "heap_wf h S" and S: "S p = Some (xs @ ys)" and pool: "hp_pool h = n # pool"
    and l: "hp_list h p = Some l"
    and N: "dom N = insert n (dom (hp_node h))" "linked N (last (p # xs)) n" "linked N n (hd (ys @ [p]))"
      "\<And>a. a \<noteq> n \<Longrightarrow> a \<noteq> last (p # xs) \<Longrightarrow> nxt N a = nxt (hp_node h) a"
      "\<And>a. a \<noteq> n \<Longrightarrow> a \<noteq> hd (ys @ [p]) \<Longrightarrow> prv N a = prv (hp_node h) a"
      "\<And>a. a \<noteq> n \<Longrightarrow> itm N a = itm (hp_node h) a"
      "\<And>a. a \<notin> {n, last (p # xs), hd (ys @ [p])} \<Longrightarrow> N a = hp_node h a"
  defines "h' \<equiv> h\<lparr>hp_node := N, hp_list := (hp_list h)(p \<mapsto> l\<lparr>ml_count := Suc (ml_count l)\<rparr>), hp_pool := pool\<rparr>"
  shows "heap_wf h' (S(p \<mapsto> xs @ n # ys))"
    and "contents h' (S(p \<mapsto> xs @ n # ys)) =
      (contents h S)(p \<mapsto> map (itm (hp_node h)) xs @ itm N n # map (itm (hp_node h)) ys)"
proof -
  have mem: "memory_ok h S" using wf by (simp add: heap_wf_def)
  note m = memory_okD[OF mem]
  obtain ring: "ring (hp_node h) p (xs @ ys)" and count: "ml_count l = length (xs @ ys)"
    and chain: "chain_ok h p (insert p (set (xs @ ys))) (ml_itr l)"
    using heap_wf_list[OF wf S] l by auto
  have n: "n \<notin> dom (hp_node h)" using m(7) pool by auto
  have sub: "insert p (set (xs @ ys)) \<subseteq> dom (hp_node h)" by (rule heap_wf_region[OF wf S])
  with n have fresh: "n \<notin> insert p (set (xs @ ys))" by blast
  have ends: "last (p # xs) \<in> insert p (set (xs @ ys))" "hd (ys @ [p]) \<in> insert p (set (xs @ ys))"
    by (cases xs rule: rev_cases; cases ys; auto)+
  show "heap_wf h' (S(p \<mapsto> xs @ n # ys))"
  proof (rule heap_wf_change[OF wf S])
    show "hp_list h' = (hp_list h)(p \<mapsto> l\<lparr>ml_count := Suc (ml_count l)\<rparr>)" by (simp add: h'_def)
    show "ml_count (l\<lparr>ml_count := Suc (ml_count l)\<rparr>) = length (xs @ n # ys)" using count by simp
    have "ring N p (xs @ [n] @ ys)"
    proof (rule ring_insert[OF ring])
      show "nxt N a = nxt (hp_node h) a" if "a \<in> set (p # xs @ ys)" "a \<noteq> last (p # xs)" for a
        using that fresh by (intro N(4)) auto
      show "prv N a = prv (hp_node h) a" if "a \<in> set (p # xs @ ys)" "a \<noteq> hd (ys @ [p])" for a
        using that fresh by (intro N(5)) auto
    qed (use N(2,3) fresh in auto)
    then show "ring (hp_node h') p (xs @ n # ys)" by (simp add: h'_def)
    show "hp_node h' q = hp_node h q" if "q \<notin> insert p (set (xs @ ys) \<union> set (xs @ n # ys))" for q
    proof -
      have "q \<notin> {n, last (p # xs), hd (ys @ [p])}" using that ends by auto
      then show ?thesis using N(7) by (simp add: h'_def)
    qed
    show "dom (hp_node h') = dom (hp_node h) - set (xs @ ys) \<union> set (xs @ n # ys)"
      using N(1) sub by (auto simp: h'_def)
    show "distinct ((xs @ n # ys) @ hp_pool h')"
      using ring fresh m(5,7) sub pool by (auto simp: h'_def ring_def)
    show "set ((xs @ n # ys) @ hp_pool h') = set ((xs @ ys) @ hp_pool h)" using pool by (auto simp: h'_def)
    show "chain_ok h' p (insert p (set (xs @ n # ys))) (ml_itr (l\<lparr>ml_count := Suc (ml_count l)\<rparr>))"
      using chain by (auto simp: chain_ok_def h'_def)
  qed (simp_all add: h'_def)
  show "contents h' (S(p \<mapsto> xs @ n # ys)) =
      (contents h S)(p \<mapsto> map (itm (hp_node h)) xs @ itm N n # map (itm (hp_node h)) ys)"
  proof (rule contents_change[OF wf S])
    have "map (itm N) xs = map (itm (hp_node h)) xs" "map (itm N) ys = map (itm (hp_node h)) ys"
      using fresh by (auto intro!: N(6))
    then show "map (itm (hp_node h')) (xs @ n # ys) =
        map (itm (hp_node h)) xs @ itm N n # map (itm (hp_node h)) ys" by (simp add: h'_def)
    show "itm (hp_node h') a = itm (hp_node h) a" if "hp_node h a \<noteq> None" for a
      using N(6)[of a] n that by (auto simp: h'_def)
  qed
qed

text \<open>What is known at a gap of a list when there is a free reference.\<close>

lemma gap_facts:
  assumes wf: "heap_wf h S" and S: "S p = Some (xs @ ys)"
  obtains l u v where "hp_list h p = Some l" "ml_count l = length (xs @ ys)" "u = last (p # xs)" "v = hd (ys @ [p])"
    "nxt (hp_node h) u = Some v" "prv (hp_node h) v = Some u" "p \<noteq> 0"
    "hp_node h u \<noteq> None" "hp_node h v \<noteq> None" "hp_node h p \<noteq> None"
    "\<And>n pool. hp_pool h = n # pool \<Longrightarrow> hp_node h n = None \<and> n \<noteq> u \<and> n \<noteq> v \<and> n \<noteq> p"
proof -
  obtain l where l: "hp_list h p = Some l" "ml_count l = length (xs @ ys)" "ring (hp_node h) p (xs @ ys)"
    by (rule heap_wf_list[OF wf S])
  have mem: "memory_ok h S" using wf by (simp add: heap_wf_def)
  have "last (p # xs) \<in> insert p (set (xs @ ys))" "hd (ys @ [p]) \<in> insert p (set (xs @ ys))"
    by (cases xs rule: rev_cases; cases ys; auto)+
  then have dom: "hp_node h (last (p # xs)) \<noteq> None" "hp_node h (hd (ys @ [p])) \<noteq> None" "hp_node h p \<noteq> None"
    using heap_wf_region[OF wf S] by auto
  have "hp_node h n = None" if "hp_pool h = n # pool" for n pool
    using memory_okD(7)[OF mem] that by auto
  then show thesis
    using that[of l "last (p # xs)" "hd (ys @ [p])"] l dom ring_nxt[OF l(3)] ring_prv[OF l(3)] heap_wf_null[OF wf S] by metis
qed

lemma mu_list_append_ok:
  assumes wf: "heap_wf h S" and S: "S p = Some rs" and pool: "hp_pool h = n # pool"
  shows "\<exists>h'. mu_list_append p x h = Some (h', None) \<and> heap_wf h' (S(p \<mapsto> rs @ [n])) \<and>
    contents h' (S(p \<mapsto> rs @ [n])) = (contents h S)(p \<mapsto> map (itm (hp_node h)) rs @ [x])"
proof -
  have S': "S p = Some (rs @ [])" using S by simp
  obtain l u v where g: "hp_list h p = Some l" "u = last (p # rs)" "v = hd ([] @ [p])"
    "prv (hp_node h) v = Some u" "p \<noteq> 0" "hp_node h u \<noteq> None" "hp_node h p \<noteq> None"
    "hp_node h n = None \<and> n \<noteq> u \<and> n \<noteq> p"
    by (rule gap_facts[OF wf S']) (use pool in blast)
  let ?N = "with_prev p n (with_next u n (with_prev n u (with_next n p (with_item n x ((hp_node h)(n \<mapsto> new_node))))))"
  let ?h = "h\<lparr>hp_node := ?N, hp_list := (hp_list h)(p \<mapsto> l\<lparr>ml_count := Suc (ml_count l)\<rparr>), hp_pool := pool\<rparr>"
  have "mu_list_append p x h = Some (?h, None)"
    using g(1,3-) pool by (simp add: mu_list_append_def heap_simps)
  moreover have "heap_wf ?h (S(p \<mapsto> rs @ n # []))"
    "contents ?h (S(p \<mapsto> rs @ n # [])) = (contents h S)(p \<mapsto> map (itm (hp_node h)) rs @ itm ?N n # map (itm (hp_node h)) [])"
    by (rule insert_node[OF wf S' pool g(1)]; use g in \<open>simp add: linked_def with_other del: last.simps\<close>)+
  ultimately show ?thesis using g(6-) by simp
qed

lemma mu_list_prepend_ok:
  assumes wf: "heap_wf h S" and S: "S p = Some rs" and pool: "hp_pool h = n # pool"
  shows "\<exists>h'. mu_list_prepend p x h = Some (h', None) \<and> heap_wf h' (S(p \<mapsto> n # rs)) \<and>
    contents h' (S(p \<mapsto> n # rs)) = (contents h S)(p \<mapsto> x # map (itm (hp_node h)) rs)"
proof -
  have S': "S p = Some ([] @ rs)" using S by simp
  obtain l u v where g: "hp_list h p = Some l" "u = last (p # [])" "v = hd (rs @ [p])"
    "nxt (hp_node h) u = Some v" "p \<noteq> 0" "hp_node h v \<noteq> None" "hp_node h p \<noteq> None"
    "hp_node h n = None \<and> n \<noteq> v \<and> n \<noteq> p"
    by (rule gap_facts[OF wf S']) (use pool in blast)
  let ?N = "with_next p n (with_prev v n (with_next n v (with_prev n p (with_item n x ((hp_node h)(n \<mapsto> new_node))))))"
  let ?h = "h\<lparr>hp_node := ?N, hp_list := (hp_list h)(p \<mapsto> l\<lparr>ml_count := Suc (ml_count l)\<rparr>), hp_pool := pool\<rparr>"
  have "mu_list_prepend p x h = Some (?h, None)"
    using g(1,2,4-) pool by (simp add: mu_list_prepend_def heap_simps)
  moreover have "heap_wf ?h (S(p \<mapsto> [] @ n # rs))"
    "contents ?h (S(p \<mapsto> [] @ n # rs)) = (contents h S)(p \<mapsto> map (itm (hp_node h)) [] @ itm ?N n # map (itm (hp_node h)) rs)"
    by (rule insert_node[OF wf S' pool g(1)]; use g in \<open>simp add: linked_def with_other\<close>)+
  ultimately show ?thesis using g(6-) by simp
qed

text \<open>Before or behind a node, the list itself included.\<close>

lemma list_insert_item_ok:
  assumes wf: "heap_wf h S" and S: "S p = Some (xs @ ys)" and pool: "hp_pool h = n # pool"
  shows "\<exists>h'. list_insert_item p (if before then hd (ys @ [p]) else last (p # xs)) x before h = Some (h', None) \<and>
    heap_wf h' (S(p \<mapsto> xs @ n # ys)) \<and>
    contents h' (S(p \<mapsto> xs @ n # ys)) =
      (contents h S)(p \<mapsto> map (itm (hp_node h)) xs @ x # map (itm (hp_node h)) ys)"
proof -
  obtain l u v where g: "hp_list h p = Some l" "u = last (p # xs)" "v = hd (ys @ [p])"
    "nxt (hp_node h) u = Some v" "prv (hp_node h) v = Some u" "p \<noteq> 0"
    "hp_node h u \<noteq> None" "hp_node h v \<noteq> None" "hp_node h p \<noteq> None"
    "hp_node h n = None \<and> n \<noteq> u \<and> n \<noteq> v \<and> n \<noteq> p"
    by (rule gap_facts[OF wf S]) (use pool in blast)
  let ?N0 = "with_item n x ((hp_node h)(n \<mapsto> new_node))"
  let ?N = "if before then with_prev v n (with_next u n (with_next n v (with_prev n u ?N0)))
    else with_next u n (with_prev v n (with_prev n u (with_next n v ?N0)))"
  let ?h = "h\<lparr>hp_node := ?N, hp_list := (hp_list h)(p \<mapsto> l\<lparr>ml_count := Suc (ml_count l)\<rparr>), hp_pool := pool\<rparr>"
  have "list_insert_item p (if before then v else u) x before h = Some (?h, None)"
    using g(1,4-) pool by (cases "u = p"; cases "v = p") (auto simp: list_insert_item_def list_insert_sublist_def heap_simps)
  moreover have "heap_wf ?h (S(p \<mapsto> xs @ n # ys))"
    "contents ?h (S(p \<mapsto> xs @ n # ys)) =
       (contents h S)(p \<mapsto> map (itm (hp_node h)) xs @ itm ?N n # map (itm (hp_node h)) ys)"
    by (rule insert_node[OF wf S pool g(1)]; use g in \<open>simp add: linked_def with_other del: last.simps\<close>)+
  ultimately show ?thesis unfolding g(2,3) using g(6-) by simp
qed

section \<open>Walking along a list\<close>

text \<open>The first node with a property of its position and item.\<close>

fun find_at :: "(nat \<Rightarrow> item \<Rightarrow> bool) \<Rightarrow> (ref \<Rightarrow> item) \<Rightarrow> nat \<Rightarrow> ref list \<Rightarrow> ref option" where
  "find_at found I k [] = None"
| "find_at found I k (r # rs) = (if found k (I r) then Some r else find_at found I (Suc k) rs)"

lemma find_at_Some:
  "find_at found I k rs = Some c \<Longrightarrow> \<exists>xs ys. rs = xs @ c # ys \<and> found (k + length xs) (I c) \<and>
     (\<forall>i < length xs. \<not> found (k + i) (I (xs ! i)))"
proof (induction rs arbitrary: k)
  case (Cons r rs)
  show ?case
  proof (cases "found k (I r)")
    case True
    with Cons.prems show ?thesis by (intro exI[of _ "[]"] exI[of _ rs]) auto
  next
    case False
    with Cons.prems have "find_at found I (Suc k) rs = Some c" by simp
    from Cons.IH[OF this] obtain xs ys where "rs = xs @ c # ys" "found (Suc k + length xs) (I c)"
      "\<forall>i < length xs. \<not> found (Suc k + i) (I (xs ! i))" by blast
    with False show ?thesis
      by (intro exI[of _ "r # xs"] exI[of _ ys]) (simp add: All_less_Suc2)
  qed
qed simp

lemma find_at_None: "find_at found I k rs = None \<longleftrightarrow> (\<forall>i < length rs. \<not> found (k + i) (I (rs ! i)))"
  by (induction rs arbitrary: k) (auto simp: All_less_Suc2)

lemma find_at_nth: "find_at (\<lambda>i _. i = n) I k rs = (if k \<le> n \<and> n < k + length rs then Some (rs ! (n - k)) else None)"
  by (induction rs arbitrary: k) (auto simp: nth_Cons split: nat.split, (metis Suc_diff_Suc Suc_le_eq le_neq_implies_less nat.inject)?)

lemma walk_step:
  assumes "successively (linked N) (r # rs @ [p])"
  shows "\<exists>d. N r = Some d \<and> ld_item d = itm N r \<and> ld_next d = hd (rs @ [p])" "successively (linked N) (rs @ [p])"
  using assms by (cases rs; auto simp: linked_def nxt_def itm_def)+

lemma list_search_walk:
  "successively (linked (hp_node h)) (rs @ [p]) \<Longrightarrow> p \<notin> set rs \<Longrightarrow>
   list_search found h p (hd (rs @ [p])) k = Some (find_at found (itm (hp_node h)) k rs)"
proof (induction rs arbitrary: k)
  case (Cons r rs)
  from Cons.prems walk_step[of "hp_node h" r rs p] obtain d where
    "hp_node h r = Some d" "ld_item d = itm (hp_node h) r" "ld_next d = hd (rs @ [p])" "successively (linked (hp_node h)) (rs @ [p])"
    by auto
  with Cons show ?case by (subst list_search.simps) simp
qed (simp add: list_search.simps)

lemma list_find_walk:
  assumes "heap_wf h S" "S p = Some rs"
  shows "list_find found p h = Some (find_at found (itm (hp_node h)) 0 rs)"
proof -
  obtain r: "ring (hp_node h) p rs" by (rule heap_wf_list[OF assms])
  then have "successively (linked (hp_node h)) (rs @ [p])" "p \<notin> set rs"
    using ring_split[of "hp_node h" p "[]" rs] by (auto simp: ring_def)
  then show ?thesis using ring_first[OF r] by (simp add: list_find_def heap_simps list_search_walk)
qed

text \<open>By the comparison function of the list.\<close>

definition same_item :: "lheap \<Rightarrow> ref \<Rightarrow> item \<Rightarrow> item \<Rightarrow> bool" where
  "same_item h p x y \<longleftrightarrow> list_comp (the (hp_list h p)) y x = 0"

lemma list_lookup_cases:
  assumes wf: "heap_wf h S" "S p = Some rs"
  obtains (missing) "list_lookup p x h = Some None" "\<forall>c \<in> set rs. \<not> same_item h p x (itm (hp_node h) c)"
  | (found) xs c ys where "list_lookup p x h = Some (Some c)" "rs = xs @ c # ys"
      "same_item h p x (itm (hp_node h) c)" "\<forall>a \<in> set xs. \<not> same_item h p x (itm (hp_node h) a)"
proof -
  obtain l where l: "hp_list h p = Some l" by (rule heap_wf_list[OF wf])
  let ?f = "find_at (\<lambda>_. same_item h p x) (itm (hp_node h)) 0 rs"
  have eq: "list_lookup p x h = Some ?f"
    using l by (simp add: list_lookup_def list_find_walk[OF wf] same_item_def[abs_def])
  show thesis
  proof (cases ?f)
    case None
    then have "\<forall>c \<in> set rs. \<not> same_item h p x (itm (hp_node h) c)" by (auto simp: find_at_None in_set_conv_nth)
    with None eq missing show thesis by simp
  next
    case (Some c)
    from find_at_Some[OF this] obtain xs ys where "rs = xs @ c # ys" "same_item h p x (itm (hp_node h) c)"
      "\<forall>a \<in> set xs. \<not> same_item h p x (itm (hp_node h) a)" by (auto simp: all_set_conv_all_nth)
    with Some eq found show thesis by simp
  qed
qed

lemma heap_wf_node: "heap_wf h S \<Longrightarrow> S p = Some rs \<Longrightarrow> c \<in> insert p (set rs) \<Longrightarrow> hp_node h c \<noteq> None"
  using heap_wf_region[of h S p rs] by blast

lemma mu_list_get_nth:
  assumes "heap_wf h S" "S p = Some rs"
  shows "mu_list_get p n h =
    Some (if n < length rs then Inr (map (itm (hp_node h)) rs ! n) else Inl MU_ERR_NOENT)"
  using heap_wf_null[OF assms] heap_wf_node[OF assms, of "rs ! n"]
  by (auto simp: mu_list_get_def list_find_walk[OF assms] find_at_nth heap_simps)

lemma mu_list_count_length:
  assumes "heap_wf h S" "S p = Some rs"
  shows "mu_list_count p h = Some (Inr (length rs))" "mu_list_is_empty p h = Some (rs = [])"
  by (rule heap_wf_list[OF assms];
    use heap_wf_null[OF assms] in \<open>simp add: mu_list_count_def mu_list_is_empty_def\<close>)+

lemma mu_list_ends:
  assumes "heap_wf h S" "S p = Some rs"
  shows "mu_list_head p h = Some (if rs = [] then Inl MU_ERR_NOENT else Inr (itm (hp_node h) (hd rs)))"
    and "mu_list_tail p h = Some (if rs = [] then Inl MU_ERR_NOENT else Inr (itm (hp_node h) (last rs)))"
proof -
  obtain r: "ring (hp_node h) p rs" by (rule heap_wf_list[OF assms])
  then have "p \<notin> set rs" by (simp add: ring_def)
  then have "rs \<noteq> [] \<Longrightarrow> hd rs \<noteq> p \<and> last rs \<noteq> p" by (metis hd_in_set last_in_set)
  then show "mu_list_head p h = Some (if rs = [] then Inl MU_ERR_NOENT else Inr (itm (hp_node h) (hd rs)))"
    "mu_list_tail p h = Some (if rs = [] then Inl MU_ERR_NOENT else Inr (itm (hp_node h) (last rs)))"
    using heap_wf_null[OF assms] heap_wf_node[OF assms, of "hd rs"] heap_wf_node[OF assms, of "last rs"]
      ring_first[OF r] ring_last[OF r]
    by (cases "rs = []"; auto simp: mu_list_head_def mu_list_tail_def heap_simps)+
qed

lemma mu_list_locate_find:
  assumes "heap_wf h S" "S p = Some rs"
  shows "mu_list_locate p x h =
    Some (case find (same_item h p x) (map (itm (hp_node h)) rs) of None \<Rightarrow> Inl MU_ERR_NOENT | Some y \<Rightarrow> Inr y)"
  using assms
proof (cases rule: list_lookup_cases[where x = x])
  case missing
  then have "find (same_item h p x) (map (itm (hp_node h)) rs) = None" by (auto simp: find_None_iff)
  with missing show ?thesis using heap_wf_null[OF assms] by (simp add: mu_list_locate_def)
next
  case (found xs c ys)
  from found(4) have "find (same_item h p x) (map (itm (hp_node h)) rs) = Some (itm (hp_node h) c)"
    unfolding found(2) using found(3) by (induction xs) auto
  with found show ?thesis
    using heap_wf_null[OF assms] heap_wf_node[OF assms, of c] by (simp add: mu_list_locate_def heap_simps)
qed

lemma to_array_walk:
  "successively (linked (hp_node h)) (rs @ [p]) \<Longrightarrow> p \<notin> set rs \<Longrightarrow>
   to_array_loop h p n (hd (rs @ [p])) acc = Some (acc @ take (n - length acc) (map (itm (hp_node h)) rs))"
proof (induction rs arbitrary: acc)
  case (Cons r rs)
  from Cons.prems walk_step[of "hp_node h" r rs p] obtain d where
    "hp_node h r = Some d" "ld_item d = itm (hp_node h) r" "ld_next d = hd (rs @ [p])" "successively (linked (hp_node h)) (rs @ [p])"
    by auto
  with Cons show ?case
    by (subst to_array_loop.simps) (auto simp: take_Cons' Suc_diff_Suc[symmetric])
qed (simp add: to_array_loop.simps)

lemma mu_list_to_array_take:
  assumes "heap_wf h S" "S p = Some rs"
  shows "mu_list_to_array p n h = Some (Inr (take n (map (itm (hp_node h)) rs), min n (length rs)))"
proof -
  obtain l where l: "hp_list h p = Some l" "ml_count l = length rs" "ring (hp_node h) p rs"
    by (rule heap_wf_list[OF assms])
  then have "successively (linked (hp_node h)) (rs @ [p])" "p \<notin> set rs"
    using ring_split[of "hp_node h" p "[]" rs] by (auto simp: ring_def)
  then show ?thesis
    using l ring_first[OF l(3)] heap_wf_null[OF assms]
    by (simp add: mu_list_to_array_def heap_simps to_array_walk take_map min_def)
qed

end
