(* ===== verification/List_Change.thy ===== *)
theory List_Change
  imports List_Ops
begin

text \<open>
  Deletion with the attached iterators, and the operations that search for an item and change the list.
\<close>

section \<open>Deletion\<close>

lemma nxt_del [simp]: "nxt (N(r := None)) a = (if a = r then None else nxt N a)"
  by (simp add: nxt_def)

lemma prv_del [simp]: "prv (N(r := None)) a = (if a = r then None else prv N a)"
  by (simp add: prv_def)

lemma itm_del: "a \<noteq> r \<Longrightarrow> itm (N(r := None)) a = itm N a"
  by (simp add: itm_def)

text \<open>What the deletion of \<open>c\<close> does to an attached iterator.\<close>

definition moved :: "node_map \<Rightarrow> ref \<Rightarrow> list_iterator \<Rightarrow> list_iterator" where
  "moved N c i =
     (if li_cur i = c
      then i\<lparr>li_cur := the (if li_backwards i then prv N c else nxt N c), li_is_advanced := Suc (li_is_advanced i)\<rparr>
      else i)"

lemma upd_itr_Some [heap_simps]:
  "hp_itr h r = Some i \<Longrightarrow> upd_itr r f h = Some (h\<lparr>hp_itr := (hp_itr h)(r \<mapsto> f i)\<rparr>)"
  by (simp add: upd_itr_def)

lemma mu_iterator_delitem_moves:
  assumes "nxt (hp_node h) c = Some v" "prv (hp_node h) c = Some u" "distinct chain"
    "\<And>r. r \<in> set chain \<Longrightarrow> hp_itr h r \<noteq> None"
  shows "mu_iterator_delitem chain c h =
    Some (h\<lparr>hp_itr := \<lambda>r. if r \<in> set chain then map_option (moved (hp_node h) c) (hp_itr h r) else hp_itr h r\<rparr>)"
  using assms
proof (induction chain arbitrary: h)
  case (Cons itr chain)
  from Cons.prems(4)[of itr] obtain i where i: "hp_itr h itr = Some i" by auto
  let ?h = "h\<lparr>hp_itr := (hp_itr h)(itr \<mapsto> moved (hp_node h) c i)\<rparr>"
  have step: "mu_iterator_delitem (itr # chain) c h = mu_iterator_delitem chain c ?h"
    using i Cons.prems(1,2)
    by (cases "li_cur i = c") (auto simp: moved_def itr_next_def heap_simps fun_upd_idem)
  have "mu_iterator_delitem chain c ?h =
    Some (?h\<lparr>hp_itr := \<lambda>r. if r \<in> set chain then map_option (moved (hp_node ?h) c) (hp_itr ?h r) else hp_itr ?h r\<rparr>)"
    by (rule Cons.IH) (use Cons.prems in auto)
  then show ?case unfolding step using Cons.prems(3) i by (auto simp: fun_eq_iff)
qed simp

definition destroyed_by :: "mu_list \<Rightarrow> bool \<Rightarrow> item \<Rightarrow> (nat \<times> item) list" where
  "destroyed_by l destroy x = (case ml_destroy_item l of Some f \<Rightarrow> if destroy then [(f, x)] else [] | None \<Rightarrow> [])"

lemma DESTROY_ITEM_Some [heap_simps]:
  "hp_list h p = Some l \<Longrightarrow> hp_node h c \<noteq> None \<Longrightarrow>
   DESTROY_ITEM p c h = Some (h\<lparr>hp_destroyed := hp_destroyed h @ destroyed_by l True (itm (hp_node h) c)\<rparr>)"
  by (auto simp: DESTROY_ITEM_def destroyed_by_def heap_simps split: option.split)

lemma list_delete_ok:
  assumes wf: "heap_wf h S" and S: "S p = Some (xs @ c # ys)" and l: "hp_list h p = Some l"
  shows "\<exists>h'. list_delete p c destroy h = Some h' \<and> heap_wf h' (S(p \<mapsto> xs @ ys)) \<and>
    contents h' (S(p \<mapsto> xs @ ys)) = (contents h S)(p \<mapsto> map (itm (hp_node h)) (xs @ ys)) \<and>
    hp_itr h' = (\<lambda>r. if r \<in> set (ml_itr l) then map_option (moved (hp_node h) c) (hp_itr h r) else hp_itr h r) \<and>
    hp_list h' = (hp_list h)(p \<mapsto> l\<lparr>ml_count := ml_count l - 1\<rparr>) \<and>
    hp_destroyed h' = hp_destroyed h @ destroyed_by l destroy (itm (hp_node h) c) \<and>
    hp_pool h' = c # hp_pool h"
proof -
  obtain ring: "ring (hp_node h) p (xs @ c # ys)" and count: "ml_count l = length (xs @ c # ys)"
    and chain: "chain_ok h p (insert p (set (xs @ c # ys))) (ml_itr l)"
    using heap_wf_list[OF wf S] l by auto
  have mem: "memory_ok h S" using wf by (simp add: heap_wf_def)
  note m = memory_okD[OF mem]
  define u v where "u = last (p # xs)" and "v = hd (ys @ [p])"
  have c: "nxt (hp_node h) c = Some v" "prv (hp_node h) c = Some u"
    using ring_nxt[of "hp_node h" p "xs @ [c]" ys] ring_prv[of "hp_node h" p xs "c # ys"] ring
    by (simp_all add: u_def v_def)
  have d: "distinct (p # xs @ c # ys)" using ring by (simp add: ring_def)
  have uv: "u \<in> insert p (set xs)" "v \<in> insert p (set ys)"
    unfolding u_def v_def by (cases xs rule: rev_cases; cases ys; auto)+
  have ne: "u \<noteq> c" "v \<noteq> c" "p \<noteq> c" using uv d by auto
  have dom: "hp_node h u \<noteq> None" "hp_node h v \<noteq> None" "hp_node h c \<noteq> None"
    using uv by (intro heap_wf_node[OF wf S]; auto)+
  let ?I = "\<lambda>r. if r \<in> set (ml_itr l) then map_option (moved (hp_node h) c) (hp_itr h r) else hp_itr h r"
  let ?N = "(with_prev v u (with_next u v (hp_node h)))(c := None)"
  let ?h = "h\<lparr>hp_node := ?N, hp_list := (hp_list h)(p \<mapsto> l\<lparr>ml_count := ml_count l - 1\<rparr>), hp_itr := ?I,
    hp_pool := c # hp_pool h, hp_destroyed := hp_destroyed h @ destroyed_by l destroy (itm (hp_node h) c)\<rparr>"
  have itrs: "r \<in> set (ml_itr l) \<Longrightarrow> hp_itr h r \<noteq> None" for r using chain by (auto simp: chain_ok_def)
  have "list_delete p c destroy h = Some ?h"
    using c l dom ne mu_iterator_delitem_moves[OF c _ itrs, of "ml_itr l"] chain
    by (cases destroy) (auto simp: list_delete_def heap_simps chain_ok_def free_node_def destroyed_by_def split: option.split)
  moreover have "heap_wf ?h (S(p \<mapsto> xs @ ys))"
  proof (rule heap_wf_change[OF wf S])
    show "hp_list ?h = (hp_list h)(p \<mapsto> l\<lparr>ml_count := ml_count l - 1\<rparr>)" by simp
    show "ml_count (l\<lparr>ml_count := ml_count l - 1\<rparr>) = length (xs @ ys)" using count by simp
    show "ring (hp_node ?h) p (xs @ ys)"
    proof (rule ring_remove[OF ring])
      show "linked (hp_node ?h) (last (p # xs)) (hd (ys @ [p]))"
        using dom ne unfolding linked_def u_def[symmetric] v_def[symmetric] by simp
      show "nxt (hp_node ?h) a = nxt (hp_node h) a" if "a \<in> set (p # xs @ ys)" "a \<noteq> last (p # xs)" for a
        using that d unfolding u_def[symmetric] by auto
      show "prv (hp_node ?h) a = prv (hp_node h) a" if "a \<in> set (p # xs @ ys)" "a \<noteq> hd (ys @ [p])" for a
        using that d unfolding v_def[symmetric] by auto
    qed
    show "hp_node ?h q = hp_node h q" if "q \<notin> insert p (set (xs @ c # ys) \<union> set (xs @ ys))" for q
      using that uv by (subgoal_tac "q \<notin> {u, v, c}") (auto simp: with_other)
    show "dom (hp_node ?h) = dom (hp_node h) - set (xs @ c # ys) \<union> set (xs @ ys)"
      using d heap_wf_region[OF wf S] by auto
    show "distinct ((xs @ ys) @ hp_pool ?h)"
      using d m(5,7) heap_wf_region[OF wf S] by auto
    show "chain_ok ?h p (insert p (set (xs @ ys))) (ml_itr (l\<lparr>ml_count := ml_count l - 1\<rparr>))"
      unfolding chain_ok_def
    proof (intro conjI ballI)
      show "distinct (ml_itr (l\<lparr>ml_count := ml_count l - 1\<rparr>))" using chain by (simp add: chain_ok_def)
      fix r assume r: "r \<in> set (ml_itr (l\<lparr>ml_count := ml_count l - 1\<rparr>))"
      with chain obtain i where "hp_itr h r = Some i" "li_list i = p" "li_cur i = 0 \<or> li_cur i \<in> insert p (set (xs @ c # ys))"
        by (auto simp: chain_ok_def)
      with r uv c show "\<exists>i. hp_itr ?h r = Some i \<and> li_list i = p \<and> (li_cur i = 0 \<or> li_cur i \<in> insert p (set (xs @ ys)))"
        by (auto simp: moved_def)
    qed
    show "hp_itr ?h r = hp_itr h r" if "q \<noteq> p" "hp_list h q = Some l'" "r \<in> set (ml_itr l')" for q l' r
    proof -
      have "S q \<noteq> None" using wf that(2) by (auto simp: heap_wf_def lists_ok_def)
      then obtain qs where "S q = Some qs" by auto
      from heap_wf_list[OF wf this] that have "\<exists>i. hp_itr h r = Some i \<and> li_list i = q"
        by (auto simp: chain_ok_def)
      then show ?thesis using chain that(1) by (auto simp: chain_ok_def)
    qed
  qed (auto split: if_splits)
  moreover have "contents ?h (S(p \<mapsto> xs @ ys)) = (contents h S)(p \<mapsto> map (itm (hp_node h)) (xs @ ys))"
  proof (rule contents_change[OF wf S])
    show "map (itm (hp_node ?h)) (xs @ ys) = map (itm (hp_node h)) (xs @ ys)"
    proof (rule map_cong[OF refl])
      show "itm (hp_node ?h) a = itm (hp_node h) a" if "a \<in> set (xs @ ys)" for a
        using that d by (subgoal_tac "a \<noteq> c") (auto simp: itm_del)
    qed
    show "itm (hp_node ?h) a = itm (hp_node h) a" if "a \<notin> insert p (set (xs @ c # ys))" for a
      using that by (auto simp: itm_del)
  qed
  ultimately show ?thesis by (intro exI[of _ ?h]) simp
qed

section \<open>Changing the first item with a property\<close>

fun at_first :: "('a \<Rightarrow> bool) \<Rightarrow> ('a \<Rightarrow> 'a list) \<Rightarrow> 'a list \<Rightarrow> 'a list" where
  "at_first P f [] = []"
| "at_first P f (x # xs) = (if P x then f x @ xs else x # at_first P f xs)"

lemma at_first_found: "P c \<Longrightarrow> \<forall>x \<in> set xs. \<not> P x \<Longrightarrow> at_first P f (xs @ c # ys) = xs @ f c @ ys"
  by (induction xs) auto

lemma at_first_missing: "\<forall>x \<in> set xs. \<not> P x \<Longrightarrow> at_first P f xs = xs"
  by (induction xs) auto

lemma at_first_map_found:
  "P (g c) \<Longrightarrow> \<forall>a \<in> set xs. \<not> P (g a) \<Longrightarrow> at_first P f (map g (xs @ c # ys)) = map g xs @ f (g c) @ map g ys"
  using at_first_found[of P "g c" "map g xs" f "map g ys"] by simp

text \<open>The heap after an operation on the list \<open>p\<close>, with the new nodes of \<open>p\<close> and its items.\<close>

definition changed :: "lheap \<Rightarrow> shape \<Rightarrow> ref \<Rightarrow> ref list \<Rightarrow> item list \<Rightarrow> lheap \<Rightarrow> bool" where
  "changed h S p rs' xs h' \<longleftrightarrow>
     heap_wf h' (S(p \<mapsto> rs')) \<and> contents h' (S(p \<mapsto> rs')) = (contents h S)(p \<mapsto> xs)"

lemma changed_same: "heap_wf h S \<Longrightarrow> S p = Some rs \<Longrightarrow> changed h S p rs (map (itm (hp_node h)) rs) h"
  by (simp add: changed_def contents_def fun_upd_idem)

text \<open>Fields of the list object that are not part of the circle.\<close>

lemma changed_field:
  assumes wf: "heap_wf h S" and S: "S p = Some rs" and l: "hp_list h p = Some l"
    and l': "ml_count l' = ml_count l" "ml_itr l' = ml_itr l"
  shows "changed h S p rs (map (itm (hp_node h)) rs) (h\<lparr>hp_list := (hp_list h)(p \<mapsto> l')\<rparr>)"
proof -
  obtain facts: "ring (hp_node h) p rs" "ml_count l = length rs" "chain_ok h p (insert p (set rs)) (ml_itr l)"
    using heap_wf_list[OF wf S] l by auto
  have mem: "memory_ok h S" using wf by (simp add: heap_wf_def)
  have "heap_wf (h\<lparr>hp_list := (hp_list h)(p \<mapsto> l')\<rparr>) (S(p \<mapsto> rs))"
  proof (rule heap_wf_change[OF wf S])
    show "hp_list (h\<lparr>hp_list := (hp_list h)(p \<mapsto> l')\<rparr>) = (hp_list h)(p \<mapsto> l')" by simp
    show "distinct (rs @ hp_pool (h\<lparr>hp_list := (hp_list h)(p \<mapsto> l')\<rparr>))"
      using facts(1) memory_okD(5,7)[OF mem] heap_wf_region[OF wf S] by (auto simp: ring_def)
    show "dom (hp_node (h\<lparr>hp_list := (hp_list h)(p \<mapsto> l')\<rparr>)) = dom (hp_node h) - set rs \<union> set rs"
      using heap_wf_region[OF wf S] by auto
  qed (use facts l' in \<open>auto simp: chain_ok_def\<close>)
  then show ?thesis using S by (auto simp: changed_def contents_def fun_eq_iff)
qed

lemma mu_list_remove_ok:
  assumes wf: "heap_wf h S" and S: "S p = Some rs"
  shows "\<exists>h' rs'. mu_list_remove p x h =
      Some (h', if \<exists>c \<in> set rs. same_item h p x (itm (hp_node h) c) then None else Some MU_ERR_NOENT) \<and>
    changed h S p rs' (at_first (same_item h p x) (\<lambda>_. []) (map (itm (hp_node h)) rs)) h'"
  using assms
proof (cases rule: list_lookup_cases[where x = x])
  case missing
  then show ?thesis using heap_wf_null[OF wf S] changed_same[OF wf S] at_first_missing[of "map (itm (hp_node h)) rs"]
    by (auto simp: mu_list_remove_def)
next
  case (found xs c ys)
  obtain l where l: "hp_list h p = Some l" by (rule heap_wf_list[OF wf S])
  obtain h' where "list_delete p c True h = Some h'" "changed h S p (xs @ ys) (map (itm (hp_node h)) (xs @ ys)) h'"
    using list_delete_ok[OF wf, of p xs c ys l True] S l found(2) unfolding changed_def by blast
  then show ?thesis
    using found at_first_map_found[of "same_item h p x" "itm (hp_node h)" c xs] heap_wf_null[OF wf S]
    by (auto simp: mu_list_remove_def)
qed

lemma mu_list_remove_nth_ok:
  assumes wf: "heap_wf h S" and S: "S p = Some rs"
  shows "\<exists>h' rs'. mu_list_remove_nth p n h = Some (h', if n < length rs then None else Some ERANGE) \<and>
    changed h S p rs' (take n (map (itm (hp_node h)) rs) @ drop (Suc n) (map (itm (hp_node h)) rs)) h'"
proof -
  obtain l where l: "hp_list h p = Some l" "ml_count l = length rs" by (rule heap_wf_list[OF wf S])
  show ?thesis
  proof (cases "n < length rs")
    case False
    then show ?thesis using l heap_wf_null[OF wf S] changed_same[OF wf S]
      by (auto simp: mu_list_remove_nth_def)
  next
    case True
    then have rs: "rs = take n rs @ rs ! n # drop (Suc n) rs" by (rule id_take_nth_drop)
    obtain h' where "list_delete p (rs ! n) True h = Some h'"
      "changed h S p (take n rs @ drop (Suc n) rs) (map (itm (hp_node h)) (take n rs @ drop (Suc n) rs)) h'"
      using list_delete_ok[OF wf, of p "take n rs" "rs ! n" "drop (Suc n) rs" l True] S l rs unfolding changed_def by metis
    then show ?thesis
      using True l heap_wf_null[OF wf S]
      by (auto simp: mu_list_remove_nth_def list_find_walk[OF wf S] find_at_nth take_map drop_map)
  qed
qed

lemma mu_list_pop_ok:
  assumes wf: "heap_wf h S" and S: "S p = Some rs"
  shows "\<exists>h' rs'. mu_list_pop p keep h =
      Some (h', if rs = [] then Inl MU_ERR_NOENT else Inr (last (map (itm (hp_node h)) rs))) \<and>
    changed h S p rs' (butlast (map (itm (hp_node h)) rs)) h'"
proof -
  obtain l where l: "hp_list h p = Some l" "ml_count l = length rs" "ring (hp_node h) p rs" by (rule heap_wf_list[OF wf S])
  show ?thesis
  proof (cases rs rule: rev_cases)
    case Nil
    then show ?thesis using l heap_wf_null[OF wf S] changed_same[OF wf S] by (auto simp: mu_list_pop_def)
  next
    case (snoc xs c)
    obtain h' where "list_delete p c (\<not> keep) h = Some h'" "changed h S p xs (map (itm (hp_node h)) xs) h'"
      using list_delete_ok[OF wf, of p xs c "[]" l "\<not> keep"] S l snoc unfolding changed_def by auto
    then show ?thesis
      using l heap_wf_null[OF wf S] heap_wf_node[OF wf S, of c] ring_last[OF l(3)] snoc
      by (auto simp: mu_list_pop_def heap_simps)
  qed
qed

lemma mu_list_insert_ok:
  assumes wf: "heap_wf h S" and S: "S p = Some rs" and pool: "hp_pool h = n # pool"
  shows "\<exists>h' rs'. mu_list_insert p x y before h =
      Some (h', if \<exists>c \<in> set rs. same_item h p x (itm (hp_node h) c) then None else Some MU_ERR_NOENT) \<and>
    changed h S p rs' (at_first (same_item h p x) (\<lambda>c. if before then [y, c] else [c, y]) (map (itm (hp_node h)) rs)) h'"
  using wf S
proof (cases rule: list_lookup_cases[where x = x])
  case missing
  then show ?thesis using heap_wf_null[OF wf S] changed_same[OF wf S] at_first_missing[of "map (itm (hp_node h)) rs"]
    by (auto simp: mu_list_insert_def)
next
  case (found xs c ys)
  note ok = list_insert_item_ok[OF wf _ pool, of p _ _ before y]
  obtain h' rs' where "list_insert_item p c y before h = Some (h', None)"
    "changed h S p rs' (map (itm (hp_node h)) xs @ (if before then [y, itm (hp_node h) c] else [itm (hp_node h) c, y]) @
       map (itm (hp_node h)) ys) h'"
    using ok[of xs "c # ys"] ok[of "xs @ [c]" ys] S found(2) unfolding changed_def by (cases before) auto
  then show ?thesis
    using found at_first_map_found[of "same_item h p x" "itm (hp_node h)" c xs] heap_wf_null[OF wf S]
    by (auto simp: mu_list_insert_def)
qed

lemma set_item_ok:
  assumes wf: "heap_wf h S" and S: "S p = Some (xs @ c # ys)"
  shows "changed h S p (xs @ c # ys) (map (itm (hp_node h)) xs @ y # map (itm (hp_node h)) ys)
    (h\<lparr>hp_node := with_item c y (hp_node h), hp_destroyed := d\<rparr>)"
proof -
  obtain l where l: "hp_list h p = Some l" "ml_count l = length (xs @ c # ys)" "ring (hp_node h) p (xs @ c # ys)"
    "chain_ok h p (insert p (set (xs @ c # ys))) (ml_itr l)" by (rule heap_wf_list[OF wf S])
  have mem: "memory_ok h S" using wf by (simp add: heap_wf_def)
  let ?h = "h\<lparr>hp_node := with_item c y (hp_node h), hp_destroyed := d\<rparr>"
  have c: "hp_node h c \<noteq> None" by (rule heap_wf_node[OF wf S]) simp
  have "heap_wf ?h (S(p \<mapsto> xs @ c # ys))"
  proof (rule heap_wf_change[OF wf S])
    show "hp_list ?h = (hp_list h)(p \<mapsto> l)" using l(1) by (simp add: fun_upd_idem)
    show "distinct ((xs @ c # ys) @ hp_pool ?h)"
      using l(3) memory_okD(5,7)[OF mem] heap_wf_region[OF wf S] by (auto simp: ring_def)
    show "dom (hp_node ?h) = dom (hp_node h) - set (xs @ c # ys) \<union> set (xs @ c # ys)"
      using heap_wf_region[OF wf S] by auto
    show "ring (hp_node ?h) p (xs @ c # ys)" using l(3) by (subst ring_frame[of _ _ _ "hp_node h"]) simp_all
  qed (use l(2,4) in \<open>auto simp: chain_ok_def with_other\<close>)
  moreover have "contents ?h (S(p \<mapsto> xs @ c # ys)) =
      (contents h S)(p \<mapsto> map (itm (hp_node h)) xs @ y # map (itm (hp_node h)) ys)"
    by (rule contents_change[OF wf S]) (use l(3) c in \<open>auto simp: ring_def\<close>)
  ultimately show ?thesis by (simp add: changed_def)
qed

lemma mu_list_replace_ok:
  assumes wf: "heap_wf h S" and S: "S p = Some rs"
  shows "\<exists>h' rs'. mu_list_replace p x y h =
      Some (h', if \<exists>c \<in> set rs. same_item h p x (itm (hp_node h) c) then None else Some MU_ERR_NOENT) \<and>
    changed h S p rs' (at_first (same_item h p x) (\<lambda>_. [y]) (map (itm (hp_node h)) rs)) h'"
  using assms
proof (cases rule: list_lookup_cases[where x = x])
  case missing
  then show ?thesis using heap_wf_null[OF wf S] changed_same[OF wf S] at_first_missing[of "map (itm (hp_node h)) rs"]
    by (auto simp: mu_list_replace_def)
next
  case (found xs c ys)
  obtain l where l: "hp_list h p = Some l" by (rule heap_wf_list[OF wf S])
  have c: "hp_node h c \<noteq> None" using found(2) by (intro heap_wf_node[OF wf S]) simp
  let ?h = "h\<lparr>hp_node := with_item c y (hp_node h),
      hp_destroyed := hp_destroyed h @ destroyed_by l True (itm (hp_node h) c)\<rparr>"
  have "mu_list_replace p x y h = Some (?h, None)"
    using found(1) heap_wf_null[OF wf S] l c by (simp add: mu_list_replace_def heap_simps)
  moreover have "changed h S p rs (map (itm (hp_node h)) xs @ y # map (itm (hp_node h)) ys) ?h"
    using set_item_ok[OF wf, of p xs c ys y] S found(2) by simp
  moreover have "\<exists>c \<in> set rs. same_item h p x (itm (hp_node h) c)" using found(2,3) by auto
  moreover have "at_first (same_item h p x) (\<lambda>_. [y]) (map (itm (hp_node h)) rs) =
      map (itm (hp_node h)) xs @ y # map (itm (hp_node h)) ys"
    unfolding found(2) by (subst at_first_map_found) (use found in auto)
  ultimately show ?thesis by (intro exI[of _ ?h] exI[of _ rs]) simp
qed

end
