(* ===== verification/List_Move.thy ===== *)
theory List_Move
  imports List_Change
begin

text \<open>
  Creation, clearing and destruction of lists, moving all nodes of one list into another, and the
  life of iterators.
\<close>

lemma lists_okD:
  assumes "lists_ok h S" "hp_list h p = Some l" "S p = Some rs"
  shows "ring (hp_node h) p rs" "ml_count l = length rs" "chain_ok h p (region S p) (ml_itr l)"
  using assms unfolding lists_ok_def by blast+

lemma lists_ok_shape: "lists_ok h S \<Longrightarrow> hp_list h p = Some l \<Longrightarrow> \<exists>rs. S p = Some rs"
  by (metis domD domI lists_ok_def)

section \<open>Creation and destruction\<close>

lemma mu_list_create_ok:
  assumes wf: "heap_wf h S" and pool: "hp_pool h = p # pool"
  shows "\<exists>h'. mu_list_create h = (h', Inr p) \<and> heap_wf h' (S(p \<mapsto> [])) \<and>
    contents h' (S(p \<mapsto> [])) = (contents h S)(p \<mapsto> [])"
proof -
  have lists: "lists_ok h S" and mem: "memory_ok h S" using wf by (simp_all add: heap_wf_def)
  note m = memory_okD[OF mem]
  have p: "p \<notin> dom (hp_node h)" "p \<notin> dom (hp_itr h)" "p \<noteq> 0" "p \<notin> set pool" "distinct pool" "0 \<notin> set pool"
    using m pool by auto
  have S: "S p = None"
  proof (rule ccontr)
    assume "S p \<noteq> None"
    then obtain rs where "S p = Some rs" by auto
    from heap_wf_region[OF wf this] p(1) show False by simp
  qed
  have out: "p \<notin> region S q" for q using m(1) p(1) by auto
  let ?l = "\<lparr>ml_count = 0, ml_comp = None, ml_destroy_item = None, ml_itr = []\<rparr>"
  let ?h = "h\<lparr>hp_pool := pool, hp_node := (hp_node h)(p \<mapsto> \<lparr>ld_item = 0, ld_next = p, ld_prev = p\<rparr>),
    hp_list := (hp_list h)(p \<mapsto> ?l)\<rparr>"
  have "mu_list_create h = (?h, Inr p)" by (simp add: mu_list_create_def calloc_def pool)
  moreover have "lists_ok ?h (S(p \<mapsto> []))"
    unfolding lists_ok_def
  proof (intro conjI allI impI)
    show "dom (hp_list ?h) = dom (S(p \<mapsto> []))" using lists by (simp add: lists_ok_def)
    fix q rs l assume q: "(S(p \<mapsto> [])) q = Some rs" "hp_list ?h q = Some l"
    show "ring (hp_node ?h) q rs"
    proof (cases "q = p")
      case False
      then have "S q = Some rs" using q by simp
      then have "ring (hp_node h) q rs" "p \<notin> set (q # rs)" using heap_wf_list[OF wf] out[of q] by auto
      then show ?thesis by (subst ring_frame[of _ _ _ "hp_node h"]) auto
    qed (use q in \<open>simp add: ring_Nil\<close>)
    show "ml_count l = length rs" "chain_ok ?h q (region (S(p \<mapsto> [])) q) (ml_itr l)"
      using q lists by (auto simp: lists_ok_def chain_ok_def split: if_splits)
  qed
  moreover have "memory_ok ?h (S(p \<mapsto> []))"
    unfolding memory_ok_def
  proof (intro conjI allI impI)
    show "dom (hp_node ?h) = (\<Union>q. region (S(p \<mapsto> [])) q)" 
    proof -
      have "(\<Union>q. region (S(p \<mapsto> [])) q) = insert p (\<Union>q \<in> - {p}. region S q)" by (auto split: if_splits)
      also have "\<dots> = insert p (region S p \<union> (\<Union>q \<in> - {p}. region S q))" using S by simp
      also have "region S p \<union> (\<Union>q \<in> - {p}. region S q) = dom (hp_node h)" unfolding m(1) by blast
      finally have e: "(\<Union>q. region (S(p \<mapsto> [])) q) = insert p (dom (hp_node h))" .
      show ?thesis unfolding e by simp
    qed
    show "region (S(p \<mapsto> [])) q \<inter> region (S(p \<mapsto> [])) r = {}" if "q \<noteq> r" for q r
      using m(6)[OF that] out that by auto
    show "set (hp_pool ?h) \<inter> (dom (hp_node ?h) \<union> dom (hp_itr ?h)) = {}" using p m(7,8) pool by auto
    show "dom (hp_node ?h) \<inter> dom (hp_itr ?h) = {}" using p(2) m(9) by simp
    show "0 \<notin> set (hp_pool ?h) \<union> dom (hp_node ?h) \<union> dom (hp_itr ?h)" using p m(3,4) by simp
  qed (use p in simp)
  moreover have "contents ?h (S(p \<mapsto> [])) = (contents h S)(p \<mapsto> [])"
  proof
    fix q
    have "map (itm (hp_node ?h)) rs = map (itm (hp_node h)) rs" if "S q = Some rs" for rs
      using out[of q] that by auto
    then show "contents ?h (S(p \<mapsto> [])) q = ((contents h S)(p \<mapsto> [])) q"
      by (cases "S q") (auto simp: contents_def)
  qed
  ultimately show ?thesis by (simp add: heap_wf_def)
qed

text \<open>\<open>p\<close>'s iterators stand at the list itself, or have not been started.\<close>

definition idle :: "lheap \<Rightarrow> ref \<Rightarrow> mu_list \<Rightarrow> bool" where
  "idle h p l \<longleftrightarrow> (\<forall>r \<in> set (ml_itr l). \<forall>i. hp_itr h r = Some i \<longrightarrow> li_cur i \<in> {0, p})"

lemma set_tl_snoc: "set (tl (rs @ [p])) \<subseteq> insert p (set rs)"
  by (cases rs) auto

lemma list_clear_loop_frees:
  assumes "successively (linked (hp_node h)) (rs @ [p])" "distinct (p # rs)" "hp_list h p = Some l"
  shows "list_clear_loop p (hd (rs @ [p])) h =
    Some (h\<lparr>hp_node := (hp_node h) |` (- set rs), hp_pool := rev rs @ hp_pool h,
      hp_destroyed := hp_destroyed h @ concat (map (\<lambda>r. destroyed_by l True (itm (hp_node h) r)) rs)\<rparr>)"
  using assms
proof (induction rs arbitrary: h)
  case Nil
  then show ?case by (simp add: list_clear_loop.simps)
next
  case (Cons r rs)
  from Cons.prems walk_step[of "hp_node h" r rs p] obtain d where
    d: "hp_node h r = Some d" "ld_item d = itm (hp_node h) r" "ld_next d = hd (rs @ [p])"
      "successively (linked (hp_node h)) (rs @ [p])" by auto
  let ?h = "free_node r (h\<lparr>hp_destroyed := hp_destroyed h @ destroyed_by l True (itm (hp_node h) r)\<rparr>)"
  have "list_clear_loop p (hd ((r # rs) @ [p])) h = list_clear_loop p (hd (rs @ [p])) ?h"
    using Cons.prems d by (subst list_clear_loop.simps) (simp add: heap_simps nxt_def)
  also have "\<dots> = Some (?h\<lparr>hp_node := (hp_node ?h) |` (- set rs), hp_pool := rev rs @ hp_pool ?h,
      hp_destroyed := hp_destroyed ?h @ concat (map (\<lambda>r. destroyed_by l True (itm (hp_node ?h) r)) rs)\<rparr>)"
  proof (rule Cons.IH)
    show "successively (linked (hp_node ?h)) (rs @ [p])"
      using d(4) Cons.prems(2) set_tl_snoc[of rs p]
      by (subst successively_frame[of _ _ "hp_node h"]) (auto simp: free_node_def dest: in_set_butlastD list.set_sel(2))
  qed (use Cons.prems in \<open>auto simp: free_node_def\<close>)
  also have "\<dots> = Some (h\<lparr>hp_node := (hp_node h) |` (- set (r # rs)), hp_pool := rev (r # rs) @ hp_pool h,
      hp_destroyed := hp_destroyed h @ concat (map (\<lambda>r. destroyed_by l True (itm (hp_node h) r)) (r # rs))\<rparr>)"
  proof -
    have "map (\<lambda>a. destroyed_by l True (itm ((hp_node h)(r := None)) a)) rs =
        map (\<lambda>a. destroyed_by l True (itm (hp_node h) a)) rs"
    proof (rule map_cong[OF refl])
      fix a assume "a \<in> set rs"
      with Cons.prems(2) have "a \<noteq> r" by auto
      then show "destroyed_by l True (itm ((hp_node h)(r := None)) a) = destroyed_by l True (itm (hp_node h) a)"
        by (simp add: itm_del)
    qed
    moreover have "(hp_node h)(r := None) |` (- set rs) = hp_node h |` (- set (r # rs))"
      by (auto simp: fun_eq_iff restrict_map_def)
    ultimately show ?thesis by (simp add: free_node_def del: map_eq_conv)
  qed
  finally show ?case .
qed

lemma mu_list_clear_ok:
  assumes wf: "heap_wf h S" and S: "S p = Some rs" and l: "hp_list h p = Some l" and idle: "idle h p l"
  shows "\<exists>h'. mu_list_clear p h = Some h' \<and> changed h S p [] [] h' \<and> hp_itr h' = hp_itr h \<and>
    hp_list h' = (hp_list h)(p \<mapsto> l\<lparr>ml_count := 0\<rparr>) \<and>
    hp_destroyed h' = hp_destroyed h @ concat (map (\<lambda>r. destroyed_by l True (itm (hp_node h) r)) rs)"
proof -
  obtain ring: "ring (hp_node h) p rs" and chain: "chain_ok h p (insert p (set rs)) (ml_itr l)"
    using heap_wf_list[OF wf S] l by auto
  have mem: "memory_ok h S" using wf by (simp add: heap_wf_def)
  note m = memory_okD[OF mem]
  have d: "distinct (p # rs)" using ring by (simp add: ring_def)
  have p: "hp_node h p \<noteq> None" by (rule heap_wf_node[OF wf S]) simp
  have walk: "successively (linked (hp_node h)) (rs @ [p])" using ring ring_split[of "hp_node h" p "[]" rs] by simp
  let ?N = "with_next p p (with_prev p p ((hp_node h) |` (- set rs)))"
  let ?h = "h\<lparr>hp_node := ?N, hp_pool := rev rs @ hp_pool h, hp_list := (hp_list h)(p \<mapsto> l\<lparr>ml_count := 0\<rparr>),
      hp_destroyed := hp_destroyed h @ concat (map (\<lambda>r. destroyed_by l True (itm (hp_node h) r)) rs)\<rparr>"
  have "mu_list_clear p h = Some ?h"
    using heap_wf_null[OF wf S] ring_first[OF ring] list_clear_loop_frees[OF walk d l] p d l
    by (auto simp: mu_list_clear_def list_reset_def heap_simps restrict_map_def)
  moreover have "heap_wf ?h (S(p \<mapsto> []))"
  proof (rule heap_wf_change[OF wf S])
    show "hp_list ?h = (hp_list h)(p \<mapsto> l\<lparr>ml_count := 0\<rparr>)" by simp
    show "ring (hp_node ?h) p []" using p d by (simp add: ring_Nil)
    show "hp_node ?h q = hp_node h q" if "q \<notin> insert p (set rs \<union> set [])" for q
      using that by (simp add: with_other)
    show "dom (hp_node ?h) = dom (hp_node h) - set rs \<union> set []" by auto
    show "distinct ([] @ hp_pool ?h)" using d m(5,7) heap_wf_region[OF wf S] by auto
    show "chain_ok ?h p (insert p (set [])) (ml_itr (l\<lparr>ml_count := 0\<rparr>))"
      using chain idle by (fastforce simp: chain_ok_def idle_def)
  qed auto
  moreover have "contents ?h (S(p \<mapsto> [])) = (contents h S)(p \<mapsto> [])"
    by (rule contents_change[OF wf S]) (auto simp: itm_def)
  ultimately show ?thesis by (simp add: changed_def)
qed

text \<open>Destruction of a list without iterators.\<close>

lemma mu_list_destroy_ok:
  assumes wf: "heap_wf h S" and S: "S p = Some rs" and l: "hp_list h p = Some l" and none: "ml_itr l = []"
  shows "\<exists>h'. mu_list_destroy p h = Some h' \<and> heap_wf h' (S(p := None)) \<and>
    contents h' (S(p := None)) = (contents h S)(p := None)"
proof -
  from mu_list_clear_ok[OF wf S l] none obtain h1 where h1: "mu_list_clear p h = Some h1" "changed h S p [] [] h1"
    by (auto simp: idle_def)
  let ?S1 = "S(p \<mapsto> [])"
  have wf1: "heap_wf h1 ?S1" and c1: "contents h1 ?S1 = (contents h S)(p \<mapsto> [])"
    using h1(2) by (simp_all add: changed_def)
  have lists: "lists_ok h1 ?S1" and mem: "memory_ok h1 ?S1" using wf1 by (simp_all add: heap_wf_def)
  note m = memory_okD[OF mem]
  let ?h = "(free_node p h1)\<lparr>hp_list := (hp_list h1)(p := None)\<rparr>"
  have p: "hp_node h1 p \<noteq> None" "p \<noteq> 0" "p \<notin> dom (hp_itr h1)" "p \<notin> set (hp_pool h1)"
    using heap_wf_node[OF wf1, of p "[]" p] heap_wf_null[OF wf S] m(7,9) by auto
  have out: "p \<notin> region S q" if "q \<noteq> p" for q using m(6)[OF that] that by simp
  have "mu_list_destroy p h = Some ?h" using h1(1) p(2) by (simp add: mu_list_destroy_def)
  moreover have "lists_ok ?h (S(p := None))"
    unfolding lists_ok_def
  proof (intro conjI allI impI)
    show "dom (hp_list ?h) = dom (S(p := None))" using lists by (auto simp: lists_ok_def)
    fix q qs l assume q: "(S(p := None)) q = Some qs" "hp_list ?h q = Some l"
    then have qp: "q \<noteq> p" "?S1 q = Some qs" by (auto split: if_splits)
    have "ring (hp_node h1) q qs" by (rule heap_wf_list[OF wf1 qp(2)])
    moreover have "p \<notin> set (q # qs)" using out[OF qp(1)] qp by simp
    ultimately show "ring (hp_node ?h) q qs"
      by (subst ring_frame[of _ _ _ "hp_node h1"]) (auto simp: free_node_def)
    have "hp_list h1 q = Some l" using q(2) qp(1) by simp
    note k = lists_okD(2,3)[OF lists this qp(2)]
    show "ml_count l = length qs" by (rule k(1))
    have "region (S(p := None)) q = region ?S1 q" using qp(1) by (simp add: region_def)
    then show "chain_ok ?h q (region (S(p := None)) q) (ml_itr l)"
      using k(2) by (simp only: chain_ok_def) (simp add: free_node_def)
  qed
  moreover have "memory_ok ?h (S(p := None))"
    unfolding memory_ok_def
  proof (intro conjI allI impI)
    have "(\<Union>q. region ?S1 q) = insert p (\<Union>q \<in> - {p}. region S q)" by (auto split: if_splits)
    then have "dom (hp_node h1) = insert p (\<Union>q \<in> - {p}. region S q)" using m(1) by simp
    moreover have "(\<Union>q. region (S(p := None)) q) = (\<Union>q \<in> - {p}. region S q)" by (auto split: if_splits)
    moreover have "p \<notin> (\<Union>q \<in> - {p}. region S q)" using out by auto
    ultimately show "dom (hp_node ?h) = (\<Union>q. region (S(p := None)) q)" by (auto simp: free_node_def)
    show "region (S(p := None)) q \<inter> region (S(p := None)) r = {}" if "q \<noteq> r" for q r
      using m(6)[OF that] by auto
    show "0 \<notin> set (hp_pool ?h) \<union> dom (hp_node ?h) \<union> dom (hp_itr ?h)"
      using p(2) m(2-4) by (simp add: free_node_def)
    show "set (hp_pool ?h) \<inter> (dom (hp_node ?h) \<union> dom (hp_itr ?h)) = {}"
      using p(3) m(7,8) by (auto simp: free_node_def)
    show "dom (hp_node ?h) \<inter> dom (hp_itr ?h) = {}" using m(9) by (auto simp: free_node_def)
    show "distinct (hp_pool ?h)" using p(4) m(5) by (simp add: free_node_def)
  qed
  moreover have "contents ?h (S(p := None)) = (contents h S)(p := None)"
  proof
    fix q
    have "map (itm (hp_node ?h)) qs = map (itm (hp_node h1)) qs" if "S q = Some qs" "q \<noteq> p" for qs
      using out[OF that(2)] that(1) by (intro map_cong refl) (auto simp: free_node_def itm_def)
    moreover have "contents h1 ?S1 q = contents h S q" if "q \<noteq> p" using c1 that by simp
    ultimately show "contents ?h (S(p := None)) q = ((contents h S)(p := None)) q"
      by (cases "S q") (auto simp: contents_def)
  qed
  ultimately show ?thesis by (simp add: heap_wf_def)
qed

section \<open>Iterators\<close>

text \<open>A change of the iterators of one list, as objects and as its chain.\<close>

lemma heap_wf_itrs:
  assumes wf: "heap_wf h S" and S: "S p = Some rs" and l: "hp_list h p = Some l"
    and same: "hp_node h' = hp_node h" "hp_list h' = (hp_list h)(p \<mapsto> l\<lparr>ml_itr := chain'\<rparr>)"
    and chain: "chain_ok h' p (insert p (set rs)) chain'"
    and other: "\<And>q l r. q \<noteq> p \<Longrightarrow> hp_list h q = Some l \<Longrightarrow> r \<in> set (ml_itr l) \<Longrightarrow> hp_itr h' r = hp_itr h r"
    and mem': "distinct (hp_pool h')" "set (hp_pool h') \<union> dom (hp_itr h') = set (hp_pool h) \<union> dom (hp_itr h)"
      "set (hp_pool h') \<inter> dom (hp_itr h') = {}"
  shows "heap_wf h' S" "contents h' S = contents h S"
proof -
  have lists: "lists_ok h S" and mem: "memory_ok h S" using wf by (simp_all add: heap_wf_def)
  note m = memory_okD[OF mem]
  have "lists_ok h' S"
    unfolding lists_ok_def
  proof (intro conjI allI impI)
    show "dom (hp_list h') = dom S" using lists S by (auto simp: lists_ok_def same(2))
    fix q qs k assume q: "S q = Some qs" "hp_list h' q = Some k"
    show "ring (hp_node h') q qs" by (rule heap_wf_list[OF wf q(1)]) (simp add: same(1))
    show "ml_count k = length qs" using q lists l by (auto simp: lists_ok_def same(2) split: if_splits)
    show "chain_ok h' q (region S q) (ml_itr k)"
    proof (cases "q = p")
      case True
      then show ?thesis using q chain S by (auto simp: same(2))
    next
      case False
      then have k: "hp_list h q = Some k" using q(2) by (simp add: same(2))
      with q lists have "chain_ok h q (region S q) (ml_itr k)" by (simp add: lists_ok_def)
      then show ?thesis using other[OF False k] by (auto simp: chain_ok_def)
    qed
  qed
  moreover have "memory_ok h' S"
  proof -
    have sub: "set (hp_pool h') \<subseteq> set (hp_pool h) \<union> dom (hp_itr h)" "dom (hp_itr h') \<subseteq> set (hp_pool h) \<union> dom (hp_itr h)"
      using mem'(2) by blast+
    have "0 \<notin> set (hp_pool h') \<union> dom (hp_node h') \<union> dom (hp_itr h')"
      using sub m(2-4) unfolding same(1) by blast
    moreover have "set (hp_pool h') \<inter> (dom (hp_node h') \<union> dom (hp_itr h')) = {}"
      using sub(1) m(7,9) mem'(3) unfolding same(1) by blast
    moreover have "dom (hp_node h') \<inter> dom (hp_itr h') = {}"
      using sub(2) m(7,9) unfolding same(1) by blast
    ultimately show ?thesis using m(1,6) mem'(1) unfolding memory_ok_def same(1) by blast
  qed
  ultimately show "heap_wf h' S" by (simp add: heap_wf_def)
  show "contents h' S = contents h S" by (simp add: contents_def fun_eq_iff same(1))
qed

text \<open>An attached iterator, its list and the list's nodes.\<close>

definition attached :: "lheap \<Rightarrow> ref \<Rightarrow> bool" where
  "attached h itr \<longleftrightarrow> (\<exists>i l. hp_itr h itr = Some i \<and> hp_list h (li_list i) = Some l \<and> itr \<in> set (ml_itr l))"

lemma attached_facts:
  assumes wf: "heap_wf h S" and a: "attached h itr"
  obtains i l rs where "hp_itr h itr = Some i" "hp_list h (li_list i) = Some l" "itr \<in> set (ml_itr l)"
    "S (li_list i) = Some rs" "ring (hp_node h) (li_list i) rs" "li_cur i = 0 \<or> li_cur i \<in> insert (li_list i) (set rs)"
    "chain_ok h (li_list i) (insert (li_list i) (set rs)) (ml_itr l)"
    "\<And>q k. q \<noteq> li_list i \<Longrightarrow> hp_list h q = Some k \<Longrightarrow> itr \<notin> set (ml_itr k)"
proof -
  from a obtain i l where i: "hp_itr h itr = Some i" "hp_list h (li_list i) = Some l" "itr \<in> set (ml_itr l)"
    by (auto simp: attached_def)
  have lists: "lists_ok h S" using wf by (simp add: heap_wf_def)
  then obtain rs where S: "S (li_list i) = Some rs" using lists_ok_shape i(2) by blast
  obtain ring: "ring (hp_node h) (li_list i) rs" and chain: "chain_ok h (li_list i) (insert (li_list i) (set rs)) (ml_itr l)"
    using heap_wf_list[OF wf S] i(2) by auto
  have "itr \<notin> set (ml_itr k)" if q: "q \<noteq> li_list i" "hp_list h q = Some k" for q k
  proof -
    from lists_ok_shape[OF lists q(2)] obtain qs where "S q = Some qs" by blast
    from lists_okD(3)[OF lists q(2) this] have "chain_ok h q (region S q) (ml_itr k)" .
    with q(1) i(1) show ?thesis by (auto simp: chain_ok_def)
  qed
  moreover have "li_cur i = 0 \<or> li_cur i \<in> insert (li_list i) (set rs)"
    using chain i(1) bspec[OF conjunct2[OF chain[unfolded chain_ok_def]] i(3)] by auto
  ultimately show thesis using that[OF i S ring] chain by blast
qed

text \<open>Moving an iterator to a node of its list.\<close>

lemma itr_set_ok:
  assumes wf: "heap_wf h S" and i: "hp_itr h itr = Some i" and a: "attached h itr" and S: "S (li_list i) = Some rs"
    and i': "li_list i' = li_list i" "li_cur i' = 0 \<or> li_cur i' \<in> insert (li_list i) (set rs)"
  shows "heap_wf (h\<lparr>hp_itr := (hp_itr h)(itr \<mapsto> i')\<rparr>) S"
    "contents (h\<lparr>hp_itr := (hp_itr h)(itr \<mapsto> i')\<rparr>) S = contents h S"
proof -
  from attached_facts[OF wf a] obtain l where l: "hp_list h (li_list i) = Some l" "itr \<in> set (ml_itr l)"
    "chain_ok h (li_list i) (insert (li_list i) (set rs)) (ml_itr l)"
    "\<And>q k. q \<noteq> li_list i \<Longrightarrow> hp_list h q = Some k \<Longrightarrow> itr \<notin> set (ml_itr k)" using i S by (metis option.inject)
  have mem: "memory_ok h S" using wf by (simp add: heap_wf_def)
  let ?h = "h\<lparr>hp_itr := (hp_itr h)(itr \<mapsto> i')\<rparr>"
  have "chain_ok ?h (li_list i) (insert (li_list i) (set rs)) (ml_itr l)"
    using l(3) i' by (auto simp: chain_ok_def)
  moreover have "dom (hp_itr ?h) = dom (hp_itr h)" using i by auto
  moreover have "hp_itr ?h r = hp_itr h r" if "q \<noteq> li_list i" "hp_list h q = Some k" "r \<in> set (ml_itr k)" for q k r
    using l(4)[OF that(1,2)] that(3) by auto
  ultimately show "heap_wf ?h S" "contents ?h S = contents h S"
    using l(1) memory_okD(5,8)[OF mem]
    by (intro heap_wf_itrs[OF wf S l(1), of ?h "ml_itr l"]; simp add: fun_upd_idem)+
qed

end
