(* ===== verification/List_Iter.thy ===== *)
theory List_Iter
  imports List_Move
begin

text \<open>
  The operations of iterators, and the operations that move the nodes of one list into another.
\<close>

section \<open>The life of an iterator\<close>

lemma mu_list_get_iterator_ok:
  assumes wf: "heap_wf h S" and S: "S p = Some rs" and pool: "hp_pool h = r # pool"
  shows "\<exists>h' l. mu_list_get_iterator p h = Some (h', Inr r) \<and> heap_wf h' S \<and> contents h' S = contents h S \<and>
    hp_itr h' = (hp_itr h)(r \<mapsto> \<lparr>li_list = p, li_cur = 0, li_backwards = False, li_is_advanced = 0\<rparr>) \<and>
    hp_list h p = Some l \<and> hp_list h' = (hp_list h)(p \<mapsto> l\<lparr>ml_itr := r # ml_itr l\<rparr>) \<and>
    hp_node h' = hp_node h \<and> hp_destroyed h' = hp_destroyed h"
proof -
  obtain l where l: "hp_list h p = Some l" "chain_ok h p (insert p (set rs)) (ml_itr l)" by (rule heap_wf_list[OF wf S])
  have mem: "memory_ok h S" and lists: "lists_ok h S" using wf by (simp_all add: heap_wf_def)
  note m = memory_okD[OF mem]
  have r: "hp_itr h r = None" "r \<notin> set pool" "distinct pool" using m(5,8) pool by auto
  let ?i = "\<lparr>li_list = p, li_cur = 0, li_backwards = False, li_is_advanced = 0\<rparr>"
  let ?h = "h\<lparr>hp_pool := pool, hp_itr := (hp_itr h)(r \<mapsto> ?i), hp_list := (hp_list h)(p \<mapsto> l\<lparr>ml_itr := r # ml_itr l\<rparr>)\<rparr>"
  have "mu_list_get_iterator p h = Some (?h, Inr r)"
    using heap_wf_null[OF wf S] l(1) by (simp add: mu_list_get_iterator_def calloc_def pool heap_simps)
  moreover have "chain_ok ?h p (insert p (set rs)) (r # ml_itr l)"
    using l(2) r(1) by (auto simp: chain_ok_def)
  moreover have "hp_itr ?h a = hp_itr h a" if "hp_list h q = Some k" "a \<in> set (ml_itr k)" for q k a
  proof -
    from lists_ok_shape[OF lists that(1)] obtain qs where "S q = Some qs" by blast
    from lists_okD(3)[OF lists that(1) this] that(2) r(1) show ?thesis by (auto simp: chain_ok_def)
  qed
  ultimately show ?thesis
    using l(1) r m(8) pool
    by (intro exI[of _ ?h] exI[of _ l] conjI heap_wf_itrs[OF wf S l(1), of ?h "r # ml_itr l"]) auto
qed

lemma mu_iterator_destroy_ok:
  assumes wf: "heap_wf h S" and a: "attached h itr"
  shows "\<exists>h'. mu_iterator_destroy itr h = Some h' \<and> heap_wf h' S \<and> contents h' S = contents h S"
proof (rule attached_facts[OF wf a])
  fix i l rs
  assume i: "hp_itr h itr = Some i" "hp_list h (li_list i) = Some l" "itr \<in> set (ml_itr l)" "S (li_list i) = Some rs"
    and chain: "chain_ok h (li_list i) (insert (li_list i) (set rs)) (ml_itr l)"
    and other: "\<And>q k. q \<noteq> li_list i \<Longrightarrow> hp_list h q = Some k \<Longrightarrow> itr \<notin> set (ml_itr k)"
  have mem: "memory_ok h S" using wf by (simp add: heap_wf_def)
  note m = memory_okD[OF mem]
  have itr: "itr \<noteq> 0" "itr \<notin> set (hp_pool h)" using m(4,8) i(1) by auto
  let ?h = "h\<lparr>hp_list := (hp_list h)(li_list i \<mapsto> l\<lparr>ml_itr := remove1 itr (ml_itr l)\<rparr>),
    hp_itr := (hp_itr h)(itr := None), hp_pool := itr # hp_pool h\<rparr>"
  have "mu_iterator_destroy itr h = Some ?h"
    using i itr by (simp add: mu_iterator_destroy_def heap_simps)
  moreover have "chain_ok ?h (li_list i) (insert (li_list i) (set rs)) (remove1 itr (ml_itr l))"
    using chain by (auto simp: chain_ok_def)
  moreover have "hp_itr ?h r = hp_itr h r" if "q \<noteq> li_list i" "hp_list h q = Some k" "r \<in> set (ml_itr k)" for q k r
    using other[OF that(1,2)] that(3) by auto
  ultimately show ?thesis
    using i itr m(5,8)
    by (intro exI[of _ ?h] conjI heap_wf_itrs[OF wf i(4,2), of ?h "remove1 itr (ml_itr l)"]) auto
qed

lemma ring_neighbours:
  assumes "ring N p rs" "c \<in> insert p (set rs)"
  shows "\<exists>v \<in> insert p (set rs). nxt N c = Some v" "\<exists>u \<in> insert p (set rs). prv N c = Some u"
proof -
  have "\<exists>v \<in> insert p (set rs). nxt N c = Some v" "\<exists>u \<in> insert p (set rs). prv N c = Some u"
    if "rs = xs @ ys" "c = last (p # xs)" for xs ys
  proof -
    have r: "ring N p (xs @ ys)" using assms(1) that(1) by simp
    have "hd (ys @ [p]) \<in> insert p (set rs)" using that(1) by (cases ys) auto
    with ring_nxt[OF r] that(2) show "\<exists>v \<in> insert p (set rs). nxt N c = Some v" by blast
    show "\<exists>u \<in> insert p (set rs). prv N c = Some u"
    proof (cases xs rule: rev_cases)
      case Nil
      then have "prv N c = Some (last (p # rs))" using ring_last[OF assms(1)] that(2) by simp
      then show ?thesis using last_in_set[of "p # rs"] by auto
    next
      case (snoc zs a)
      then have "prv N c = Some (last (p # zs))" using ring_prv[of N p zs "a # ys"] r that(2) by simp
      then show ?thesis using last_in_set[of "p # zs"] snoc that(1) by (auto split: if_splits)
    qed
  qed
  moreover have "\<exists>xs ys. rs = xs @ ys \<and> c = last (p # xs)"
  proof (cases "c = p")
    case False
    with assms(2) obtain xs ys where "rs = xs @ c # ys" by (auto dest: split_list)
    then show ?thesis by (intro exI[of _ "xs @ [c]"] exI[of _ ys]) simp
  qed (intro exI[of _ "[]"] exI[of _ rs], simp)
  ultimately show "\<exists>v \<in> insert p (set rs). nxt N c = Some v" "\<exists>u \<in> insert p (set rs). prv N c = Some u" by blast+
qed

definition only_itr :: "lheap \<Rightarrow> ref \<Rightarrow> list_iterator \<Rightarrow> lheap" where
  "only_itr h itr i = h\<lparr>hp_itr := (hp_itr h)(itr \<mapsto> i)\<rparr>"

text \<open>The first item in the direction of the iterator, and one step in it.\<close>

lemma mu_iterator_first_ok:
  assumes wf: "heap_wf h S" and a: "attached h itr" and i: "hp_itr h itr = Some i" and S: "S (li_list i) = Some rs"
  defines "i' \<equiv> i\<lparr>li_is_advanced := 0, li_cur := if li_backwards i then last (li_list i # rs) else hd (rs @ [li_list i])\<rparr>"
  shows "mu_iterator_first itr h = Some (only_itr h itr i')" "heap_wf (only_itr h itr i') S"
    "contents (only_itr h itr i') S = contents h S"
proof -
  from attached_facts[OF wf a] i S have ring: "ring (hp_node h) (li_list i) rs" by (metis option.inject)
  show "mu_iterator_first itr h = Some (only_itr h itr i')"
    using i ring_first[OF ring] ring_last[OF ring]
    by (simp add: mu_iterator_first_def itr_first_def heap_simps only_itr_def i'_def)
  have "li_cur i' \<in> insert (li_list i) (set rs)"
    using last_in_set[of "li_list i # rs"] hd_in_set[of "rs @ [li_list i]"] by (auto simp: i'_def)
  then show "heap_wf (only_itr h itr i') S" "contents (only_itr h itr i') S = contents h S"
    unfolding only_itr_def by (intro itr_set_ok[OF wf i a S]; simp add: i'_def)+
qed

lemma mu_iterator_next_ok:
  assumes wf: "heap_wf h S" and a: "attached h itr" and i: "hp_itr h itr = Some i" and started: "li_cur i \<noteq> 0"
  defines "i' \<equiv> i\<lparr>li_cur := if li_is_advanced i \<noteq> 0 then li_cur i
      else the (if li_backwards i then prv (hp_node h) (li_cur i) else nxt (hp_node h) (li_cur i)), li_is_advanced := 0\<rparr>"
  shows "mu_iterator_next itr h = Some (only_itr h itr i')" "heap_wf (only_itr h itr i') S"
    "contents (only_itr h itr i') S = contents h S"
proof -
  obtain rs where S: "S (li_list i) = Some rs" and ring: "ring (hp_node h) (li_list i) rs"
    and cur: "li_cur i \<in> insert (li_list i) (set rs)"
    using attached_facts[OF wf a] i started by (metis option.inject)
  note n = ring_neighbours[OF ring cur]
  show "mu_iterator_next itr h = Some (only_itr h itr i')"
    using i n by (auto simp: mu_iterator_next_def itr_next_def heap_simps only_itr_def i'_def)
  have "li_cur i' \<in> insert (li_list i) (set rs)" using n cur by (auto simp: i'_def)
  then show "heap_wf (only_itr h itr i') S" "contents (only_itr h itr i') S = contents h S"
    unfolding only_itr_def by (intro itr_set_ok[OF wf i a S]; simp add: i'_def)+
qed

lemma itr_set_direction_ok:
  assumes wf: "heap_wf h S" and a: "attached h itr"
  shows "\<exists>h'. itr_set_direction itr back h = Some h' \<and> heap_wf h' S \<and> contents h' S = contents h S"
proof (rule attached_facts[OF wf a])
  fix i rs assume i: "hp_itr h itr = Some i" "S (li_list i) = Some rs" "li_cur i = 0 \<or> li_cur i \<in> insert (li_list i) (set rs)"
  then show ?thesis
    using itr_set_ok[OF wf i(1) a i(2), of "i\<lparr>li_backwards := back\<rparr>"] by (simp add: itr_set_direction_def heap_simps)
qed

section \<open>Changing the list at an iterator\<close>

text \<open>An iterator that stands at an item splits the nodes of its list there.\<close>

lemma itr_at:
  assumes wf: "heap_wf h S" and a: "attached h itr" and i: "hp_itr h itr = Some i"
    and at: "li_cur i \<noteq> 0" "li_cur i \<noteq> li_list i"
  obtains l xs ys where "hp_list h (li_list i) = Some l" "S (li_list i) = Some (xs @ li_cur i # ys)"
proof (rule attached_facts[OF wf a])
  fix i' l rs
  assume "hp_itr h itr = Some i'" "hp_list h (li_list i') = Some l" "S (li_list i') = Some rs"
    "li_cur i' = 0 \<or> li_cur i' \<in> insert (li_list i') (set rs)"
  with i at have "hp_list h (li_list i) = Some l" "S (li_list i) = Some rs" "li_cur i \<in> set rs" by auto
  with that show thesis by (metis split_list)
qed

lemma itr_delete_ok:
  assumes wf: "heap_wf h S" and a: "attached h itr" and i: "hp_itr h itr = Some i"
    and at: "li_cur i \<noteq> 0" "li_cur i \<noteq> li_list i"
  shows "\<exists>h' rs'. itr_delete itr destroy h = Some (h', None) \<and> heap_wf h' (S(li_list i \<mapsto> rs'))"
proof (rule itr_at[OF wf a i at])
  fix l xs ys assume "hp_list h (li_list i) = Some l" "S (li_list i) = Some (xs @ li_cur i # ys)"
  from list_delete_ok[OF wf this(2,1), of destroy] i at(1) show ?thesis by (auto simp: itr_delete_def)
qed

lemma itr_replace_ok:
  assumes wf: "heap_wf h S" and a: "attached h itr" and i: "hp_itr h itr = Some i"
    and at: "li_cur i \<noteq> 0" "li_cur i \<noteq> li_list i"
  shows "\<exists>h' r rs'. itr_replace itr destroy y h = Some (h', r) \<and> heap_wf h' (S(li_list i \<mapsto> rs'))"
proof (rule itr_at[OF wf a i at])
  fix l xs ys assume l: "hp_list h (li_list i) = Some l" and S: "S (li_list i) = Some (xs @ li_cur i # ys)"
  have c: "hp_node h (li_cur i) \<noteq> None" by (rule heap_wf_node[OF wf S]) simp
  show ?thesis
  proof (cases "y = 0")
    case True
    with i at(1) wf S show ?thesis by (auto simp: itr_replace_def intro!: exI[of _ "xs @ li_cur i # ys"] simp: fun_upd_idem)
  next
    case False
    define d where "d = (if destroy then hp_destroyed h @ destroyed_by l True (itm (hp_node h) (li_cur i)) else hp_destroyed h)"
    have "itr_replace itr destroy y h = Some (h\<lparr>hp_node := with_item (li_cur i) y (hp_node h), hp_destroyed := d\<rparr>, None)"
      using i at(1) False l c by (auto simp: itr_replace_def heap_simps d_def)
    moreover have "heap_wf (h\<lparr>hp_node := with_item (li_cur i) y (hp_node h), hp_destroyed := d\<rparr>)
        (S(li_list i \<mapsto> xs @ li_cur i # ys))"
      using set_item_ok[OF wf S, of y d] by (simp add: changed_def)
    ultimately show ?thesis by blast
  qed
qed

lemma itr_insert_ok:
  assumes wf: "heap_wf h S" and a: "attached h itr"
  shows "\<exists>h' r S'. itr_insert itr y h = Some (h', r) \<and> heap_wf h' S'"
proof (rule attached_facts[OF wf a])
  fix i l rs
  assume i: "hp_itr h itr = Some i" and S: "S (li_list i) = Some rs" and cur: "li_cur i = 0 \<or> li_cur i \<in> insert (li_list i) (set rs)"
  show ?thesis
  proof (cases "li_cur i = 0 \<or> y = 0 \<or> hp_pool h = []")
    case True
    with i wf show ?thesis by (auto simp: itr_insert_def list_insert_item_def heap_simps)
  next
    case False
    then obtain n pool where pool: "hp_pool h = n # pool" by (cases "hp_pool h") auto
    have "\<exists>xs ys. rs = xs @ ys \<and> li_cur i = last (li_list i # xs)"
    proof (cases "li_cur i = li_list i")
      case False
      with cur \<open>\<not> (li_cur i = 0 \<or> y = 0 \<or> hp_pool h = [])\<close> obtain xs ys where "rs = xs @ li_cur i # ys"
        by (auto dest: split_list)
      then show ?thesis by (intro exI[of _ "xs @ [li_cur i]"] exI[of _ ys]) simp
    qed (intro exI[of _ "[]"] exI[of _ rs], simp)
    then obtain xs ys where xs: "rs = xs @ ys" "li_cur i = last (li_list i # xs)" by blast
    from list_insert_item_ok[OF wf _ pool, of "li_list i" xs ys False y] S xs i False show ?thesis
      by (auto simp: itr_insert_def simp del: last.simps)
  qed
qed

end
