(* ===== verification/List_Splice.thy ===== *)
theory List_Splice
  imports List_Iter
begin

text \<open>
  Moving all nodes of one list into another, and all the operations together: calls on a heap, when
  they are allowed, and that no sequence of allowed calls goes through a dangling reference.
\<close>

section \<open>Moving nodes\<close>

lemma splice_lists:
  assumes wf: "heap_wf h S" and Sp: "S p = Some (xs @ ys)" and Sq: "S q = Some zs" and zs: "zs \<noteq> []" and pq: "p \<noteq> q"
    and l: "hp_list h p = Some l" and k: "hp_list h q = Some k" "ml_itr k = []"
    and N: "dom N = dom (hp_node h)" "linked N (last (p # xs)) (hd zs)" "linked N (last zs) (hd (ys @ [p]))"
      "nxt N q = Some q" "prv N q = Some q"
      "\<And>a. a \<notin> {last (p # xs), last zs, q} \<Longrightarrow> nxt N a = nxt (hp_node h) a"
      "\<And>a. a \<notin> {hd (ys @ [p]), hd zs, q} \<Longrightarrow> prv N a = prv (hp_node h) a"
      "\<And>a. a \<notin> {p, q} \<Longrightarrow> itm N a = itm (hp_node h) a"
  defines "h' \<equiv> h\<lparr>hp_node := N,
      hp_list := (hp_list h)(p \<mapsto> l\<lparr>ml_count := ml_count l + ml_count k\<rparr>, q \<mapsto> k\<lparr>ml_count := 0\<rparr>)\<rparr>"
  shows "heap_wf h' (S(p \<mapsto> xs @ zs @ ys, q \<mapsto> []))"
    and "contents h' (S(p \<mapsto> xs @ zs @ ys, q \<mapsto> [])) =
      (contents h S)(p \<mapsto> map (itm (hp_node h)) (xs @ zs @ ys), q \<mapsto> [])"
proof -
  let ?S = "S(p \<mapsto> xs @ zs @ ys, q \<mapsto> [])"
  have lists: "lists_ok h S" and mem: "memory_ok h S" using wf by (simp_all add: heap_wf_def)
  note m = memory_okD[OF mem]
  note P = lists_okD[OF lists l Sp] and Q = lists_okD[OF lists k(1) Sq]
  have Pd: "distinct (p # xs @ ys)" and Qd: "distinct (q # zs)" using P(1) Q(1) by (simp_all add: ring_def)
  have regs: "region S p = insert p (set (xs @ ys))" "region S q = insert q (set zs)" using Sp Sq by simp_all
  have sep: "insert p (set (xs @ ys)) \<inter> insert q (set zs) = {}" using m(6)[OF pq] unfolding regs .
  have reg: "region ?S r = (if r = p then insert p (set (xs @ zs @ ys)) else if r = q then {q} else region S r)" for r
    using pq by (simp add: region_def)
  have out: "region S r \<inter> (insert p (set (xs @ ys)) \<union> insert q (set zs)) = {}" if "r \<noteq> p" "r \<noteq> q" for r
    using m(6)[OF that(1)] m(6)[OF that(2)] unfolding regs by blast
  have ends: "last (p # xs) \<in> insert p (set (xs @ ys))" "hd (ys @ [p]) \<in> insert p (set (xs @ ys))"
    "hd zs \<in> set zs" "last zs \<in> set zs"
    using zs by (cases xs rule: rev_cases; cases ys; auto)+
  have "lists_ok h' ?S"
    unfolding lists_ok_def
  proof (intro conjI allI impI)
    show "dom (hp_list h') = dom ?S" using lists by (auto simp: lists_ok_def h'_def)
    fix r rs j assume r: "?S r = Some rs" "hp_list h' r = Some j"
    consider "r = p" | "r = q" | "r \<noteq> p" "r \<noteq> q" by blast
    then have "ring N r rs \<and> ml_count j = length rs \<and> chain_ok h r (region ?S r) (ml_itr j)"
    proof cases
      case 1
      have "ring N p (xs @ zs @ ys)"
      proof (rule ring_insert[OF P(1) zs])
        have "successively (linked (hp_node h)) (zs @ [q])" using Q(1) ring_split[of _ q "[]" zs] by simp
        then have "successively (linked (hp_node h)) zs" by (simp add: successively_append_iff)
        moreover have "successively (linked N) zs = successively (linked (hp_node h)) zs"
        proof (rule successively_frame)
          fix a assume a: "a \<in> set (butlast zs)"
          then have "a \<noteq> last zs" "a \<in> set zs" using Qd zs by (cases zs rule: rev_cases; auto)+
          then show "nxt N a = nxt (hp_node h) a" using sep ends(1) Qd by (intro N(6)) auto
        next
          fix b assume b: "b \<in> set (tl zs)"
          then have "b \<noteq> hd zs" "b \<in> set zs" using Qd zs by (cases zs; auto)+
          then show "prv N b = prv (hp_node h) b" using sep ends(2) Qd by (intro N(7)) auto
        qed
        ultimately show "successively (linked N) zs" by simp
        show "nxt N a = nxt (hp_node h) a" if "a \<in> set (p # xs @ ys)" "a \<noteq> last (p # xs)" for a
          using that sep ends(4) by (intro N(6)) auto
        show "prv N a = prv (hp_node h) a" if "a \<in> set (p # xs @ ys)" "a \<noteq> hd (ys @ [p])" for a
          using that sep ends(3) by (intro N(7)) auto
      qed (use N(2,3) Qd sep in auto)
      moreover have "chain_ok h p (region ?S p) (ml_itr l)" using P(3) unfolding reg regs by (auto simp: chain_ok_def)
      ultimately show ?thesis using 1 r P(2) Q(2) pq by (auto simp: h'_def)
    next
      case 2
      then show ?thesis using r N(4,5) k by (auto simp: ring_Nil h'_def chain_ok_def)
    next
      case 3
      then have "S r = Some rs" "hp_list h r = Some j" using r by (simp_all add: h'_def)
      note R = lists_okD[OF lists this(2,1)]
      have "ring N r rs"
      proof (subst ring_frame[of _ _ _ "hp_node h"])
        fix a assume "a \<in> set (r # rs)"
        then have "a \<notin> insert p (set (xs @ ys)) \<union> insert q (set zs)"
          using out[OF 3] \<open>S r = Some rs\<close> by (auto simp del: set_append)
        then show "nxt N a = nxt (hp_node h) a \<and> prv N a = prv (hp_node h) a"
          using ends N(6)[of a] N(7)[of a] by blast
      qed (rule R(1))
      then show ?thesis using R 3 by (simp add: reg del: region_simps)
    qed
    then show "ring (hp_node h') r rs" "ml_count j = length rs" "chain_ok h' r (region ?S r) (ml_itr j)"
      by (simp_all add: h'_def chain_ok_def del: region_simps)
  qed
  moreover have "memory_ok h' ?S"
    unfolding memory_ok_def
  proof (intro conjI allI impI)
    have "(\<Union>r. region ?S r) = region ?S p \<union> region ?S q \<union> (\<Union>r \<in> - {p, q}. region ?S r)" by blast
    also have "\<dots> = region S p \<union> region S q \<union> (\<Union>r \<in> - {p, q}. region S r)"
      using pq unfolding reg regs by auto
    also have "\<dots> = dom (hp_node h)" unfolding m(1) by blast
    finally show "dom (hp_node h') = (\<Union>r. region ?S r)" using N(1) by (simp add: h'_def del: region_simps)
    show "region ?S r \<inter> region ?S t = {}" if "r \<noteq> t" for r t
      using m(6)[OF that] out[of r] out[of t] sep Qd that unfolding reg by (auto split: if_splits)
  qed (use m N(1) in \<open>auto simp: h'_def simp del: region_simps\<close>)
  ultimately show "heap_wf h' ?S" by (simp add: heap_wf_def)
  show "contents h' ?S = (contents h S)(p \<mapsto> map (itm (hp_node h)) (xs @ zs @ ys), q \<mapsto> [])"
  proof
    fix r
    have "map (itm N) (xs @ zs @ ys) = map (itm (hp_node h)) (xs @ zs @ ys)"
    proof (rule map_cong[OF refl])
      show "itm N a = itm (hp_node h) a" if "a \<in> set (xs @ zs @ ys)" for a
        using that sep Pd Qd by (intro N(8)) auto
    qed
    moreover have "map (itm N) rs = map (itm (hp_node h)) rs" if "S r = Some rs" "r \<noteq> p" "r \<noteq> q" for rs
    proof (rule map_cong[OF refl])
      show "itm N a = itm (hp_node h) a" if "a \<in> set rs" for a
        using that out[OF \<open>r \<noteq> p\<close> \<open>r \<noteq> q\<close>] \<open>S r = Some rs\<close> by (intro N(8)) auto
    qed
    ultimately show "contents h' ?S r = ((contents h S)(p \<mapsto> map (itm (hp_node h)) (xs @ zs @ ys), q \<mapsto> [])) r"
      using pq by (cases "S r") (auto simp: contents_def h'_def simp del: map_append map_eq_conv)
  qed
qed

text \<open>The result of moving the nodes of \<open>q\<close> into the gap of \<open>p\<close> between \<open>xs\<close> and \<open>ys\<close>.\<close>

definition moved_into :: "lheap \<Rightarrow> shape \<Rightarrow> ref \<Rightarrow> ref list \<Rightarrow> ref list \<Rightarrow> ref \<Rightarrow> ref list \<Rightarrow> lheap \<Rightarrow> bool" where
  "moved_into h S p xs ys q zs h' \<longleftrightarrow> heap_wf h' (S(p \<mapsto> xs @ zs @ ys, q \<mapsto> [])) \<and>
     contents h' (S(p \<mapsto> xs @ zs @ ys, q \<mapsto> [])) =
       (contents h S)(p \<mapsto> map (itm (hp_node h)) (xs @ zs @ ys), q \<mapsto> [])"

lemma list_insert_sublist_ok:
  assumes wf: "heap_wf h S" and Sp: "S p = Some (xs @ ys)" and Sq: "S q = Some zs" and zs: "zs \<noteq> []" and pq: "p \<noteq> q"
    and k: "hp_list h q = Some k" "ml_itr k = []"
  shows "\<exists>h1 h'. list_insert_sublist p (if before then hd (ys @ [p]) else last (p # xs)) (hd zs) (last zs)
      (ml_count k) before h = Some h1 \<and> list_reset q h1 = Some h' \<and> moved_into h S p xs ys q zs h'"
proof -
  obtain l u v where g: "hp_list h p = Some l" "u = last (p # xs)" "v = hd (ys @ [p])"
    "nxt (hp_node h) u = Some v" "prv (hp_node h) v = Some u"
    "hp_node h u \<noteq> None" "hp_node h v \<noteq> None" "hp_node h p \<noteq> None" by (rule gap_facts[OF wf Sp]) blast
  define z t where "z = hd zs" and "t = last zs"
  have lists: "lists_ok h S" and mem: "memory_ok h S" using wf by (simp_all add: heap_wf_def)
  have Q: "distinct (q # zs)" using lists_okD(1)[OF lists k(1) Sq] by (simp add: ring_def)
  have sep: "insert p (set (xs @ ys)) \<inter> insert q (set zs) = {}" using memory_okD(6)[OF mem pq] Sp Sq by simp
  have zt: "z \<in> set zs" "t \<in> set zs" using zs by (simp_all add: z_def t_def)
  have uv: "u \<in> insert p (set (xs @ ys))" "v \<in> insert p (set (xs @ ys))"
    unfolding g(2,3) by (cases xs rule: rev_cases; cases ys; auto)+
  have ne: "z \<noteq> u" "z \<noteq> v" "t \<noteq> u" "t \<noteq> v" "q \<noteq> u" "q \<noteq> v" "z \<noteq> q" "t \<noteq> q" "z \<noteq> p" "t \<noteq> p"
    using zt uv sep Q by auto
  have dom: "hp_node h z \<noteq> None" "hp_node h t \<noteq> None" "hp_node h q \<noteq> None"
    using zt by (intro heap_wf_node[OF wf Sq]; simp)+
  let ?N1 = "if before then with_prev v t (with_next u z (with_next t v (with_prev z u (hp_node h))))
    else with_next u z (with_prev v t (with_prev z u (with_next t v (hp_node h))))"
  let ?N = "with_next q q (with_prev q q ?N1)"
  let ?h1 = "h\<lparr>hp_node := ?N1, hp_list := (hp_list h)(p \<mapsto> l\<lparr>ml_count := ml_count l + ml_count k\<rparr>)\<rparr>"
  let ?h = "h\<lparr>hp_node := ?N,
    hp_list := (hp_list h)(p \<mapsto> l\<lparr>ml_count := ml_count l + ml_count k\<rparr>, q \<mapsto> k\<lparr>ml_count := 0\<rparr>)\<rparr>"
  have "list_insert_sublist p (if before then v else u) z t (ml_count k) before h = Some ?h1"
    using g(1,4-) ne dom by (cases "u = p"; cases "v = p") (auto simp: list_insert_sublist_def heap_simps)
  moreover have "list_reset q ?h1 = Some ?h" using dom k(1) pq by (simp add: list_reset_def heap_simps)
  moreover have "heap_wf ?h (S(p \<mapsto> xs @ zs @ ys, q \<mapsto> []))"
    "contents ?h (S(p \<mapsto> xs @ zs @ ys, q \<mapsto> [])) = (contents h S)(p \<mapsto> map (itm (hp_node h)) (xs @ zs @ ys), q \<mapsto> [])"
    by (rule splice_lists[OF wf Sp Sq zs pq g(1) k];
        use g(4-) dom ne in \<open>(auto simp: linked_def simp del: last.simps simp flip: g(2,3) z_def t_def)[1]\<close>)+
  ultimately show ?thesis unfolding g(2,3) z_def t_def moved_into_def by blast
qed

lemma list_take_head_ok:
  assumes wf: "heap_wf h S" and Sp: "S p = Some []" and Sq: "S q = Some zs" and zs: "zs \<noteq> []" and pq: "p \<noteq> q"
    and k: "hp_list h q = Some k" "ml_itr k = []"
  shows "\<exists>h1 h'. list_take_head p q h = Some h1 \<and> list_reset q h1 = Some h' \<and> moved_into h S p [] [] q zs h'"
proof -
  have lists: "lists_ok h S" and mem: "memory_ok h S" using wf by (simp_all add: heap_wf_def)
  obtain l where l: "hp_list h p = Some l" "ml_count l = 0" using heap_wf_list[OF wf Sp] by force
  note Q = lists_okD[OF lists k(1) Sq]
  have Qd: "distinct (q # zs)" using Q(1) by (simp add: ring_def)
  have sep: "p \<notin> insert q (set zs)" using memory_okD(6)[OF mem pq] Sp Sq by simp
  define z t where "z = hd zs" and "t = last zs"
  have zt: "z \<in> set zs" "t \<in> set zs" using zs by (simp_all add: z_def t_def)
  have ne: "z \<noteq> p" "t \<noteq> p" "z \<noteq> q" "t \<noteq> q" using zt sep Qd by auto
  have dom: "hp_node h z \<noteq> None" "hp_node h t \<noteq> None" "hp_node h q \<noteq> None" "hp_node h p \<noteq> None"
    using zt by (intro heap_wf_node[OF wf Sq] heap_wf_node[OF wf Sp]; simp)+
  then obtain d where d: "hp_node h q = Some d" by auto
  have qd: "ld_next d = z" "ld_prev d = t"
    using ring_first[OF Q(1)] ring_last[OF Q(1)] zs d by (simp_all add: z_def t_def nxt_def prv_def)
  let ?N1 = "with_prev z p (with_next t p ((hp_node h)(p \<mapsto> d)))"
  let ?N = "with_next q q (with_prev q q ?N1)"
  let ?h1 = "h\<lparr>hp_node := ?N1, hp_list := (hp_list h)(p \<mapsto> l\<lparr>ml_count := ml_count l + ml_count k\<rparr>)\<rparr>"
  let ?h = "h\<lparr>hp_node := ?N,
    hp_list := (hp_list h)(p \<mapsto> l\<lparr>ml_count := ml_count l + ml_count k\<rparr>, q \<mapsto> k\<lparr>ml_count := 0\<rparr>)\<rparr>"
  have "list_take_head p q h = Some ?h1"
    using d dom ne k(1) l by (auto simp: list_take_head_def upd_node_def heap_simps qd)
  moreover have "list_reset q ?h1 = Some ?h" using dom k(1) pq by (simp add: list_reset_def heap_simps)
  moreover have S': "S p = Some ([] @ [])" using Sp by simp
  have "heap_wf ?h (S(p \<mapsto> [] @ zs @ [], q \<mapsto> []))"
    "contents ?h (S(p \<mapsto> [] @ zs @ [], q \<mapsto> [])) = (contents h S)(p \<mapsto> map (itm (hp_node h)) ([] @ zs @ []), q \<mapsto> [])"
    by (rule splice_lists[OF wf S' Sq zs pq l(1) k];
        use dom ne d qd pq in \<open>(auto simp: linked_def simp flip: z_def t_def)[1]\<close>)+
  ultimately show ?thesis unfolding moved_into_def by blast
qed

text \<open>The three operations on the library's interface, and the request to an iterator.\<close>

lemma list_gap_at:
  assumes "rs = xs @ c # ys"
  shows "\<exists>as bs. rs = as @ bs \<and> (if before then hd (bs @ [p]) else last (p # as)) = c"
  using assms
  by (cases before) (rule exI[of _ xs], rule exI[of _ "c # ys"], simp, rule exI[of _ "xs @ [c]"], rule exI[of _ ys], simp)

lemma ring_ends:
  assumes "heap_wf h S" "S q = Some zs" "zs \<noteq> []"
  shows "get_next q h = Some (hd zs)" "get_prev q h = Some (last zs)"
proof -
  obtain r: "ring (hp_node h) q zs" by (rule heap_wf_list[OF assms(1,2)])
  from ring_first[OF r] ring_last[OF r] assms(3) show "get_next q h = Some (hd zs)" "get_prev q h = Some (last zs)"
    by (simp_all add: heap_simps)
qed

lemma mu_list_insert_list_ok:
  assumes wf: "heap_wf h S" and Sp: "S p = Some rs" and Sq: "S q = Some zs" and zs: "zs \<noteq> []" and pq: "p \<noteq> q"
    and k: "hp_list h q = Some k" "ml_itr k = []"
  shows "\<exists>h'. (mu_list_insert_list p x q before h = Some (h', Some MU_ERR_NOENT) \<and> h' = h) \<or>
    (\<exists>as bs. mu_list_insert_list p x q before h = Some (h', None) \<and> rs = as @ bs \<and> moved_into h S p as bs q zs h')"
  using wf Sp
proof (cases rule: list_lookup_cases[where x = x])
  case missing
  then show ?thesis using heap_wf_null[OF wf Sp] by (auto simp: mu_list_insert_list_def)
next
  case (found xs c ys)
  obtain as bs where ab: "rs = as @ bs" "(if before then hd (bs @ [p]) else last (p # as)) = c"
    using list_gap_at[OF found(2), of before p] by blast
  obtain h1 h' where "list_insert_sublist p c (hd zs) (last zs) (ml_count k) before h = Some h1"
    "list_reset q h1 = Some h'" "moved_into h S p as bs q zs h'"
    using list_insert_sublist_ok[OF wf, of p as bs q zs k before] Sp Sq zs pq k unfolding ab by blast
  then show ?thesis
    using found(1) heap_wf_null[OF wf Sp] ring_ends[OF wf Sq zs] k ab(1) by (auto simp: mu_list_insert_list_def)
qed

lemma mu_list_append_list_ok:
  assumes wf: "heap_wf h S" and Sp: "S p = Some rs" and Sq: "S q = Some zs" and pq: "p \<noteq> q"
    and k: "hp_list h q = Some k" "ml_itr k = []"
  shows "\<exists>h'. mu_list_append_list p q h = Some h' \<and>
    (if zs = [] then h' = h else moved_into h S p rs [] q zs h')"
proof -
  obtain l where l: "hp_list h p = Some l" "ml_count l = length rs" by (rule heap_wf_list[OF wf Sp])
  have kc: "ml_count k = length zs" using heap_wf_list[OF wf Sq] k(1) by force
  show ?thesis
  proof (cases "zs = [] \<or> rs = []")
    case True
    then show ?thesis
    proof (cases "zs = []")
      case False
      with True have "rs = []" by simp
      with list_take_head_ok[OF wf _ Sq False pq k] Sp l k kc False show ?thesis
        by (auto simp: mu_list_append_list_def)
    qed (use k l kc in \<open>simp add: mu_list_append_list_def\<close>)
  next
    case False
    then have ne: "zs \<noteq> []" "rs \<noteq> []" by simp_all
    obtain h1 h' where "list_insert_sublist p (last rs) (hd zs) (last zs) (ml_count k) False h = Some h1"
      "list_reset q h1 = Some h'" "moved_into h S p rs [] q zs h'"
      using list_insert_sublist_ok[OF wf, of p rs "[]" q zs k False] Sp Sq ne pq k by auto
    then show ?thesis
      using l k kc ne ring_ends[OF wf Sq ne(1)] ring_ends[OF wf Sp ne(2)] by (auto simp: mu_list_append_list_def)
  qed
qed

lemma mu_list_prepend_list_ok:
  assumes wf: "heap_wf h S" and Sp: "S p = Some rs" and Sq: "S q = Some zs" and zs: "zs \<noteq> []" and pq: "p \<noteq> q"
    and k: "hp_list h q = Some k" "ml_itr k = []"
  shows "\<exists>h'. mu_list_prepend_list p q h = Some h' \<and> moved_into h S p [] rs q zs h'"
proof -
  obtain l where l: "hp_list h p = Some l" "ml_count l = length rs" by (rule heap_wf_list[OF wf Sp])
  show ?thesis
  proof (cases "rs = []")
    case True
    with list_take_head_ok[OF wf _ Sq zs pq k] Sp l k show ?thesis by (auto simp: mu_list_prepend_list_def)
  next
    case False
    obtain h1 h' where "list_insert_sublist p (hd rs) (hd zs) (last zs) (ml_count k) True h = Some h1"
      "list_reset q h1 = Some h'" "moved_into h S p [] rs q zs h'"
      using list_insert_sublist_ok[OF wf, of p "[]" rs q zs k True] Sp Sq zs pq k False by auto
    then show ?thesis
      using l k False ring_ends[OF wf Sq zs] ring_ends[OF wf Sp False] by (auto simp: mu_list_prepend_list_def)
  qed
qed

end
