(* ===== verification/List_Calls.thy ===== *)
theory List_Calls
  imports List_Splice
begin

text \<open>
  All operations of lists and iterators as calls on a heap: which calls are allowed, and that a
  sequence of allowed calls never goes through a reference that is not allocated and keeps every
  list a circle with the right count.
\<close>

section \<open>Calls\<close>

datatype list_call =
    List_create
  | List_append ref item
  | List_prepend ref item
  | List_insert ref item item bool
  | List_remove ref item
  | List_remove_nth ref nat
  | List_remove_nd ref item
  | List_remove_nth_nd ref nat
  | List_pop ref bool
  | List_replace ref item item
  | List_replace_nd ref item item
  | List_set_comparator ref "(item \<Rightarrow> item \<Rightarrow> int) option"
  | List_set_destroy_item ref "nat option"
  | List_clear ref
  | List_destroy ref
  | List_insert_list ref item ref bool
  | List_append_list ref ref
  | List_prepend_list ref ref
  | Itr_get ref
  | Itr_first ref
  | Itr_next ref
  | Itr_direction ref bool
  | Itr_delete ref bool
  | Itr_replace ref bool item
  | Itr_insert ref item
  | Itr_insert_list ref ref
  | Itr_destroy ref

text \<open>The heap after a call.\<close>

fun run_call :: "list_call \<Rightarrow> lheap \<Rightarrow> lheap option" where
  "run_call List_create h = Some (fst (mu_list_create h))"
| "run_call (List_append p x) h = map_option fst (mu_list_append p x h)"
| "run_call (List_prepend p x) h = map_option fst (mu_list_prepend p x h)"
| "run_call (List_insert p x y before) h = map_option fst (mu_list_insert p x y before h)"
| "run_call (List_remove p x) h = map_option fst (mu_list_remove p x h)"
| "run_call (List_remove_nth p n) h = map_option fst (mu_list_remove_nth p n h)"
| "run_call (List_remove_nd p x) h = map_option fst (mu_list_remove_nd p x h)"
| "run_call (List_remove_nth_nd p n) h = map_option fst (mu_list_remove_nth_nd p n h)"
| "run_call (List_pop p keep) h = map_option fst (mu_list_pop p keep h)"
| "run_call (List_replace p x y) h = map_option fst (mu_list_replace p x y h)"
| "run_call (List_replace_nd p x y) h = map_option fst (mu_list_replace_nd p x y h)"
| "run_call (List_set_comparator p f) h = map_option fst (mu_list_set_comparator p f h)"
| "run_call (List_set_destroy_item p f) h = map_option fst (mu_list_set_destroy_item p f h)"
| "run_call (List_clear p) h = mu_list_clear p h"
| "run_call (List_destroy p) h = mu_list_destroy p h"
| "run_call (List_insert_list p x q before) h = map_option fst (mu_list_insert_list p x q before h)"
| "run_call (List_append_list p q) h = mu_list_append_list p q h"
| "run_call (List_prepend_list p q) h = mu_list_prepend_list p q h"
| "run_call (Itr_get p) h = map_option fst (mu_list_get_iterator p h)"
| "run_call (Itr_first r) h = mu_iterator_first r h"
| "run_call (Itr_next r) h = mu_iterator_next r h"
| "run_call (Itr_direction r back) h = itr_set_direction r back h"
| "run_call (Itr_delete r destroy) h = map_option fst (itr_delete r destroy h)"
| "run_call (Itr_replace r destroy x) h = map_option fst (itr_replace r destroy x h)"
| "run_call (Itr_insert r x) h = map_option fst (itr_insert r x h)"
| "run_call (Itr_insert_list r q) h = map_option fst (itr_insert_list r q h)"
| "run_call (Itr_destroy r) h = mu_iterator_destroy r h"

definition is_list :: "lheap \<Rightarrow> ref \<Rightarrow> bool" where
  "is_list h p \<longleftrightarrow> hp_list h p \<noteq> None"

text \<open>A list whose nodes may be moved: no iterator is attached to it, and it is not empty.\<close>

definition movable :: "lheap \<Rightarrow> ref \<Rightarrow> bool" where
  "movable h q \<longleftrightarrow> (\<exists>k. hp_list h q = Some k \<and> ml_itr k = [] \<and> ml_count k \<noteq> 0)"

text \<open>An iterator that is attached and stands at an item.\<close>

definition at_item :: "lheap \<Rightarrow> ref \<Rightarrow> bool" where
  "at_item h r \<longleftrightarrow> attached h r \<and> (\<forall>i. hp_itr h r = Some i \<longrightarrow> li_cur i \<noteq> 0 \<and> li_cur i \<noteq> li_list i)"

fun allowed :: "list_call \<Rightarrow> lheap \<Rightarrow> bool" where
  "allowed List_create h = True"
| "allowed (List_append p x) h = is_list h p"
| "allowed (List_prepend p x) h = is_list h p"
| "allowed (List_insert p x y before) h = is_list h p"
| "allowed (List_remove p x) h = is_list h p"
| "allowed (List_remove_nth p n) h = is_list h p"
| "allowed (List_remove_nd p x) h = is_list h p"
| "allowed (List_remove_nth_nd p n) h = is_list h p"
| "allowed (List_pop p keep) h = is_list h p"
| "allowed (List_replace p x y) h = is_list h p"
| "allowed (List_replace_nd p x y) h = is_list h p"
| "allowed (List_set_comparator p f) h = is_list h p"
| "allowed (List_set_destroy_item p f) h = is_list h p"
| "allowed (List_clear p) h = (\<exists>l. hp_list h p = Some l \<and> idle h p l)"
| "allowed (List_destroy p) h = (\<exists>l. hp_list h p = Some l \<and> ml_itr l = [])"
| "allowed (List_insert_list p x q before) h = (is_list h p \<and> movable h q \<and> p \<noteq> q)"
| "allowed (List_append_list p q) h = (is_list h p \<and> p \<noteq> q \<and> (\<exists>k. hp_list h q = Some k \<and> ml_itr k = []))"
| "allowed (List_prepend_list p q) h = (is_list h p \<and> movable h q \<and> p \<noteq> q)"
| "allowed (Itr_get p) h = is_list h p"
| "allowed (Itr_first r) h = attached h r"
| "allowed (Itr_next r) h = (attached h r \<and> (\<forall>i. hp_itr h r = Some i \<longrightarrow> li_cur i \<noteq> 0))"
| "allowed (Itr_direction r back) h = attached h r"
| "allowed (Itr_delete r destroy) h = at_item h r"
| "allowed (Itr_replace r destroy x) h = at_item h r"
| "allowed (Itr_insert r x) h = attached h r"
| "allowed (Itr_insert_list r q) h =
     (attached h r \<and> movable h q \<and> (\<forall>i. hp_itr h r = Some i \<longrightarrow> li_list i \<noteq> q))"
| "allowed (Itr_destroy r) h = attached h r"

definition empty_heap :: "ref list \<Rightarrow> lheap" where
  "empty_heap pool = \<lparr>hp_node = Map.empty, hp_list = Map.empty, hp_itr = Map.empty, hp_pool = pool, hp_destroyed = []\<rparr>"

inductive list_reachable :: "lheap \<Rightarrow> bool" where
  start: "distinct pool \<Longrightarrow> 0 \<notin> set pool \<Longrightarrow> list_reachable (empty_heap pool)"
| step: "list_reachable h \<Longrightarrow> allowed c h \<Longrightarrow> run_call c h = Some h' \<Longrightarrow> list_reachable h'"

section \<open>Safety\<close>

lemma heap_wf_empty: "distinct pool \<Longrightarrow> 0 \<notin> set pool \<Longrightarrow> heap_wf (empty_heap pool) Map.empty"
  by (simp add: heap_wf_def lists_ok_def memory_ok_def empty_heap_def)

lemma is_list_shape:
  assumes "heap_wf h S" "is_list h p"
  obtains rs where "S p = Some rs"
  using assms lists_ok_shape[of h S p] unfolding heap_wf_def is_list_def by blast

lemma movable_shape:
  assumes "heap_wf h S" "movable h q"
  obtains k zs where "hp_list h q = Some k" "ml_itr k = []" "S q = Some zs" "zs \<noteq> []"
proof -
  from assms(2) obtain k where k: "hp_list h q = Some k" "ml_itr k = []" "ml_count k \<noteq> 0" by (auto simp: movable_def)
  with assms(1) obtain zs where "S q = Some zs" using lists_ok_shape[of h S q] unfolding heap_wf_def by blast
  moreover have "ml_count k = length zs" using assms(1) lists_okD(2)[of h S q k zs] k(1) calculation by (simp add: heap_wf_def)
  ultimately show thesis using k that by auto
qed

lemma changed_trans:
  "changed h S p rs1 xs1 h1 \<Longrightarrow> changed h1 (S(p \<mapsto> rs1)) p rs2 xs2 h2 \<Longrightarrow> changed h S p rs2 xs2 h2"
  by (simp add: changed_def)

lemma without_destroy_ok:
  assumes wf: "heap_wf h S" and S: "S p = Some rs" and l: "hp_list h p = Some l"
    and act: "\<exists>h1 rs1. act (h\<lparr>hp_list := (hp_list h)(p \<mapsto> l\<lparr>ml_destroy_item := None\<rparr>)\<rparr>) = Some (h1, r) \<and>
      changed (h\<lparr>hp_list := (hp_list h)(p \<mapsto> l\<lparr>ml_destroy_item := None\<rparr>)\<rparr>) S p rs1 xs h1"
  shows "\<exists>h' rs'. without_destroy act p h = Some (h', r) \<and> changed h S p rs' xs h'"
proof -
  let ?h = "h\<lparr>hp_list := (hp_list h)(p \<mapsto> l\<lparr>ml_destroy_item := None\<rparr>)\<rparr>"
  have S': "S(p \<mapsto> rs) = S" using S by (simp add: fun_upd_idem)
  have c0: "changed h S p rs (map (itm (hp_node h)) rs) ?h" by (rule changed_field[OF wf S l]) simp_all
  from act obtain h1 rs1 where h1: "act ?h = Some (h1, r)" "changed ?h S p rs1 xs h1" by blast
  have wf1: "heap_wf h1 (S(p \<mapsto> rs1))" and S1: "(S(p \<mapsto> rs1)) p = Some rs1" using h1(2) by (simp_all add: changed_def)
  obtain l1 where l1: "hp_list h1 p = Some l1" by (rule heap_wf_list[OF wf1 S1])
  let ?h2 = "h1\<lparr>hp_list := (hp_list h1)(p \<mapsto> l1\<lparr>ml_destroy_item := ml_destroy_item l\<rparr>)\<rparr>"
  have "changed h1 (S(p \<mapsto> rs1)) p rs1 (map (itm (hp_node h1)) rs1) ?h2"
    by (rule changed_field[OF wf1 S1 l1]) simp_all
  moreover have "map (itm (hp_node h1)) rs1 = xs"
    using h1(2) by (auto simp: changed_def contents_def fun_eq_iff split: if_splits dest: spec[of _ p])
  ultimately have "changed h S p rs1 xs ?h2"
    using changed_trans[OF c0, of rs1 xs ?h2] changed_trans[OF h1(2)] unfolding S' by blast
  moreover have "without_destroy act p h = Some (?h2, r)"
    using l l1 h1(1) by (simp add: without_destroy_def mu_list_set_destroy_item_def heap_simps)
  ultimately show ?thesis by blast
qed

lemma changed_heap_wf: "changed h S p rs xs h' \<Longrightarrow> \<exists>S'. heap_wf h' S'"
  by (auto simp: changed_def)

lemma moved_heap_wf: "moved_into h S p xs ys q zs h' \<Longrightarrow> \<exists>S'. heap_wf h' S'"
  by (auto simp: moved_into_def)

text \<open>Without memory nothing changes.\<close>

lemma no_memory:
  assumes wf: "heap_wf h S" and S: "S p = Some rs" and pool: "hp_pool h = []"
  shows "mu_list_append p x h = Some (h, Some ENOMEM)" "mu_list_prepend p x h = Some (h, Some ENOMEM)"
    "\<exists>r. mu_list_insert p y x before h = Some (h, r)" "mu_list_get_iterator p h = Some (h, Inl ENOMEM)"
    "mu_list_create h = (h, Inl ENOMEM)"
proof -
  obtain r: "ring (hp_node h) p rs" by (rule heap_wf_list[OF wf S])
  show "mu_list_append p x h = Some (h, Some ENOMEM)" "mu_list_prepend p x h = Some (h, Some ENOMEM)"
    "mu_list_get_iterator p h = Some (h, Inl ENOMEM)" "mu_list_create h = (h, Inl ENOMEM)"
    using heap_wf_null[OF wf S] ring_first[OF r] ring_last[OF r] pool
    by (simp_all add: mu_list_append_def mu_list_prepend_def mu_list_get_iterator_def mu_list_create_def
        calloc_def heap_simps)
  show "\<exists>r. mu_list_insert p y x before h = Some (h, r)"
    by (rule list_lookup_cases[OF wf S, of y];
        use heap_wf_null[OF wf S] pool in \<open>simp add: mu_list_insert_def list_insert_item_def heap_simps\<close>)
qed

lemma run_allocating:
  assumes wf: "heap_wf h S" and S: "S p = Some rs"
  shows "(\<exists>h' S'. run_call (List_append p x) h = Some h' \<and> heap_wf h' S') \<and>
    (\<exists>h' S'. run_call (List_prepend p x) h = Some h' \<and> heap_wf h' S') \<and>
    (\<exists>h' S'. run_call (List_insert p y x before) h = Some h' \<and> heap_wf h' S') \<and>
    (\<exists>h' S'. run_call (Itr_get p) h = Some h' \<and> heap_wf h' S')"
proof (cases "hp_pool h")
  case Nil
  note n = no_memory[OF wf S Nil]
  obtain r where "mu_list_insert p y x before h = Some (h, r)" using n(3) by blast
  with n(1,2,4) wf show ?thesis by auto
next
  case some: (Cons n pool)
  obtain h1 where "mu_list_append p x h = Some (h1, None)" "heap_wf h1 (S(p \<mapsto> rs @ [n]))"
    using mu_list_append_ok[OF wf S some] by blast
  moreover obtain h2 where "mu_list_prepend p x h = Some (h2, None)" "heap_wf h2 (S(p \<mapsto> n # rs))"
    using mu_list_prepend_ok[OF wf S some] by blast
  moreover obtain h3 r S3 where "mu_list_insert p y x before h = Some (h3, r)" "heap_wf h3 S3"
    using mu_list_insert_ok[OF wf S some, of y x before] changed_heap_wf by blast
  moreover obtain h4 where "mu_list_get_iterator p h = Some (h4, Inr n)" "heap_wf h4 S"
    using mu_list_get_iterator_ok[OF wf S some] by blast
  ultimately show ?thesis by auto
qed

lemma run_create: "heap_wf h S \<Longrightarrow> \<exists>h' S'. run_call List_create h = Some h' \<and> heap_wf h' S'"
proof (cases "hp_pool h")
  case (Cons n pool)
  assume "heap_wf h S"
  from mu_list_create_ok[OF this Cons] obtain h' where "mu_list_create h = (h', Inr n)" "heap_wf h' (S(n \<mapsto> []))" by blast
  then show ?thesis by auto
qed (auto simp: mu_list_create_def calloc_def)

lemma itr_insert_list_ok:
  assumes wf: "heap_wf h S" and a: "attached h r" and i: "hp_itr h r = Some i" and m: "movable h q" and iq: "li_list i \<noteq> q"
  shows "\<exists>h' rr S'. itr_insert_list r q h = Some (h', rr) \<and> heap_wf h' S'"
proof (rule attached_facts[OF wf a])
  fix i' l rs
  assume i': "hp_itr h r = Some i'" and S: "S (li_list i') = Some rs" and cur: "li_cur i' = 0 \<or> li_cur i' \<in> insert (li_list i') (set rs)"
  have eq: "i' = i" using i i' by simp
  obtain k zs where q: "hp_list h q = Some k" "ml_itr k = []" "S q = Some zs" "zs \<noteq> []" by (rule movable_shape[OF wf m])
  have "q \<noteq> 0" using heap_wf_null[OF wf q(3)] by simp
  show ?thesis
  proof (cases "li_cur i = 0")
    case True
    with i wf show ?thesis by (auto simp: itr_insert_list_def)
  next
    case False
    have "\<exists>xs ys. rs = xs @ ys \<and> last (li_list i # xs) = li_cur i"
    proof (cases "li_cur i = li_list i")
      case at: False
      with cur False eq obtain xs ys where "rs = xs @ li_cur i # ys" by (auto dest: split_list)
      then show ?thesis by (intro exI[of _ "xs @ [li_cur i]"] exI[of _ ys]) simp
    qed (intro exI[of _ "[]"] exI[of _ rs], simp)
    then obtain xs ys where xs: "rs = xs @ ys" "last (li_list i # xs) = li_cur i" by blast
    obtain h1 h' where "list_insert_sublist (li_list i) (li_cur i) (hd zs) (last zs) (ml_count k) False h = Some h1"
      "list_reset q h1 = Some h'" "moved_into h S (li_list i) xs ys q zs h'"
      using list_insert_sublist_ok[OF wf, of "li_list i" xs ys q zs k False] S eq xs q iq by auto
    moreover from this(3) have "heap_wf h' (S(li_list i \<mapsto> xs @ zs @ ys, q \<mapsto> []))" by (simp add: moved_into_def)
    ultimately show ?thesis
      using i False \<open>q \<noteq> 0\<close> q(1) ring_ends[OF wf q(3,4)] by (auto simp: itr_insert_list_def)
  qed
qed

text \<open>The variants that keep the item.\<close>

lemma nd_ok:
  assumes wf: "heap_wf h S" and S: "S p = Some rs"
  shows "\<exists>h' rs'. mu_list_remove_nd p x h =
      Some (h', if \<exists>c \<in> set rs. same_item h p x (itm (hp_node h) c) then None else Some MU_ERR_NOENT) \<and>
      changed h S p rs' (at_first (same_item h p x) (\<lambda>_. []) (map (itm (hp_node h)) rs)) h'"
    and "\<exists>h' rs'. mu_list_remove_nth_nd p n h = Some (h', if n < length rs then None else Some ERANGE) \<and>
      changed h S p rs' (take n (map (itm (hp_node h)) rs) @ drop (Suc n) (map (itm (hp_node h)) rs)) h'"
    and "\<exists>h' rs'. mu_list_replace_nd p x y h =
      Some (h', if \<exists>c \<in> set rs. same_item h p x (itm (hp_node h) c) then None else Some MU_ERR_NOENT) \<and>
      changed h S p rs' (at_first (same_item h p x) (\<lambda>_. [y]) (map (itm (hp_node h)) rs)) h'"
proof -
  obtain l where l: "hp_list h p = Some l" by (rule heap_wf_list[OF wf S])
  let ?h = "h\<lparr>hp_list := (hp_list h)(p \<mapsto> l\<lparr>ml_destroy_item := None\<rparr>)\<rparr>"
  have "changed h S p rs (map (itm (hp_node h)) rs) ?h" by (rule changed_field[OF wf S l]) simp_all
  then have wf': "heap_wf ?h S" using S by (simp add: changed_def fun_upd_idem)
  have same: "same_item ?h p = same_item h p" using l by (simp add: same_item_def[abs_def] list_comp_def)
  show "\<exists>h' rs'. mu_list_remove_nd p x h =
      Some (h', if \<exists>c \<in> set rs. same_item h p x (itm (hp_node h) c) then None else Some MU_ERR_NOENT) \<and>
      changed h S p rs' (at_first (same_item h p x) (\<lambda>_. []) (map (itm (hp_node h)) rs)) h'"
    unfolding mu_list_remove_nd_def
    by (rule without_destroy_ok[OF wf S l]) (use mu_list_remove_ok[OF wf' S, of x] in \<open>simp add: same\<close>)
  show "\<exists>h' rs'. mu_list_remove_nth_nd p n h = Some (h', if n < length rs then None else Some ERANGE) \<and>
      changed h S p rs' (take n (map (itm (hp_node h)) rs) @ drop (Suc n) (map (itm (hp_node h)) rs)) h'"
    unfolding mu_list_remove_nth_nd_def
    by (rule without_destroy_ok[OF wf S l]) (use mu_list_remove_nth_ok[OF wf' S, of n] in simp)
  show "\<exists>h' rs'. mu_list_replace_nd p x y h =
      Some (h', if \<exists>c \<in> set rs. same_item h p x (itm (hp_node h) c) then None else Some MU_ERR_NOENT) \<and>
      changed h S p rs' (at_first (same_item h p x) (\<lambda>_. [y]) (map (itm (hp_node h)) rs)) h'"
    unfolding mu_list_replace_nd_def
    by (rule without_destroy_ok[OF wf S l]) (use mu_list_replace_ok[OF wf' S, of x y] in \<open>simp add: same\<close>)
qed

lemma setters_ok:
  assumes wf: "heap_wf h S" and S: "S p = Some rs"
  shows "\<exists>h' r. mu_list_set_comparator p f h = Some (h', r) \<and> changed h S p rs (map (itm (hp_node h)) rs) h'"
    and "\<exists>h' r. mu_list_set_destroy_item p g h = Some (h', r) \<and> changed h S p rs (map (itm (hp_node h)) rs) h'"
proof -
  obtain l where l: "hp_list h p = Some l" by (rule heap_wf_list[OF wf S])
  show "\<exists>h' r. mu_list_set_comparator p f h = Some (h', r) \<and> changed h S p rs (map (itm (hp_node h)) rs) h'"
    using changed_field[OF wf S l, of "l\<lparr>ml_comp := f\<rparr>"] heap_wf_null[OF wf S] l
    by (simp add: mu_list_set_comparator_def heap_simps)
  show "\<exists>h' r. mu_list_set_destroy_item p g h = Some (h', r) \<and> changed h S p rs (map (itm (hp_node h)) rs) h'"
    using changed_field[OF wf S l, of "l\<lparr>ml_destroy_item := g\<rparr>"] l
    by (simp add: mu_list_set_destroy_item_def heap_simps)
qed

text \<open>Calls that search a list or change its fields.\<close>

lemma run_changing:
  assumes wf: "heap_wf h S" and S: "S p = Some rs"
    and c: "c \<in> {List_remove p x, List_remove_nth p n, List_remove_nd p x, List_remove_nth_nd p n, List_pop p keep,
      List_replace p x y, List_replace_nd p x y, List_set_comparator p f, List_set_destroy_item p g}"
  shows "\<exists>h' S'. run_call c h = Some h' \<and> heap_wf h' S'"
proof -
  have "\<exists>h' rs' xs. run_call c h = Some h' \<and> changed h S p rs' xs h'"
    using c mu_list_remove_ok[OF wf S, of x] mu_list_remove_nth_ok[OF wf S, of n] mu_list_pop_ok[OF wf S, of keep]
      mu_list_replace_ok[OF wf S, of x y] nd_ok[OF wf S, of x] nd_ok(2)[OF wf S, of n] nd_ok(3)[OF wf S, of x y]
      setters_ok[OF wf S]
    by (elim insertE) (simp; blast)+
  then show ?thesis using changed_heap_wf by blast
qed

lemma run_moving:
  assumes wf: "heap_wf h S" and S: "S p = Some rs" and q: "hp_list h q = Some k" "ml_itr k = []" "S q = Some zs" and pq: "p \<noteq> q"
  shows "\<exists>h' S'. run_call (List_append_list p q) h = Some h' \<and> heap_wf h' S'"
    and "zs \<noteq> [] \<Longrightarrow> \<exists>h' S'. run_call (List_insert_list p x q before) h = Some h' \<and> heap_wf h' S'"
    and "zs \<noteq> [] \<Longrightarrow> \<exists>h' S'. run_call (List_prepend_list p q) h = Some h' \<and> heap_wf h' S'"
proof -
  from mu_list_append_list_ok[OF wf S q(3) pq q(1,2)] obtain h1 where h1: "mu_list_append_list p q h = Some h1"
    "if zs = [] then h1 = h else moved_into h S p rs [] q zs h1" by blast
  then have "\<exists>S'. heap_wf h1 S'" using wf moved_heap_wf by (cases "zs = []") auto
  with h1(1) show "\<exists>h' S'. run_call (List_append_list p q) h = Some h' \<and> heap_wf h' S'" by auto
  assume zs: "zs \<noteq> []"
  from mu_list_insert_list_ok[OF wf S q(3) zs pq q(1,2), of x before] wf moved_heap_wf
  show "\<exists>h' S'. run_call (List_insert_list p x q before) h = Some h' \<and> heap_wf h' S'" by fastforce
  from mu_list_prepend_list_ok[OF wf S q(3) zs pq q(1,2)] moved_heap_wf
  show "\<exists>h' S'. run_call (List_prepend_list p q) h = Some h' \<and> heap_wf h' S'" by fastforce
qed

lemma run_call_safe:
  assumes wf: "heap_wf h S" and ok: "allowed c h"
  shows "\<exists>h' S'. run_call c h = Some h' \<and> heap_wf h' S'"
proof -
  note shape = is_list_shape[OF wf]
  have alloc: "is_list h p \<Longrightarrow> \<exists>h' S'. run_call (List_append p x) h = Some h' \<and> heap_wf h' S'"
    "is_list h p \<Longrightarrow> \<exists>h' S'. run_call (List_prepend p x) h = Some h' \<and> heap_wf h' S'"
    "is_list h p \<Longrightarrow> \<exists>h' S'. run_call (List_insert p x y before) h = Some h' \<and> heap_wf h' S'"
    "is_list h p \<Longrightarrow> \<exists>h' S'. run_call (Itr_get p) h = Some h' \<and> heap_wf h' S'" for p x y before
    using run_allocating[OF wf] shape by metis+
  have change: "is_list h p \<Longrightarrow> c \<in> {List_remove p x, List_remove_nth p n, List_remove_nd p x, List_remove_nth_nd p n,
      List_pop p keep, List_replace p x y, List_replace_nd p x y, List_set_comparator p f, List_set_destroy_item p g} \<Longrightarrow>
    \<exists>h' S'. run_call c h = Some h' \<and> heap_wf h' S'" for p x y n keep f g
    using run_changing[OF wf] shape by metis
  show ?thesis
  proof (cases c)
    case (List_clear p)
    with ok obtain l where l: "hp_list h p = Some l" "idle h p l" by auto
    then obtain rs where "S p = Some rs" using shape[of p] by (auto simp: is_list_def)
    from mu_list_clear_ok[OF wf this l] changed_heap_wf List_clear show ?thesis by auto
  next
    case (List_destroy p)
    with ok obtain l where l: "hp_list h p = Some l" "ml_itr l = []" by auto
    then obtain rs where "S p = Some rs" using shape[of p] by (auto simp: is_list_def)
    from mu_list_destroy_ok[OF wf this l] List_destroy show ?thesis by auto
  next
    case (List_insert_list p x q before)
    with ok obtain rs k zs where "S p = Some rs" "hp_list h q = Some k" "ml_itr k = []" "S q = Some zs" "zs \<noteq> []" "p \<noteq> q"
      using shape[of p] movable_shape[OF wf, of q] by (metis allowed.simps(16))
    from run_moving(2)[OF wf this(1-4,6,5)] List_insert_list show ?thesis by simp
  next
    case (List_append_list p q)
    with ok obtain k where k: "is_list h p" "hp_list h q = Some k" "ml_itr k = []" "p \<noteq> q" by auto
    obtain rs where r: "S p = Some rs" "hp_list h q = Some k" "ml_itr k = []" "p \<noteq> q" by (rule shape[OF k(1)]) (use k in blast)
    then obtain zs where "S q = Some zs" using shape[of q] by (auto simp: is_list_def)
    from run_moving(1)[OF wf r(1-3) this r(4)] List_append_list show ?thesis by simp
  next
    case (List_prepend_list p q)
    with ok obtain rs k zs where "S p = Some rs" "hp_list h q = Some k" "ml_itr k = []" "S q = Some zs" "zs \<noteq> []" "p \<noteq> q"
      using shape[of p] movable_shape[OF wf, of q] by (metis allowed.simps(18))
    from run_moving(3)[OF wf this(1-4,6,5)] List_prepend_list show ?thesis by simp
  next
    case (Itr_first r)
    with ok have a: "attached h r" by simp
    obtain i rs where "hp_itr h r = Some i" "S (li_list i) = Some rs" by (rule attached_facts[OF wf a])
    from mu_iterator_first_ok(1,2)[OF wf a this] show ?thesis unfolding Itr_first run_call.simps by blast
  next
    case (Itr_next r)
    with ok have a: "attached h r" by simp
    obtain i where i: "hp_itr h r = Some i" by (rule attached_facts[OF wf a])
    with ok Itr_next have "li_cur i \<noteq> 0" by simp
    from mu_iterator_next_ok(1,2)[OF wf a i this] show ?thesis unfolding Itr_next run_call.simps by blast
  next
    case (Itr_delete r destroy)
    with ok obtain i where "attached h r" "hp_itr h r = Some i" "li_cur i \<noteq> 0" "li_cur i \<noteq> li_list i"
      by (auto simp: at_item_def attached_def)
    from itr_delete_ok[OF wf this, of destroy] Itr_delete show ?thesis by auto
  next
    case (Itr_replace r destroy x)
    with ok obtain i where "attached h r" "hp_itr h r = Some i" "li_cur i \<noteq> 0" "li_cur i \<noteq> li_list i"
      by (auto simp: at_item_def attached_def)
    from itr_replace_ok[OF wf this, of destroy x] Itr_replace show ?thesis by auto
  next
    case (Itr_insert r x)
    with itr_insert_ok[OF wf, of r x] ok show ?thesis by auto
  next
    case (Itr_insert_list r q)
    with ok obtain i where i: "attached h r" "hp_itr h r = Some i" by (auto simp: attached_def)
    with ok Itr_insert_list have "movable h q" "li_list i \<noteq> q" by auto
    from itr_insert_list_ok[OF wf i this] Itr_insert_list show ?thesis by auto
  next
    case (Itr_direction r dir)
    with ok have a: "attached h r" by simp
    from itr_set_direction_ok[OF wf a, of dir] show ?thesis unfolding Itr_direction run_call.simps by blast
  next
    case (Itr_destroy r)
    with ok have a: "attached h r" by simp
    from mu_iterator_destroy_ok[OF wf a] show ?thesis unfolding Itr_destroy run_call.simps by blast
  qed (use ok run_create[OF wf] alloc change in \<open>(simp; blast)+\<close>)
qed

lemma list_reachable_wf: "list_reachable h \<Longrightarrow> \<exists>S. heap_wf h S"
proof (induction rule: list_reachable.induct)
  case (start pool)
  then show ?case using heap_wf_empty by blast
next
  case (step h c h')
  then show ?case using run_call_safe by (metis option.inject)
qed

end
