(* ===== verification/List_Foreach.thy ===== *)
theory List_Foreach
  imports List_Calls
begin

text \<open>
  Iteration while the list changes: an iterator whose item is deleted has moved on already, so a
  \<open>foreach\<close> whose action deletes items visits every item once. At the end of the theory, what goes
  wrong when an empty list is moved.
\<close>

section \<open>A walk along a list\<close>

text \<open>The iterator stands at the first node of \<open>todo\<close>, or at the list when there is none.\<close>

definition walking :: "lheap \<Rightarrow> shape \<Rightarrow> ref \<Rightarrow> ref \<Rightarrow> ref list \<Rightarrow> ref list \<Rightarrow> bool" where
  "walking h S p itr kept todo \<longleftrightarrow> heap_wf h S \<and> S p = Some (kept @ todo) \<and>
     (\<exists>l. hp_list h p = Some l \<and> itr \<in> set (ml_itr l) \<and> (\<forall>x y. list_comp l y x = 0 \<longleftrightarrow> x = y)) \<and>
     hp_itr h itr = Some \<lparr>li_list = p, li_cur = hd (todo @ [p]), li_backwards = False, li_is_advanced = 0\<rparr>"

lemma walking_attached: "walking h S p itr kept todo \<Longrightarrow> attached h itr"
  by (auto simp: walking_def attached_def)

lemma walking_nxt:
  assumes "walking h S p itr kept (c # todo)"
  shows "nxt (hp_node h) c = Some (hd (todo @ [p]))"
proof -
  have "heap_wf h S" "S p = Some ((kept @ [c]) @ todo)" using assms by (simp_all add: walking_def)
  then have r: "ring (hp_node h) p ((kept @ [c]) @ todo)" by (rule heap_wf_list)
  show ?thesis using ring_nxt[OF r] by simp
qed

text \<open>A turn that leaves the list alone.\<close>

lemma walking_next:
  assumes w: "walking h S p itr kept (c # todo)"
  shows "\<exists>h'. mu_iterator_next itr h = Some h' \<and> walking h' S p itr (kept @ [c]) todo \<and>
    hp_node h' = hp_node h \<and> contents h' S = contents h S"
proof -
  have wf: "heap_wf h S" and S: "S p = Some (kept @ c # todo)"
    and i: "hp_itr h itr = Some \<lparr>li_list = p, li_cur = c, li_backwards = False, li_is_advanced = 0\<rparr>"
    using w by (simp_all add: walking_def)
  have "c \<noteq> 0" using heap_wf_null[OF wf S] by auto
  then have "li_cur \<lparr>li_list = p, li_cur = c, li_backwards = False, li_is_advanced = 0\<rparr> \<noteq> 0" by simp
  from mu_iterator_next_ok[OF wf walking_attached[OF w] i this] walking_nxt[OF w]
  have n: "mu_iterator_next itr h = Some (only_itr h itr \<lparr>li_list = p, li_cur = hd (todo @ [p]), li_backwards = False, li_is_advanced = 0\<rparr>)"
    "heap_wf (only_itr h itr \<lparr>li_list = p, li_cur = hd (todo @ [p]), li_backwards = False, li_is_advanced = 0\<rparr>) S"
    "contents (only_itr h itr \<lparr>li_list = p, li_cur = hd (todo @ [p]), li_backwards = False, li_is_advanced = 0\<rparr>) S = contents h S"
    by simp_all
  then show ?thesis using w by (auto simp: walking_def only_itr_def)
qed

text \<open>A turn in which the item is removed: the iterator has moved on and is only told so.\<close>

lemma walking_remove:
  assumes w: "walking h S p itr kept (c # todo)" and d: "distinct (map (itm (hp_node h)) (kept @ c # todo))"
  shows "\<exists>h1 h'. mu_list_remove p (itm (hp_node h) c) h = Some (h1, None) \<and> mu_iterator_next itr h1 = Some h' \<and>
    walking h' (S(p \<mapsto> kept @ todo)) p itr kept todo \<and>
    contents h' (S(p \<mapsto> kept @ todo)) = (contents h S)(p \<mapsto> map (itm (hp_node h)) (kept @ todo))"
proof -
  have wf: "heap_wf h S" and S: "S p = Some (kept @ c # todo)"
    and i: "hp_itr h itr = Some \<lparr>li_list = p, li_cur = c, li_backwards = False, li_is_advanced = 0\<rparr>"
    using w by (simp_all add: walking_def)
  from w obtain l where l: "hp_list h p = Some l" "itr \<in> set (ml_itr l)" "\<forall>x y. list_comp l y x = 0 \<longleftrightarrow> x = y"
    by (auto simp: walking_def)
  have same: "same_item h p x y \<longleftrightarrow> x = y" for x y using l by (simp add: same_item_def)
  have look: "list_lookup p (itm (hp_node h) c) h = Some (Some c)"
  proof (rule list_lookup_cases[OF wf S, of "itm (hp_node h) c"])
    fix xs c' ys
    assume f: "list_lookup p (itm (hp_node h) c) h = Some (Some c')" "kept @ c # todo = xs @ c' # ys"
      "same_item h p (itm (hp_node h) c) (itm (hp_node h) c')"
    have "inj_on (itm (hp_node h)) (set (kept @ c # todo))" using d by (simp only: distinct_map)
    moreover have "c' \<in> set (kept @ c # todo)" unfolding f(2) by simp
    ultimately have "c' = c" using f(3) by (auto simp: same inj_on_def)
    with f(1) show ?thesis by simp
  qed (simp add: same)
  from list_delete_ok[OF wf S l(1), of True] obtain h1 where h1: "list_delete p c True h = Some h1"
    "heap_wf h1 (S(p \<mapsto> kept @ todo))"
    "contents h1 (S(p \<mapsto> kept @ todo)) = (contents h S)(p \<mapsto> map (itm (hp_node h)) (kept @ todo))"
    "hp_itr h1 = (\<lambda>r. if r \<in> set (ml_itr l) then map_option (moved (hp_node h) c) (hp_itr h r) else hp_itr h r)"
    "hp_list h1 = (hp_list h)(p \<mapsto> l\<lparr>ml_count := ml_count l - 1\<rparr>)" by blast
  have remove: "mu_list_remove p (itm (hp_node h) c) h = Some (h1, None)"
    using heap_wf_null[OF wf S] look h1(1) by (simp add: mu_list_remove_def)
  let ?i = "\<lparr>li_list = p, li_cur = hd (todo @ [p]), li_backwards = False, li_is_advanced = Suc 0\<rparr>"
  have i1: "hp_itr h1 itr = Some ?i"
    using h1(4) l(2) i walking_nxt[OF w] by (simp add: moved_def)
  have a1: "attached h1 itr" using i1 h1(5) l(2) by (simp add: attached_def)
  have "hd (todo @ [p]) \<in> insert p (set (kept @ c # todo))" by (cases todo) auto
  moreover have "0 \<notin> insert p (set (kept @ c # todo))" using heap_wf_null[OF wf S] by auto
  ultimately have "li_cur ?i \<noteq> 0" by (metis list_iterator.select_convs(2))
  from mu_iterator_next_ok[OF h1(2) a1 i1 this]
  have n: "mu_iterator_next itr h1 = Some (only_itr h1 itr (?i\<lparr>li_is_advanced := 0\<rparr>))"
    "heap_wf (only_itr h1 itr (?i\<lparr>li_is_advanced := 0\<rparr>)) (S(p \<mapsto> kept @ todo))"
    "contents (only_itr h1 itr (?i\<lparr>li_is_advanced := 0\<rparr>)) (S(p \<mapsto> kept @ todo)) = contents h1 (S(p \<mapsto> kept @ todo))"
    by simp_all
  moreover have "walking (only_itr h1 itr (?i\<lparr>li_is_advanced := 0\<rparr>)) (S(p \<mapsto> kept @ todo)) p itr kept todo"
    using n(2) h1(5) l by (simp add: walking_def only_itr_def list_comp_def)
  ultimately show ?thesis using remove h1(3) by metis
qed

section \<open>Removing while iterating\<close>

text \<open>An action that removes the items with a property from the list it is called for, and records
  the items it has seen.\<close>

definition purge :: "(item \<Rightarrow> bool) \<Rightarrow> ref \<Rightarrow> item list list_action" where
  "purge P p x hs =
     (if P x then map_option (\<lambda>(h, status). ((h, snd hs @ [x]), status)) (mu_list_remove p x (fst hs))
      else Some ((fst hs, snd hs @ [x]), None))"

lemma purge_walk:
  assumes "walking h S p itr kept todo" "distinct (map (itm (hp_node h)) (kept @ todo))"
  shows "\<exists>h' S'. foreach_loop (purge P p) itr (h, seen) = Some ((h', seen @ map (itm (hp_node h)) todo), None) \<and>
    heap_wf h' S' \<and> attached h' itr \<and> S' p \<noteq> None \<and>
    contents h' S' = (contents h S)(p \<mapsto> map (itm (hp_node h)) kept @ filter (\<lambda>x. \<not> P x) (map (itm (hp_node h)) todo))"
  using assms
proof (induction todo arbitrary: h S kept seen)
  case Nil
  then have "contents h S p = Some (map (itm (hp_node h)) kept)" by (simp add: walking_def contents_def)
  with Nil walking_attached[OF Nil(1)] show ?case
    by (subst foreach_loop.simps) (auto simp: mu_iterator_is_done_def walking_def fun_upd_idem intro!: exI[of _ S])
next
  case (Cons c todo)
  let ?I = "itm (hp_node h)"
  have wf: "heap_wf h S" and S: "S p = Some (kept @ c # todo)"
    and i: "hp_itr h itr = Some \<lparr>li_list = p, li_cur = c, li_backwards = False, li_is_advanced = 0\<rparr>"
    using Cons.prems(1) by (simp_all add: walking_def)
  have c: "c \<noteq> p" "hp_node h c \<noteq> None"
    using heap_wf_list[OF wf S] heap_wf_node[OF wf S, of c] by (auto simp: ring_def)
  then have turn: "mu_iterator_is_done itr h = Some False" "mu_iterator_current itr h = Some (?I c)"
    using i by (simp_all add: mu_iterator_is_done_def mu_iterator_current_def heap_simps)
  show ?case
  proof (cases "P (?I c)")
    case False
    from walking_next[OF Cons.prems(1)] obtain h' where h': "mu_iterator_next itr h = Some h'"
      "walking h' S p itr (kept @ [c]) todo" "hp_node h' = hp_node h" "contents h' S = contents h S" by blast
    have "foreach_loop (purge P p) itr (h, seen) = foreach_loop (purge P p) itr (h', seen @ [?I c])"
      using turn False h'(1) by (subst foreach_loop.simps) (simp add: purge_def)
    with Cons.IH[OF h'(2), of "seen @ [?I c]"] Cons.prems(2) False h'(3,4) show ?thesis by simp
  next
    case True
    from walking_remove[OF Cons.prems] obtain h1 h' where h': "mu_list_remove p (?I c) h = Some (h1, None)"
      "mu_iterator_next itr h1 = Some h'" "walking h' (S(p \<mapsto> kept @ todo)) p itr kept todo"
      "contents h' (S(p \<mapsto> kept @ todo)) = (contents h S)(p \<mapsto> map ?I (kept @ todo))" by blast
    have "map (itm (hp_node h')) (kept @ todo) = map ?I (kept @ todo)"
      using h'(4) by (auto simp: contents_def fun_eq_iff split: if_splits dest: spec[of _ p])
    then have items: "map (itm (hp_node h')) kept = map ?I kept" "map (itm (hp_node h')) todo = map ?I todo" by simp_all
    have "foreach_loop (purge P p) itr (h, seen) = foreach_loop (purge P p) itr (h', seen @ [?I c])"
      using turn True h'(1,2) by (subst foreach_loop.simps) (simp add: purge_def)
    note step = this
    have "distinct (map (itm (hp_node h')) (kept @ todo))"
      using Cons.prems(2) items by (simp del: map_eq_conv)
    from Cons.IH[OF h'(3) this, of "seen @ [?I c]"] obtain h2 S2 where
      "foreach_loop (purge P p) itr (h', seen @ [?I c]) = Some ((h2, (seen @ [?I c]) @ map ?I todo), None)"
      "heap_wf h2 S2" "attached h2 itr" "S2 p \<noteq> None"
      "contents h2 S2 = (contents h S)(p \<mapsto> map ?I kept @ filter (\<lambda>x. \<not> P x) (map ?I todo))"
      unfolding items h'(4) fun_upd_upd by blast
    with step True show ?thesis by (intro exI[of _ h2] exI[of _ S2]) simp
  qed
qed

lemma mu_list_foreach_purge:
  assumes wf: "heap_wf h S" and S: "S p = Some rs" and pool: "hp_pool h \<noteq> []"
    and l: "hp_list h p = Some l" "\<forall>x y. list_comp l y x = 0 \<longleftrightarrow> x = y" and d: "distinct (map (itm (hp_node h)) rs)"
  shows "\<exists>h' S'. mu_list_foreach p (purge P p) (h, []) = Some ((h', map (itm (hp_node h)) rs), None) \<and>
    heap_wf h' S' \<and> contents h' S' = (contents h S)(p \<mapsto> filter (\<lambda>x. \<not> P x) (map (itm (hp_node h)) rs))"
proof -
  from pool obtain r pool' where pool': "hp_pool h = r # pool'" by (cases "hp_pool h") auto
  let ?i = "\<lparr>li_list = p, li_cur = 0, li_backwards = False, li_is_advanced = 0\<rparr>"
  from mu_list_get_iterator_ok[OF wf S pool'] l(1) obtain h0 where h0: "mu_list_get_iterator p h = Some (h0, Inr r)"
    "heap_wf h0 S" "contents h0 S = contents h S" "hp_itr h0 = (hp_itr h)(r \<mapsto> ?i)"
    "hp_list h0 = (hp_list h)(p \<mapsto> l\<lparr>ml_itr := r # ml_itr l\<rparr>)" "hp_node h0 = hp_node h" by auto
  have a: "attached h0 r" "hp_itr h0 r = Some ?i" using h0(4,5) by (auto simp: attached_def)
  let ?h = "only_itr h0 r \<lparr>li_list = p, li_cur = hd (rs @ [p]), li_backwards = False, li_is_advanced = 0\<rparr>"
  have f: "mu_iterator_first r h0 = Some ?h" "heap_wf ?h S" "contents ?h S = contents h0 S"
    using mu_iterator_first_ok[OF h0(2) a, of rs] S by simp_all
  have w: "walking ?h S p r [] rs"
    using f(2) S h0(5) l(2) by (simp add: walking_def only_itr_def list_comp_def)
  have items: "itm (hp_node ?h) = itm (hp_node h)" using h0(6) by (simp add: only_itr_def)
  from purge_walk[OF w, of P "[]"] d obtain h1 S1 where h1:
    "foreach_loop (purge P p) r (?h, []) = Some ((h1, map (itm (hp_node h)) rs), None)" "heap_wf h1 S1" "attached h1 r"
    "contents h1 S1 = (contents h S)(p \<mapsto> filter (\<lambda>x. \<not> P x) (map (itm (hp_node h)) rs))"
    unfolding items f(3) h0(3) by auto
  from mu_iterator_destroy_ok[OF h1(2,3)] obtain h' where "mu_iterator_destroy r h1 = Some h'" "heap_wf h' S1"
    "contents h' S1 = contents h1 S1" by blast
  then show ?thesis
    using heap_wf_null[OF wf S] h0(1) f(1) h1(1,4) by (auto simp: mu_list_foreach_def)
qed

section \<open>An empty list is moved\<close>

text \<open>\<open>mu_list_prepend_list\<close> has no test for an empty second list. Two empty lists end with the first
  list's links at the second one, whose links are at itself: a walk along the first list never ends.\<close>

lemma prepend_empty:
  assumes wf: "heap_wf h S" and p: "S p = Some []" and q: "S q = Some []" and pq: "p \<noteq> q"
  shows "\<exists>h'. mu_list_prepend_list p q h = Some h' \<and> get_next p h' = Some q \<and> get_next q h' = Some q \<and>
    mu_list_count p h' = Some (Inr 0)"
proof -
  obtain l where l: "hp_list h p = Some l" "ml_count l = 0" "ring (hp_node h) p []" using heap_wf_list[OF wf p] by force
  obtain k where k: "hp_list h q = Some k" "ml_count k = 0" "ring (hp_node h) q []" using heap_wf_list[OF wf q] by force
  have dom: "hp_node h p \<noteq> None" "hp_node h q \<noteq> None" using heap_wf_node[OF wf p] heap_wf_node[OF wf q] by auto
  then obtain d d0 where d: "hp_node h q = Some d" "hp_node h p = Some d0" by auto
  have qd: "ld_next d = q" "ld_prev d = q" using k(3) d by (auto simp: ring_Nil nxt_def prv_def)
  let ?N = "with_next q q (with_prev q q (with_prev q p (with_next q p ((hp_node h)(p \<mapsto> d)))))"
  let ?h = "h\<lparr>hp_node := ?N, hp_list := (hp_list h)(p \<mapsto> l\<lparr>ml_count := 0\<rparr>, q \<mapsto> k\<lparr>ml_count := 0\<rparr>)\<rparr>"
  have "mu_list_prepend_list p q h = Some ?h"
    using l k dom d pq by (simp add: mu_list_prepend_list_def list_take_head_def list_reset_def upd_node_def heap_simps qd)
  then show ?thesis
    using dom pq qd heap_wf_null[OF wf p] by (simp add: heap_simps mu_list_count_def)
qed

lemma fold_loop_turns:
  assumes "fold_loop dir f h p c v = Some y"
  shows "\<not> dir \<longrightarrow> c \<noteq> p \<longrightarrow> get_next c h = Some c \<longrightarrow> (\<forall>x v. fst (f x v) = None) \<longrightarrow> False"
proof (rule fold_loop.raw_induct[where P = "\<lambda>dir f h p c v y. \<not> dir \<longrightarrow> c \<noteq> p \<longrightarrow> get_next c h = Some c \<longrightarrow>
    (\<forall>x v. fst (f x v) = None) \<longrightarrow> False", OF _ assms], intro impI)
  fix loop b h list current prev y and f :: "item \<Rightarrow> 'b \<Rightarrow> lstatus \<times> 'b"
  assume IH: "\<And>b f h list current prev y. loop b f h list current prev = Some y \<Longrightarrow>
      \<not> b \<longrightarrow> current \<noteq> list \<longrightarrow> get_next current h = Some current \<longrightarrow> (\<forall>x v. fst (f x v) = None) \<longrightarrow> False"
    and body: "(if current = list then Some (None, prev)
      else case hp_node h current of None \<Rightarrow> None
        | Some d \<Rightarrow> (case f (ld_item d) prev of (None, v) \<Rightarrow> loop b f h list (if b then ld_prev d else ld_next d) v
            | (Some e, v) \<Rightarrow> Some (Some e, v))) = Some y"
    and c: "\<not> b" "current \<noteq> list" "get_next current h = Some current" "\<forall>x v. fst (f x v) = None"
  from c(3) obtain d where "hp_node h current = Some d" "ld_next d = current" by (auto simp: get_next_def)
  with body c(1,2) c(4)[rule_format, of "ld_item d" prev]
  have "loop b f h list current (snd (f (ld_item d) prev)) = Some y" by (cases "f (ld_item d) prev") auto
  from IH[OF this] c show False by blast
qed

lemma prepend_empty_fold:
  assumes "get_next p h = Some q" "get_next q h = Some q" "p \<noteq> q" "p \<noteq> 0" "\<forall>x v. fst (f x v) = None"
  shows "mu_list_fold p f v h = None"
proof (cases "fold_loop False f h p q v")
  case None
  with assms show ?thesis by (simp add: mu_list_fold_def)
next
  case (Some y)
  from fold_loop_turns[OF this] assms show ?thesis by simp
qed

section \<open>An example\<close>

text \<open>A heap with the list 1 of the items 7 and 8, and one with the empty lists 1 and 2.\<close>

definition example_heap :: lheap where
  "example_heap = the (run_call (List_append 1 8) (the (run_call (List_append 1 7)
     (the (run_call List_create (empty_heap [1, 2, 3, 4, 5]))))))"

definition example_pair :: lheap where
  "example_pair = the (run_call List_create (the (run_call List_create (empty_heap [1, 2]))))"

lemma example_heap_wf: "heap_wf example_heap [1 \<mapsto> [2, 3]]" "contents example_heap [1 \<mapsto> [2, 3]] = [1 \<mapsto> [7, 8]]"
proof -
  have "heap_wf (empty_heap [1, 2, 3, 4, 5]) Map.empty" by (rule heap_wf_empty) simp_all
  from mu_list_create_ok[OF this, of 1 "[2, 3, 4, 5]"] obtain h1 where h1: "mu_list_create (empty_heap [1, 2, 3, 4, 5]) = (h1, Inr 1)"
    "heap_wf h1 [1 \<mapsto> []]" by (auto simp: empty_heap_def)
  then have p1: "hp_pool h1 = [2, 3, 4, 5]" by (auto simp: mu_list_create_def calloc_def empty_heap_def)
  from mu_list_append_ok[OF h1(2) _ p1, of 1 "[]" 7] obtain h2 where h2: "mu_list_append 1 7 h1 = Some (h2, None)"
    "heap_wf h2 [1 \<mapsto> [2]]" "contents h2 [1 \<mapsto> [2]] = (contents h1 [1 \<mapsto> []])(1 \<mapsto> [7])" by auto
  have p2: "hp_pool h2 = [3, 4, 5]"
  proof -
    have "hp_pool (fst (the (mu_list_append 1 7 (fst (mu_list_create (empty_heap [1, 2, 3, 4, 5])))))) = [3, 4, 5]"
      by code_simp
    then show ?thesis by (simp only: h1(1) h2(1) fst_conv option.sel)
  qed
  from mu_list_append_ok[OF h2(2) _ p2, of 1 "[2]" 8] obtain h3 where h3: "mu_list_append 1 8 h2 = Some (h3, None)"
    "heap_wf h3 [1 \<mapsto> [2, 3]]" "contents h3 [1 \<mapsto> [2, 3]] = (contents h2 [1 \<mapsto> [2]])(1 \<mapsto> map (itm (hp_node h2)) [2] @ [8])" by auto
  have "example_heap = h3"
    by (simp only: example_heap_def run_call.simps option.sel h1(1) h2(1) h3(1) fst_conv option.map)
  moreover have "map (itm (hp_node h2)) [2] = [7]" using h2(3) by (auto simp: contents_def fun_eq_iff dest: spec[of _ 1])
  ultimately show "heap_wf example_heap [1 \<mapsto> [2, 3]]" "contents example_heap [1 \<mapsto> [2, 3]] = [1 \<mapsto> [7, 8]]"
    using h3(2,3) h2(3) by (simp_all add: fun_eq_iff contents_def)
qed

lemma example_pair_wf: "heap_wf example_pair [1 \<mapsto> [], 2 \<mapsto> []]"
proof -
  have "heap_wf (empty_heap [1, 2]) Map.empty" by (rule heap_wf_empty) simp_all
  from mu_list_create_ok[OF this, of 1 "[2]"] obtain h1 where h1: "mu_list_create (empty_heap [1, 2]) = (h1, Inr 1)"
    "heap_wf h1 [1 \<mapsto> []]" by (auto simp: empty_heap_def)
  then have "hp_pool h1 = [2]" by (auto simp: mu_list_create_def calloc_def empty_heap_def)
  from mu_list_create_ok[OF h1(2) this] obtain h2 where "mu_list_create h1 = (h2, Inr 2)" "heap_wf h2 [1 \<mapsto> [], 2 \<mapsto> []]"
    by blast
  then show ?thesis by (simp only: example_pair_def run_call.simps option.sel h1(1) fst_conv)
qed

section \<open>Folding\<close>

fun fold_status :: "(item \<Rightarrow> 'v \<Rightarrow> lstatus \<times> 'v) \<Rightarrow> item list \<Rightarrow> 'v \<Rightarrow> lstatus \<times> 'v" where
  "fold_status f [] v = (None, v)"
| "fold_status f (x # xs) v = (case f x v of (Some e, w) \<Rightarrow> (Some e, w) | (None, w) \<Rightarrow> fold_status f xs w)"

lemma fold_loop_walk:
  "successively (linked (hp_node h)) (rs @ [p]) \<Longrightarrow> p \<notin> set rs \<Longrightarrow>
   fold_loop False f h p (hd (rs @ [p])) v = Some (fold_status f (map (itm (hp_node h)) rs) v)"
proof (induction rs arbitrary: v)
  case (Cons r rs)
  from Cons.prems walk_step[of "hp_node h" r rs p] obtain d where
    "hp_node h r = Some d" "ld_item d = itm (hp_node h) r" "ld_next d = hd (rs @ [p])" "successively (linked (hp_node h)) (rs @ [p])"
    by auto
  with Cons show ?case by (subst fold_loop.simps) (simp split: prod.split option.split)
qed (simp add: fold_loop.simps)

lemma fold_loop_walk_back:
  "successively (linked (hp_node h)) (p # rs) \<Longrightarrow> p \<notin> set rs \<Longrightarrow>
   fold_loop True f h p (last (p # rs)) v = Some (fold_status f (rev (map (itm (hp_node h)) rs)) v)"
proof (induction rs arbitrary: v rule: rev_induct)
  case (snoc r rs)
  have "successively (linked (hp_node h)) ((p # rs) @ [r])" using snoc.prems(1) by simp
  then have l: "successively (linked (hp_node h)) (p # rs)" "linked (hp_node h) (last (p # rs)) r"
    unfolding successively_append_iff by simp_all
  then obtain d where "hp_node h r = Some d" "ld_item d = itm (hp_node h) r" "ld_prev d = last (p # rs)"
    by (auto simp: linked_def prv_def itm_def)
  then have "fold_loop True f h p r v = Some (fold_status f (rev (map (itm (hp_node h)) (rs @ [r]))) v)"
    using snoc.IH[OF l(1)] snoc.prems(2)
    by (subst fold_loop.simps) (cases "f (itm (hp_node h) r) v", simp del: last.simps split: option.split)
  then show ?case by simp
qed (simp add: fold_loop.simps)

lemma mu_list_folds:
  assumes wf: "heap_wf h S" and S: "S p = Some rs"
  shows "mu_list_fold p f v h = Some (fold_status f (map (itm (hp_node h)) rs) v)"
    and "mu_list_rfold p f v h = Some (fold_status f (rev (map (itm (hp_node h)) rs)) v)"
proof -
  obtain r: "ring (hp_node h) p rs" by (rule heap_wf_list[OF wf S])
  then have "successively (linked (hp_node h)) (rs @ [p])" "successively (linked (hp_node h)) (p # rs)" "p \<notin> set rs"
    using ring_split[of "hp_node h" p "[]" rs] ring_split[of "hp_node h" p rs "[]"] by (auto simp: ring_def)
  then show "mu_list_fold p f v h = Some (fold_status f (map (itm (hp_node h)) rs) v)"
    "mu_list_rfold p f v h = Some (fold_status f (rev (map (itm (hp_node h)) rs)) v)"
    using ring_first[OF r] ring_last[OF r] heap_wf_null[OF wf S]
    by (simp_all add: mu_list_fold_def mu_list_rfold_def heap_simps fold_loop_walk fold_loop_walk_back del: last.simps)
qed

end
