(* ===== verification/Str_Escape.thy ===== *)
theory Str_Escape
  imports C_String
begin

text \<open>
  Escapes by a backslash (\<open>libmailutils/string/cstrescape.c\<close>, \<open>cstrunescape.c\<close>) and the count of
  characters they rest on (\<open>strcount.c\<close>). A null pointer is \<open>None\<close>, the flag \<open>ret_str\<close> says that the
  pointer to the result is not null. A write past the allocated block is \<open>OUT_OF_BOUNDS\<close>.
\<close>

section \<open>Counting characters\<close>

text \<open>The counters are updated when there is an array for them, which has an element for each character.\<close>

fun str_count_loop :: "bytes \<Rightarrow> bytes \<Rightarrow> nat \<Rightarrow> nat \<Rightarrow> nat list option \<Rightarrow> nat \<times> nat list option" where
  "str_count_loop chr [] consume count cnt = (count, cnt)"
| "str_count_loop chr (c # str) consume count cnt =
     (if consume \<noteq> 0 then str_count_loop chr str (consume - 1) count cnt
      else if c < 0xc0 then
        (case strchr chr c of
           Some p \<Rightarrow> str_count_loop chr str 0 (count + 1) (map_option (\<lambda>k. k[p := k ! p + 1]) cnt)
         | None \<Rightarrow> str_count_loop chr str 0 count cnt)
      else str_count_loop chr str (utf8_consume c) count cnt)"

definition mu_str_count :: "bytes option \<Rightarrow> bytes option \<Rightarrow> nat list option \<Rightarrow> nat \<times> nat list option" where
  "mu_str_count str chr cnt =
     (case (str, chr) of
        (Some s, Some k) \<Rightarrow> str_count_loop k s 0 0 (map_option (\<lambda>n. replicate (length k) 0 @ drop (length k) n) cnt)
      | _ \<Rightarrow> (0, cnt))"

section \<open>Escaping\<close>

text \<open>The loop, with what it writes before the final NUL.\<close>

fun escape_loop :: "bytes \<Rightarrow> bytes \<Rightarrow> bytes \<Rightarrow> bytes" where
  "escape_loop chr xtab [] = []"
| "escape_loop chr xtab (c # str) =
     (case strchr chr c of
        Some p \<Rightarrow> BSLASH # xtab ! p # escape_loop chr xtab str
      | None \<Rightarrow> c # escape_loop chr xtab str)"

definition mu_c_str_escape :: "bytes option \<Rightarrow> bytes option \<Rightarrow> bytes option \<Rightarrow> bool \<Rightarrow> mu_error + bytes option" where
  "mu_c_str_escape str chr xtab ret_str =
     (if \<not> ret_str then Inl MU_ERR_OUT_PTR_NULL
      else case str of
        None \<Rightarrow> Inr None
      | Some s \<Rightarrow>
          case chr of
            None \<Rightarrow> Inr (Some s)
          | Some k \<Rightarrow>
              let xtab = (case xtab of None \<Rightarrow> k | Some x \<Rightarrow> x)
              in if length xtab \<noteq> length k then Inl EINVAL
                 else let n = fst (mu_str_count (Some s) (Some k) None);
                          size = length s + n + 1;
                          out = escape_loop k xtab s
                      in if n = 0 then Inr (Some s)
                         else if length out + 1 \<le> size then Inr (Some out)
                         else Inl OUT_OF_BOUNDS)"

text \<open>The two tables that \<open>trans\<close> alternates: the characters to escape and those that stand for them.\<close>

fun trans_chr :: "bytes \<Rightarrow> bytes" where
  "trans_chr (x # c # tab) = c # trans_chr tab"
| "trans_chr _ = []"

fun trans_xtab :: "bytes \<Rightarrow> bytes" where
  "trans_xtab (x # c # tab) = x # trans_xtab tab"
| "trans_xtab _ = []"

definition mu_c_str_escape_trans :: "bytes option \<Rightarrow> bytes option \<Rightarrow> bool \<Rightarrow> mu_error + bytes option" where
  "mu_c_str_escape_trans str tab ret_str =
     (case tab of
        None \<Rightarrow> mu_c_str_escape str None None ret_str
      | Some t \<Rightarrow>
          if odd (length t) then Inl EINVAL
          else mu_c_str_escape str (Some (trans_chr t)) (Some (trans_xtab t)) ret_str)"

section \<open>Unescaping\<close>

fun unescape_loop :: "bytes \<Rightarrow> bytes \<Rightarrow> bytes \<Rightarrow> bytes" where
  "unescape_loop chr xtab (c # d # s) =
     (if c = BSLASH then
        (case strchr xtab d of
           Some p \<Rightarrow> chr ! p # unescape_loop chr xtab s
         | None \<Rightarrow> c # unescape_loop chr xtab (d # s))
      else c # unescape_loop chr xtab (d # s))"
| "unescape_loop chr xtab s = s"

definition c_str_unescape :: "bytes \<Rightarrow> bytes \<Rightarrow> bytes \<Rightarrow> bytes" where
  "c_str_unescape inp chr xtab =
     takeWhile (\<lambda>c. c \<noteq> BSLASH) inp @ unescape_loop chr xtab (dropWhile (\<lambda>c. c \<noteq> BSLASH) inp)"

text \<open>The string in place of the old one.\<close>

definition mu_c_str_unescape_inplace :: "bytes option \<Rightarrow> bytes option \<Rightarrow> bytes option \<Rightarrow> mu_error + bytes option" where
  "mu_c_str_unescape_inplace str chr xtab =
     (case str of
        None \<Rightarrow> Inr None
      | Some s \<Rightarrow>
          case (xtab, chr) of
            (None, None) \<Rightarrow> Inr (Some s)
          | (None, Some k) \<Rightarrow> Inr (Some (c_str_unescape s k k))
          | (Some x, None) \<Rightarrow> Inr (Some (c_str_unescape s x x))
          | (Some x, Some k) \<Rightarrow> if length k \<noteq> length x then Inl EINVAL else Inr (Some (c_str_unescape s k x)))"

text \<open>The loop that measures the result.\<close>

fun unescape_size :: "bytes \<Rightarrow> bytes \<Rightarrow> nat" where
  "unescape_size xtab (c # d # s) =
     (if c = BSLASH \<and> strchr xtab d \<noteq> None then Suc (unescape_size xtab s)
      else Suc (unescape_size xtab (d # s)))"
| "unescape_size xtab s = length s"

definition unescape_into :: "bytes \<Rightarrow> bytes \<Rightarrow> bytes \<Rightarrow> mu_error + bytes option" where
  "unescape_into s chr xtab =
     (let out = c_str_unescape s chr xtab
      in if length out + 1 \<le> unescape_size xtab s + 1 then Inr (Some out) else Inl OUT_OF_BOUNDS)"

text \<open>With no table at all the function goes on with a null \<open>xtab\<close>, which is read when a character follows
  a backslash.\<close>

fun escape_in :: "bytes \<Rightarrow> bool" where
  "escape_in (c # d # s) = (c = BSLASH \<or> escape_in (d # s))"
| "escape_in s = False"

definition mu_c_str_unescape :: "bytes option \<Rightarrow> bytes option \<Rightarrow> bytes option \<Rightarrow> bool \<Rightarrow> mu_error + bytes option" where
  "mu_c_str_unescape str chr xtab ret_str =
     (if \<not> ret_str then Inl MU_ERR_OUT_PTR_NULL
      else case str of
        None \<Rightarrow> Inr None
      | Some s \<Rightarrow>
          case (xtab, chr) of
            (None, None) \<Rightarrow> if escape_in s then Inl OUT_OF_BOUNDS else Inr (Some s)
          | (None, Some k) \<Rightarrow> unescape_into s k k
          | (Some x, None) \<Rightarrow> unescape_into s x x
          | (Some x, Some k) \<Rightarrow> if length k \<noteq> length x then Inl EINVAL else unescape_into s k x)"

definition mu_c_str_unescape_trans :: "bytes option \<Rightarrow> bytes option \<Rightarrow> bool \<Rightarrow> mu_error + bytes option" where
  "mu_c_str_unescape_trans str tab ret_str =
     (case tab of
        None \<Rightarrow> mu_c_str_unescape str None None ret_str
      | Some t \<Rightarrow>
          if odd (length t) then Inl EINVAL
          else mu_c_str_unescape str (Some (trans_chr t)) (Some (trans_xtab t)) ret_str)"

section \<open>The block is large enough\<close>

text \<open>In UTF-8 the byte after a first byte of a longer sequence is not an ASCII character.\<close>

definition utf8_shaped :: "bytes \<Rightarrow> bool" where
  "utf8_shaped s \<longleftrightarrow> successively (\<lambda>a b. 0xc0 \<le> a \<longrightarrow> 0x80 \<le> b) s"

definition ascii_set :: "bytes \<Rightarrow> bool" where
  "ascii_set chr \<longleftrightarrow> (\<forall>c\<in>set chr. 0 < c \<and> c < 0x80)"

lemma length_escape_loop:
  "length (escape_loop chr xtab s) = length s + length (filter (\<lambda>c. strchr chr c \<noteq> None) s)"
  by (induction s) (auto split: option.splits)

lemma strchr_ascii: "ascii_set chr \<Longrightarrow> c \<noteq> 0 \<Longrightarrow> 0x80 \<le> c \<Longrightarrow> strchr chr c = None"
  by (auto simp: ascii_set_def strchr_None)

lemma str_count_utf8:
  assumes "utf8_shaped s" "ascii_set chr" "0 \<notin> set s" "k = 0 \<or> k = 1 \<and> (s \<noteq> [] \<longrightarrow> 0x80 \<le> hd s)"
  shows "fst (str_count_loop chr s k n cnt) = n + length (filter (\<lambda>c. strchr chr c \<noteq> None) s)"
  using assms
proof (induction s arbitrary: k n cnt)
  case (Cons c s)
  from Cons.prems have s: "utf8_shaped s" "0 \<notin> set s" "c \<noteq> 0" by (auto simp: utf8_shaped_def successively_Cons)
  show ?case
  proof (cases "0x80 \<le> c")
    case True
    with strchr_ascii Cons.prems(2) s have none: "strchr chr c = None" by blast
    have hd: "s \<noteq> [] \<longrightarrow> 0x80 \<le> hd s" if "0xc0 \<le> c"
      using Cons.prems(1) that by (auto simp: utf8_shaped_def successively_Cons)
    show ?thesis
    proof (cases "k = 0 \<and> 0xc0 \<le> c")
      case True
      then have "\<not> c < 0xc0" by (simp add: not_less)
      with True hd none show ?thesis using Cons.IH[of 1 n cnt] Cons.prems(2) s by simp
    next
      case False
      with none show ?thesis using Cons.IH[of 0 n cnt] Cons.prems(2,4) s by (auto simp: not_le)
    qed
  next
    case False
    with Cons.prems(4) have "k = 0" by simp
    moreover have "c < 0xc0" using False by (simp add: word_le_nat_alt word_less_nat_alt)
    ultimately show ?thesis
      using Cons.IH[of 0 n cnt] Cons.IH[of 0 "n + 1"] Cons.prems(2) s by (auto split: option.split)
  qed
qed simp

lemma mu_c_str_escape_utf8:
  assumes "utf8_shaped s" "ascii_set chr" "0 \<notin> set s" "length xtab = length chr"
  shows "mu_c_str_escape (Some s) (Some chr) (Some xtab) True = Inr (Some (escape_loop chr xtab s))"
proof -
  have "escape_loop chr xtab s = s" if "filter (\<lambda>c. strchr chr c \<noteq> None) s = []"
    using that by (induction s) (auto split: option.splits if_splits)
  with str_count_utf8[OF assms(1-3)] assms(4) show ?thesis
    by (auto simp: mu_c_str_escape_def mu_str_count_def Let_def length_escape_loop)
qed

section \<open>Round trip\<close>

lemma unescape_escape_loop:
  assumes "distinct xtab" "length xtab = length chr" "BSLASH \<in> set chr" "0 \<notin> set s" "0 \<notin> set xtab" "0 \<notin> set chr"
  shows "unescape_loop chr xtab (escape_loop chr xtab s) = s"
  using assms(4)
proof (induction s)
  case (Cons c s)
  show ?case
  proof (cases "strchr chr c")
    case None
    with Cons assms(3,6) have "c \<noteq> BSLASH" by (auto simp: strchr_None)
    with None Cons show ?thesis by (cases "escape_loop chr xtab s") auto
  next
    case (Some p)
    with Cons have p: "p < length chr" "chr ! p = c" by (auto dest: strchr_Some)
    with assms have "strchr xtab (xtab ! p) = Some p" by (auto intro: strchr_nth)
    with Some p Cons show ?thesis by simp
  qed
qed simp

lemma c_str_unescape_loop: "c_str_unescape s chr xtab = unescape_loop chr xtab s"
proof -
  have "unescape_loop chr xtab s = takeWhile (\<lambda>c. c \<noteq> BSLASH) s @ unescape_loop chr xtab (dropWhile (\<lambda>c. c \<noteq> BSLASH) s)"
    by (induction chr xtab s rule: unescape_loop.induct) auto
  then show ?thesis by (simp add: c_str_unescape_def)
qed

text \<open>The measured size is that of the result.\<close>

lemma length_unescape_loop: "length (unescape_loop chr xtab s) = unescape_size xtab s"
  by (induction chr xtab s rule: unescape_loop.induct) (auto split: option.splits)

lemma unescape_into_ok: "unescape_into s chr xtab = Inr (Some (unescape_loop chr xtab s))"
  by (simp add: unescape_into_def c_str_unescape_loop length_unescape_loop Let_def)

lemma c_str_escape_trip:
  assumes "utf8_shaped s" "ascii_set chr" "0 \<notin> set s"
    and "length xtab = length chr" "distinct xtab" "BSLASH \<in> set chr" "0 \<notin> set xtab"
  obtains e where "mu_c_str_escape (Some s) (Some chr) (Some xtab) True = Inr (Some e)"
    and "mu_c_str_unescape (Some e) (Some chr) (Some xtab) True = Inr (Some s)"
proof
  show "mu_c_str_escape (Some s) (Some chr) (Some xtab) True = Inr (Some (escape_loop chr xtab s))"
    using mu_c_str_escape_utf8 assms by blast
  have "0 \<notin> set chr" using assms(2) by (auto simp: ascii_set_def)
  with assms show "mu_c_str_unescape (Some (escape_loop chr xtab s)) (Some chr) (Some xtab) True = Inr (Some s)"
    by (simp add: mu_c_str_unescape_def unescape_into_ok unescape_escape_loop)
qed

text \<open>A byte from \<open>0xc0\<close> on hides the character after it from the count, but not from the loop.\<close>

lemma mu_c_str_escape_hidden:
  assumes "0xc0 \<le> a" "a \<notin> set chr" "q \<in> set chr" "q < 0xc0" "0 \<notin> set chr"
  shows "mu_c_str_escape (Some [a, q]) (Some chr) None True = Inr (Some [a, q])"
    "mu_c_str_escape (Some [a, q, q]) (Some chr) None True = Inl OUT_OF_BOUNDS"
proof -
  have "a \<noteq> 0" "\<not> a < 0xc0" using assms(1) by auto
  moreover obtain p where "strchr chr q = Some p" using assms(3,5) by (metis option.exhaust strchr_None)
  moreover have "strchr chr a = None" using assms(2) \<open>a \<noteq> 0\<close> by (simp add: strchr_None)
  ultimately show "mu_c_str_escape (Some [a, q]) (Some chr) None True = Inr (Some [a, q])"
    "mu_c_str_escape (Some [a, q, q]) (Some chr) None True = Inl OUT_OF_BOUNDS"
    using assms(1,4) by (simp_all add: mu_c_str_escape_def mu_str_count_def Let_def)
qed

end
