(* ===== verification/Str_Search.thy ===== *)
theory Str_Search
  imports C_String
begin

text \<open>
  Searching without regard to case (\<open>libmailutils/string/cstrcasestr.c\<close>). A pointer into a string
  is the suffix it points to; the NUL is the end of the list. The blocks between the labels of the
  source are functions, and a \<open>goto\<close> is a call.
\<close>

section \<open>The search\<close>

text \<open>The comparison of the rest of the needle, up to the end of either.\<close>

fun casestr_rest :: "bytes \<Rightarrow> bytes \<Rightarrow> bool" where
  "casestr_rest rhaystack [] = True"
| "casestr_rest [] (a # needle) = False"
| "casestr_rest (h # rhaystack) (a # needle) = (mu_toupper h = mu_toupper a \<and> casestr_rest rhaystack needle)"

text \<open>\<open>b\<close> and \<open>c\<close> are the first two characters of the needle, in upper case, and \<open>needle\<close> the
  others. At \<open>jin\<close> the haystack stands at a \<open>b\<close>.\<close>

function casestr_for :: "byte \<Rightarrow> byte \<Rightarrow> bytes \<Rightarrow> bytes \<Rightarrow> bytes option"
  and casestr_jin :: "byte \<Rightarrow> byte \<Rightarrow> bytes \<Rightarrow> bytes \<Rightarrow> bytes option"
  and casestr_shloop :: "byte \<Rightarrow> byte \<Rightarrow> bytes \<Rightarrow> bytes \<Rightarrow> bytes option"
where
  "casestr_for b c needle haystack =
     (case tl haystack of
        [] \<Rightarrow> None
      | a # t \<Rightarrow>
          if mu_toupper a = b then casestr_jin b c needle (a # t)
          else case t of [] \<Rightarrow> None | a # t \<Rightarrow> casestr_shloop b c needle (a # t))"
| "casestr_jin b c needle haystack =
     (case tl haystack of
        [] \<Rightarrow> None
      | a # t \<Rightarrow>
          if mu_toupper a \<noteq> c then casestr_shloop b c needle (a # t)
          else if casestr_rest t needle then Some haystack
          else casestr_for b c needle haystack)"
| "casestr_shloop b c needle haystack =
     (if mu_toupper (hd haystack) \<noteq> b then casestr_for b c needle haystack
      else casestr_jin b c needle haystack)"
  by pat_completeness auto
termination
  by (relation "measure (\<lambda>x. case x of Inl (b, c, n, h) \<Rightarrow> 3 * length h
      | Inr (Inl (b, c, n, h)) \<Rightarrow> 3 * length h + 1 | Inr (Inr (b, c, n, h)) \<Rightarrow> 3 * length h + 2)")
    (auto simp: neq_Nil_conv dest!: arg_cong[where f = length])

declare casestr_for.simps [simp del] casestr_jin.simps [simp del] casestr_shloop.simps [simp del]

definition mu_c_strcasestr :: "bytes \<Rightarrow> bytes \<Rightarrow> bytes option" where
  "mu_c_strcasestr haystack needle =
     (case needle of
        [] \<Rightarrow> Some haystack
      | b # needle \<Rightarrow>
          case dropWhile (\<lambda>c. mu_toupper c \<noteq> mu_toupper b) haystack of
            [] \<Rightarrow> None
          | c # h \<Rightarrow>
              case needle of
                [] \<Rightarrow> Some (c # h)
              | c' # needle \<Rightarrow> casestr_jin (mu_toupper b) (mu_toupper c') needle (c # h))"

section \<open>The first occurrence\<close>

text \<open>The first suffix of the haystack that starts with the needle, but for case.\<close>

definition case_prefix :: "bytes \<Rightarrow> bytes \<Rightarrow> bool" where
  "case_prefix needle s \<longleftrightarrow> prefix (map mu_toupper needle) (map mu_toupper s)"

fun first_occurrence :: "bytes \<Rightarrow> bytes \<Rightarrow> bytes option" where
  "first_occurrence [] needle = (if needle = [] then Some [] else None)"
| "first_occurrence (c # h) needle = (if case_prefix needle (c # h) then Some (c # h) else first_occurrence h needle)"

lemma case_prefix_simps [simp]:
  "case_prefix [] s" "\<not> case_prefix (b # n) []"
  "case_prefix (b # n) (c # s) \<longleftrightarrow> mu_toupper b = mu_toupper c \<and> case_prefix n s"
  by (auto simp: case_prefix_def)

lemma casestr_rest_prefix [simp]: "casestr_rest h n = case_prefix n h"
  by (induction h n rule: casestr_rest.induct) auto

lemma casestr_first:
  "casestr_for (mu_toupper b) (mu_toupper c) n h = first_occurrence (tl h) (b # c # n)"
  "h \<noteq> [] \<Longrightarrow> mu_toupper (hd h) = mu_toupper b \<Longrightarrow>
     casestr_jin (mu_toupper b) (mu_toupper c) n h = first_occurrence h (b # c # n)"
  "h \<noteq> [] \<Longrightarrow> casestr_shloop (mu_toupper b) (mu_toupper c) n h = first_occurrence h (b # c # n)"
proof (induction "mu_toupper b" "mu_toupper c" n h and "mu_toupper b" "mu_toupper c" n h and "mu_toupper b" "mu_toupper c" n h
    rule: casestr_for_casestr_jin_casestr_shloop.induct)
  case (1 n h)
  show ?case
    by (subst casestr_for.simps) (use 1 in \<open>auto split: list.splits\<close>)
next
  case (2 n h)
  from 2(3) obtain x t where "h = x # t" by (cases h) auto
  with 2 show ?case
    by (subst casestr_jin.simps) (auto split: list.splits)
next
  case (3 n h)
  from 3(3) obtain x t where "h = x # t" by (cases h) auto
  with 3 show ?case
    by (subst casestr_shloop.simps) auto
qed

lemma first_occurrence_dropWhile:
  "first_occurrence h (b # n) = first_occurrence (dropWhile (\<lambda>c. mu_toupper c \<noteq> mu_toupper b) h) (b # n)"
  by (induction h) auto

lemma mu_c_strcasestr_first: "mu_c_strcasestr haystack needle = first_occurrence haystack needle"
proof (cases needle)
  case Nil then show ?thesis by (cases haystack) (simp_all add: mu_c_strcasestr_def)
next
  case (Cons b n)
  show ?thesis
  proof (cases "dropWhile (\<lambda>c. mu_toupper c \<noteq> mu_toupper b) haystack")
    case Nil
    then have "first_occurrence haystack (b # n) = None" by (subst first_occurrence_dropWhile) (simp only:, simp)
    with Nil Cons show ?thesis by (simp only: mu_c_strcasestr_def list.case)
  next
    case c: (Cons c h)
    then have "mu_toupper c = mu_toupper b" by (simp add: dropWhile_eq_Cons_conv)
    then show ?thesis
      using first_occurrence_dropWhile[of haystack b n] Cons c casestr_first(2)[of "c # h" b]
      by (cases n) (simp_all add: mu_c_strcasestr_def)
  qed
qed

text \<open>What the first occurrence is.\<close>

lemma first_occurrence_Some:
  "first_occurrence h n = Some s \<longleftrightarrow>
   (\<exists>pre. h = pre @ s \<and> case_prefix n s \<and> (\<forall>t. suffix t h \<and> case_prefix n t \<longrightarrow> length t \<le> length s))"
proof (induction h)
  case Nil then show ?case by (cases n) auto
next
  case (Cons c h)
  show ?case
  proof (cases "case_prefix n (c # h)")
    case True
    then show ?thesis by (auto simp: suffix_Cons dest: suffix_length_le)
  next
    case False
    with Cons show ?thesis by (auto simp: suffix_Cons Cons_eq_append_conv)
  qed
qed

end
