(* ===== verification/Str_Util.thy ===== *)
theory Str_Util
  imports C_String
begin

text \<open>
  Small functions on C strings (\<open>libmailutils/string\<close>): trimming and skipping
  (\<open>strltrim.c\<close>, \<open>strrtrim.c\<close>, \<open>strskip.c\<close>, \<open>stripws.c\<close>), case conversion, prefixes and suffixes,
  counts, answers, unfolding of header values (\<open>unfold.c\<close>), hexadecimal numbers and URL decoding
  (\<open>hexstr.c\<close>, \<open>xdecode.c\<close>), and bounded copies. A string is the list of its characters before the
  NUL, a pointer into a string the suffix it points to.
\<close>

section \<open>Trimming and skipping\<close>

definition mu_str_skip_class :: "bytes \<Rightarrow> ctype_class \<Rightarrow> bytes" where
  "mu_str_skip_class str cls = dropWhile (\<lambda>c. mu_c_is_class c cls) str"

definition mu_str_skip_class_comp :: "bytes \<Rightarrow> ctype_class \<Rightarrow> bytes" where
  "mu_str_skip_class_comp str cls = dropWhile (\<lambda>c. \<not> mu_c_is_class c cls) str"

definition mu_str_skip_cset :: "bytes \<Rightarrow> bytes \<Rightarrow> bytes" where
  "mu_str_skip_cset str cset = dropWhile (\<lambda>c. strchr cset c \<noteq> None) str"

definition mu_str_skip_cset_comp :: "bytes \<Rightarrow> bytes \<Rightarrow> bytes" where
  "mu_str_skip_cset_comp str cset = dropWhile (\<lambda>c. strchr cset c = None) str"

text \<open>The trimmed string and its length. The loops count; \<open>memmove\<close> and the new NUL do the rest.\<close>

fun ltrim_count :: "(byte \<Rightarrow> bool) \<Rightarrow> bytes \<Rightarrow> nat" where
  "ltrim_count P [] = 0"
| "ltrim_count P (c # str) = (if P c then Suc (ltrim_count P str) else 0)"

definition ltrim_with :: "(byte \<Rightarrow> bool) \<Rightarrow> bytes \<Rightarrow> bytes \<times> nat" where
  "ltrim_with P str =
     (if str = [] then (str, 0)
      else let i = ltrim_count P str in (drop i str, length str - i))"

definition mu_ltrim_class :: "bytes \<Rightarrow> ctype_class \<Rightarrow> bytes \<times> nat" where
  "mu_ltrim_class str cls = ltrim_with (\<lambda>c. mu_c_is_class c cls) str"

definition mu_ltrim_cset :: "bytes \<Rightarrow> bytes \<Rightarrow> bytes \<times> nat" where
  "mu_ltrim_cset str cset = ltrim_with (\<lambda>c. strchr cset c \<noteq> None) str"

fun rtrim_length :: "(byte \<Rightarrow> bool) \<Rightarrow> bytes \<Rightarrow> nat \<Rightarrow> nat" where
  "rtrim_length P str 0 = 0"
| "rtrim_length P str (Suc n) = (if P (str ! n) then rtrim_length P str n else Suc n)"

definition rtrim_with :: "(byte \<Rightarrow> bool) \<Rightarrow> bytes \<Rightarrow> bytes \<times> nat" where
  "rtrim_with P str =
     (if str = [] then (str, 0)
      else let len = rtrim_length P str (length str) in (take len str, len))"

definition mu_rtrim_class :: "bytes \<Rightarrow> ctype_class \<Rightarrow> bytes \<times> nat" where
  "mu_rtrim_class str cls = rtrim_with (\<lambda>c. mu_c_is_class c cls) str"

definition mu_rtrim_cset :: "bytes \<Rightarrow> bytes \<Rightarrow> bytes \<times> nat" where
  "mu_rtrim_cset str cset = rtrim_with (\<lambda>c. strchr cset c \<noteq> None) str"

definition mu_str_stripws :: "bytes \<Rightarrow> bytes" where
  "mu_str_stripws str = mu_str_skip_class (fst (mu_rtrim_class str MU_CTYPE_SPACE)) MU_CTYPE_SPACE"

lemma ltrim_count_takeWhile: "ltrim_count P s = length (takeWhile P s)"
  by (induction s) auto

lemma ltrim_with_dropWhile: "ltrim_with P s = (dropWhile P s, length (dropWhile P s))"
proof -
  have "length s - length (takeWhile P s) = length (dropWhile P s)"
    by (metis add_diff_cancel_left' length_append takeWhile_dropWhile_id)
  then show ?thesis by (simp add: ltrim_with_def ltrim_count_takeWhile dropWhile_eq_drop[symmetric] Let_def)
qed

lemma rtrim_length_take:
  "n \<le> length s \<Longrightarrow> take (rtrim_length P s n) s = rev (dropWhile P (rev (take n s))) \<and> rtrim_length P s n \<le> n"
  by (induction n) (auto simp: take_Suc_conv_app_nth)

lemma rtrim_with_dropWhile:
  "rtrim_with P s = (rev (dropWhile P (rev s)), length (dropWhile P (rev s)))"
proof -
  let ?n = "rtrim_length P s (length s)"
  have n: "take ?n s = rev (dropWhile P (rev s))" "?n \<le> length s" using rtrim_length_take[of "length s" s P] by auto
  then have "?n = length (dropWhile P (rev s))" by (metis length_rev length_take min.absorb2)
  with n show ?thesis by (auto simp: rtrim_with_def Let_def)
qed

text \<open>What is left has no space at either end, what is dropped is nothing but space.\<close>

lemma dropWhile_ends: "dropWhile P s \<noteq> [] \<Longrightarrow> \<not> P (hd (dropWhile P s))"
  by (rule hd_dropWhile)

lemma mu_str_stripws_ends:
  assumes "mu_str_stripws s \<noteq> []"
  shows "\<not> mu_isspace (hd (mu_str_stripws s))" "\<not> mu_isspace (last (mu_str_stripws s))"
proof -
  let ?r = "rev (dropWhile mu_isspace (rev s))"
  have m: "mu_str_stripws s = dropWhile mu_isspace ?r"
    by (simp add: mu_str_stripws_def mu_str_skip_class_def mu_rtrim_class_def rtrim_with_dropWhile mu_isspace_def[abs_def])
  with assms show "\<not> mu_isspace (hd (mu_str_stripws s))" by (metis hd_dropWhile)
  from m assms have "?r \<noteq> []" by (metis dropWhile.simps(1))
  then have "\<not> mu_isspace (last ?r)" by (simp add: last_rev hd_dropWhile)
  moreover have "last (dropWhile mu_isspace ?r) = last ?r"
    using assms m by (metis last_appendR takeWhile_dropWhile_id)
  ultimately show "\<not> mu_isspace (last (mu_str_stripws s))" using m by simp
qed

lemma mu_str_stripws_between:
  obtains a b where "s = a @ mu_str_stripws s @ b" "\<forall>c\<in>set a. mu_isspace c" "\<forall>c\<in>set b. mu_isspace c"
proof -
  let ?r = "rev (dropWhile mu_isspace (rev s))" and ?b = "rev (takeWhile mu_isspace (rev s))"
  have m: "mu_str_stripws s = dropWhile mu_isspace ?r"
    by (simp add: mu_str_stripws_def mu_str_skip_class_def mu_rtrim_class_def rtrim_with_dropWhile mu_isspace_def[abs_def])
  have "s = ?r @ ?b" by (metis rev_append rev_rev_ident takeWhile_dropWhile_id)
  moreover have "?r = takeWhile mu_isspace ?r @ mu_str_stripws s" by (simp add: m)
  ultimately have "s = takeWhile mu_isspace ?r @ mu_str_stripws s @ ?b" by (metis append_assoc)
  then show thesis by (rule that) (auto dest: set_takeWhileD)
qed

section \<open>Case, prefixes and suffixes, copies\<close>

text \<open>The strings after the call; the result is always 0.\<close>

definition mu_strlower :: "bytes option \<Rightarrow> bytes option" where
  "mu_strlower s = map_option (map mu_tolower) s"

definition mu_strupper :: "bytes option \<Rightarrow> bytes option" where
  "mu_strupper s = map_option (map mu_toupper) s"

definition mu_string_prefix :: "bytes \<Rightarrow> bytes \<Rightarrow> bool" where
  "mu_string_prefix str pfx \<longleftrightarrow>
     (let len = length pfx in if length str < len then False else take len str = pfx)"

definition mu_string_suffix :: "bytes \<Rightarrow> bytes \<Rightarrow> bool" where
  "mu_string_suffix str sfx \<longleftrightarrow>
     (let sfxlen = length sfx; len = length str
      in if len < sfxlen then False else drop (len - sfxlen) str = sfx)"

lemma mu_string_prefix_iff: "mu_string_prefix str pfx \<longleftrightarrow> prefix pfx str"
  by (auto simp: mu_string_prefix_def Let_def prefix_def intro: append_take_drop_id[symmetric]
    dest: sym[of "take _ _"]) (metis append_take_drop_id)

lemma mu_string_suffix_iff: "mu_string_suffix str sfx \<longleftrightarrow> suffix sfx str"
  by (auto simp: mu_string_suffix_def Let_def suffix_def) (metis append_take_drop_id)

text \<open>The copy, with the number of characters copied; with no destination the length of the source.\<close>

definition mu_cpystr :: "bool \<Rightarrow> bytes option \<Rightarrow> nat \<Rightarrow> bytes option \<times> nat" where
  "mu_cpystr dst src n =
     (let s = (case src of None \<Rightarrow> [] | Some s \<Rightarrow> s);
          len = length s
      in if \<not> dst \<or> n = 0 then (None, len)
         else let len = (if len \<ge> n then n - 1 else len) in (Some (take len s), len))"

lemma mu_cpystr_fits: "mu_cpystr dst src n = (Some d, k) \<Longrightarrow> length d < n \<and> k = length d"
  by (auto simp: mu_cpystr_def Let_def split: if_splits option.splits)

section \<open>Counts and answers\<close>

definition mu_mem_c_count :: "bytes \<Rightarrow> byte \<Rightarrow> nat" where
  "mu_mem_c_count mem c = length (filter (\<lambda>b. b = c) mem)"

definition mu_mem_8bit_count :: "bytes \<Rightarrow> nat" where
  "mu_mem_8bit_count mem = length (filter (\<lambda>b. b AND 0xf0 \<noteq> 0) mem)"

text \<open>The answers of the C locale: \<open>Some True\<close> is 1, \<open>Some False\<close> is 0, \<open>None\<close> is -1.\<close>

definition mu_true_answer_p :: "bytes option \<Rightarrow> bool option" where
  "mu_true_answer_p p =
     (case p of
        None \<Rightarrow> None
      | Some p \<Rightarrow>
          case dropWhile mu_isspace p of
            [] \<Rightarrow> None
          | c # _ \<Rightarrow>
              if strchr (bytes_of ''yY'') c \<noteq> None then Some True
              else if strchr (bytes_of ''nN'') c \<noteq> None then Some False
              else None)"

section \<open>Unfolding\<close>

datatype uf_state = uf_init | uf_nl | uf_fold

definition uf_space :: "byte \<Rightarrow> bool" where
  "uf_space c \<longleftrightarrow> c = CR \<or> c = SPC \<or> c = TAB"

fun unfold_loop :: "uf_state \<Rightarrow> bytes \<Rightarrow> bytes" where
  "unfold_loop state [] = []"
| "unfold_loop uf_init (q # text) = (if q = LF then unfold_loop uf_nl text else q # unfold_loop uf_init text)"
| "unfold_loop uf_nl (q # text) = (if uf_space q then unfold_loop uf_fold text else q # unfold_loop uf_init text)"
| "unfold_loop uf_fold (q # text) = (if \<not> uf_space q then SPC # q # unfold_loop uf_init text else unfold_loop uf_fold text)"

text \<open>The text in place, and the number put into \<open>plen\<close>.\<close>

definition mu_string_unfold :: "bytes option \<Rightarrow> mu_error + bytes \<times> nat" where
  "mu_string_unfold text =
     (case text of None \<Rightarrow> Inl EINVAL | Some t \<Rightarrow> Inr (unfold_loop uf_init t, length (unfold_loop uf_init t) + 1))"

text \<open>The output never overtakes the input: what is pending when a state is entered has been read.\<close>

lemma length_unfold_loop:
  "length (unfold_loop st s) \<le> length s + (if st = uf_fold then 1 else 0)"
  by (induction st s rule: unfold_loop.induct) auto

lemma unfold_loop_plain: "LF \<notin> set a \<Longrightarrow> unfold_loop uf_init (a @ s) = a @ unfold_loop uf_init s"
  by (induction a) auto

lemma unfold_loop_spaces: "\<forall>c\<in>set w. uf_space c \<Longrightarrow> unfold_loop uf_fold (w @ s) = unfold_loop uf_fold s"
  by (induction w) auto

lemma unfold_fold:
  assumes "LF \<notin> set a" "w \<noteq> []" "\<forall>c\<in>set w. uf_space c" "\<not> uf_space c" "c \<noteq> LF"
  shows "unfold_loop uf_init (a @ LF # w @ c # s) = a @ SPC # unfold_loop uf_init (c # s)"
proof -
  from assms(2) obtain b v where "w = b # v" by (cases w) auto
  with assms show ?thesis by (simp add: unfold_loop_plain unfold_loop_spaces)
qed

text \<open>A line that is not continued loses its newline.\<close>

lemma unfold_joins:
  "LF \<notin> set a \<Longrightarrow> \<not> uf_space c \<Longrightarrow> unfold_loop uf_init (a @ LF # c # s) = a @ c # unfold_loop uf_init s"
  by (simp add: unfold_loop_plain)

section \<open>Hexadecimal numbers and URL decoding\<close>

definition mu_hex2ul :: "byte \<Rightarrow> 64 word" where
  "mu_hex2ul hex =
     (if 48 \<le> hex \<and> hex \<le> 57 then ucast hex - 48
      else if 97 \<le> hex \<and> hex \<le> 122 then ucast hex - 97 + 10
      else if 65 \<le> hex \<and> hex \<le> 90 then ucast hex - 65 + 10
      else -1)"

text \<open>The number and how many digits it has. At the end of the string the NUL is read.\<close>

fun mu_hexstr2ul :: "64 word \<Rightarrow> bytes \<Rightarrow> nat \<Rightarrow> 64 word \<times> nat" where
  "mu_hexstr2ul ul hex 0 = (ul, 0)"
| "mu_hexstr2ul ul [] (Suc len) = (ul, 0)"
| "mu_hexstr2ul ul (h # hex) (Suc len) =
     (let v = mu_hex2ul h
      in if v = -1 then (ul, 0) else map_prod id Suc (mu_hexstr2ul (ul * 16 + v) hex len))"

text \<open>After \<open>s += 2\<close> the pointer may be past the NUL.\<close>

definition prepend_result :: "bytes \<Rightarrow> mu_error + bytes \<Rightarrow> mu_error + bytes" where
  "prepend_result d r = (case r of Inl e \<Rightarrow> Inl e | Inr d' \<Rightarrow> Inr (d @ d'))"

fun url_decode_loop :: "bytes \<Rightarrow> mu_error + bytes" where
  "url_decode_loop [] = Inr []"
| "url_decode_loop (c # s) =
     (if c \<noteq> PERCENT then prepend_result [c] (url_decode_loop s)
      else case s of
        a # b # s' \<Rightarrow> prepend_result [ucast (fst (mu_hexstr2ul 0 s 2))] (url_decode_loop s')
      | _ \<Rightarrow> Inl OUT_OF_BOUNDS)"

definition mu_str_url_decode :: "bytes \<Rightarrow> mu_error + bytes" where
  "mu_str_url_decode s =
     prepend_result (takeWhile (\<lambda>c. c \<noteq> PERCENT) s) (url_decode_loop (dropWhile (\<lambda>c. c \<noteq> PERCENT) s))"

lemma mu_str_url_decode_loop: "mu_str_url_decode s = url_decode_loop s"
proof -
  have "url_decode_loop s =
    prepend_result (takeWhile (\<lambda>c. c \<noteq> PERCENT) s) (url_decode_loop (dropWhile (\<lambda>c. c \<noteq> PERCENT) s))"
  proof (induction s)
    case (Cons c s)
    then show ?case by (cases "c = PERCENT") (auto simp: prepend_result_def split: sum.splits)
  qed (simp add: prepend_result_def)
  then show ?thesis by (simp add: mu_str_url_decode_def)
qed

text \<open>Every byte may be written as a percent sign and two digits, in either case.\<close>

definition hex_digit :: "bool \<Rightarrow> nat \<Rightarrow> byte" where
  "hex_digit upper n = of_nat (if n < 10 then 48 + n else (if upper then 55 else 87) + n)"

definition url_quote :: "(byte \<Rightarrow> bool) \<Rightarrow> bool \<Rightarrow> byte \<Rightarrow> bytes" where
  "url_quote keep upper c =
     (if keep c then [c] else [PERCENT, hex_digit upper (unat c div 16), hex_digit upper (unat c mod 16)])"

lemma mu_hex2ul_digit: "k < 16 \<Longrightarrow> mu_hex2ul (hex_digit upper k) = of_nat k \<and> (of_nat k :: 64 word) \<noteq> - 1"
proof -
  have "list_all (\<lambda>k. mu_hex2ul (hex_digit True k) = of_nat k \<and> mu_hex2ul (hex_digit False k) = of_nat k \<and>
    (of_nat k :: 64 word) \<noteq> - 1) [0..<16]" by code_simp
  then show "k < 16 \<Longrightarrow> ?thesis" by (cases upper) (simp_all add: list_all_iff)
qed

lemma hexstr_digits: "ucast (fst (mu_hexstr2ul 0 (hex_digit u (unat c div 16) # hex_digit u (unat c mod 16) # s) 2)) = (c :: byte)"
proof -
  have "unat c < 256" using unsigned_less[of c, where 'a = nat] by simp
  then have "mu_hex2ul (hex_digit u (unat c div 16)) = of_nat (unat c div 16) \<and> of_nat (unat c div 16) \<noteq> (- 1 :: 64 word)"
    by (intro mu_hex2ul_digit) simp
  moreover have "mu_hex2ul (hex_digit u (unat c mod 16)) = of_nat (unat c mod 16) \<and> of_nat (unat c mod 16) \<noteq> (- 1 :: 64 word)"
    by (intro mu_hex2ul_digit) simp
  ultimately have "fst (mu_hexstr2ul 0 (hex_digit u (unat c div 16) # hex_digit u (unat c mod 16) # s) 2) =
      of_nat (unat c div 16) * 16 + of_nat (unat c mod 16)"
    by (simp add: numeral_2_eq_2 Let_def)
  also have "\<dots> = (of_nat (unat c div 16 * 16 + unat c mod 16) :: 64 word)"
    by (simp only: of_nat_add of_nat_mult of_nat_numeral)
  also have "\<dots> = ucast c" by (simp only: div_mult_mod_eq of_nat_unat)
  finally have "fst (mu_hexstr2ul 0 (hex_digit u (unat c div 16) # hex_digit u (unat c mod 16) # s) 2) = ucast c" .
  moreover have "ucast (ucast c :: 64 word) = c" by (rule bit_word_eqI) (simp add: bit_ucast_iff)
  ultimately show ?thesis by simp
qed

lemma url_decode_quote:
  assumes "\<not> keep PERCENT"
  shows "mu_str_url_decode (concat (map (url_quote keep upper) s)) = Inr s"
  unfolding mu_str_url_decode_loop
proof (induction s)
  case (Cons c s)
  with assms show ?case
    by (auto simp: url_quote_def hexstr_digits prepend_result_def simp del: mu_hexstr2ul.simps)
qed simp

text \<open>A percent sign among the last two characters takes the decoder past the end.\<close>

lemma url_decode_short:
  "PERCENT \<notin> set s \<Longrightarrow> length t < 2 \<Longrightarrow> mu_str_url_decode (s @ PERCENT # t) = Inl OUT_OF_BOUNDS"
  unfolding mu_str_url_decode_loop
  by (induction s) (auto simp: prepend_result_def split: list.split)

end
