(* ===== verification/Str_Size.thy ===== *)
theory Str_Size
  imports Str_Util
begin

text \<open>
  Sizes with a suffix (\<open>libmailutils/string/strtosize.c\<close>). A \<open>size_t\<close> is a word of 64 bits. The
  division by zero is the result \<open>None\<close>: the process is killed.
\<close>

section \<open>Parsing a size\<close>

definition SIZE_MAX :: "64 word" where
  "SIZE_MAX = - 1"

text \<open>The digits: the value and the rest, or the place of the digit at which overflow was noticed.\<close>

fun size_digits :: "64 word \<Rightarrow> bytes \<Rightarrow> bytes + 64 word \<times> bytes" where
  "size_digits n [] = Inr (n, [])"
| "size_digits n (c # s) =
     (if mu_isdigit c then
        let x = n * 10 + ucast c - 48
        in if x < n then Inl (c # s) else size_digits x s
      else Inr (n, c # s))"

text \<open>One \<open>n <<= 10\<close> with its test; the cases of the switch fall through from \<open>g\<close> to \<open>k\<close>.\<close>

definition size_shift :: "64 word \<Rightarrow> (64 word option) option" where
  "size_shift n =
     (if n = 0 then None
      else if SIZE_MAX div n < 1024 then Some None
      else Some (Some (push_bit 10 n)))"

fun size_shifts :: "nat \<Rightarrow> 64 word \<Rightarrow> (64 word option) option" where
  "size_shifts 0 n = Some (Some n)"
| "size_shifts (Suc k) n =
     (case size_shift n of Some (Some n) \<Rightarrow> size_shifts k n | r \<Rightarrow> r)"

definition size_suffix :: "byte \<Rightarrow> nat option" where
  "size_suffix c =
     (if c = 103 \<or> c = 71 then Some 3
      else if c = 109 \<or> c = 77 then Some 2
      else if c = 107 \<or> c = 75 then Some 1
      else None)"

text \<open>What a call leaves: the result code, the value if it is stored, and the string at \<open>endp\<close>.\<close>

type_synonym size_result = "mu_error option \<times> 64 word option \<times> bytes option"

definition size_end :: "bool \<Rightarrow> mu_error option \<Rightarrow> 64 word \<Rightarrow> bytes \<Rightarrow> size_result" where
  "size_end endp rc n s =
     (let rc = (if \<not> endp \<and> rc = None \<and> mu_str_skip_class s MU_CTYPE_SPACE \<noteq> [] then Some MU_ERR_PARSE else rc)
      in (rc, if rc = None then Some n else None, if endp then Some s else None))"

definition mu_strtosize :: "bytes option \<Rightarrow> bool \<Rightarrow> bool \<Rightarrow> size_result option" where
  "mu_strtosize str endp ret_val =
     (case str of
        None \<Rightarrow> Some (Some EINVAL, None, None)
      | Some str \<Rightarrow>
          if \<not> ret_val then Some (Some MU_ERR_OUT_PTR_NULL, None, None)
          else
            let start = mu_str_skip_class str MU_CTYPE_SPACE
            in case size_digits 0 start of
                 Inl s \<Rightarrow> Some (size_end endp (Some ERANGE) 0 s)
               | Inr (n, s) \<Rightarrow>
                   if s = start then Some (size_end endp (Some MU_ERR_PARSE) n s)
                   else
                     case mu_str_skip_class s MU_CTYPE_SPACE of
                       [] \<Rightarrow> Some (size_end endp None n s)
                     | c # t \<Rightarrow>
                         case size_suffix c of
                           None \<Rightarrow> Some (size_end endp (Some MU_ERR_PARSE) n s)
                         | Some k \<Rightarrow>
                             case size_shifts k n of
                               None \<Rightarrow> None
                             | Some None \<Rightarrow> Some (size_end endp (Some ERANGE) n t)
                             | Some (Some n) \<Rightarrow> Some (size_end endp None n t))"

section \<open>The value\<close>

text \<open>The number a run of digits stands for.\<close>

definition digits_value :: "bytes \<Rightarrow> nat" where
  "digits_value ds = foldl (\<lambda>n c. n * 10 + (unat c - 48)) 0 ds"

lemma digits_value_snoc [simp]:
  "digits_value [] = 0" "digits_value (ds @ [c]) = digits_value ds * 10 + (unat c - 48)"
  by (simp_all add: digits_value_def)

lemma digits_value_mono: "foldl (\<lambda>n c. n * 10 + (unat c - 48)) (m :: nat) ds \<ge> m"
proof (induction ds arbitrary: m)
  case (Cons c ds)
  from Cons[of "m * 10 + (unat c - 48)"] show ?case by simp
qed simp

lemma unat_small: "n < 2 ^ 64 \<Longrightarrow> unat (of_nat n :: 64 word) = n"
  by (simp add: unsigned_of_nat take_bit_nat_eq_self)

lemma digit_step:
  assumes "mu_isdigit c" "m * 10 + (unat c - 48) < 2 ^ 64"
  shows "(of_nat m :: 64 word) * 10 + ucast c - 48 = of_nat (m * 10 + (unat c - 48))"
    and "of_nat m \<le> (of_nat (m * 10 + (unat c - 48)) :: 64 word)"
proof -
  have "48 \<le> unat c" using assms(1) by (simp add: mu_isdigit_iff word_le_nat_alt)
  then have "(of_nat (unat c - 48) :: 64 word) = ucast c - 48"
    by (simp add: of_nat_diff of_nat_unat)
  then show "(of_nat m :: 64 word) * 10 + ucast c - 48 = of_nat (m * 10 + (unat c - 48))" by simp
  show "of_nat m \<le> (of_nat (m * 10 + (unat c - 48)) :: 64 word)"
    unfolding word_le_nat_alt using assms(2) by (subst (1 2) unat_small) auto
qed

lemma size_digits_value:
  assumes "\<forall>c\<in>set ds. mu_isdigit c" "s \<noteq> [] \<longrightarrow> \<not> mu_isdigit (hd s)"
    and "foldl (\<lambda>n c. n * 10 + (unat c - 48)) m ds < 2 ^ 64"
  shows "size_digits (of_nat m) (ds @ s) = Inr (of_nat (foldl (\<lambda>n c. n * 10 + (unat c - 48)) m ds), s)"
  using assms
proof (induction ds arbitrary: m)
  case Nil then show ?case by (cases s) auto
next
  case (Cons c ds)
  let ?x = "m * 10 + (unat c - 48)"
  have fold: "foldl (\<lambda>n c. n * 10 + (unat c - 48)) ?x ds < 2 ^ 64" using Cons.prems(3) by (simp only: foldl_Cons)
  have "?x < 2 ^ 64" by (rule le_less_trans[OF digits_value_mono fold])
  moreover have "mu_isdigit c" using Cons.prems(1) by (simp only: list.set_intros)
  ultimately have "size_digits (of_nat m) (c # ds @ s) = size_digits (of_nat ?x) (ds @ s)"
    using digit_step[of c m] by (simp only: size_digits.simps Let_def if_True not_less[symmetric] if_False)
  moreover have "size_digits (of_nat ?x) (ds @ s) = Inr (of_nat (foldl (\<lambda>n c. n * 10 + (unat c - 48)) ?x ds), s)"
    using Cons.prems(1) by (intro Cons.IH[OF _ Cons.prems(2) fold]) simp
  ultimately show ?case by (simp only: foldl_Cons append_Cons)
qed

lemma size_digits_number:
  assumes "\<forall>c\<in>set ds. mu_isdigit c" "s \<noteq> [] \<longrightarrow> \<not> mu_isdigit (hd s)" "digits_value ds < 2 ^ 64"
  shows "size_digits 0 (ds @ s) = Inr (of_nat (digits_value ds), s)"
proof -
  have "size_digits (of_nat 0) (ds @ s) = Inr (of_nat (digits_value ds), s)"
    using size_digits_value[OF assms(1,2), of 0] assms(3) by (simp only: digits_value_def)
  then show ?thesis by simp
qed

lemma size_shift_value:
  assumes "0 < n" "n * 1024 < 2 ^ 64"
  shows "size_shift (of_nat n) = Some (Some (of_nat (n * 1024)))"
proof -
  have n: "unat (of_nat n :: 64 word) = n" using assms by (intro unat_small) simp
  with assms(1) have "(of_nat n :: 64 word) \<noteq> 0" by (metis neq0_conv unat_0)
  moreover have "\<not> SIZE_MAX div of_nat n < 1024"
  proof -
    have "1024 * n \<le> 2 ^ 64 - 1" using assms(2) by simp
    then have "1024 \<le> (2 ^ 64 - 1) div n" using assms(1) by (simp add: less_eq_div_iff_mult_less_eq)
    then show ?thesis by (simp add: SIZE_MAX_def word_less_nat_alt unat_div n unsigned_minus_1_eq_mask mask_eq_exp_minus_1)
  qed
  ultimately show ?thesis by (simp add: size_shift_def push_bit_eq_mult)
qed

lemma size_shifts_value:
  "0 < n \<Longrightarrow> n * 1024 ^ k < 2 ^ 64 \<Longrightarrow> size_shifts k (of_nat n) = Some (Some (of_nat (n * 1024 ^ k)))"
proof (induction k arbitrary: n)
  case (Suc k)
  have "n * 1024 \<le> n * 1024 * 1024 ^ k" by simp
  then have "n * 1024 < 2 ^ 64" by (rule le_less_trans) (use Suc.prems(2) in \<open>simp add: mult.assoc\<close>)
  with Suc.IH[of "n * 1024"] Suc.prems size_shift_value[of n] show ?case
    by (simp add: mult.assoc del: of_nat_mult)
qed simp

lemma skip_spaces:
  "\<forall>c\<in>set w. mu_isspace c \<Longrightarrow> s \<noteq> [] \<longrightarrow> \<not> mu_isspace (hd s) \<Longrightarrow> mu_str_skip_class (w @ s) MU_CTYPE_SPACE = s"
  by (cases s) (auto simp: mu_str_skip_class_def mu_isspace_def dropWhile_append2)

lemma size_suffix_char: "size_suffix c = Some k \<Longrightarrow> \<not> mu_isdigit c \<and> \<not> mu_isspace c"
  by (auto simp: size_suffix_def mu_isdigit_iff mu_isspace_iff split: if_splits)

lemma space_not_digit: "mu_isspace c \<Longrightarrow> \<not> mu_isdigit c"
  by (auto simp: mu_isdigit_iff mu_isspace_iff word_le_nat_alt)

text \<open>A number in range, with spaces around it and a suffix or none, as the source describes it.\<close>

definition size_text :: "bytes \<Rightarrow> bytes \<Rightarrow> nat \<Rightarrow> bytes \<Rightarrow> bool" where
  "size_text ds suf k rest \<longleftrightarrow>
     ds \<noteq> [] \<and> (\<forall>c\<in>set ds. mu_isdigit c) \<and> (\<forall>c\<in>set rest. mu_isspace c) \<and>
     (suf = [] \<and> k = 0 \<or> (\<exists>c. suf = [c] \<and> size_suffix c = Some k))"

lemma mu_strtosize_value:
  assumes "size_text ds suf k rest" "\<forall>c\<in>set w. mu_isspace c" "\<forall>c\<in>set v. mu_isspace c"
    and "digits_value ds * 1024 ^ k < 2 ^ 64" "suf = [] \<or> 0 < digits_value ds"
  shows "mu_strtosize (Some (w @ ds @ v @ suf @ rest)) False True =
    Some (None, Some (of_nat (digits_value ds * 1024 ^ k)), None)"
proof -
  let ?t = "v @ suf @ rest"
  from assms(1) have ds: "ds \<noteq> []" "\<forall>c\<in>set ds. mu_isdigit c" and rest: "\<forall>c\<in>set rest. mu_isspace c"
    by (simp_all add: size_text_def)
  have start: "mu_str_skip_class (w @ ds @ ?t) MU_CTYPE_SPACE = ds @ ?t"
    using ds by (intro skip_spaces assms(2)) (cases ds, auto dest: space_not_digit)
  have "?t \<noteq> [] \<longrightarrow> \<not> mu_isdigit (hd ?t)"
  proof (cases v)
    case Nil
    with assms(1) space_not_digit size_suffix_char show ?thesis
      by (cases rest) (auto simp: size_text_def)
  qed (use assms(3) space_not_digit in simp)
  moreover have "digits_value ds \<le> digits_value ds * 1024 ^ k" by simp
  then have "digits_value ds < 2 ^ 64" using assms(4) by (rule le_less_trans)
  ultimately have digits: "size_digits 0 (ds @ ?t) = Inr (of_nat (digits_value ds), ?t)"
    by (rule size_digits_number[OF ds(2)])
  have spaces: "mu_str_skip_class r MU_CTYPE_SPACE = []" if "\<forall>c\<in>set r. mu_isspace c" for r
    using skip_spaces[of r "[]"] that by simp
  show ?thesis
  proof (cases suf)
    case Nil
    with assms(1) have "k = 0" by (simp add: size_text_def)
    have "\<forall>c\<in>set ?t. mu_isspace c" using assms(3) rest Nil by auto
    then have "mu_str_skip_class ?t MU_CTYPE_SPACE = []" by (rule spaces)
    moreover have "ds @ ?t \<noteq> ?t" using ds(1) by simp
    ultimately show ?thesis
      by (simp add: mu_strtosize_def start digits Let_def size_end_def \<open>k = 0\<close>)
  next
    case (Cons c s)
    with assms(1) have c: "suf = [c]" "size_suffix c = Some k" by (auto simp: size_text_def)
    with size_suffix_char have "mu_str_skip_class ?t MU_CTYPE_SPACE = c # rest"
      using skip_spaces[OF assms(3), of "c # rest"] by simp
    moreover have "size_shifts k (of_nat (digits_value ds)) = Some (Some (of_nat (digits_value ds * 1024 ^ k)))"
      using assms(4,5) c(1) by (intro size_shifts_value) simp_all
    moreover have "ds @ ?t \<noteq> ?t" using ds(1) by simp
    ultimately show ?thesis
      by (simp add: mu_strtosize_def start digits Let_def size_end_def c(2) spaces[OF rest] del: of_nat_mult)
  qed
qed

section \<open>Where it fails\<close>

text \<open>A zero before a suffix is divided by.\<close>

lemma mu_strtosize_zero:
  assumes "size_text ds [c] k rest" "\<forall>c\<in>set w. mu_isspace c" "\<forall>c\<in>set v. mu_isspace c" "digits_value ds = 0"
  shows "mu_strtosize (Some (w @ ds @ v @ [c] @ rest)) endp True = None"
proof -
  let ?t = "v @ [c] @ rest"
  from assms(1) have ds: "ds \<noteq> []" "\<forall>c\<in>set ds. mu_isdigit c" and k: "size_suffix c = Some k"
    by (simp_all add: size_text_def)
  note c = size_suffix_char[OF k]
  have start: "mu_str_skip_class (w @ ds @ ?t) MU_CTYPE_SPACE = ds @ ?t"
    using ds by (intro skip_spaces assms(2)) (cases ds, auto dest: space_not_digit)
  have "\<not> mu_isdigit (hd ?t)" using assms(3) space_not_digit c by (cases v) auto
  then have digits: "size_digits 0 (ds @ ?t) = Inr (0, ?t)"
    using size_digits_number[OF ds(2), of ?t] assms(4) by simp
  have skip: "mu_str_skip_class ?t MU_CTYPE_SPACE = c # rest"
    using skip_spaces[OF assms(3), of "c # rest"] c by simp
  have "k = 3 \<or> k = 2 \<or> k = 1" using k by (auto simp: size_suffix_def split: if_splits)
  then have "size_shifts k 0 = None" by (cases k) (auto simp: size_shift_def)
  with skip digits start k ds(1) show ?thesis
    unfolding mu_strtosize_def by (simp add: Let_def)
qed

text \<open>The test for overflow misses most overflows: this number is twice the largest size and more.\<close>

lemma mu_strtosize_wraps:
  "mu_strtosize (Some (bytes_of ''30000000000000000000'')) False True = Some (None, Some 11553255926290448384, None)"
  by code_simp

end
