(* ===== verification/File_Name.thy ===== *)
theory File_Name
  imports C_String
begin

text \<open>
  File names (\<open>libmailutils/string/safefilename.c\<close>, \<open>mkfilename.c\<close>): the automaton that refuses
  names which climb out of their directory, and the joining of directory, file and suffix. Names
  are C strings without their final NUL; a null pointer is \<open>None\<close>.
\<close>

section \<open>Safe names\<close>

datatype fn_state = st_init | st_slash | st_dot | st_dotdot

text \<open>The switch of the loop; \<open>None\<close> is \<open>return 0\<close>.\<close>

fun fn_step :: "fn_state \<Rightarrow> byte \<Rightarrow> fn_state option" where
  "fn_step st_init c = Some (if c = SLASH then st_slash else st_init)"
| "fn_step st_slash c = Some (if c = DOT then st_dot else if c \<noteq> SLASH then st_init else st_slash)"
| "fn_step st_dot c = Some (if c = DOT then st_dotdot else if c = SLASH then st_slash else st_init)"
| "fn_step st_dotdot c = (if c = SLASH then None else Some st_init)"

fun fn_loop :: "fn_state \<Rightarrow> nat \<Rightarrow> bytes \<Rightarrow> bool" where
  "fn_loop state consume [] \<longleftrightarrow> state \<noteq> st_dotdot"
| "fn_loop state consume (c # str) \<longleftrightarrow>
     (if consume \<noteq> 0 then fn_loop state (consume - 1) str
      else if c < 0xc0 then (case fn_step state c of None \<Rightarrow> False | Some state \<Rightarrow> fn_loop state 0 str)
      else fn_loop state (utf8_consume c) str)"

definition mu_file_name_is_safe :: "bytes option \<Rightarrow> bool" where
  "mu_file_name_is_safe str \<longleftrightarrow>
     (case str of
        None \<Rightarrow> False
      | Some s \<Rightarrow> fn_loop (if s \<noteq> [] \<and> hd s = DOT then st_dot else st_init) 0 s)"

text \<open>The parts of a name between its slashes.\<close>

fun components :: "bytes \<Rightarrow> bytes list" where
  "components [] = [[]]"
| "components (c # s) =
     (if c = SLASH then [] # components s
      else (c # hd (components s)) # tl (components s))"

lemma components_not_empty [simp]: "components s \<noteq> []"
  by (cases s) auto

lemma components_split: "components (s @ SLASH # t) = components s @ components t"
  by (induction s) auto

text \<open>Each state of the automaton as a condition on what is left of the name.\<close>

lemma fn_loop_components:
  assumes "\<forall>c\<in>set s. c < 0xc0"
  shows "fn_loop st_init 0 s \<longleftrightarrow> [DOT, DOT] \<notin> set (tl (components s))"
    and "fn_loop st_slash 0 s \<longleftrightarrow> [DOT, DOT] \<notin> set (components s)"
    and "fn_loop st_dot 0 s \<longleftrightarrow> hd (components s) \<noteq> [DOT] \<and> [DOT, DOT] \<notin> set (tl (components s))"
    and "fn_loop st_dotdot 0 s \<longleftrightarrow> hd (components s) \<noteq> [] \<and> [DOT, DOT] \<notin> set (tl (components s))"
  using assms
proof (induction s)
  case (Cons c s)
  let ?k = "components s"
  have k: "set ?k = insert (hd ?k) (set (tl ?k))" by (metis components_not_empty list.collapse list.simps(15))
  { case 1 with Cons show ?case by (simp add: k) }
  { case 2 with Cons show ?case by (auto simp: k) }
  { case 3 with Cons show ?case by (auto simp: k) }
  { case 4 with Cons show ?case by (auto simp: k) }
qed simp_all

lemma mu_file_name_is_safe_components:
  assumes "\<forall>c\<in>set s. c < 0xc0"
  shows "mu_file_name_is_safe (Some s) \<longleftrightarrow> hd (components s) \<noteq> [DOT] \<and> [DOT, DOT] \<notin> set (tl (components s))"
proof -
  have "hd (components s) \<noteq> [DOT]" if "\<not> (s \<noteq> [] \<and> hd s = DOT)" using that by (cases s) auto
  with fn_loop_components[OF assms] show ?thesis by (auto simp: mu_file_name_is_safe_def)
qed

text \<open>A byte from \<open>0xc0\<close> on hides the byte after it, a slash as well.\<close>

lemma mu_file_name_is_safe_hidden_slash: "mu_file_name_is_safe (Some [SLASH, 0xc3, SLASH, DOT, DOT, SLASH, c]) = False"
  "mu_file_name_is_safe (Some [97, 0xc3, SLASH, DOT, DOT, SLASH, 98])"
  by (simp_all add: mu_file_name_is_safe_def)

section \<open>Joining names\<close>

definition null_str :: "bytes option \<Rightarrow> bytes" where
  "null_str s = (case s of None \<Rightarrow> [] | Some s \<Rightarrow> s)"

text \<open>\<open>while (dirlen > i && dir[dirlen-1] == DIRSEP) dirlen--;\<close>\<close>

fun strip_dirsep :: "bytes \<Rightarrow> nat \<Rightarrow> nat \<Rightarrow> nat" where
  "strip_dirsep dir i 0 = 0"
| "strip_dirsep dir i (Suc n) = (if Suc n > i \<and> dir ! n = SLASH then strip_dirsep dir i n else Suc n)"

text \<open>\<open>for (i = 0; dir[i+1] == DIRSEP; i++);\<close> for a name that starts with a slash.\<close>

definition dir_slashes :: "bytes \<Rightarrow> nat" where
  "dir_slashes dir = (if dir \<noteq> [] \<and> hd dir = SLASH then length (takeWhile (\<lambda>c. c = SLASH) (tl dir)) else 0)"

text \<open>The name, with the number of bytes allocated for it; \<open>EINVAL\<close> is set in \<open>errno\<close>.\<close>

definition mu_make_file_name_suf :: "bytes option \<Rightarrow> bytes option \<Rightarrow> bytes option \<Rightarrow> mu_error + bytes \<times> nat" where
  "mu_make_file_name_suf dir file suf =
     (let d = null_str dir;
          len = length (null_str suf) + length (null_str file)
      in if d = [] \<and> len = 0 then Inl EINVAL
         else
           let sep = (d \<noteq> [] \<and> (len \<noteq> 0 \<or> hd d = SLASH));
               dirlen = (if d = [] then 0 else strip_dirsep d (dir_slashes d) (length d));
               len = len + dirlen + (if sep then 1 else 0)
           in Inr (take dirlen d @ (if sep then [SLASH] else []) @ null_str file @ null_str suf, len + 1))"

text \<open>The name fills what was allocated for it, its NUL included.\<close>

lemma strip_dirsep_le: "strip_dirsep d i n \<le> n"
  by (induction n) auto

lemma mu_make_file_name_suf_fits:
  assumes "mu_make_file_name_suf dir file suf = Inr (name, room)"
  shows "room = length name + 1"
proof -
  have "min (length d) (strip_dirsep d i (length d)) = strip_dirsep d i (length d)" for d i
    by (simp add: min.absorb2 strip_dirsep_le)
  with assms show ?thesis by (auto simp: mu_make_file_name_suf_def Let_def split: if_splits)
qed

lemma strip_dirsep_slashes: "n \<le> length d \<Longrightarrow> \<forall>c\<in>set d. c = SLASH \<Longrightarrow> strip_dirsep d i n = min i n"
  by (induction n) (auto simp: min_def)

lemma strip_dirsep_name:
  assumes "i < n" "d ! (n - 1) \<noteq> SLASH" "n \<le> m" "\<forall>k. n \<le> k \<and> k < m \<longrightarrow> d ! k = SLASH"
  shows "strip_dirsep d i m = n"
  using assms
proof (induction m)
  case (Suc m)
  show ?case
  proof (cases "n = Suc m")
    case True with Suc show ?thesis by simp
  next
    case False with Suc show ?thesis by simp
  qed
qed simp

lemma mu_make_file_name_suf_root:
  "mu_make_file_name_suf (Some (replicate (Suc n) SLASH)) file suf =
    Inr (replicate (Suc n) SLASH @ null_str file @ null_str suf, n + length (null_str file) + length (null_str suf) + 2)"
proof -
  have "strip_dirsep (SLASH # replicate n SLASH) n (Suc n) = n"
    by (subst strip_dirsep_slashes) (auto simp: min_def)
  moreover have "take n (SLASH # replicate n SLASH) = replicate n SLASH"
    using take_replicate[of n "Suc n" SLASH] by simp
  moreover have "replicate n SLASH @ SLASH # s = SLASH # replicate n SLASH @ s" for s
    using replicate_append_same[of n SLASH] by (metis append_Cons append_assoc append_Nil)
  moreover have "takeWhile (\<lambda>c. c = SLASH) (replicate n SLASH) = replicate n SLASH"
    by (simp add: takeWhile_eq_all_conv)
  ultimately show ?thesis by (simp add: mu_make_file_name_suf_def dir_slashes_def null_str_def Let_def del: strip_dirsep.simps)
qed

lemma takeWhile_stop: "\<not> P c \<Longrightarrow> length (takeWhile P (e @ c # s)) \<le> length e"
  by (induction e) auto

lemma mu_make_file_name_suf_name:
  assumes "c \<noteq> SLASH" "null_str file @ null_str suf \<noteq> []"
  shows "mu_make_file_name_suf (Some (d @ c # replicate n SLASH)) file suf =
    Inr (d @ c # SLASH # null_str file @ null_str suf,
         length d + length (null_str file) + length (null_str suf) + 3)"
proof -
  let ?d = "d @ c # replicate n SLASH"
  have "dir_slashes ?d < Suc (length d)"
  proof (cases d)
    case (Cons b e)
    with takeWhile_stop[of "\<lambda>c. c = SLASH" c e "replicate n SLASH"] assms(1) show ?thesis
      by (auto simp: dir_slashes_def le_imp_less_Suc)
  qed (use assms in \<open>simp add: dir_slashes_def\<close>)
  then have s: "strip_dirsep ?d (dir_slashes ?d) (length ?d) = Suc (length d)"
    using assms(1) by (intro strip_dirsep_name) (auto simp: nth_append nth_Cons')
  have len: "length (null_str suf) + length (null_str file) \<noteq> 0" using assms(2) by auto
  have "null_str (Some ?d) = ?d" "?d \<noteq> []" by (simp_all add: null_str_def)
  moreover have "take (Suc (length d)) ?d = d @ [c]" by simp
  ultimately show ?thesis
    using len by (simp only: mu_make_file_name_suf_def Let_def s) auto
qed

end
