(* ===== verification/Parse822.thy ===== *)
theory Parse822
  imports Ctype "HOL-Library.Sublist"
begin

text \<open>
  The parser of mail addresses (\<open>libmailutils/address/parse822.c\<close>). The cursor \<open>*p\<close> and the end \<open>e\<close>
  of the text are the list of the bytes from \<open>*p\<close> to \<open>e\<close>. A function returns whether its result is
  \<open>EOK\<close>, the cursor (which a function may have moved even when it fails), and the string it appends to:
  \<open>char **to\<close> is the string behind the pointer, or \<open>None\<close> for a null pointer there; where the source
  passes no pointer at all the string is dropped. With allocation succeeding, a failure is always
  \<open>EPARSE\<close>, and the branches for other errors are not reached.
\<close>

type_synonym sink = "bytes option"
type_synonym parsed = "bool \<times> bytes \<times> sink"

abbreviation (input) LPAREN :: byte where "LPAREN \<equiv> 40"
abbreviation (input) RPAREN :: byte where "RPAREN \<equiv> 41"
abbreviation (input) COMMA :: byte where "COMMA \<equiv> 44"
abbreviation (input) COLON :: byte where "COLON \<equiv> 58"
abbreviation (input) SEMI :: byte where "SEMI \<equiv> 59"
abbreviation (input) AT :: byte where "AT \<equiv> 64"
abbreviation (input) LBRACK :: byte where "LBRACK \<equiv> 91"
abbreviation (input) RBRACK :: byte where "RBRACK \<equiv> 93"

named_theorems cursor_le \<open>how far a parser leaves the cursor from the end\<close>

section \<open>Strings and character classes\<close>

definition str_append :: "sink \<Rightarrow> bytes \<Rightarrow> sink" where
  "str_append to s = Some (case to of None \<Rightarrow> s | Some t \<Rightarrow> t @ s)"

text \<open>\<open>str_append\<close> with a pointer that may be null.\<close>

definition str_append_opt :: "sink \<Rightarrow> bytes option \<Rightarrow> sink" where
  "str_append_opt to s = (case s of None \<Rightarrow> to | Some s \<Rightarrow> str_append to s)"

definition is_char :: "byte \<Rightarrow> bool" where "is_char c \<longleftrightarrow> c < 128"
definition is_lwsp_char :: "byte \<Rightarrow> bool" where "is_lwsp_char c = mu_isspace c"
definition is_atom_char :: "byte \<Rightarrow> bool" where "is_atom_char c = mu_isimatm c"
definition is_q_text :: "byte \<Rightarrow> bool" where
  "is_q_text c \<longleftrightarrow> is_char c \<and> c \<noteq> DQUOTE \<and> c \<noteq> BSLASH \<and> c \<noteq> CR"
definition is_d_text :: "byte \<Rightarrow> bool" where
  "is_d_text c \<longleftrightarrow> is_char c \<and> c \<noteq> LBRACK \<and> c \<noteq> RBRACK \<and> c \<noteq> BSLASH \<and> c \<noteq> CR"

section \<open>White space\<close>

definition mu_parse822_skip_nl :: "bytes \<Rightarrow> bool \<times> bytes" where
  "mu_parse822_skip_nl p =
     (if 1 < length p \<and> p ! 0 = CR \<and> p ! 1 = LF then (True, drop 2 p)
      else if 0 < length p \<and> p ! 0 = LF then (True, drop 1 p)
      else (False, p))"

definition mu_parse822_skip_lwsp_char :: "bytes \<Rightarrow> bool \<times> bytes" where
  "mu_parse822_skip_lwsp_char p =
     (if p \<noteq> [] \<and> is_lwsp_char (hd p) then (True, tl p) else (False, p))"

lemma skip_nl_cursor: "mu_parse822_skip_nl p = (ok, q) \<Longrightarrow> length q \<le> length p \<and> (ok \<longrightarrow> length q < length p)"
  by (auto simp: mu_parse822_skip_nl_def split: if_splits)

lemma skip_lwsp_char_cursor:
  "mu_parse822_skip_lwsp_char p = (ok, q) \<Longrightarrow> length q \<le> length p \<and> (ok \<longrightarrow> length q < length p)"
  by (cases p) (auto simp: mu_parse822_skip_lwsp_char_def split: if_splits)

function skip_lwsp_loop :: "bool \<Rightarrow> bytes \<Rightarrow> bool \<times> bytes" where
  "skip_lwsp_loop space p =
     (if p = [] then (space, p)
      else case mu_parse822_skip_lwsp_char p of
        (True, q) \<Rightarrow> skip_lwsp_loop True q
      | (False, _) \<Rightarrow>
          case mu_parse822_skip_nl p of
            (True, q) \<Rightarrow>
              (case mu_parse822_skip_lwsp_char q of
                 (True, r) \<Rightarrow> skip_lwsp_loop space r
               | (False, _) \<Rightarrow> (False, p))
          | (False, _) \<Rightarrow> (space, p))"
  by pat_completeness auto
termination
  by (relation "measure (\<lambda>(space, p). length p)")
    (auto dest!: skip_lwsp_char_cursor skip_nl_cursor simp: eq_commute[of "(_, _)"])

declare skip_lwsp_loop.simps [simp del]

definition mu_parse822_skip_lwsp :: "bytes \<Rightarrow> bool \<times> bytes" where
  "mu_parse822_skip_lwsp p = skip_lwsp_loop False p"

text \<open>A newline is itself a space character, so the lines are never looked at: all white space is skipped.\<close>

lemma skip_lwsp_loop_dropWhile:
  "skip_lwsp_loop space p = (space \<or> p \<noteq> [] \<and> mu_isspace (hd p), dropWhile mu_isspace p)"
proof (induction p arbitrary: space)
  case Nil then show ?case by (simp add: skip_lwsp_loop.simps)
next
  case (Cons c p)
  have "mu_isspace CR" "mu_isspace LF" by (simp_all add: mu_isspace_iff)
  with Cons show ?case
    by (subst skip_lwsp_loop.simps)
      (auto simp: mu_parse822_skip_lwsp_char_def mu_parse822_skip_nl_def is_lwsp_char_def)
qed

lemma skip_lwsp_dropWhile: "snd (mu_parse822_skip_lwsp p) = dropWhile mu_isspace p"
  by (simp add: mu_parse822_skip_lwsp_def skip_lwsp_loop_dropWhile)

definition mu_parse822_special :: "byte \<Rightarrow> bytes \<Rightarrow> bool \<times> bytes" where
  "mu_parse822_special c p =
     (let p = snd (mu_parse822_skip_lwsp p)
      in if p \<noteq> [] \<and> hd p = c then (True, tl p) else (False, p))"

lemma special_Cons [simp]: "\<not> mu_isspace x \<Longrightarrow> mu_parse822_special c (x # p) = (if x = c then (True, p) else (False, x # p))"
  by (simp add: mu_parse822_special_def skip_lwsp_dropWhile Let_def)

lemma special_space [simp]: "mu_isspace x \<Longrightarrow> mu_parse822_special c (x # p) = mu_parse822_special c p"
  by (simp add: mu_parse822_special_def skip_lwsp_dropWhile Let_def)

lemma special_Nil [simp]: "mu_parse822_special c [] = (False, [])"
  by (simp add: mu_parse822_special_def skip_lwsp_dropWhile Let_def)

lemma special_cursor [cursor_le]:
  "mu_parse822_special c p = (ok, q) \<Longrightarrow> suffix q p \<and> (ok \<longrightarrow> length q < length p)"
proof (induction p)
  case (Cons x p)
  then show ?case by (cases "mu_isspace x") (auto split: if_splits intro: suffix_ConsI)
qed simp

section \<open>Comments\<close>

definition mu_parse822_quoted_pair :: "bytes \<Rightarrow> sink \<Rightarrow> parsed" where
  "mu_parse822_quoted_pair p qpair =
     (if length p < 2 then (False, p, qpair)
      else if hd p \<noteq> BSLASH then (False, p, qpair)
      else (True, drop 2 p, str_append qpair [p ! 1]))"

text \<open>The loop of a comment returns to \<open>save\<close> when it fails. The test of the lengths is for the proof of
  termination: \<open>comment_loop_nested\<close> shows that it never fails.\<close>

function mu_parse822_comment :: "bytes \<Rightarrow> sink \<Rightarrow> parsed"
  and comment_loop :: "bytes \<Rightarrow> bytes \<Rightarrow> sink \<Rightarrow> parsed"
where
  "mu_parse822_comment p comment =
     (case mu_parse822_special LPAREN p of
        (False, q) \<Rightarrow> (False, q, comment)
      | (True, q) \<Rightarrow> comment_loop p q comment)"
| "comment_loop save [] comment = (False, save, comment)"
| "comment_loop save (c # p) comment =
     (if c = RPAREN then (True, p, comment)
      else if c = LPAREN then
        (case mu_parse822_comment (c # p) comment of
           (True, q, comment) \<Rightarrow>
             if length q < length (c # p) then comment_loop save q comment else (False, save, comment)
         | (False, q, comment) \<Rightarrow> (False, save, comment))
      else if c = BSLASH then
        (case mu_parse822_quoted_pair (c # p) comment of
           (True, q, comment) \<Rightarrow> comment_loop save q comment
         | (False, q, comment) \<Rightarrow> (False, save, comment))
      else if c = CR then comment_loop save p comment
      else if is_char c then comment_loop save p (str_append comment [c])
      else comment_loop save p comment)"
  by pat_completeness auto
termination
proof (relation "measure (\<lambda>x. case x of Inl (p, c) \<Rightarrow> 2 * length p | Inr (s, p, c) \<Rightarrow> 2 * length p + 1)", goal_cases)
  case (2 p comment x y)
  then show ?case using special_cursor[of LPAREN p True y] by auto
qed (auto simp: mu_parse822_quoted_pair_def split: if_splits)

declare mu_parse822_comment.simps [simp del]

lemma quoted_pair_cursor [cursor_le]:
  "mu_parse822_quoted_pair p out = (ok, q, out') \<Longrightarrow> suffix q p \<and> (ok \<longrightarrow> length q < length p)"
  by (auto simp: mu_parse822_quoted_pair_def suffix_drop split: if_splits)

lemma suffix_less: "suffix q p \<Longrightarrow> length q \<le> length p"
  by (rule suffix_length_le)

lemma comment_cursors:
  "mu_parse822_comment p out = (ok, q, out') \<Longrightarrow> suffix q p \<and> (ok \<longrightarrow> length q < length p)"
  "comment_loop save s out = (ok, q, out') \<Longrightarrow> (if ok then suffix q s \<and> length q < length s else q = save)"
proof (induction p out and save s out arbitrary: ok q out' and ok q out' rule: mu_parse822_comment_comment_loop.induct)
  case (1 p out)
  obtain b r where r: "mu_parse822_special LPAREN p = (b, r)" by (cases "mu_parse822_special LPAREN p") auto
  note cur = special_cursor[OF r]
  show ?case
  proof (cases b)
    case True
    then have b: "b = True" by simp
    with 1(2) r have loop: "comment_loop p r out = (ok, q, out')" by (simp add: mu_parse822_comment.simps[of p])
    from 1(1)[OF r[symmetric] b loop] cur b show ?thesis
      by (cases ok) (auto dest: suffix_order.trans suffix_length_le)
  next
    case False
    with 1(2) r cur show ?thesis by (auto simp: mu_parse822_comment.simps[of p])
  qed
next
  case (3 save c p out)
  note IH = 3(1-6) and res = 3(7)
  consider "c = RPAREN" | "c = LPAREN" | "c = BSLASH" | "c = CR" | "c \<noteq> RPAREN" "c \<noteq> LPAREN" "c \<noteq> BSLASH" "c \<noteq> CR" by blast
  then show ?case
  proof cases
    case 1
    with res show ?thesis by (auto intro: suffix_ConsI)
  next
    case 2
    obtain b r x where r: "mu_parse822_comment (c # p) out = (b, r, x)" by (cases "mu_parse822_comment (c # p) out") auto
    show ?thesis
    proof (cases "b \<and> length r < length (c # p)")
      case True
      with 2 r res have "comment_loop save r x = (ok, q, out')" by simp
      with IH(2)[of True "(r, x)" r x ok q out'] IH(1)[OF _ _ r] 2 r True show ?thesis
        by (auto dest: suffix_order.trans split: if_splits)
    next
      case False
      with 2 r res show ?thesis by (cases b) auto
    qed
  next
    case 3
    obtain b r x where r: "mu_parse822_quoted_pair (c # p) out = (b, r, x)" by (cases "mu_parse822_quoted_pair (c # p) out") auto
    show ?thesis
    proof (cases b)
      case True
      with 3 r res have "comment_loop save r x = (ok, q, out')" by simp
      with IH(3)[of True "(r, x)" r x ok q out'] quoted_pair_cursor[OF r] 3 r True show ?thesis
        by (auto dest: suffix_order.trans split: if_splits)
    next
      case False
      with 3 r res show ?thesis by simp
    qed
  next
    case 4
    with res IH(4)[of ok q out'] show ?thesis by (auto intro: suffix_ConsI split: if_splits)
  next
    case 5
    with res IH(5,6)[of ok q out'] show ?thesis by (auto intro: suffix_ConsI split: if_splits)
  qed
qed simp

lemmas comment_cursor [cursor_le] = comment_cursors(1)

text \<open>A nested comment that is read has moved the cursor.\<close>

lemma comment_loop_nested:
  "comment_loop save (LPAREN # p) comment =
     (case mu_parse822_comment (LPAREN # p) comment of
        (True, q, comment) \<Rightarrow> comment_loop save q comment
      | (False, q, comment) \<Rightarrow> (False, save, comment))"
proof -
  obtain b r x where r: "mu_parse822_comment (LPAREN # p) comment = (b, r, x)"
    by (cases "mu_parse822_comment (LPAREN # p) comment") auto
  with comment_cursor[OF r] show ?thesis by (cases b) simp_all
qed

text \<open>\<open>while ((status = mu_parse822_comment (p, e, 0)) == EOK);\<close>\<close>

function mu_parse822_skip_comments :: "bytes \<Rightarrow> bytes" where
  "mu_parse822_skip_comments p =
     (case mu_parse822_comment p None of
        (True, q, _) \<Rightarrow> mu_parse822_skip_comments q
      | (False, q, _) \<Rightarrow> q)"
  by pat_completeness auto
termination
  by (relation "measure length") (auto dest: comment_cursor[OF sym])

declare mu_parse822_skip_comments.simps [simp del]

lemma skip_comments_cursor: "suffix (mu_parse822_skip_comments p) p"
proof (induction p rule: mu_parse822_skip_comments.induct)
  case (1 p)
  obtain b q x where q: "mu_parse822_comment p None = (b, q, x)" by (cases "mu_parse822_comment p None") auto
  with comment_cursor[OF q] 1[of b "(q, x)" q x] show ?case
    by (subst mu_parse822_skip_comments.simps) (auto dest: suffix_order.trans split: bool.split)
qed

lemma skip_comments_le: "length (mu_parse822_skip_comments p) \<le> length p"
  using skip_comments_cursor by (rule suffix_length_le)

section \<open>Atoms, strings, words, phrases\<close>

text \<open>The digits read, of which there are at least \<open>min\<close> and, unless it is 0, at most \<open>max\<close>; an \<open>int\<close> that
  overflows is left to the caller.\<close>

fun digits_loop :: "nat \<Rightarrow> nat \<Rightarrow> int \<Rightarrow> bytes \<Rightarrow> nat \<times> int \<times> bytes" where
  "digits_loop mx i n [] = (i, n, [])"
| "digits_loop mx i n (c # p) =
     (if mu_isdigit c then
        (if mx \<noteq> 0 \<and> i + 1 = mx then (i + 1, n * 10 + uint c - 48, p)
         else digits_loop mx (i + 1) (n * 10 + uint c - 48) p)
      else (i, n, c # p))"

definition mu_parse822_digits :: "nat \<Rightarrow> nat \<Rightarrow> bytes \<Rightarrow> bool \<times> bytes \<times> int" where
  "mu_parse822_digits mn mx p =
     (case digits_loop mx 0 0 p of (i, n, q) \<Rightarrow> if i < mn then (False, p, n) else (True, q, n))"

definition mu_parse822_atom :: "bytes \<Rightarrow> sink \<Rightarrow> parsed" where
  "mu_parse822_atom p atom =
     (let p = mu_parse822_skip_comments p;
          a = takeWhile (\<lambda>c. c = DOT \<or> is_atom_char c) p
      in if a = [] then (False, p, atom)
         else (True, dropWhile (\<lambda>c. c = DOT \<or> is_atom_char c) p, str_append atom a))"

definition parse822_atom_ex :: "bytes \<Rightarrow> sink \<Rightarrow> parsed" where
  "parse822_atom_ex p atom =
     (let p = mu_parse822_skip_comments p;
          a = takeWhile is_atom_char p
      in if length a = 0 then (False, p, atom)
         else (True, dropWhile is_atom_char p, str_append atom a))"

text \<open>A string that does not end is given back: the cursor returns to \<open>save\<close>, and \<open>*qstr\<close> is freed.\<close>

fun qstring_loop :: "bytes \<Rightarrow> bytes \<Rightarrow> sink \<Rightarrow> parsed" where
  "qstring_loop save [] qstr = (False, save, None)"
| "qstring_loop save (c # p) qstr =
     (if c = DQUOTE then (True, p, qstr)
      else if c = BSLASH then
        (case p of
           [] \<Rightarrow> (False, save, None)
         | d # p \<Rightarrow> qstring_loop save p (str_append qstr [d]))
      else if c = CR then qstring_loop save p qstr
      else qstring_loop save p (str_append qstr [c]))"

definition mu_parse822_quoted_string :: "bytes \<Rightarrow> sink \<Rightarrow> parsed" where
  "mu_parse822_quoted_string p qstr =
     (let p = mu_parse822_skip_comments p
      in case mu_parse822_special DQUOTE p of
           (False, q) \<Rightarrow> (False, q, qstr)
         | (True, q) \<Rightarrow> qstring_loop p q qstr)"

text \<open>After the empty string \<open>""\<close> the pointer is null, and the word is left as it is.\<close>

definition mu_parse822_word :: "bytes \<Rightarrow> sink \<Rightarrow> parsed" where
  "mu_parse822_word p word =
     (let p = mu_parse822_skip_comments p
      in case mu_parse822_quoted_string p None of
           (True, q, qstr) \<Rightarrow> (True, q, str_append_opt word qstr)
         | (False, q, _) \<Rightarrow>
             case parse822_atom_ex q None of
               (True, r, atom) \<Rightarrow> (True, r, str_append_opt word atom)
             | (False, r, _) \<Rightarrow> (False, r, word))"

definition parse822_word_dot :: "bytes \<Rightarrow> sink \<Rightarrow> parsed" where
  "parse822_word_dot p word =
     (case mu_parse822_word p word of
        (True, q, word) \<Rightarrow>
          (let dots = takeWhile (\<lambda>c. c = DOT) q
           in (True, dropWhile (\<lambda>c. c = DOT) q, if dots = [] then word else str_append word dots))
      | r \<Rightarrow> r)"

lemma qstring_loop_cursor:
  "qstring_loop save p out = (ok, q, out') \<Longrightarrow> (if ok then suffix q p \<and> length q < length p else q = save)"
proof (induction save p out rule: qstring_loop.induct)
  case (2 save c p qstr)
  then show ?case
    by (auto intro: suffix_ConsI dest: suffix_ConsD' split: if_splits list.splits)
qed simp

lemma suffix_dropWhile: "suffix (dropWhile P p) p"
  by (metis suffix_def takeWhile_dropWhile_id)

lemma dropWhile_less: "takeWhile P p \<noteq> [] \<Longrightarrow> length (dropWhile P p) < length p"
  by (cases p) (auto simp: le_imp_less_Suc length_dropWhile_le split: if_splits)

lemma skip_dropWhile_less:
  "takeWhile P (mu_parse822_skip_comments p) \<noteq> [] \<Longrightarrow> length (dropWhile P (mu_parse822_skip_comments p)) < length p"
  using dropWhile_less skip_comments_le by (rule less_le_trans)

lemma atom_cursor [cursor_le]:
  "mu_parse822_atom p out = (ok, q, out') \<Longrightarrow> suffix q p \<and> (ok \<longrightarrow> length q < length p)"
  using skip_comments_cursor[of p] suffix_dropWhile
  by (auto simp: mu_parse822_atom_def Let_def split: if_splits intro: suffix_order.trans skip_dropWhile_less)

lemma atom_ex_cursor [cursor_le]:
  "parse822_atom_ex p out = (ok, q, out') \<Longrightarrow> suffix q p \<and> (ok \<longrightarrow> length q < length p)"
  using skip_comments_cursor[of p] suffix_dropWhile
  by (auto simp: parse822_atom_ex_def Let_def split: if_splits intro: suffix_order.trans skip_dropWhile_less)

lemma quoted_string_cursor [cursor_le]:
  assumes "mu_parse822_quoted_string p out = (ok, q, out')"
  shows "suffix q p \<and> (ok \<longrightarrow> length q < length p)"
proof -
  obtain b r where r: "mu_parse822_special DQUOTE (mu_parse822_skip_comments p) = (b, r)"
    by (cases "mu_parse822_special DQUOTE (mu_parse822_skip_comments p)") auto
  with assms qstring_loop_cursor[of "mu_parse822_skip_comments p" r out ok q out'] special_cursor[OF r] skip_comments_cursor[of p]
    skip_comments_le[of p]
  show ?thesis
    by (cases b; cases ok) (auto simp: mu_parse822_quoted_string_def Let_def dest: suffix_length_le intro: suffix_order.trans)
qed

lemma word_cursor [cursor_le]:
  assumes "mu_parse822_word p out = (ok, q, out')"
  shows "suffix q p \<and> (ok \<longrightarrow> length q < length p)"
proof -
  obtain b r x where r: "mu_parse822_quoted_string (mu_parse822_skip_comments p) None = (b, r, x)"
    by (cases "mu_parse822_quoted_string (mu_parse822_skip_comments p) None") auto
  obtain b' r' x' where r': "parse822_atom_ex r None = (b', r', x')" by (cases "parse822_atom_ex r None") auto
  from assms r r' quoted_string_cursor[OF r] atom_ex_cursor[OF r'] skip_comments_cursor[of p] skip_comments_le[of p]
  show ?thesis
    by (cases b; cases b') (auto simp: mu_parse822_word_def Let_def dest: suffix_length_le intro: suffix_order.trans)
qed

lemma word_dot_cursor [cursor_le]:
  assumes "parse822_word_dot p out = (ok, q, out')"
  shows "suffix q p \<and> (ok \<longrightarrow> length q < length p)"
proof -
  obtain b r x where r: "mu_parse822_word p out = (b, r, x)" by (cases "mu_parse822_word p out") auto
  with assms word_cursor[OF r] suffix_dropWhile[of "\<lambda>c. c = DOT" r] show ?thesis
    by (cases b) (auto simp: parse822_word_dot_def Let_def dest: suffix_length_le intro: suffix_order.trans)
qed

text \<open>The words after the first, as many as there are.\<close>

function phrase_loop :: "bytes \<Rightarrow> sink \<Rightarrow> bytes \<times> sink" where
  "phrase_loop p phrase =
     (case parse822_word_dot p None of
        (True, q, word) \<Rightarrow> phrase_loop q (str_append_opt (str_append phrase [SPC]) word)
      | (False, q, _) \<Rightarrow> (q, phrase))"
  by pat_completeness auto
termination
  by (relation "measure (\<lambda>(p, phrase). length p)") (auto dest: word_dot_cursor[OF sym])

declare phrase_loop.simps [simp del]

definition mu_parse822_phrase :: "bytes \<Rightarrow> sink \<Rightarrow> parsed" where
  "mu_parse822_phrase p phrase =
     (case parse822_word_dot p phrase of
        (True, q, phrase) \<Rightarrow> (case phrase_loop q phrase of (r, phrase) \<Rightarrow> (True, r, phrase))
      | r \<Rightarrow> r)"

lemma phrase_loop_cursor: "suffix (fst (phrase_loop p out)) p"
proof (induction p out rule: phrase_loop.induct)
  case (1 p out)
  obtain b q x where q: "parse822_word_dot p None = (b, q, x)" by (cases "parse822_word_dot p None") auto
  with word_dot_cursor[OF q] 1[of b "(q, x)" q x] show ?case
    by (subst phrase_loop.simps) (auto dest: suffix_order.trans split: bool.split)
qed

lemma phrase_cursor [cursor_le]:
  assumes "mu_parse822_phrase p out = (ok, q, out')"
  shows "suffix q p \<and> (ok \<longrightarrow> length q < length p)"
proof -
  obtain b r x where r: "parse822_word_dot p out = (b, r, x)" by (cases "parse822_word_dot p out") auto
  with assms word_dot_cursor[OF r] phrase_loop_cursor[of r x] show ?thesis
    by (cases b) (auto simp: mu_parse822_phrase_def dest: suffix_length_le intro: suffix_order.trans split: prod.splits)
qed

section \<open>Header fields\<close>

text \<open>The test for the colon is the wrong way round: the name is given back when the colon is there.\<close>

definition is_field_char :: "byte \<Rightarrow> bool" where
  "is_field_char c \<longleftrightarrow> is_char c \<and> \<not> mu_isnwctl c \<and> c \<noteq> SPC \<and> c \<noteq> COLON"

definition mu_parse822_field_name :: "bytes \<Rightarrow> parsed" where
  "mu_parse822_field_name p =
     (let fn = takeWhile is_field_char p
      in if fn = [] then (False, p, None)
         else case mu_parse822_special COLON (mu_parse822_skip_comments (dropWhile is_field_char p)) of
                (True, _) \<Rightarrow> (False, p, None)
              | (False, q) \<Rightarrow> (True, q, Some fn))"

lemma field_name_refused:
  assumes "name \<noteq> []" "list_all is_field_char name"
  shows "mu_parse822_field_name (name @ COLON # r) = (False, name @ COLON # r, None)"
proof -
  have "\<not> is_field_char COLON" "\<not> mu_isspace COLON" by (simp_all add: is_field_char_def mu_isspace_iff)
  moreover from this have "mu_parse822_skip_comments (COLON # r) = COLON # r"
    by (simp add: mu_parse822_skip_comments.simps mu_parse822_comment.simps)
  ultimately show ?thesis
    using assms by (simp add: mu_parse822_field_name_def takeWhile_append dropWhile_append list_all_iff)
qed

text \<open>The text up to a CRLF, or to the end.\<close>

fun upto_crlf :: "bytes \<Rightarrow> bytes \<times> bytes" where
  "upto_crlf [] = ([], [])"
| "upto_crlf (c # s) =
     (if c = CR \<and> s \<noteq> [] \<and> hd s = LF then ([], c # s)
      else case upto_crlf s of (l, r) \<Rightarrow> (c # l, r))"

lemma upto_crlf_append: "upto_crlf p = (l, r) \<Longrightarrow> p = l @ r"
  by (induction p arbitrary: l r) (auto split: if_splits prod.splits)

lemma upto_crlf_rest: "upto_crlf p = (l, r) \<Longrightarrow> r \<noteq> [] \<Longrightarrow> 2 \<le> length r"
  by (induction p arbitrary: l r) (auto simp: neq_Nil_conv split: if_splits prod.splits)

function field_body_loop :: "bytes \<Rightarrow> sink \<Rightarrow> bytes \<times> sink" where
  "field_body_loop p fb =
     (case upto_crlf p of
        (l, r) \<Rightarrow>
          let fb = str_append fb l
          in if r = [] then (r, fb)
             else let p = drop 2 r
                  in if p = [] then (p, fb)
                     else if hd p \<noteq> SPC \<and> hd p \<noteq> TAB then (p, fb)
                     else field_body_loop p fb)"
  by pat_completeness auto
termination
  by (relation "measure (\<lambda>(p, fb). length p)") (auto dest!: upto_crlf_append[OF sym])

declare field_body_loop.simps [simp del]

definition mu_parse822_field_body :: "bytes \<Rightarrow> parsed" where
  "mu_parse822_field_body p = (case field_body_loop p None of (q, fb) \<Rightarrow> (True, q, fb))"

end
