(* ===== verification/Parse822_Addr.thy ===== *)
theory Parse822_Addr
  imports Parse822
begin

text \<open>
  The grammar of addresses over the tokens (\<open>parse822.c\<close>): local parts, domains, routes, mailboxes,
  groups and lists of addresses, and the quoting of local parts. The list that \<open>mu_address_t\<close> chains
  by \<open>next\<close> is a list of records.
\<close>

section \<open>Addresses and hints\<close>

record mu_address =
  ma_printable :: "bytes option"
  ma_comments :: "bytes option"
  ma_personal :: "bytes option"
  ma_email :: "bytes option"
  ma_local_part :: "bytes option"
  ma_domain :: "bytes option"
  ma_route :: "bytes option"

text \<open>\<open>calloc\<close>.\<close>

definition new_mb :: mu_address where
  "new_mb = \<lparr>ma_printable = None, ma_comments = None, ma_personal = None, ma_email = None,
     ma_local_part = None, ma_domain = None, ma_route = None\<rparr>"

abbreviation (input) MU_ADDR_HINT_PRINTABLE :: "32 word" where "MU_ADDR_HINT_PRINTABLE \<equiv> 1"
abbreviation (input) MU_ADDR_HINT_COMMENTS :: "32 word" where "MU_ADDR_HINT_COMMENTS \<equiv> 2"
abbreviation (input) MU_ADDR_HINT_PERSONAL :: "32 word" where "MU_ADDR_HINT_PERSONAL \<equiv> 4"
abbreviation (input) MU_ADDR_HINT_EMAIL :: "32 word" where "MU_ADDR_HINT_EMAIL \<equiv> 8"
abbreviation (input) MU_ADDR_HINT_LOCAL :: "32 word" where "MU_ADDR_HINT_LOCAL \<equiv> 16"
abbreviation (input) MU_ADDR_HINT_DOMAIN :: "32 word" where "MU_ADDR_HINT_DOMAIN \<equiv> 32"
abbreviation (input) MU_ADDR_HINT_ROUTE :: "32 word" where "MU_ADDR_HINT_ROUTE \<equiv> 64"

definition addr_field_by_mask :: "mu_address \<Rightarrow> 32 word \<Rightarrow> bytes option" where
  "addr_field_by_mask addr field =
     (if field = MU_ADDR_HINT_PRINTABLE then ma_printable addr
      else if field = MU_ADDR_HINT_COMMENTS then ma_comments addr
      else if field = MU_ADDR_HINT_PERSONAL then ma_personal addr
      else if field = MU_ADDR_HINT_EMAIL then ma_email addr
      else if field = MU_ADDR_HINT_LOCAL then ma_local_part addr
      else if field = MU_ADDR_HINT_DOMAIN then ma_domain addr
      else if field = MU_ADDR_HINT_ROUTE then ma_route addr
      else None)"

text \<open>A hint and its flags. The value given wins over the hint.\<close>

type_synonym hints = "mu_address option \<times> 32 word"

definition get_val :: "hints \<Rightarrow> bytes option \<Rightarrow> 32 word \<Rightarrow> bytes option" where
  "get_val h val field =
     (case (val, fst h) of
        (None, Some hint) \<Rightarrow> if snd h AND field \<noteq> 0 then addr_field_by_mask hint field else None
      | _ \<Rightarrow> val)"

abbreviation no_hints :: hints where "no_hints \<equiv> (None, 0)"

lemma get_val_no_hints [simp]: "get_val no_hints v m = v"
  by (cases v) (simp_all add: get_val_def)

lemma get_val_Some [simp]: "get_val h (Some v) m = Some v"
  by (simp add: get_val_def)

section \<open>Quoting\<close>

definition mu_parse822_quote_string :: "bytes \<Rightarrow> bytes" where
  "mu_parse822_quote_string raw =
     [DQUOTE] @ concat (map (\<lambda>c. if \<not> is_q_text c then [BSLASH, c] else [c]) raw) @ [DQUOTE]"

definition mu_parse822_quote_local_part :: "bytes \<Rightarrow> bytes" where
  "mu_parse822_quote_local_part raw =
     (if list_ex (\<lambda>c. c \<noteq> DOT \<and> \<not> is_atom_char c) raw then mu_parse822_quote_string raw else raw)"

definition fill_mb :: "hints \<Rightarrow> bytes option \<Rightarrow> bytes option \<Rightarrow> bytes option \<Rightarrow> bytes option \<Rightarrow> mu_address" where
  "fill_mb h comments personal local dpart =
     (let dpart = get_val h dpart MU_ADDR_HINT_DOMAIN;
          local = get_val h local MU_ADDR_HINT_LOCAL;
          email = (case local of
                     None \<Rightarrow> None
                   | Some l \<Rightarrow>
                       let email = str_append None (mu_parse822_quote_local_part l)
                       in case dpart of
                            None \<Rightarrow> email
                          | Some d \<Rightarrow> str_append (str_append email [AT]) d)
      in new_mb\<lparr>ma_comments := get_val h comments MU_ADDR_HINT_COMMENTS,
                ma_personal := get_val h personal MU_ADDR_HINT_PERSONAL,
                ma_email := email, ma_local_part := local, ma_domain := dpart\<rparr>)"

section \<open>Domains and local parts\<close>

definition mu_parse822_d_text :: "bytes \<Rightarrow> sink \<Rightarrow> parsed" where
  "mu_parse822_d_text p dtext =
     (let t = takeWhile is_d_text p
      in if t = [] then (False, p, dtext) else (True, dropWhile is_d_text p, str_append dtext t))"

lemma d_text_cursor [cursor_le]:
  "mu_parse822_d_text p out = (ok, q, out') \<Longrightarrow> suffix q p \<and> (ok \<longrightarrow> length q < length p)"
  using suffix_dropWhile dropWhile_less by (auto simp: mu_parse822_d_text_def Let_def split: if_splits)

text \<open>The text of a domain literal: as much as there is.\<close>

function literal_loop :: "bytes \<Rightarrow> sink \<Rightarrow> bytes \<times> sink" where
  "literal_loop p literal =
     (case mu_parse822_d_text p literal of
        (True, q, literal) \<Rightarrow> literal_loop q literal
      | (False, q, literal) \<Rightarrow>
          case mu_parse822_quoted_pair q literal of
            (True, r, literal) \<Rightarrow> literal_loop r literal
          | (False, r, literal) \<Rightarrow> (r, literal))"
  by pat_completeness auto
termination
proof (relation "measure (\<lambda>(p, literal). length p)", goal_cases)
  case (3 p literal x y xa ya xb yb xc yc)
  with d_text_cursor[OF sym, of x xa ya p literal] quoted_pair_cursor[OF sym, of xb xc yc xa ya] show ?case
    by (auto dest: suffix_length_le)
qed (auto dest: d_text_cursor[OF sym])

declare literal_loop.simps [simp del]

definition mu_parse822_domain_literal :: "bytes \<Rightarrow> sink \<Rightarrow> parsed" where
  "mu_parse822_domain_literal p domain_literal =
     (case mu_parse822_special LBRACK p of
        (False, q) \<Rightarrow> (False, q, domain_literal)
      | (True, q) \<Rightarrow>
          case literal_loop q (str_append None [LBRACK]) of
            (r, literal) \<Rightarrow>
              case mu_parse822_special RBRACK r of
                (True, s) \<Rightarrow> (True, s, str_append_opt domain_literal (str_append literal [RBRACK]))
              | (False, _) \<Rightarrow> (False, p, domain_literal))"

text \<open>\<open>mu_parse822_domain_ref\<close> is \<open>mu_parse822_atom\<close>, which takes dots as well.\<close>

definition mu_parse822_domain_ref :: "bytes \<Rightarrow> sink \<Rightarrow> parsed" where
  "mu_parse822_domain_ref p domain_ref = mu_parse822_atom p domain_ref"

definition mu_parse822_sub_domain :: "bytes \<Rightarrow> sink \<Rightarrow> parsed" where
  "mu_parse822_sub_domain p sub_domain =
     (case mu_parse822_domain_ref p sub_domain of
        (False, q, sub_domain) \<Rightarrow> mu_parse822_domain_literal q sub_domain
      | r \<Rightarrow> r)"

lemma literal_loop_cursor: "suffix (fst (literal_loop p out)) p"
proof (induction p out rule: literal_loop.induct)
  case (1 p out)
  obtain b q x where q: "mu_parse822_d_text p out = (b, q, x)" by (cases "mu_parse822_d_text p out") auto
  obtain b' r y where r: "mu_parse822_quoted_pair q x = (b', r, y)" by (cases "mu_parse822_quoted_pair q x") auto
  show ?case
    using d_text_cursor[OF q] quoted_pair_cursor[OF r] 1(1)[of b "(q, x)" q x] 1(2)[of b "(q, x)" q x b' "(r, y)" r y] q r
    by (subst literal_loop.simps) (auto dest: suffix_order.trans split: bool.split)
qed

lemma domain_literal_cursor [cursor_le]:
  assumes "mu_parse822_domain_literal p out = (ok, q, out')"
  shows "suffix q p \<and> (ok \<longrightarrow> length q < length p)"
proof -
  obtain b r where r: "mu_parse822_special LBRACK p = (b, r)" by (cases "mu_parse822_special LBRACK p") auto
  obtain s x where s: "literal_loop r (str_append None [LBRACK]) = (s, x)" by (cases "literal_loop r (str_append None [LBRACK])") auto
  obtain b' t where t: "mu_parse822_special RBRACK s = (b', t)" by (cases "mu_parse822_special RBRACK s") auto
  have "suffix s r" using literal_loop_cursor[of r "str_append None [LBRACK]"] s by simp
  with assms special_cursor[OF r] special_cursor[OF t] r s t show ?thesis
    by (cases b; cases b') (auto simp: mu_parse822_domain_literal_def dest: suffix_length_le intro: suffix_order.trans)
qed

lemma sub_domain_cursor [cursor_le]:
  assumes "mu_parse822_sub_domain p out = (ok, q, out')"
  shows "suffix q p \<and> (ok \<longrightarrow> length q < length p)"
proof -
  obtain b r x where r: "mu_parse822_atom p out = (b, r, x)" by (cases "mu_parse822_atom p out") auto
  with assms atom_cursor[OF r] domain_literal_cursor[of r x ok q out'] show ?thesis
    by (cases b) (auto simp: mu_parse822_sub_domain_def mu_parse822_domain_ref_def dest: suffix_length_le intro: suffix_order.trans)
qed

function mu_parse822_domain :: "bytes \<Rightarrow> sink \<Rightarrow> parsed" where
  "mu_parse822_domain p dpart =
     (case mu_parse822_sub_domain (mu_parse822_skip_comments p) dpart of
        (False, _, dpart) \<Rightarrow> (False, p, dpart)
      | (True, save2, dpart) \<Rightarrow>
          case mu_parse822_special DOT (mu_parse822_skip_comments save2) of
            (False, _) \<Rightarrow> (True, save2, dpart)
          | (True, r) \<Rightarrow>
              case mu_parse822_domain r None of
                (True, s, rest) \<Rightarrow> (True, s, str_append_opt (str_append dpart [DOT]) rest)
              | (False, _, _) \<Rightarrow> (True, save2, dpart))"
  by pat_completeness auto
termination
proof (relation "measure (\<lambda>(p, dpart). length p)", goal_cases)
  case (2 p dpart x y xa ya xb yb)
  with sub_domain_cursor[OF sym, of x xa ya "mu_parse822_skip_comments p" dpart] special_cursor[OF sym, of xb yb DOT "mu_parse822_skip_comments xa"]
    skip_comments_le[of p] skip_comments_le[of xa]
  show ?case by auto
qed simp

function mu_parse822_local_part :: "bytes \<Rightarrow> sink \<Rightarrow> parsed" where
  "mu_parse822_local_part p local_part =
     (case mu_parse822_word (mu_parse822_skip_comments p) local_part of
        (False, _, local_part) \<Rightarrow> (False, p, local_part)
      | (True, q, local_part) \<Rightarrow>
          let save2 = mu_parse822_skip_comments q
          in case mu_parse822_special DOT save2 of
               (False, _) \<Rightarrow> (True, save2, local_part)
             | (True, r) \<Rightarrow>
                 case mu_parse822_local_part r None of
                   (True, s, rest) \<Rightarrow> (True, s, str_append_opt (str_append local_part [DOT]) rest)
                 | (False, _, _) \<Rightarrow> (True, save2, local_part))"
  by pat_completeness auto
termination
proof (relation "measure (\<lambda>(p, local_part). length p)", goal_cases)
  case (2 p local_part x y xa ya z xb yb)
  with word_cursor[OF sym, of x xa ya "mu_parse822_skip_comments p" local_part] special_cursor[OF sym, of xb yb DOT z]
    skip_comments_le[of p] skip_comments_le[of xa]
  show ?case by auto
qed simp

declare mu_parse822_domain.simps [simp del] mu_parse822_local_part.simps [simp del]

lemma domain_cursor [cursor_le]:
  "mu_parse822_domain p out = (ok, q, out') \<Longrightarrow> suffix q p \<and> (ok \<longrightarrow> length q < length p)"
proof (induction p out arbitrary: ok q out' rule: mu_parse822_domain.induct)
  case (1 p out)
  let ?p = "mu_parse822_skip_comments p"
  obtain b r x where r: "mu_parse822_sub_domain ?p out = (b, r, x)" by (cases "mu_parse822_sub_domain ?p out") auto
  let ?r = "mu_parse822_skip_comments r"
  obtain b' s where s: "mu_parse822_special DOT ?r = (b', s)" by (cases "mu_parse822_special DOT ?r") auto
  obtain b'' t y where t: "mu_parse822_domain s None = (b'', t, y)" by (cases "mu_parse822_domain s None") auto
  have le: "suffix ?p p" "suffix ?r r" by (rule skip_comments_cursor)+
  show ?case
    using 1(2) r s t sub_domain_cursor[OF r] special_cursor[OF s] 1(1)[of b "(r, x)" r x b' s b'' t y] le[THEN suffix_length_le] le
    by (subst (asm) mu_parse822_domain.simps)
      (cases b; cases b'; cases b''; auto dest: suffix_length_le intro: suffix_order.trans)
qed

lemma local_part_cursor [cursor_le]:
  "mu_parse822_local_part p out = (ok, q, out') \<Longrightarrow> suffix q p \<and> (ok \<longrightarrow> length q < length p)"
proof (induction p out arbitrary: ok q out' rule: mu_parse822_local_part.induct)
  case (1 p out)
  let ?p = "mu_parse822_skip_comments p"
  obtain b r x where r: "mu_parse822_word ?p out = (b, r, x)" by (cases "mu_parse822_word ?p out") auto
  let ?r = "mu_parse822_skip_comments r"
  obtain b' s where s: "mu_parse822_special DOT ?r = (b', s)" by (cases "mu_parse822_special DOT ?r") auto
  obtain b'' t y where t: "mu_parse822_local_part s None = (b'', t, y)" by (cases "mu_parse822_local_part s None") auto
  have le: "suffix ?p p" "suffix ?r r" by (rule skip_comments_cursor)+
  show ?case
    using 1(2) r s t word_cursor[OF r] special_cursor[OF s] 1(1)[of b "(r, x)" r x ?r b' s b'' t y] le[THEN suffix_length_le] le
    by (subst (asm) mu_parse822_local_part.simps)
      (cases b; cases b'; cases b''; auto simp: Let_def dest: suffix_length_le intro: suffix_order.trans)
qed

section \<open>Addresses\<close>

text \<open>The functions that make an address take the hints and return it when they succeed.\<close>

type_synonym parsed_mb = "bytes \<times> mu_address option"

definition mu_parse822_addr_spec :: "hints \<Rightarrow> bytes \<Rightarrow> parsed_mb" where
  "mu_parse822_addr_spec h p =
     (case mu_parse822_local_part p None of
        (rc, q, local_part) \<Rightarrow>
          let q = mu_parse822_skip_comments q
          in if \<not> rc then (p, None)
             else case mu_parse822_special AT q of
                    (False, _) \<Rightarrow> (p, None)
                  | (True, r) \<Rightarrow>
                      case mu_parse822_domain r None of
                        (False, _, _) \<Rightarrow> (p, None)
                      | (True, s, dpart) \<Rightarrow> (s, Some (fill_mb h None None local_part dpart)))"

definition mu_parse822_unix_mbox :: "hints \<Rightarrow> bytes \<Rightarrow> parsed_mb" where
  "mu_parse822_unix_mbox h p =
     (case mu_parse822_atom (mu_parse822_skip_comments p) None of
        (True, q, mbox) \<Rightarrow> (q, Some (fill_mb h None None mbox None))
      | (False, _, _) \<Rightarrow> (p, None))"

text \<open>What a token leaves after white space and comments.\<close>

lemma special_skip:
  "mu_parse822_special c (mu_parse822_skip_comments p) = (ok, q) \<Longrightarrow> length q \<le> length p \<and> (ok \<longrightarrow> length q < length p)"
  using special_cursor[of c "mu_parse822_skip_comments p" ok q] skip_comments_le[of p] by (auto dest: suffix_length_le)

lemma domain_skip:
  "mu_parse822_domain (mu_parse822_skip_comments p) out = (ok, q, out') \<Longrightarrow> length q \<le> length p"
  using domain_cursor[of "mu_parse822_skip_comments p" out ok q out'] skip_comments_le[of p] by (auto dest: suffix_length_le)

text \<open>The routes: whether they end well, the cursor, and the text collected.\<close>

function route_loop :: "bytes \<Rightarrow> sink \<Rightarrow> parsed" where
  "route_loop p acc =
     (case mu_parse822_special AT (mu_parse822_skip_comments p) of
        (False, q) \<Rightarrow> (False, q, acc)
      | (True, q) \<Rightarrow>
          case mu_parse822_domain (mu_parse822_skip_comments q) (str_append acc [AT]) of
            (False, r, acc) \<Rightarrow> (False, r, acc)
          | (True, r, acc) \<Rightarrow>
              case mu_parse822_special COMMA (mu_parse822_skip_comments r) of
                (False, s) \<Rightarrow> (True, s, acc)
              | (True, s) \<Rightarrow> route_loop s (str_append acc [COMMA, SPC]))"
  by pat_completeness auto
termination
  by (relation "measure (\<lambda>(p, acc). length p)") (auto dest!: special_skip[OF sym] domain_skip[OF sym])

declare route_loop.simps [simp del]

text \<open>When the routes do not end well the cursor returns, and the route stays null.\<close>

definition mu_parse822_route :: "bytes \<Rightarrow> parsed" where
  "mu_parse822_route p =
     (case route_loop p None of
        (rc, q, acc) \<Rightarrow>
          let q = mu_parse822_skip_comments q
          in if \<not> rc then (False, p, None)
             else case mu_parse822_special COLON q of
                    (True, r) \<Rightarrow> (True, r, str_append_opt None acc)
                  | (False, _) \<Rightarrow> (False, p, None))"

text \<open>A local part alone between the angle brackets is accepted when there is a domain in the hints; such
  an address keeps no route.\<close>

definition route_addr_local :: "hints \<Rightarrow> bytes \<Rightarrow> parsed_mb" where
  "route_addr_local h p =
     (if snd h AND MU_ADDR_HINT_DOMAIN = 0 then (p, None)
      else case mu_parse822_local_part p None of
             (False, q, _) \<Rightarrow> (q, None)
           | (True, q, local_part) \<Rightarrow>
               case mu_parse822_special GT_C q of
                 (False, r) \<Rightarrow> (r, None)
               | (True, r) \<Rightarrow> (r, Some (fill_mb h None None local_part None)))"

definition mu_parse822_route_addr :: "hints \<Rightarrow> bytes \<Rightarrow> parsed_mb" where
  "mu_parse822_route_addr h p =
     (case mu_parse822_special LT_C (mu_parse822_skip_comments p) of
        (False, _) \<Rightarrow> (p, None)
      | (True, q) \<Rightarrow>
          case mu_parse822_special GT_C q of
            (True, r) \<Rightarrow> (r, Some (let a = fill_mb h None None None None in a\<lparr>ma_email := str_append (ma_email a) []\<rparr>))
          | (False, q) \<Rightarrow>
              case mu_parse822_route q of
                (_, q, route) \<Rightarrow>
                  case mu_parse822_addr_spec h q of
                    (r, Some a) \<Rightarrow>
                      (case mu_parse822_special GT_C (mu_parse822_skip_comments r) of
                         (True, s) \<Rightarrow> (s, Some (a\<lparr>ma_route := get_val h route MU_ADDR_HINT_ROUTE\<rparr>))
                       | (False, _) \<Rightarrow> (p, None))
                  | (r, None) \<Rightarrow>
                      case route_addr_local h r of
                        (s, Some a) \<Rightarrow> (s, Some a)
                      | (s, None) \<Rightarrow> (p, None))"

text \<open>The comment after an address is appended to the personal part, also when it does not end, and the
  phrase before a route replaces it.\<close>

definition mu_parse822_mail_box :: "hints \<Rightarrow> bytes \<Rightarrow> parsed_mb" where
  "mu_parse822_mail_box h p =
     (case mu_parse822_addr_spec h p of
        (q, Some a) \<Rightarrow>
          (case mu_parse822_comment (snd (mu_parse822_skip_lwsp q)) (ma_personal a) of
             (_, r, personal) \<Rightarrow> (r, Some (a\<lparr>ma_personal := personal\<rparr>)))
      | (q, None) \<Rightarrow>
          case mu_parse822_phrase q None of
            (_, r, phrase) \<Rightarrow>
              case mu_parse822_route_addr h r of
                (s, Some a) \<Rightarrow> (s, Some (a\<lparr>ma_personal := phrase\<rparr>))
              | (s, None) \<Rightarrow> (p, None))"

lemma addr_spec_cursor [cursor_le]:
  assumes "mu_parse822_addr_spec h p = (q, a)"
  shows "suffix q p \<and> (a \<noteq> None \<longrightarrow> length q < length p)"
proof -
  obtain b r x where r: "mu_parse822_local_part p None = (b, r, x)" by (cases "mu_parse822_local_part p None") auto
  let ?r = "mu_parse822_skip_comments r"
  obtain b' s where s: "mu_parse822_special AT ?r = (b', s)" by (cases "mu_parse822_special AT ?r") auto
  obtain b'' t y where t: "mu_parse822_domain s None = (b'', t, y)" by (cases "mu_parse822_domain s None") auto
  show ?thesis
    using assms r s t local_part_cursor[OF r] special_cursor[OF s] domain_cursor[OF t] skip_comments_cursor[of r] skip_comments_le[of r]
    by (cases b; cases b'; cases b'') (auto simp: mu_parse822_addr_spec_def Let_def dest: suffix_length_le intro: suffix_order.trans)
qed

lemma unix_mbox_cursor [cursor_le]:
  assumes "mu_parse822_unix_mbox h p = (q, a)"
  shows "suffix q p \<and> (a \<noteq> None \<longrightarrow> length q < length p)"
proof -
  let ?p = "mu_parse822_skip_comments p"
  obtain b r x where r: "mu_parse822_atom ?p None = (b, r, x)" by (cases "mu_parse822_atom ?p None") auto
  show ?thesis
    using assms r atom_cursor[OF r] skip_comments_cursor[of p] skip_comments_le[of p]
    by (cases b) (auto simp: mu_parse822_unix_mbox_def intro: suffix_order.trans)
qed

lemma route_loop_cursor: "route_loop p acc = (ok, q, acc') \<Longrightarrow> suffix q p"
proof (induction p acc arbitrary: ok q acc' rule: route_loop.induct)
  case (1 p acc)
  let ?p = "mu_parse822_skip_comments p"
  obtain b r where r: "mu_parse822_special AT ?p = (b, r)" by (cases "mu_parse822_special AT ?p") auto
  let ?r = "mu_parse822_skip_comments r"
  obtain b' s x where s: "mu_parse822_domain ?r (str_append acc [AT]) = (b', s, x)"
    by (cases "mu_parse822_domain ?r (str_append acc [AT])") auto
  let ?s = "mu_parse822_skip_comments s"
  obtain b'' t where t: "mu_parse822_special COMMA ?s = (b'', t)" by (cases "mu_parse822_special COMMA ?s") auto
  have suf: "suffix ?p p" "suffix ?r r" "suffix ?s s" by (rule skip_comments_cursor)+
  have "suffix t p" "suffix s p" "suffix r p"
    using suf special_cursor[OF r] special_cursor[OF t] domain_cursor[OF s] by (meson suffix_order.trans)+
  moreover have "q = r \<or> q = s \<or> q = t \<or> suffix q t"
    using 1(2) r s t 1(1)[of b r b' "(s, x)" s x b'' t ok q acc']
    by (subst (asm) route_loop.simps) (simp split: bool.splits)
  ultimately show ?case by (meson suffix_order.trans)
qed

lemma route_cursor [cursor_le]:
  assumes "mu_parse822_route p = (ok, q, out)"
  shows "suffix q p"
proof -
  obtain b r x where r: "route_loop p None = (b, r, x)" by (cases "route_loop p None") auto
  let ?r = "mu_parse822_skip_comments r"
  obtain b' s where s: "mu_parse822_special COLON ?r = (b', s)" by (cases "mu_parse822_special COLON ?r") auto
  show ?thesis
    using assms r s route_loop_cursor[OF r] special_cursor[OF s] skip_comments_cursor[of r]
    by (cases b; cases b') (auto simp: mu_parse822_route_def Let_def intro: suffix_order.trans)
qed

lemma route_addr_local_cursor:
  assumes "route_addr_local h p = (q, a)"
  shows "suffix q p"
proof -
  obtain b r x where r: "mu_parse822_local_part p None = (b, r, x)" by (cases "mu_parse822_local_part p None") auto
  obtain b' s where s: "mu_parse822_special GT_C r = (b', s)" by (cases "mu_parse822_special GT_C r") auto
  show ?thesis
    using assms r s local_part_cursor[OF r] special_cursor[OF s]
    by (cases b; cases b') (auto simp: route_addr_local_def intro: suffix_order.trans split: if_splits)
qed

lemma route_addr_cursor [cursor_le]:
  assumes "mu_parse822_route_addr h p = (q, a)"
  shows "suffix q p \<and> (a \<noteq> None \<longrightarrow> length q < length p)"
proof -
  let ?p = "mu_parse822_skip_comments p"
  obtain b r where r: "mu_parse822_special LT_C ?p = (b, r)" by (cases "mu_parse822_special LT_C ?p") auto
  obtain b' s where s: "mu_parse822_special GT_C r = (b', s)" by (cases "mu_parse822_special GT_C r") auto
  obtain c t x where t: "mu_parse822_route s = (c, t, x)" by (cases "mu_parse822_route s") auto
  obtain u y where u: "mu_parse822_addr_spec h t = (u, y)" by (cases "mu_parse822_addr_spec h t") auto
  let ?u = "mu_parse822_skip_comments u"
  obtain b'' v where v: "mu_parse822_special GT_C ?u = (b'', v)" by (cases "mu_parse822_special GT_C ?u") auto
  obtain w z where w: "route_addr_local h u = (w, z)" by (cases "route_addr_local h u") auto
  have r': "suffix r p" "b \<longrightarrow> length r < length p" using special_skip[OF r] special_cursor[OF r] skip_comments_cursor[of p]
    by (auto intro: suffix_order.trans)
  have s': "suffix s r" using special_cursor[OF s] by simp
  then have u': "suffix u r" using route_cursor[OF t] addr_spec_cursor[OF u] by (meson suffix_order.trans)
  then have v': "suffix v r" using special_cursor[OF v] skip_comments_cursor[of u] by (meson suffix_order.trans)
  have w': "suffix w r" using route_addr_local_cursor[OF w] u' by (meson suffix_order.trans)
  have "q = p \<and> a = None \<or> b \<and> (q = s \<or> q = v \<or> q = w)"
    using assms by (simp add: mu_parse822_route_addr_def r s t u v w split: bool.splits option.splits)
  then have "q = p \<and> a = None \<or> b \<and> suffix q r" using s' v' w' by blast
  then have "suffix q p \<and> (a \<noteq> None \<longrightarrow> b \<and> suffix q r)"
    using r'(1) by (meson suffix_order.order_refl suffix_order.trans)
  with r'(2) show ?thesis by (auto dest: suffix_length_le)
qed

lemma mail_box_cursor [cursor_le]:
  assumes "mu_parse822_mail_box h p = (q, a)"
  shows "suffix q p \<and> (a \<noteq> None \<longrightarrow> length q < length p)"
proof -
  obtain r x where r: "mu_parse822_addr_spec h p = (r, x)" by (cases "mu_parse822_addr_spec h p") auto
  note r' = addr_spec_cursor[OF r]
  show ?thesis
  proof (cases x)
    case None
    obtain b s y where s: "mu_parse822_phrase r None = (b, s, y)" by (cases "mu_parse822_phrase r None") auto
    obtain t z where t: "mu_parse822_route_addr h s = (t, z)" by (cases "mu_parse822_route_addr h s") auto
    have "suffix s p" using r' phrase_cursor[OF s] by (meson suffix_order.trans)
    with assms r s t None route_addr_cursor[OF t] show ?thesis
      by (cases z) (auto simp: mu_parse822_mail_box_def dest: suffix_length_le intro: suffix_order.trans)
  next
    case (Some m)
    obtain b s y where s: "mu_parse822_comment (dropWhile mu_isspace r) (ma_personal m) = (b, s, y)"
      by (cases "mu_parse822_comment (dropWhile mu_isspace r) (ma_personal m)") auto
    have "suffix s r" using comment_cursor[OF s] suffix_dropWhile[of mu_isspace r] by (meson suffix_order.trans)
    with assms r s Some r' show ?thesis
      by (auto simp: mu_parse822_mail_box_def skip_lwsp_dropWhile dest: suffix_length_le intro: suffix_order.trans)
  qed
qed

text \<open>A list of mailboxes, each of which may be missing, up to what is not a comma.\<close>

function group_loop :: "hints \<Rightarrow> bytes \<Rightarrow> mu_address list \<Rightarrow> bytes \<times> mu_address list" where
  "group_loop h p acc =
     (case mu_parse822_mail_box h (mu_parse822_skip_comments p) of
        (q, a) \<Rightarrow>
          let q = (if a \<noteq> None then mu_parse822_skip_comments q else q);
              acc = acc @ (case a of None \<Rightarrow> [] | Some a \<Rightarrow> [a])
          in case mu_parse822_special COMMA q of
               (True, r) \<Rightarrow> group_loop h r acc
             | (False, r) \<Rightarrow> (r, acc))"
  by pat_completeness auto
termination
proof (relation "measure (\<lambda>(h, p, acc). length p)", goal_cases)
  case (2 h p acc x y z za xb yb)
  with mail_box_cursor[OF sym, of x y h "mu_parse822_skip_comments p"] skip_comments_le[of p] skip_comments_le[of x]
    special_cursor[OF sym, of xb yb COMMA z]
  show ?case by (auto dest: suffix_length_le split: if_splits)
qed simp

declare group_loop.simps [simp del]

definition mu_parse822_group :: "hints \<Rightarrow> bytes \<Rightarrow> bytes \<times> mu_address list option" where
  "mu_parse822_group h p =
     (case mu_parse822_phrase p None of
        (False, q, _) \<Rightarrow> (q, None)
      | (True, q, _) \<Rightarrow>
          case mu_parse822_special COLON (mu_parse822_skip_comments q) of
            (False, _) \<Rightarrow> (p, None)
          | (True, r) \<Rightarrow>
              case group_loop h r [] of
                (s, as) \<Rightarrow>
                  case mu_parse822_special SEMI s of
                    (True, t) \<Rightarrow> (t, Some as)
                  | (False, _) \<Rightarrow> (p, None))"

text \<open>An address: the list of those it stands for. The first gets the route of the hints when it has none.\<close>

definition mu_parse822_address :: "hints \<Rightarrow> bytes \<Rightarrow> bytes \<times> mu_address list option" where
  "mu_parse822_address h p =
     (let (q, r) =
        (case mu_parse822_mail_box h p of
           (q, Some a) \<Rightarrow> (q, Some [a])
         | (q, None) \<Rightarrow>
             case mu_parse822_group h q of
               (q, Some as) \<Rightarrow> (q, Some as)
             | (q, None) \<Rightarrow> (case mu_parse822_unix_mbox h q of (q, a) \<Rightarrow> (q, map_option (\<lambda>a. [a]) a)))
      in (q, case r of
               Some (a # as) \<Rightarrow>
                 Some ((if ma_route a = None then a\<lparr>ma_route := get_val h None MU_ADDR_HINT_ROUTE\<rparr> else a) # as)
             | _ \<Rightarrow> r))"

lemma group_loop_cursor: "suffix (fst (group_loop h p acc)) p"
proof (induction h p acc rule: group_loop.induct)
  case (1 h p acc)
  let ?p = "mu_parse822_skip_comments p"
  obtain q a where q: "mu_parse822_mail_box h ?p = (q, a)" by (cases "mu_parse822_mail_box h ?p") auto
  let ?q = "if a \<noteq> None then mu_parse822_skip_comments q else q"
  let ?acc = "acc @ (case a of None \<Rightarrow> [] | Some a \<Rightarrow> [a])"
  obtain b r where r: "mu_parse822_special COMMA ?q = (b, r)" by (cases "mu_parse822_special COMMA ?q") auto
  have "suffix ?q q" using skip_comments_cursor by simp
  then have "suffix r p"
    using mail_box_cursor[OF q] skip_comments_cursor[of p] special_cursor[OF r] by (meson suffix_order.trans)
  then show ?case
    using q r 1[OF q[symmetric] refl refl r[symmetric]]
    by (subst group_loop.simps) (auto simp: Let_def dest: suffix_order.trans split: bool.split)
qed

lemma group_cursor [cursor_le]:
  assumes "mu_parse822_group h p = (q, as)"
  shows "suffix q p"
proof -
  obtain b r x where r: "mu_parse822_phrase p None = (b, r, x)" by (cases "mu_parse822_phrase p None") auto
  let ?r = "mu_parse822_skip_comments r"
  obtain b' s where s: "mu_parse822_special COLON ?r = (b', s)" by (cases "mu_parse822_special COLON ?r") auto
  obtain t y where t: "group_loop h s [] = (t, y)" by (cases "group_loop h s []") auto
  obtain b'' u where u: "mu_parse822_special SEMI t = (b'', u)" by (cases "mu_parse822_special SEMI t") auto
  have "suffix r p" "suffix s r" "suffix t s" "suffix u t"
    using phrase_cursor[OF r] special_cursor[OF s] skip_comments_cursor[of r] group_loop_cursor[of h s "[]"] t special_cursor[OF u]
    by (auto intro: suffix_order.trans)
  then have "suffix r p" "suffix u p" by (meson suffix_order.trans)+
  moreover have "q = p \<or> q = r \<or> q = u"
    using assms by (simp add: mu_parse822_group_def r s t u split: bool.splits)
  ultimately show ?thesis by auto
qed

lemma address_cursor [cursor_le]:
  assumes "mu_parse822_address h p = (q, as)"
  shows "suffix q p"
proof -
  obtain r a where r: "mu_parse822_mail_box h p = (r, a)" by (cases "mu_parse822_mail_box h p") auto
  obtain s b where s: "mu_parse822_group h r = (s, b)" by (cases "mu_parse822_group h r") auto
  obtain t c where t: "mu_parse822_unix_mbox h s = (t, c)" by (cases "mu_parse822_unix_mbox h s") auto
  have "q = r \<or> q = s \<or> q = t"
    using assms by (simp add: mu_parse822_address_def r s t Let_def split: option.splits)
  moreover have "suffix r p" "suffix s r" "suffix t s"
    using mail_box_cursor[OF r] group_cursor[OF s] unix_mbox_cursor[OF t] by auto
  ultimately show ?thesis by (meson suffix_order.trans)
qed

text \<open>After the first address: a comma, and perhaps an address, until the text ends.\<close>

function address_list_loop :: "hints \<Rightarrow> bool \<Rightarrow> bytes \<Rightarrow> mu_address list \<Rightarrow> bool \<times> mu_address list" where
  "address_list_loop h rc p acc =
     (if p = [] then (rc, acc)
      else case mu_parse822_special COMMA (mu_parse822_skip_comments p) of
             (False, _) \<Rightarrow> (False, acc)
           | (True, q) \<Rightarrow>
               case mu_parse822_address h (mu_parse822_skip_comments q) of
                 (r, a) \<Rightarrow> address_list_loop h True r (acc @ (case a of None \<Rightarrow> [] | Some as \<Rightarrow> as)))"
  by pat_completeness auto
termination
proof (relation "measure (\<lambda>(h, rc, p, acc). length p)", goal_cases)
  case (2 h rc p acc x y xa ya)
  with special_skip[OF sym, of x y COMMA p] address_cursor[OF sym, of xa ya h "mu_parse822_skip_comments y"] skip_comments_le[of y]
  show ?case by (auto dest: suffix_length_le)
qed simp

declare address_list_loop.simps [simp del]

definition mu_parse822_address_list :: "hints \<Rightarrow> bytes \<Rightarrow> mu_error + mu_address list" where
  "mu_parse822_address_list h s =
     (case mu_parse822_address h s of
        (p, a) \<Rightarrow>
          case address_list_loop h (a \<noteq> None) p (case a of None \<Rightarrow> [] | Some as \<Rightarrow> as) of
            (True, as) \<Rightarrow> Inr as
          | (False, _) \<Rightarrow> Inl MU_ERR_INVALID_EMAIL)"

end
