(* ===== verification/Parse822_Trip.thy ===== *)
theory Parse822_Trip
  imports Parse822_Addr
begin

text \<open>
  Reading back what is written: quoted local parts, domains, addresses, and addresses in angle brackets
  with a display name before them.
\<close>

section \<open>Characters\<close>

text \<open>A character at which neither white space nor a comment is skipped.\<close>

definition plain :: "byte \<Rightarrow> bool" where
  "plain c \<longleftrightarrow> \<not> mu_isspace c \<and> c \<noteq> LPAREN"

lemma is_atom_char_plain:
  "is_atom_char c \<Longrightarrow> plain c \<and> c \<noteq> DOT \<and> c \<noteq> AT \<and> c \<noteq> DQUOTE \<and> c \<noteq> LT_C \<and> c \<noteq> GT_C \<and> c \<noteq> COMMA \<and> c \<noteq> LBRACK"
proof -
  have "(\<lambda>c. is_atom_char c \<longrightarrow> plain c \<and> c \<noteq> DOT \<and> c \<noteq> AT \<and> c \<noteq> DQUOTE \<and> c \<noteq> LT_C \<and> c \<noteq> GT_C \<and> c \<noteq> COMMA \<and> c \<noteq> LBRACK) c"
    by (rule all_bytesI) code_simp+
  then show "is_atom_char c \<Longrightarrow> ?thesis" by blast
qed

lemma not_atom [simp]:
  "\<not> is_atom_char AT" "\<not> is_atom_char DOT" "\<not> is_atom_char GT_C" "\<not> is_atom_char LT_C" "\<not> is_atom_char DQUOTE"
  "\<not> is_atom_char COMMA"
  using is_atom_char_plain by blast+

lemma plain_simps [simp]:
  "plain AT" "plain DOT" "plain GT_C" "plain LT_C" "plain DQUOTE" "plain COMMA"
  by (simp_all add: plain_def mu_isspace_iff)

lemma special_plain [simp]: "plain x \<Longrightarrow> mu_parse822_special c (x # p) = (if x = c then (True, p) else (False, x # p))"
  by (simp add: plain_def)

lemma comment_plain [simp]: "plain x \<Longrightarrow> mu_parse822_comment (x # p) out = (False, x # p, out)"
  by (simp add: mu_parse822_comment.simps[of "x # p"] plain_def)

lemma comment_Nil [simp]: "mu_parse822_comment [] out = (False, [], out)"
  by (simp add: mu_parse822_comment.simps)

lemma comment_space [simp]: "mu_isspace x \<Longrightarrow> plain y \<Longrightarrow> mu_parse822_comment (x # y # p) out = (False, y # p, out)"
  by (simp add: mu_parse822_comment.simps[of "x # y # p"] plain_def)

lemma skip_comments_plain [simp]: "plain x \<Longrightarrow> mu_parse822_skip_comments (x # p) = x # p"
  by (simp add: mu_parse822_skip_comments.simps[of "x # p"])

lemma skip_comments_Nil [simp]: "mu_parse822_skip_comments [] = []"
  by (simp add: mu_parse822_skip_comments.simps)

lemma skip_comments_space [simp]: "plain x \<Longrightarrow> mu_parse822_skip_comments (SPC # x # p) = x # p"
proof -
  have "mu_isspace SPC" by (simp add: mu_isspace_iff)
  then show "plain x \<Longrightarrow> ?thesis"
    by (simp add: mu_parse822_skip_comments.simps[of "SPC # x # p"])
qed

section \<open>Tokens\<close>

lemma atom_ex_read:
  assumes "a \<noteq> []" "list_all is_atom_char a" "\<not> is_atom_char c"
  shows "parse822_atom_ex (a @ c # r) None = (True, c # r, Some a)"
proof -
  from assms obtain x b where a: "a = x # b" by (cases a) auto
  then have "plain x" using assms(2) is_atom_char_plain by auto
  with assms a show ?thesis
    by (auto simp: parse822_atom_ex_def Let_def str_append_def list_all_iff takeWhile_append dropWhile_append)
qed

text \<open>What the quotes enclose.\<close>

definition qbody :: "bytes \<Rightarrow> bytes" where
  "qbody raw = concat (map (\<lambda>c. if \<not> is_q_text c then [BSLASH, c] else [c]) raw)"

lemma quote_string_body: "mu_parse822_quote_string raw = DQUOTE # qbody raw @ [DQUOTE]"
  by (simp add: mu_parse822_quote_string_def qbody_def)

lemma str_append_append: "str_append (str_append out a) b = str_append out (a @ b)"
  by (cases out) (simp_all add: str_append_def)

lemma qstring_loop_body:
  "qstring_loop save (qbody raw @ DQUOTE # r) out = (True, r, if raw = [] then out else str_append out raw)"
  by (induction raw arbitrary: out)
    (auto simp: qbody_def is_q_text_def str_append_append)

lemma quoted_string_read:
  "mu_parse822_quoted_string (DQUOTE # qbody raw @ DQUOTE # r) None = (True, r, if raw = [] then None else Some raw)"
  by (simp add: mu_parse822_quoted_string_def Let_def qstring_loop_body str_append_def)

lemma quoted_string_other [simp]:
  "plain x \<Longrightarrow> x \<noteq> DQUOTE \<Longrightarrow> mu_parse822_quoted_string (x # p) out = (False, x # p, out)"
  by (simp add: mu_parse822_quoted_string_def Let_def)

lemma word_atom:
  assumes "a \<noteq> []" "list_all is_atom_char a" "\<not> is_atom_char c"
  shows "mu_parse822_word (a @ c # r) None = (True, c # r, Some a)"
proof -
  from assms obtain x b where a: "a = x # b" by (cases a) auto
  then have x: "plain x" "x \<noteq> DQUOTE" using assms(2) is_atom_char_plain by auto
  with atom_ex_read[OF assms] a show ?thesis
    by (simp add: mu_parse822_word_def Let_def str_append_opt_def str_append_def)
qed

lemma word_quoted:
  "raw \<noteq> [] \<Longrightarrow> mu_parse822_word (DQUOTE # qbody raw @ DQUOTE # r) None = (True, r, Some raw)"
  by (simp add: mu_parse822_word_def Let_def quoted_string_read str_append_opt_def str_append_def)

lemma word_none:
  "plain x \<Longrightarrow> x \<noteq> DQUOTE \<Longrightarrow> \<not> is_atom_char x \<Longrightarrow> mu_parse822_word (x # p) out = (False, x # p, out)"
  by (simp add: mu_parse822_word_def parse822_atom_ex_def Let_def)

section \<open>Local parts and domains\<close>

text \<open>Atoms with single dots between them; the flag says whether an atom precedes.\<close>

fun dotted :: "bool \<Rightarrow> bytes \<Rightarrow> bool" where
  "dotted b [] = b"
| "dotted b (c # s) = (if c = DOT then b \<and> dotted False s else is_atom_char c \<and> dotted True s)"

definition local_ok :: "bytes \<Rightarrow> bool" where
  "local_ok l \<longleftrightarrow> dotted False l \<or> list_ex (\<lambda>c. c \<noteq> DOT \<and> \<not> is_atom_char c) l"

definition domain_ok :: "bytes \<Rightarrow> bool" where
  "domain_ok d \<longleftrightarrow> d \<noteq> [] \<and> list_all (\<lambda>c. c = DOT \<or> is_atom_char c) d"

lemma dotted_split:
  "dotted False l \<Longrightarrow> \<exists>a s. l = a @ s \<and> a \<noteq> [] \<and> list_all is_atom_char a \<and> (s = [] \<or> (\<exists>t. s = DOT # t \<and> dotted False t))"
proof -
  have after: "dotted True l \<Longrightarrow> \<exists>a s. l = a @ s \<and> list_all is_atom_char a \<and> (s = [] \<or> (\<exists>t. s = DOT # t \<and> dotted False t))" for l
  proof (induction l)
    case (Cons c l)
    show ?case
    proof (cases "c = DOT")
      case True with Cons.prems show ?thesis by (intro exI[of _ "[]"] exI[of _ "c # l"]) simp
    next
      case False
      with Cons obtain a s where "l = a @ s \<and> list_all is_atom_char a \<and> (s = [] \<or> (\<exists>t. s = DOT # t \<and> dotted False t))" by auto
      with False Cons.prems show ?thesis by (intro exI[of _ "c # a"] exI[of _ s]) simp
    qed
  qed simp
  assume "dotted False l"
  then obtain c k where l: "l = c # k" "is_atom_char c" "dotted True k" by (cases l) (auto split: if_splits)
  with after[OF l(3)] obtain a s where "k = a @ s \<and> list_all is_atom_char a \<and> (s = [] \<or> (\<exists>t. s = DOT # t \<and> dotted False t))" by blast
  with l show ?thesis by (intro exI[of _ "c # a"] exI[of _ s]) simp
qed

lemma dotted_chars: "dotted b l \<Longrightarrow> \<not> list_ex (\<lambda>c. c \<noteq> DOT \<and> \<not> is_atom_char c) l"
  by (induction b l rule: dotted.induct) (auto split: if_splits)

lemma local_part_dotted:
  assumes "dotted False l" "plain c" "\<not> is_atom_char c" "c \<noteq> DOT"
  shows "mu_parse822_local_part (l @ c # r) None = (True, c # r, Some l)"
  using assms(1)
proof (induction "length l" arbitrary: l rule: less_induct)
  case less
  from dotted_split[OF less.prems] obtain a s where l: "l = a @ s" "a \<noteq> []" "list_all is_atom_char a"
    and s: "s = [] \<or> (\<exists>t. s = DOT # t \<and> dotted False t)" by blast
  from l(2,3) obtain x b where x: "a = x # b" "plain x" using is_atom_char_plain by (cases a) auto
  show ?case
  proof (cases "s = []")
    case True
    with l x word_atom[OF l(2,3) assms(3), of r] assms show ?thesis
      by (subst mu_parse822_local_part.simps) (simp add: Let_def)
  next
    case False
    with s obtain t where t: "s = DOT # t" "dotted False t" by auto
    have "mu_parse822_local_part (t @ c # r) None = (True, c # r, Some t)"
      using less.hyps[of t] t l by simp
    with l x t word_atom[OF l(2,3), of DOT "t @ c # r"] show ?thesis
      by (subst mu_parse822_local_part.simps) (simp add: Let_def str_append_opt_def str_append_def)
  qed
qed

lemma local_part_quoted:
  assumes "raw \<noteq> []" "plain c" "c \<noteq> DOT"
  shows "mu_parse822_local_part (DQUOTE # qbody raw @ DQUOTE # c # r) None = (True, c # r, Some raw)"
  using assms by (subst mu_parse822_local_part.simps) (simp add: Let_def word_quoted)

lemma local_part_read:
  assumes "local_ok l" "plain c" "\<not> is_atom_char c" "c \<noteq> DOT"
  shows "mu_parse822_local_part (mu_parse822_quote_local_part l @ c # r) None = (True, c # r, Some l)"
proof (cases "list_ex (\<lambda>c. c \<noteq> DOT \<and> \<not> is_atom_char c) l")
  case True
  then have "l \<noteq> []" by auto
  with True local_part_quoted[OF this assms(2,4)] show ?thesis
    by (simp add: mu_parse822_quote_local_part_def quote_string_body)
next
  case False
  with assms local_part_dotted show ?thesis by (simp add: mu_parse822_quote_local_part_def local_ok_def)
qed

lemma domain_read:
  assumes "domain_ok d" "r = [] \<or> (\<exists>c s. r = c # s \<and> plain c \<and> \<not> is_atom_char c \<and> c \<noteq> DOT)"
  shows "mu_parse822_domain (d @ r) None = (True, r, Some d)"
proof -
  let ?P = "\<lambda>c. c = DOT \<or> is_atom_char c"
  from assms(1) obtain x b where d: "d = x # b" by (cases d) (auto simp: domain_ok_def)
  with assms(1) have x: "plain x" using is_atom_char_plain by (auto simp: domain_ok_def)
  have P: "\<forall>c\<in>set d. ?P c" using assms(1) by (simp add: domain_ok_def list_all_iff)
  have "takeWhile ?P (d @ r) = d" "dropWhile ?P (d @ r) = r"
    using P assms(2) by (auto simp: takeWhile_append dropWhile_append)
  then have "mu_parse822_sub_domain (d @ r) None = (True, r, Some d)"
    using d x by (simp add: mu_parse822_sub_domain_def mu_parse822_domain_ref_def mu_parse822_atom_def Let_def str_append_def del: takeWhile.simps dropWhile.simps)
  moreover have "mu_parse822_skip_comments (d @ r) = d @ r" using d x by simp
  moreover have "mu_parse822_special DOT (mu_parse822_skip_comments r) = (False, r)" using assms(2) by auto
  ultimately show ?thesis by (subst mu_parse822_domain.simps) simp
qed

end
