(* ===== verification/Address.thy ===== *)
theory Address
  imports Parse822_Addr Str_Util
begin

text \<open>
  Operations on lists of addresses (\<open>libmailutils/address/address.c\<close>, \<open>addrstream.c\<close>). A null pointer
  is the empty list. The domain that \<open>mu_get_user_email_domain\<close> finds is the parameter \<open>user\<close>. Where
  memory that was freed or lies beyond a block would be used, the result is \<open>OUT_OF_BOUNDS\<close>.
\<close>

section \<open>Creation\<close>

definition mu_address_create_hint :: "hints \<Rightarrow> bytes option \<Rightarrow> mu_error + mu_address list" where
  "mu_address_create_hint h s =
     (case s of
        None \<Rightarrow> Inl EINVAL
      | Some t \<Rightarrow>
          case mu_parse822_address_list h t of
            Inl e \<Rightarrow> Inl e
          | Inr [] \<Rightarrow> Inl MU_ERR_EMPTY_ADDRESS
          | Inr (a # as) \<Rightarrow> Inr (a\<lparr>ma_printable := Some t\<rparr> # as))"

definition mu_address_create :: "bytes option \<Rightarrow> bytes option \<Rightarrow> mu_error + mu_address list" where
  "mu_address_create user s = mu_address_create_hint (Some (new_mb\<lparr>ma_domain := user\<rparr>), MU_ADDR_HINT_DOMAIN) s"

text \<open>The strings joined by a comma and a space; null strings are empty.\<close>

fun join_addresses :: "bytes option list \<Rightarrow> bytes" where
  "join_addresses [] = []"
| "join_addresses [s] = (case s of None \<Rightarrow> [] | Some s \<Rightarrow> s)"
| "join_addresses (s # sv) = (case s of None \<Rightarrow> [] | Some s \<Rightarrow> s) @ [COMMA, SPC] @ join_addresses sv"

definition mu_address_createv :: "bytes option \<Rightarrow> bytes option list option \<Rightarrow> mu_error + mu_address list" where
  "mu_address_createv user sv =
     (case sv of
        None \<Rightarrow> Inl EINVAL
      | Some sv \<Rightarrow> if sv = [] then Inl EINVAL else mu_address_create user (Some (join_addresses sv)))"

section \<open>Lists\<close>

text \<open>The cached text of the last address of the first list and of the first of the second is dropped. Both lists
  after the call.\<close>

definition mu_address_concatenate :: "mu_address list \<Rightarrow> mu_address list \<Rightarrow> mu_error + mu_address list \<times> mu_address list" where
  "mu_address_concatenate to from =
     (if to = [] \<or> from = [] then Inl EINVAL
      else Inr (butlast to @ [(last to)\<lparr>ma_printable := None\<rparr>] @ [(hd from)\<lparr>ma_printable := None\<rparr>] @ tl from, []))"

text \<open>Addresses are counted from 1.\<close>

definition address_get_nth :: "mu_address list \<Rightarrow> nat \<Rightarrow> mu_address option" where
  "address_get_nth addr no = (if 1 \<le> no \<and> no \<le> length addr then Some (addr ! (no - 1)) else None)"

text \<open>All fields but the cached text.\<close>

definition mu_address_dup :: "mu_address \<Rightarrow> mu_address" where
  "mu_address_dup src =
     new_mb\<lparr>ma_comments := ma_comments src, ma_personal := ma_personal src, ma_email := ma_email src,
       ma_local_part := ma_local_part src, ma_domain := ma_domain src, ma_route := ma_route src\<rparr>"

definition mu_address_get_nth :: "mu_address list \<Rightarrow> nat \<Rightarrow> mu_error + mu_address" where
  "mu_address_get_nth addr no =
     (case address_get_nth addr no of None \<Rightarrow> Inl MU_ERR_NOENT | Some a \<Rightarrow> Inr (mu_address_dup a))"

section \<open>Fields\<close>

text \<open>The accessors the macros make, over the update or the selection of the field.\<close>

definition address_change :: "(mu_address \<Rightarrow> mu_address) \<Rightarrow> mu_address list \<Rightarrow> nat \<Rightarrow> mu_error + mu_address list" where
  "address_change f addr no =
     (if addr = [] then Inl EINVAL
      else case address_get_nth addr no of
             None \<Rightarrow> Inl MU_ERR_NOENT
           | Some a \<Rightarrow> Inr (addr[no - 1 := f a]))"

definition address_set :: "((bytes option \<Rightarrow> bytes option) \<Rightarrow> mu_address \<Rightarrow> mu_address) \<Rightarrow> mu_address list \<Rightarrow> nat \<Rightarrow>
    bytes option \<Rightarrow> mu_error + mu_address list" where
  "address_set upd addr no buf = address_change (upd (\<lambda>_. buf)) addr no"

text \<open>The email is dropped with a change of the local part or the domain.\<close>

definition address_set_ei :: "((bytes option \<Rightarrow> bytes option) \<Rightarrow> mu_address \<Rightarrow> mu_address) \<Rightarrow> mu_address list \<Rightarrow> nat \<Rightarrow>
    bytes option \<Rightarrow> mu_error + mu_address list" where
  "address_set_ei upd addr no buf = address_change (\<lambda>a. (upd (\<lambda>_. buf) a)\<lparr>ma_email := None\<rparr>) addr no"

definition mu_address_set_personal where "mu_address_set_personal = address_set ma_personal_update"
definition mu_address_set_comments where "mu_address_set_comments = address_set ma_comments_update"
definition mu_address_set_local_part where "mu_address_set_local_part = address_set_ei ma_local_part_update"
definition mu_address_set_domain where "mu_address_set_domain = address_set_ei ma_domain_update"
definition mu_address_set_route where "mu_address_set_route = address_set ma_route_update"

definition address_sget :: "(mu_address \<Rightarrow> bytes option) \<Rightarrow> mu_address list \<Rightarrow> nat \<Rightarrow> mu_error + bytes option" where
  "address_sget field addr no =
     (if addr = [] then Inl EINVAL
      else case address_get_nth addr no of None \<Rightarrow> Inl MU_ERR_NOENT | Some a \<Rightarrow> Inr (field a))"

text \<open>A copy into a buffer of \<open>n\<close> bytes, if there is one, and the number of bytes.\<close>

definition address_get :: "(mu_address \<Rightarrow> bytes option) \<Rightarrow> mu_address list \<Rightarrow> nat \<Rightarrow> bool \<Rightarrow> nat \<Rightarrow>
    mu_error + bytes option \<times> nat" where
  "address_get field addr no buf n =
     (case address_sget field addr no of Inl e \<Rightarrow> Inl e | Inr str \<Rightarrow> Inr (mu_cpystr buf str n))"

definition address_aget :: "(mu_address \<Rightarrow> bytes option) \<Rightarrow> mu_address list \<Rightarrow> nat \<Rightarrow> mu_error + bytes option" where
  "address_aget field addr no = address_sget field addr no"

section \<open>The email\<close>

text \<open>The local part is copied from the place of the \<open>@\<close> instead of the beginning; the number of bytes is right. With no
  \<open>@\<close> in the new email the freed local part and domain stay in the address, if it had any.\<close>

definition set_email :: "mu_address \<Rightarrow> bytes option \<Rightarrow> mu_error + mu_address" where
  "set_email a buf =
     (case buf of
        None \<Rightarrow> Inr (a\<lparr>ma_email := None, ma_local_part := None, ma_domain := None\<rparr>)
      | Some s \<Rightarrow>
          case dropWhile (\<lambda>c. c \<noteq> AT) s of
            [] \<Rightarrow>
              if ma_local_part a \<noteq> None \<or> ma_domain a \<noteq> None then Inl OUT_OF_BOUNDS
              else Inr (a\<lparr>ma_email := Some s\<rparr>)
          | c # d \<Rightarrow>
              let len = length (takeWhile (\<lambda>c. c \<noteq> AT) s)
              in if len > length (c # d) + 1 then Inl OUT_OF_BOUNDS
                 else Inr (a\<lparr>ma_email := Some s, ma_local_part := Some (take len (c # d)), ma_domain := Some d\<rparr>))"

definition mu_address_set_email :: "mu_address list \<Rightarrow> nat \<Rightarrow> bytes option \<Rightarrow> mu_error + mu_address list" where
  "mu_address_set_email addr no buf =
     (if addr = [] then Inl EINVAL
      else case address_get_nth addr no of
             None \<Rightarrow> Inl MU_ERR_NOENT
           | Some a \<Rightarrow> (case set_email a buf of Inl e \<Rightarrow> Inl e | Inr a \<Rightarrow> Inr (addr[no - 1 := a])))"

text \<open>A missing email is made of the local part, as it is, and a domain.\<close>

definition mu_validate_email :: "bytes option \<Rightarrow> mu_address \<Rightarrow> mu_address" where
  "mu_validate_email user a =
     (case (ma_email a, ma_local_part a) of
        (None, Some l) \<Rightarrow>
          (case (case ma_domain a of None \<Rightarrow> user | d \<Rightarrow> d) of
             None \<Rightarrow> a
           | Some d \<Rightarrow> a\<lparr>ma_email := Some (l @ [AT] @ d)\<rparr>)
      | _ \<Rightarrow> a)"

definition mu_address_sget_email :: "bytes option \<Rightarrow> mu_address list \<Rightarrow> nat \<Rightarrow> mu_error + mu_address list \<times> bytes option" where
  "mu_address_sget_email user addr no =
     (if addr = [] then Inl EINVAL
      else case address_get_nth addr no of
             None \<Rightarrow> Inl MU_ERR_NOENT
           | Some a \<Rightarrow> let a = mu_validate_email user a in Inr (addr[no - 1 := a], ma_email a))"

section \<open>Kinds and counts\<close>

definition address_is_group :: "mu_address \<Rightarrow> bool" where
  "address_is_group a \<longleftrightarrow> ma_personal a \<noteq> None \<and> ma_local_part a = None \<and> ma_domain a = None"

definition address_is_email :: "mu_address \<Rightarrow> bool" where
  "address_is_email a \<longleftrightarrow> ma_email a \<noteq> None"

definition address_is_unix_mailbox :: "mu_address \<Rightarrow> bool" where
  "address_is_unix_mailbox a \<longleftrightarrow> ma_local_part a \<noteq> None \<and> ma_email a = None"

definition mu_address_is_group :: "mu_address list \<Rightarrow> nat \<Rightarrow> mu_error + bool" where
  "mu_address_is_group addr no =
     (if addr = [] then Inl EINVAL
      else case address_get_nth addr no of None \<Rightarrow> Inl MU_ERR_NOENT | Some a \<Rightarrow> Inr (address_is_group a))"

text \<open>The addresses are validated on the way.\<close>

definition mu_address_get_count :: "bytes option \<Rightarrow> mu_address list \<Rightarrow> mu_address list \<times> nat" where
  "mu_address_get_count user addr =
     (let addr = map (mu_validate_email user) addr in (addr, length (filter address_is_email addr)))"

definition mu_address_get_group_count :: "mu_address list \<Rightarrow> nat" where
  "mu_address_get_group_count addr = length (filter address_is_group addr)"

definition mu_address_get_email_count :: "mu_address list \<Rightarrow> nat" where
  "mu_address_get_email_count addr = length (filter address_is_email addr)"

definition mu_address_get_unix_mailbox_count :: "mu_address list \<Rightarrow> nat" where
  "mu_address_get_unix_mailbox_count addr = length (filter address_is_unix_mailbox addr)"

section \<open>Searching and merging\<close>

text \<open>The search ends at an address that has no email. A null \<open>email\<close> is read as soon as there is one to compare
  it with.\<close>

fun mu_address_contains_email :: "bytes option \<Rightarrow> mu_address list \<Rightarrow> bytes option \<Rightarrow> mu_error + mu_address list \<times> bool" where
  "mu_address_contains_email user [] email = Inr ([], False)"
| "mu_address_contains_email user (a # addr) email =
     (let a = mu_validate_email user a
      in case (ma_email a, email) of
           (None, _) \<Rightarrow> Inr (a # addr, False)
         | (Some x, None) \<Rightarrow> Inl OUT_OF_BOUNDS
         | (Some x, Some y) \<Rightarrow>
             if mu_c_strcasecmp x y = 0 then Inr (a # addr, True)
             else case mu_address_contains_email user addr email of
                    Inl e \<Rightarrow> Inl e
                  | Inr (addr, r) \<Rightarrow> Inr (a # addr, r))"

text \<open>\<open>mu_list_copy\<close>: the fields that are not null in the source.\<close>

definition address_copy :: "mu_address \<Rightarrow> mu_address \<Rightarrow> mu_address" where
  "address_copy dst src =
     (let get = (\<lambda>f. case f src of None \<Rightarrow> f dst | Some s \<Rightarrow> Some s)
      in dst\<lparr>ma_comments := get ma_comments, ma_personal := get ma_personal, ma_email := get ma_email,
           ma_local_part := get ma_local_part, ma_domain := get ma_domain, ma_route := get ma_route\<rparr>)"

fun union_loop :: "bytes option \<Rightarrow> mu_address list \<Rightarrow> mu_address list \<Rightarrow> mu_error + mu_address list" where
  "union_loop user a [] = Inr a"
| "union_loop user a (x # b) =
     (case mu_address_contains_email user a (ma_email x) of
        Inl e \<Rightarrow> Inl e
      | Inr (a, True) \<Rightarrow> union_loop user a b
      | Inr (a, False) \<Rightarrow>
          if ma_email (last a) \<noteq> None then union_loop user (a @ [mu_address_dup x]) b
          else union_loop user (butlast a @ [address_copy (last a) x]) b)"

definition mu_address_union :: "bytes option \<Rightarrow> mu_address list \<Rightarrow> mu_address list \<Rightarrow> mu_error + mu_address list" where
  "mu_address_union user a b =
     (if b = [] then Inl EINVAL
      else if a = [] then union_loop user [mu_address_dup (hd b)] (tl b)
      else union_loop user ((hd a)\<lparr>ma_printable := None\<rparr> # tl a) b)"

section \<open>Text\<close>

text \<open>What is written for one address, which has an email.\<close>

definition format_one :: "mu_address \<Rightarrow> bytes \<Rightarrow> bytes" where
  "format_one a email =
     (if ma_personal a = None \<and> ma_comments a = None \<and> ma_domain a = None \<and> ma_route a = None then email
      else
        (let name = (case ma_personal a of None \<Rightarrow> [] | Some n \<Rightarrow> [DQUOTE] @ n @ [DQUOTE]);
             text = (case ma_comments a of None \<Rightarrow> [] | Some c \<Rightarrow> (if name \<noteq> [] then [SPC] else []) @ [LPAREN] @ c @ [RPAREN])
         in name @ text @ (if name @ text \<noteq> [] then [SPC] else []) @ [LT_C] @ email @ [GT_C]))"

fun format_loop :: "bytes option \<Rightarrow> bool \<Rightarrow> mu_address list \<Rightarrow> bytes" where
  "format_loop user comma [] = []"
| "format_loop user comma (a # addr) =
     (let a = mu_validate_email user a
      in case ma_email a of
           None \<Rightarrow> format_loop user comma addr
         | Some email \<Rightarrow> (if comma then [COMMA] else []) @ format_one a email @ format_loop user True addr)"

definition mu_stream_format_address :: "bytes option \<Rightarrow> mu_address list \<Rightarrow> bytes" where
  "mu_stream_format_address user addr = format_loop user False addr"

text \<open>The text is kept with the first address.\<close>

definition mu_address_sget_printable :: "bytes option \<Rightarrow> mu_address list \<Rightarrow> mu_error + mu_address list \<times> bytes" where
  "mu_address_sget_printable user addr =
     (case addr of
        [] \<Rightarrow> Inl EINVAL
      | a # as \<Rightarrow>
          case ma_printable a of
            Some s \<Rightarrow> Inr (addr, s)
          | None \<Rightarrow>
              let s = mu_stream_format_address user addr;
                  addr = map (mu_validate_email user) addr
              in Inr ((hd addr)\<lparr>ma_printable := Some s\<rparr> # tl addr, s))"

definition mu_address_get_printable :: "bytes option \<Rightarrow> mu_address list \<Rightarrow> bool \<Rightarrow> nat \<Rightarrow>
    mu_error + mu_address list \<times> bytes option \<times> nat" where
  "mu_address_get_printable user addr buf n =
     (case mu_address_sget_printable user addr of
        Inl e \<Rightarrow> Inl e
      | Inr (addr, s) \<Rightarrow> Inr (addr, mu_cpystr buf (Some s) n))"

end
