(* ===== verification/Address_Trip.thy ===== *)
theory Address_Trip
  imports Parse822_Trip Address
begin

text \<open>
  Addresses that are written are read back, lists of them with their display names as well; merging two
  lists gives the addresses of both once; and where these operations fail.
\<close>

section \<open>Addresses read back\<close>

text \<open>The address that a display name, a local part and a domain make.\<close>

definition mailbox_of :: "bytes option \<Rightarrow> bytes \<Rightarrow> bytes \<Rightarrow> mu_address" where
  "mailbox_of name l d = fill_mb no_hints None name (Some l) (Some d)"

definition email_of :: "bytes \<Rightarrow> bytes \<Rightarrow> bytes" where
  "email_of l d = mu_parse822_quote_local_part l @ AT # d"

lemma mailbox_of_fields [simp]:
  "ma_email (mailbox_of n l d) = Some (email_of l d)" "ma_personal (mailbox_of n l d) = n" "ma_comments (mailbox_of n l d) = None"
  "ma_domain (mailbox_of n l d) = Some d" "ma_route (mailbox_of n l d) = None" "ma_local_part (mailbox_of n l d) = Some l"
  "ma_printable (mailbox_of n l d) = None"
  by (simp_all add: mailbox_of_def fill_mb_def new_mb_def email_of_def str_append_def Let_def)

lemma mailbox_of_personal: "(mailbox_of n l d)\<lparr>ma_personal := m\<rparr> = mailbox_of m l d" "(mailbox_of n l d)\<lparr>ma_route := None\<rparr> = mailbox_of n l d"
  by (simp_all add: mailbox_of_def fill_mb_def new_mb_def Let_def)

text \<open>What may follow a domain.\<close>

definition stops :: "bytes \<Rightarrow> bool" where
  "stops r \<longleftrightarrow> r = [] \<or> (\<exists>c s. r = c # s \<and> (c = COMMA \<or> c = GT_C))"

lemma addr_spec_read:
  assumes "local_ok l" "domain_ok d" "stops r"
  shows "mu_parse822_addr_spec no_hints (email_of l d @ r) = (r, Some (mailbox_of None l d))"
proof -
  have "mu_parse822_local_part (email_of l d @ r) None = (True, AT # d @ r, Some l)"
    using local_part_read[OF assms(1), of AT "d @ r"] by (simp add: email_of_def)
  moreover have "mu_parse822_domain (d @ r) None = (True, r, Some d)"
    using assms by (intro domain_read) (auto simp: stops_def)
  ultimately show ?thesis by (simp add: mu_parse822_addr_spec_def mailbox_of_def Let_def)
qed

lemma stops_no_comment: "stops r \<Longrightarrow> mu_parse822_comment (snd (mu_parse822_skip_lwsp r)) out = (False, r, out)"
  by (auto simp: stops_def skip_lwsp_dropWhile mu_isspace_iff)

lemma mail_box_email:
  assumes "local_ok l" "domain_ok d" "stops r"
  shows "mu_parse822_mail_box no_hints (email_of l d @ r) = (r, Some (mailbox_of None l d))"
  using addr_spec_read[OF assms] stops_no_comment[OF assms(3)]
  by (simp add: mu_parse822_mail_box_def mailbox_of_personal)

lemma email_of_first: "local_ok l \<Longrightarrow> \<exists>x s. email_of l d = x # s \<and> plain x \<and> x \<noteq> GT_C \<and> x \<noteq> AT"
proof (cases "list_ex (\<lambda>c. c \<noteq> DOT \<and> \<not> is_atom_char c) l")
  case True
  then show ?thesis by (simp add: email_of_def mu_parse822_quote_local_part_def quote_string_body)
next
  case False
  moreover assume "local_ok l"
  ultimately have "dotted False l" by (simp add: local_ok_def)
  then obtain c k where "l = c # k" "is_atom_char c" by (cases l) (auto split: if_splits)
  with False is_atom_char_plain show ?thesis by (auto simp: email_of_def mu_parse822_quote_local_part_def)
qed

lemma route_addr_read:
  assumes "local_ok l" "domain_ok d"
  shows "mu_parse822_route_addr no_hints (LT_C # email_of l d @ GT_C # r) = (r, Some (mailbox_of None l d))"
proof -
  from email_of_first[OF assms(1), of d] obtain x s where x: "email_of l d = x # s" "plain x" "x \<noteq> GT_C" "x \<noteq> AT" by blast
  have spec: "mu_parse822_addr_spec no_hints (x # s @ GT_C # r) = (GT_C # r, Some (mailbox_of None l d))"
    using addr_spec_read[OF assms, of "GT_C # r"] x(1) by (simp add: stops_def)
  have "route_loop (x # s @ GT_C # r) None = (False, x # s @ GT_C # r, None)"
    using x by (simp add: route_loop.simps)
  with x have "mu_parse822_route (x # s @ GT_C # r) = (False, x # s @ GT_C # r, None)" by (simp add: mu_parse822_route_def)
  with x spec show ?thesis
    by (simp add: mu_parse822_route_addr_def mailbox_of_personal)
qed

text \<open>Names as they may stand between quotes.\<close>

definition name_ok :: "bytes option \<Rightarrow> bool" where
  "name_ok n \<longleftrightarrow> (case n of None \<Rightarrow> True | Some n \<Rightarrow> n \<noteq> [] \<and> list_all is_q_text n)"

lemma qbody_plain: "list_all is_q_text n \<Longrightarrow> qbody n = n"
  by (induction n) (auto simp: qbody_def)

lemma format_one_mailbox:
  "format_one (mailbox_of n l d) (email_of l d) =
    (case n of None \<Rightarrow> [] | Some n \<Rightarrow> DQUOTE # n @ [DQUOTE, SPC]) @ LT_C # email_of l d @ [GT_C]"
  by (simp add: format_one_def Let_def split: option.split)

lemma mail_box_name:
  assumes "local_ok l" "domain_ok d" "name_ok n"
  shows "mu_parse822_mail_box no_hints (format_one (mailbox_of n l d) (email_of l d) @ r) = (r, Some (mailbox_of n l d))"
proof (cases n)
  case None
  let ?p = "LT_C # email_of l d @ GT_C # r"
  have word: "mu_parse822_word ?p out = (False, ?p, out)" for out by (rule word_none) simp_all
  then have "mu_parse822_local_part ?p None = (False, ?p, None)" by (subst mu_parse822_local_part.simps) simp
  then have spec: "mu_parse822_addr_spec no_hints ?p = (?p, None)" by (simp add: mu_parse822_addr_spec_def)
  have "mu_parse822_phrase ?p None = (False, ?p, None)"
    using word by (simp add: mu_parse822_phrase_def parse822_word_dot_def)
  with spec route_addr_read[OF assms(1,2), of r] None show ?thesis
    by (simp add: mu_parse822_mail_box_def format_one_mailbox mailbox_of_personal)
next
  case (Some m)
  with assms(3) have m: "m \<noteq> []" "qbody m = m" by (simp_all add: name_ok_def qbody_plain)
  let ?q = "LT_C # email_of l d @ GT_C # r"
  let ?p = "DQUOTE # qbody m @ DQUOTE # SPC # ?q"
  have space: "mu_isspace SPC" by (simp add: mu_isspace_iff)
  have word: "mu_parse822_word ?p None = (True, SPC # ?q, Some m)" using m(1) by (rule word_quoted)
  have "mu_parse822_local_part ?p None = (True, ?q, Some m)"
    using word space by (subst mu_parse822_local_part.simps) (simp add: Let_def)
  then have spec: "mu_parse822_addr_spec no_hints ?p = (?p, None)" by (simp add: mu_parse822_addr_spec_def Let_def)
  have "mu_parse822_word (SPC # ?q) None = (False, ?q, None)"
    by (simp add: mu_parse822_word_def parse822_atom_ex_def Let_def)
  then have "phrase_loop (SPC # ?q) (Some m) = (?q, Some m)"
    by (simp add: phrase_loop.simps parse822_word_dot_def)
  with word have "mu_parse822_phrase ?p None = (True, ?q, Some m)"
    by (simp add: mu_parse822_phrase_def parse822_word_dot_def)
  with spec route_addr_read[OF assms(1,2), of r] Some m(2) show ?thesis
    by (simp add: mu_parse822_mail_box_def format_one_mailbox mailbox_of_personal)
qed

section \<open>Lists read back\<close>

definition mailbox_ok :: "bytes option \<times> bytes \<times> bytes \<Rightarrow> bool" where
  "mailbox_ok m \<longleftrightarrow> (case m of (n, l, d) \<Rightarrow> name_ok n \<and> local_ok l \<and> domain_ok d)"

definition mailboxes :: "(bytes option \<times> bytes \<times> bytes) list \<Rightarrow> mu_address list" where
  "mailboxes ms = map (\<lambda>(n, l, d). mailbox_of n l d) ms"

lemma address_read:
  assumes "mailbox_ok (n, l, d)"
  shows "mu_parse822_address no_hints (format_one (mailbox_of n l d) (email_of l d) @ r) = (r, Some [mailbox_of n l d])"
  using mail_box_name[of l d n r] assms by (simp add: mu_parse822_address_def mailbox_ok_def mailbox_of_personal)

lemma format_one_first: "\<exists>x s. format_one (mailbox_of n l d) (email_of l d) = x # s \<and> plain x"
  by (simp add: format_one_mailbox split: option.split)

lemma validate_mailbox [simp]: "mu_validate_email user (mailbox_of n l d) = mailbox_of n l d"
  by (simp add: mu_validate_email_def)

lemma address_list_loop_read:
  "list_all mailbox_ok ms \<Longrightarrow> address_list_loop no_hints True (format_loop user True (mailboxes ms)) acc = (True, acc @ mailboxes ms)"
proof (induction ms arbitrary: acc)
  case Nil then show ?case by (simp add: mailboxes_def address_list_loop.simps)
next
  case (Cons m ms)
  obtain n l d where m: "m = (n, l, d)" by (cases m)
  let ?f = "format_one (mailbox_of n l d) (email_of l d)" and ?r = "format_loop user True (mailboxes ms)"
  from format_one_first[of n l d] obtain x s where x: "?f = x # s" "plain x" by blast
  have "mu_parse822_address no_hints (x # s @ ?r) = (?r, Some [mailbox_of n l d])"
    using address_read[of n l d ?r] Cons.prems m x by simp
  with Cons x(2) m show ?case
    by (subst address_list_loop.simps) (simp add: mailboxes_def x(1))
qed

lemma format_parse:
  assumes "ms \<noteq> []" "list_all mailbox_ok ms"
  shows "mu_parse822_address_list no_hints (mu_stream_format_address user (mailboxes ms)) = Inr (mailboxes ms)"
proof -
  from assms(1) obtain m k where m: "ms = m # k" by (cases ms) auto
  obtain n l d where nld: "m = (n, l, d)" by (cases m)
  with assms(2) m address_read[of n l d "format_loop user True (mailboxes k)"] address_list_loop_read[of k user "[mailbox_of n l d]"]
  show ?thesis
    by (simp add: mu_parse822_address_list_def mu_stream_format_address_def mailboxes_def)
qed

text \<open>White space or a comment after the closing bracket spoils the whole list.\<close>

lemma trailing_space:
  assumes "local_ok l" "domain_ok d"
  shows "mu_parse822_address_list no_hints (LT_C # email_of l d @ [GT_C, SPC]) = Inl MU_ERR_INVALID_EMAIL"
proof -
  have f: "format_one (mailbox_of None l d) (email_of l d) @ [SPC] = LT_C # email_of l d @ [GT_C, SPC]"
    by (simp add: format_one_mailbox)
  have "mu_parse822_skip_comments [SPC] = []"
    by (simp add: mu_parse822_skip_comments.simps[of "[SPC]"] mu_parse822_comment.simps[of "[SPC]"] mu_isspace_iff)
  then have "address_list_loop no_hints True [SPC] acc = (False, acc)" for acc by (simp add: address_list_loop.simps)
  with address_read[of None l d "[SPC]"] assms f show ?thesis
    by (simp add: mu_parse822_address_list_def mailbox_ok_def name_ok_def)
qed

section \<open>Merging\<close>

text \<open>Addresses are the same when their emails are, but for case.\<close>

definition has_email :: "mu_address \<Rightarrow> bool" where
  "has_email a \<longleftrightarrow> (case ma_email a of None \<Rightarrow> False | Some e \<Rightarrow> 0 \<notin> set e)"

definition email_key :: "mu_address \<Rightarrow> bytes" where
  "email_key a = map mu_tolower (case ma_email a of None \<Rightarrow> [] | Some e \<Rightarrow> e)"

lemma has_emailE:
  assumes "has_email a"
  obtains e where "ma_email a = Some e" "0 \<notin> set e" "email_key a = map mu_tolower e" "\<And>user. mu_validate_email user a = a"
  using assms that by (auto simp: has_email_def email_key_def mu_validate_email_def split: option.splits)

lemma contains_email_key:
  "list_all has_email a \<Longrightarrow> 0 \<notin> set y \<Longrightarrow>
   mu_address_contains_email user a (Some y) = Inr (a, map mu_tolower y \<in> set (map email_key a))"
proof (induction a)
  case (Cons x a)
  from Cons.prems obtain e where e: "ma_email x = Some e" "0 \<notin> set e" "email_key x = map mu_tolower e" "mu_validate_email user x = x"
    by (auto elim: has_emailE)
  with Cons mu_c_strcasecmp_eq[OF e(2) Cons.prems(2)] show ?case by (auto simp: Let_def)
qed simp

lemma dup_email [simp]: "ma_email (mu_address_dup x) = ma_email x" "email_key (mu_address_dup x) = email_key x"
  "has_email (mu_address_dup x) = has_email x"
  by (simp_all add: mu_address_dup_def new_mb_def email_key_def has_email_def)

lemma union_loop_keys:
  "list_all has_email a \<Longrightarrow> list_all has_email b \<Longrightarrow> a \<noteq> [] \<Longrightarrow>
   \<exists>c. union_loop user a b = Inr (a @ c) \<and> set (map email_key (a @ c)) = set (map email_key a) \<union> set (map email_key b) \<and>
     (distinct (map email_key a) \<longrightarrow> distinct (map email_key (a @ c)))"
proof (induction b arbitrary: a)
  case Nil then show ?case by (intro exI[of _ "[]"]) simp
next
  case (Cons x b)
  from Cons.prems obtain e where e: "ma_email x = Some e" "0 \<notin> set e" "email_key x = map mu_tolower e" by (auto elim: has_emailE)
  note contains = contains_email_key[OF Cons.prems(1) e(2), of user]
  show ?case
  proof (cases "email_key x \<in> set (map email_key a)")
    case True
    with Cons.IH[of a] Cons.prems contains e show ?thesis by (auto simp: insert_absorb)
  next
    case False
    have "has_email (last a)" using Cons.prems(1,3) by (simp add: list_all_iff)
    then have "ma_email (last a) \<noteq> None" by (cases "ma_email (last a)") (simp_all add: has_email_def)
    with False contains e have "union_loop user a (x # b) = union_loop user (a @ [mu_address_dup x]) b" by simp
    with Cons.IH[of "a @ [mu_address_dup x]"] Cons.prems obtain c where
      "union_loop user a (x # b) = Inr (a @ mu_address_dup x # c)"
      "set (map email_key ((a @ [mu_address_dup x]) @ c)) = set (map email_key (a @ [mu_address_dup x])) \<union> set (map email_key b)"
      "distinct (map email_key (a @ [mu_address_dup x])) \<longrightarrow> distinct (map email_key ((a @ [mu_address_dup x]) @ c))"
      by auto
    with False show ?thesis by (intro exI[of _ "mu_address_dup x # c"]) auto
  qed
qed

lemma printable_email [simp]: "email_key (a\<lparr>ma_printable := s\<rparr>) = email_key a" "has_email (a\<lparr>ma_printable := s\<rparr>) = has_email a"
  by (simp_all add: email_key_def has_email_def)

lemma union_keys:
  assumes "list_all has_email a" "list_all has_email b" "b \<noteq> []" "distinct (map email_key a)"
  shows "\<exists>c. mu_address_union user a b = Inr c \<and> prefix (map email_key a) (map email_key c) \<and>
    set (map email_key c) = set (map email_key a) \<union> set (map email_key b) \<and> distinct (map email_key c)"
proof (cases a)
  case Nil
  from assms(3) obtain x k where b: "b = x # k" by (cases b) auto
  with Nil assms(2) union_loop_keys[of "[mu_address_dup x]" k user] show ?thesis
    by (auto simp: mu_address_union_def)
next
  case (Cons x k)
  let ?a = "x\<lparr>ma_printable := None\<rparr> # k"
  have "map email_key ?a = map email_key a" using Cons by simp
  with Cons assms union_loop_keys[of ?a b user] obtain c where
    "union_loop user ?a b = Inr (?a @ c)" "set (map email_key (?a @ c)) = set (map email_key a) \<union> set (map email_key b)"
    "distinct (map email_key (?a @ c))" by auto
  with Cons assms(3) show ?thesis by (intro exI[of _ "?a @ c"]) (auto simp: mu_address_union_def)
qed

section \<open>Setting the email\<close>

lemma set_email_at:
  assumes "AT \<notin> set l"
  shows "length l \<le> length d + 2 \<Longrightarrow>
      set_email a (Some (l @ AT # d)) =
        Inr (a\<lparr>ma_email := Some (l @ AT # d), ma_local_part := Some (take (length l) (AT # d)), ma_domain := Some d\<rparr>)"
    and "length d + 2 < length l \<Longrightarrow> set_email a (Some (l @ AT # d)) = Inl OUT_OF_BOUNDS"
proof -
  have "dropWhile (\<lambda>c. c \<noteq> AT) (l @ AT # d) = AT # d" "takeWhile (\<lambda>c. c \<noteq> AT) (l @ AT # d) = l"
    using assms by (auto simp: dropWhile_append takeWhile_append)
  then show "length l \<le> length d + 2 \<Longrightarrow>
      set_email a (Some (l @ AT # d)) =
        Inr (a\<lparr>ma_email := Some (l @ AT # d), ma_local_part := Some (take (length l) (AT # d)), ma_domain := Some d\<rparr>)"
    "length d + 2 < length l \<Longrightarrow> set_email a (Some (l @ AT # d)) = Inl OUT_OF_BOUNDS"
    by (simp_all add: set_email_def Let_def)
qed

text \<open>The local part that is stored begins with the \<open>@\<close>.\<close>

lemma set_email_local_part:
  assumes "AT \<notin> set l" "l \<noteq> []" "set_email a (Some (l @ AT # d)) = Inr b"
  shows "\<exists>s. ma_local_part b = Some (AT # s)"
proof -
  from assms(2) obtain n where "length l = Suc n" by (cases l) auto
  with assms set_email_at[OF assms(1), of d a] show ?thesis by (cases "length l \<le> length d + 2") auto
qed

end
