(* ===== verification/Spec2Isabelle.thy ===== *)
theory Spec2Isabelle
  imports Filter_Instances Flt_From Flt_Fromrd Flt_Line Base64_Trip Ctype Msgset_Text Assoc_Ops Wildmatch List_Foreach Str_Escape Str_Search Str_Size File_Name Address_Trip
begin

text \<open>
  GNU Mailutils 3.14, the core of \<open>libmailutils\<close>: the filter framework with its transcoders,
  associative arrays, linked lists with their iterators, strings and file names, mail addresses, the wildcards
  of IMAP, and message sets.

  \<^bold>\<open>Filters.\<close> A filter (\<open>libmailutils/filter\<close>) is a transcoder function
  \<open>xcode (xdata, cmd, iobuf)\<close>: it consumes some of the input window, writes to the output
  window, updates its state and answers ok, again, moreinput, moreoutput or failure. The filter
  stream (\<open>libmailutils/stream/fltstream.c\<close>) calls it with buffers it fills from a transport
  stream and empties to the reader.

  \<^item> \<open>Mu_Prelude\<close> has bytes, the error codes, the record \<open>xcoded\<close> of what a call leaves behind
    (\<open>struct mu_filter_io\<close> and the state), and \<open>follows\<close>: a transcoder loop follows a reference
    function that says what is owed for the rest of the input.
  \<^item> \<open>Xcoder\<close> states the interface as locales: \<open>xcoder\<close> and \<open>plain_xcoder\<close> (what a call owes),
    \<open>total_xcoder\<close> (no failure, hence independence of the windows), \<open>live_xcoder\<close> (progress).
  \<^item> \<open>Mem_Stream\<close> is the interface \<open>transport\<close> of the stream below and the memory stream
    (\<open>memory_stream.c\<close>), which interprets it. A stream's block is \<open>ms_ptr\<close>; bytes that \<open>realloc\<close>
    leaves indeterminate are a parameter \<open>fill\<close>.
  \<^item> \<open>Filter_Stream\<close> translates the buffers and \<open>filter_read\<close>: one definition per piece of the loop
    body (\<open>rd_input\<close>, \<open>rd_xcode\<close>, \<open>rd_answer\<close>, \<open>rd_account\<close>, \<open>rd_copy\<close>), composed by \<open>rd_turn\<close> with
    the control flow of C as the datatype \<open>flow\<close>; the loop takes fuel. The locale \<open>filter_rd\<close> shows
    that what is read and what is still owed together never change.
  \<^item> \<open>Filter_Live\<close> shows termination: a measure on the input left and the transcoder's debts
    bounds the turns, so some fuel is always enough, no error is reported, and as many reads as
    there are bytes deliver everything.
  \<^item> \<open>Flt_Crlf\<close>, \<open>Flt_Dot\<close>, \<open>Flt_Crlfdot\<close>, \<open>Flt_From\<close>, \<open>Flt_Fromrd\<close>, \<open>Flt_Escape\<close> (DQ, C-ESCAPE,
    PERCENT), \<open>Flt_Line\<close> (HEADER, LINELEN, LINECON), \<open>Flt_Base64\<close>, \<open>Flt_Qp\<close> model the files of the same names in
    \<open>libmailutils/filter\<close>: state, encoder and decoder loops on the input list with the index, the
    output list and the output size, creation of the state from the arguments, the reference
    functions, the interpretations of the locales and the round trips.
  \<^item> \<open>Base64_Trip\<close> has the round trips of base64 and the two faults of its decoder.
  \<^item> \<open>Filter_Instances\<close> interprets the locales of reading for the transcoders over memory streams.

  \<^bold>\<open>Character classes.\<close> \<open>Ctype\<close> has the table \<open>mu_c_tab\<close> and the macros over it; each class is
  characterised by ranges of bytes.

  \<^bold>\<open>Associative arrays.\<close> \<open>libmailutils/base/assoc.c\<close>: \<open>Open_Hash\<close> has the probing loop and the
  loop that closes the gap of a removed entry, as partial functions, and a locale of tables whose
  entries have a home slot, in which both are shown to return and to keep entries reachable;
  \<open>Assoc\<close> models the array function by function, with the elements as cells of a heap; \<open>Assoc_Facts\<close>
  has the invariant and interprets the locale for the arrays' own hash functions; \<open>Assoc_Map\<close> shows
  lookup, installation and removal on the map an array stands for; \<open>Assoc_Ops\<close> does the other
  operations and the relation of all steps. The recursion between finding a slot and rehashing has
  a depth of 40: each rehash takes the next of nine sizes and adds at most four calls.

  \<^bold>\<open>Linked lists.\<close> \<open>libmailutils/list\<close> and \<open>libmailutils/base/iterator.c\<close> on a heap of nodes:
  \<open>List_Heap\<close> has the operations, function by function, with \<open>None\<close> for an access through a
  reference that is not allocated and a pool that \<open>calloc\<close> may exhaust; \<open>List_Ring\<close> the circles, the
  well-formed heaps and the accounting of their memory; \<open>List_Ops\<close> insertion and walking,
  \<open>List_Change\<close> deletion with the attached iterators and the operations that search, \<open>List_Move\<close>
  creation, clearing and destruction, \<open>List_Iter\<close> the iterators, \<open>List_Splice\<close> the moving of all nodes
  of a list; \<open>List_Calls\<close> the step relation of all calls and its safety; \<open>List_Foreach\<close> iteration
  with deletion, folding, and the fault of prepending an empty list. Locks are left out, a chain of
  iterators is a list of references.

  \<^bold>\<open>Wildcards.\<close> \<open>Wildmatch\<close> models the matcher of \<open>libmailutils/imapio/wildmatch.c\<close> and shows
  that it decides an inductive relation of patterns and names.

  \<^bold>\<open>Strings.\<close> \<open>libmailutils/string\<close>: \<open>C_String\<close> has what the others share; \<open>Str_Util\<close> trimming,
  case, counts, unfolding and URL decoding with its round trip; \<open>Str_Escape\<close> escapes by a backslash, with the
  sizes of the blocks; \<open>Str_Search\<close> the search that ignores case, whose jumps are calls, and its equality
  with the plain search; \<open>Str_Size\<close> sizes with a suffix on 64-bit words; \<open>File_Name\<close> the automaton for safe file
  names, compared with the components of the name, and the joining of names.

  \<^bold>\<open>Mail addresses.\<close> \<open>libmailutils/address\<close>: \<open>Parse822\<close> is the lexer of \<open>parse822.c\<close>, where the pointer into
  the text is the rest of the text and a string being collected is a \<open>sink\<close>; \<open>Parse822_Addr\<close> the grammar
  of addresses, with the lemmas that no parser moves the pointer back, on which the termination of its
  loops rests; \<open>Parse822_Trip\<close> the reading of quoted local parts, domains and names; \<open>Address\<close> the
  functions of \<open>address.c\<close> and the writing of lists (\<open>addrstream.c\<close>), an address list being a HOL list of
  records; \<open>Address_Trip\<close> the round trip of address lists, their union, and two faults.

  \<^bold>\<open>Message sets.\<close> \<open>libmailutils/msgset\<close>: \<open>List_Sort\<close> is the sorting of \<open>mu_list_t\<close>; \<open>Msgset\<close> the
  ranges, their order (an instance of \<open>linorder\<close>) and aggregation; \<open>Msgset_Ops\<close> the operations, with
  the mailbox as a record of its answers; \<open>Msgset_Facts\<close> their effect on the set of messages and
  the invariant of all reachable sets; \<open>Msgset_Text\<close> the IMAP parser and the printer.

  \<^bold>\<open>Conventions.\<close> An access outside an array is the failure \<open>OUT_OF_BOUNDS\<close>. But for linked lists allocation succeeds and
  pointer arguments are not null. Sizes and positions of buffers are \<open>nat\<close>; counters that can wrap
  (line lengths and numbers, the count of messages, one more than a message number) are words or have
  the modulus written out. Where a value of type \<open>int\<close> grows with the input (the run of \<open>>\<close> in \<open>fromrd.c\<close>, the
  length in \<open>mu_base64_decode\<close>) its 32 bits are modelled: an overflow is the failure \<open>SIGNED_OVERFLOW\<close>, a
  conversion keeps the low bits.

  \<^bold>\<open>Not modelled.\<close> The write side of the filter stream and its control interface, the registry and the
  chains of filters, the HTML entity filter; the iterators of associative arrays; mailboxes, dates, URLs, the protocols, Sieve and the programs; streams over files,
  sockets and processes, which are system calls; the parsers made by bison and flex. Memory
  exhaustion is modelled for linked lists only, threads nowhere.
\<close>

section \<open>The filter stream\<close>

text \<open>C1. A client that opens the CRLF encoder over a block of memory and reads pieces of any positive
  sizes, as many as there are bytes to come, gets exactly the encoded text: \<open>filter_read\<close>
  returns on every call, reports no error, loses and repeats nothing and does not announce the
  end early.\<close>

theorem crlf_read_complete:
  assumes "\<forall>n \<in> set ns. 0 < n" "length (crlf_enc (crlf_alloc_state argv) bs) \<le> length ns"
  shows "\<exists>fuel0. \<forall>fuel \<ge> fuel0.
    mem_filter_read crlf_encoder (crlf_alloc_state argv) fuel ns bs =
      Some (crlf_enc (crlf_alloc_state argv) bs)"
proof -
  have "xst (crlf_encoder (crlf_alloc_state argv) mu_filter_init [] 0) = crlf_alloc_state argv"
    by (simp add: crlf_alloc_state_def x_quiet_def)
  then show ?thesis
    using crlf_enc_mem.mem_reads[where xdata = "crlf_alloc_state argv" and ns = ns and bs = bs] assms by simp
qed

theorem crlf_read_complete_witness:
  "\<exists>fuel0. \<forall>fuel \<ge> fuel0.
    mem_filter_read crlf_encoder (crlf_alloc_state [''CRLF'']) fuel [2, 1, 1, 7] [97, LF] = Some [97, CR, LF]"
  using crlf_read_complete[of "[2, 1, 1, 7]" "[''CRLF'']" "[97, LF]"]
  by (simp add: crlf_alloc_state_def)

text \<open>C2. The same for the dot encoder of SMTP and POP3: reading from memory through it delivers a
  text that the dot decoder, called with room for it and one byte more, turns back into the
  original, completed by a newline if its last line had none, and at whose dot line the decoder
  announces the end of the stream; only the newline of that line is not counted as consumed.\<close>

theorem dot_read_complete:
  assumes "\<forall>n \<in> set ns. 0 < n" "length (dot_enc dot_encode_init bs) \<le> length ns"
    and "length (newline_terminated bs) < osize"
  shows "\<exists>fuel0. \<forall>fuel \<ge> fuel0. \<exists>out.
    mem_filter_read dot_encoder st fuel ns bs = Some out \<and>
    dot_decoder dot_decode_bol mu_filter_lastbuf out osize =
      x_eof dot_decode_end (length out - 1) (newline_terminated bs)"
proof -
  have "xst (dot_encoder st mu_filter_init [] 0) = dot_encode_init" by (simp add: x_quiet_def)
  then obtain fuel0 where
    "\<forall>fuel \<ge> fuel0. mem_filter_read dot_encoder st fuel ns bs = Some (dot_enc dot_encode_init bs)"
    using dot_enc_mem.mem_reads[where xdata = st and ns = ns and bs = bs] assms(1,2) by auto
  then show ?thesis using dot_decoder_enc[OF assms(3)] by blast
qed

theorem dot_read_complete_witness:
  "\<exists>fuel0. \<forall>fuel \<ge> fuel0. \<exists>out.
    mem_filter_read dot_encoder dot_encode_init fuel [3, 3, 3, 3, 3, 3] [DOT] = Some out \<and>
    dot_decoder dot_decode_bol mu_filter_lastbuf out 3 =
      x_eof dot_decode_end (length out - 1) (newline_terminated [DOT])"
  using dot_read_complete[of "[3, 3, 3, 3, 3, 3]" "[DOT]" 3 dot_encode_init]
  by (simp add: dot_new_encode_state_def newline_terminated_def)

text \<open>C3. Reading from memory through the encoder of the SMTP data phase (CRLFDOT) delivers the
  whole encoded text, and if the text has no carriage return of its own, the CRLFDOT decoder,
  called with room for the result, gives back the text, completed by a newline if its last line
  had none, and announces the end of the stream.\<close>

theorem crlfdot_read_complete:
  assumes "\<forall>n \<in> set ns. 0 < n" "length (crlfdot_enc (crlfdot_alloc_state argv) bs) \<le> length ns"
    and "CR \<notin> set bs" "length bs + 3 \<le> osize"
  shows "\<exists>fuel0. \<forall>fuel \<ge> fuel0. \<exists>out.
    mem_filter_read crlfdot_encoder (crlfdot_alloc_state argv) fuel ns bs = Some out \<and>
    crlfdot_decoder crlfdot_decode_init mu_filter_lastbuf out osize =
      x_eof crlfdot_decode_end (length out) (newline_terminated bs)"
proof -
  let ?st = "xst (crlfdot_encoder (crlfdot_alloc_state argv) mu_filter_init [] 0)"
  have st: "?st = crlfdot_alloc_state argv" "crlfdot_at (crlfdot_alloc_state argv) = crlfdot_encode_init"
    by (simp_all add: x_quiet_def crlfdot_alloc_state_def)
  from crlfdot_enc_mem.mem_reads[where xdata = "crlfdot_alloc_state argv" and ns = ns and bs = bs]
  obtain fuel0 where
    "\<forall>fuel \<ge> fuel0. mem_filter_read crlfdot_encoder (crlfdot_alloc_state argv) fuel ns bs =
       Some (crlfdot_enc (crlfdot_alloc_state argv) bs)"
    unfolding st(1) using assms(1,2) by blast
  moreover have "crlfdot_decoder crlfdot_decode_init mu_filter_lastbuf
      (crlfdot_enc (crlfdot_alloc_state argv) bs) osize =
    x_eof crlfdot_decode_end (length (crlfdot_enc (crlfdot_alloc_state argv) bs)) (newline_terminated bs)"
    unfolding newline_terminated_def by (rule crlfdot_dec_enc[OF assms(3,4) st(2)]) simp
  ultimately show ?thesis by blast
qed

theorem crlfdot_read_complete_witness:
  "\<exists>fuel0. \<forall>fuel \<ge> fuel0. \<exists>out.
    mem_filter_read crlfdot_encoder (crlfdot_alloc_state [''CRLFDOT'']) fuel (replicate 9 3) [DOT, LF] = Some out \<and>
    crlfdot_decoder crlfdot_decode_init mu_filter_lastbuf out 5 =
      x_eof crlfdot_decode_end (length out) (newline_terminated [DOT, LF])"
  using crlfdot_read_complete[of "replicate 9 3" "[''CRLFDOT'']" "[DOT, LF]" 5]
  by (simp add: crlfdot_alloc_state_def crlfdot_new_encode_state_def)

text \<open>C4. The CRLF encoder does not depend on how the stream cuts its input and its output room:
  calls with any windows that consume the whole input write what one call with unbounded room
  would write.\<close>

theorem crlf_any_windows:
  assumes "feeds crlf_encoder (st, bs, []) ws = (st', [], out)"
  shows "out = crlf_enc st bs"
  by (rule crlf_enc.feeds_chunking[OF _ _ assms]) simp_all

theorem crlf_any_windows_witness:
  "[97, CR, LF] = crlf_enc (crlf_alloc_state [''CRLF'']) [97, LF]"
  by (rule crlf_any_windows[of _ _ "[(1, 4), (1, 4)]" "crlf_alloc_state [''CRLF'']\<lparr>crlf_last := state_init, crlf_cur := state_init\<rparr>"])
    (simp add: crlf_alloc_state_def x_defs)

text \<open>Decoding undoes encoding for a CRLF filter without options, as long as the text does not
  end in a carriage return.\<close>

theorem crlf_round_trip:
  assumes "bs = [] \<or> last bs \<noteq> CR"
  shows "crlf_dec (crlf_enc (crlf_alloc_state [''CRLF'']) bs) = bs"
  using assms by (intro crlf_dec_enc) (simp_all add: crlf_alloc_state_def)

theorem crlf_round_trip_witness:
  "crlf_dec (crlf_enc (crlf_alloc_state [''CRLF'']) [CR, LF, 97]) = [CR, LF, 97]"
  by (rule crlf_round_trip) simp

text \<open>C6. With option \<open>-n\<close> the CRLF encoder, read from memory in pieces of any positive sizes, as
  many as there are bytes to come, delivers the text with a carriage return in front of each
  newline that does not directly follow one, and nothing else changed; read through the encoder once
  more, that text comes out as it is.\<close>

theorem crlf_normalizes:
  assumes "\<forall>n \<in> set ns. 0 < n" "length (crlf_canonical bs) \<le> length ns"
  shows "\<exists>fuel0. \<forall>fuel \<ge> fuel0.
    mem_filter_read crlf_encoder (crlf_alloc_state [''RFC822'', ''-n'']) fuel ns bs =
      Some (crlf_canonical bs) \<and>
    mem_filter_read crlf_encoder (crlf_alloc_state [''RFC822'', ''-n'']) fuel ns (crlf_canonical bs) =
      Some (crlf_canonical bs)"
proof -
  let ?st = "crlf_alloc_state [''RFC822'', ''-n'']"
  have st: "crlf_last ?st = state_cr" "crlf_cur ?st \<noteq> state_cr" by (simp_all add: crlf_alloc_state_def)
  have init: "xst (crlf_encoder ?st mu_filter_init [] 0) = ?st"
    by (simp add: crlf_alloc_state_def x_quiet_def)
  note reads = crlf_enc_mem.mem_reads[where xdata = ?st and ns = ns]
  obtain fuel1 fuel2 where
    "\<forall>fuel \<ge> fuel1. mem_filter_read crlf_encoder ?st fuel ns bs = Some (crlf_canonical bs)"
    "\<forall>fuel \<ge> fuel2. mem_filter_read crlf_encoder ?st fuel ns (crlf_canonical bs) = Some (crlf_canonical bs)"
    using reads[of bs] reads[of "crlf_canonical bs"] assms
    unfolding init crlf_enc_canonical[OF st] crlf_canonical_id by auto
  then show ?thesis by (auto intro!: exI[of _ "max fuel1 fuel2"])
qed

theorem crlf_normalizes_witness:
  "\<exists>fuel0. \<forall>fuel \<ge> fuel0.
    mem_filter_read crlf_encoder (crlf_alloc_state [''RFC822'', ''-n'']) fuel [4, 1, 9, 2, 2] [CR, LF, LF, CR] =
      Some (crlf_canonical [CR, LF, LF, CR]) \<and>
    mem_filter_read crlf_encoder (crlf_alloc_state [''RFC822'', ''-n'']) fuel [4, 1, 9, 2, 2]
        (crlf_canonical [CR, LF, LF, CR]) =
      Some (crlf_canonical [CR, LF, LF, CR])"
proof -
  have "crlf_canonical [CR, LF, LF, CR] = [CR, LF, CR, LF, CR]" by code_simp
  then show ?thesis using crlf_normalizes[of "[4, 1, 9, 2, 2]" "[CR, LF, LF, CR]"] by simp
qed

text \<open>C7. One call of the FROM encoder in its first state, with room for its result, takes the text up to an
  unfinished mark: an end of the text that starts a line and is a proper prefix of \<open>From \<close> stays
  unread, and if it is all there is, the call asks for more input. What is taken is written with a
  \<open>>\<close> in front of every \<open>From \<close> that starts a line, so that no line of the result starts with the
  mark.\<close>

theorem from_encoder_safe:
  assumes "length (from_quote True bs) \<le> osize" "cmd \<in> {mu_filter_xcode, mu_filter_lastbuf}"
    and "r = from_encoder from_encode_init cmd bs osize"
  shows "(if bs \<noteq> [] \<and> from_taken True bs = [] then xres r = mu_filter_moreinput
      else xres r = mu_filter_ok \<and> xisize r = length (from_taken True bs) \<and>
        xout r = from_quote True (from_taken True bs)) \<and>
    no_from_line True (xout r) \<and>
    (\<exists>n < 5. bs = from_taken True bs @ take n FROM_MARK_STR)"
proof -
  have "\<exists>n < 5. bs = from_taken True bs @ take n FROM_MARK_STR"
    using from_held_mark[of True bs] from_taken_held[of bs True] by auto
  then show ?thesis
    using from_encoder_whole[OF assms(1,2)] assms(3)
    by (auto simp: x_defs from_quote_no_from_line split: if_splits)
qed

theorem from_encoder_safe_witness:
  "xisize (from_encoder from_encode_init mu_filter_xcode (FROM_MARK_STR @ LF # take 2 FROM_MARK_STR) 9) = 6 \<and>
   xout (from_encoder from_encode_init mu_filter_xcode (FROM_MARK_STR @ LF # take 2 FROM_MARK_STR) 9) =
     GT_FROM_MARK_STR @ [LF]"
proof -
  have "length (from_quote True (FROM_MARK_STR @ LF # take 2 FROM_MARK_STR)) \<le> 9"
    "from_taken True (FROM_MARK_STR @ LF # take 2 FROM_MARK_STR) = FROM_MARK_STR @ [LF]"
    "from_quote True (FROM_MARK_STR @ [LF]) = GT_FROM_MARK_STR @ [LF]"
    "FROM_MARK_STR @ [LF] \<noteq> []" "length (FROM_MARK_STR @ [LF]) = 6"
    by code_simp+
  then show ?thesis
    using from_encoder_safe[of "FROM_MARK_STR @ LF # take 2 FROM_MARK_STR" 9 mu_filter_xcode]
    by (metis insertI1)
qed

text \<open>C8. The FROM encoder for reading, then its decoder, give back any text of whole lines without a
  run of \<open>>\<close> that an \<open>int\<close> cannot count: the lines of \<open>>\<close> and \<open>From \<close> get one more and lose
  it again. Each is called once, with room for one byte more than its result; the program counts
  the \<open>>\<close> in an \<open>int\<close>, to which one and the five bytes of the mark are added, hence the bound.\<close>

theorem fromrd_round_trip:
  assumes "bs = [] \<or> last bs = LF" "\<forall>n. sublist (replicate n GT_C) bs \<longrightarrow> int n + 6 \<le> INT_MAX"
    and "length (fromrd_enc fromrd_start bs) < osize1" "length bs < osize2"
    and "r = fromrd_encoder fromrd_start mu_filter_lastbuf bs osize1"
  shows "xres r = mu_filter_ok \<and> xisize r = length bs \<and>
    (\<exists>st. fromrd_decoder fromrd_start mu_filter_lastbuf (xout r) osize2 = x_ok st (xosize r) bs)"
proof -
  have start: "fromrd_wf fromrd_start" "fromrd_dec_wf fromrd_start"
    by (simp_all add: fromrd_start_def fromrd_wf_def fromrd_dec_wf_def)
  obtain st where enc: "r = x_ok st (length bs) (fromrd_enc fromrd_start bs)"
    using fromrd_loop_ref[where act = fromrd_encoder_act and out = "[]" and inp = bs and osize = osize1
        and isize = "length bs" and i = 0, OF fromrd_encoder_act_wf start(1)
        fromrd_fits_both(1)[OF assms(2)]] assms(3,5) by auto
  obtain st' where "fromrd_decoder fromrd_start mu_filter_lastbuf (fromrd_enc fromrd_start bs) osize2 =
      x_ok st' (length (fromrd_enc fromrd_start bs)) bs"
    using fromrd_loop_ref[where act = fromrd_decoder_act and out = "[]" and inp = "fromrd_enc fromrd_start bs"
        and osize = osize2 and isize = "length (fromrd_enc fromrd_start bs)" and i = 0,
        OF fromrd_decoder_act_wf start(2) fromrd_fits_both(2)[OF assms(2)]]
      fromrd_dec_enc[OF assms(1)] assms(4) by auto
  then show ?thesis by (simp add: enc x_defs)
qed

theorem fromrd_round_trip_witness:
  "\<exists>st. fromrd_decoder fromrd_start mu_filter_lastbuf
     (xout (fromrd_encoder fromrd_start mu_filter_lastbuf (GT_FROM_MARK_STR @ [97, LF]) 12)) 12 =
   x_ok st (xosize (fromrd_encoder fromrd_start mu_filter_lastbuf (GT_FROM_MARK_STR @ [97, LF]) 12))
     (GT_FROM_MARK_STR @ [97, LF])"
proof -
  have "length (fromrd_enc fromrd_start (GT_FROM_MARK_STR @ [97, LF])) < 12" by code_simp
  moreover have "int n + 6 \<le> INT_MAX" if "sublist (replicate n GT_C) (GT_FROM_MARK_STR @ [97, LF])" for n
    using sublist_length_le[OF that] by (simp add: from_marks INT_MAX_def)
  ultimately show ?thesis
    using fromrd_round_trip[of "GT_FROM_MARK_STR @ [97, LF]" 12 12] by (simp add: from_marks)
qed

text \<open>The C-escape encoder and decoder, each run as a filter over memory and read in pieces of
  any size, are inverse on text without backslashes whose control characters all have an escape.\<close>

theorem c_escape_read_round_trip:
  assumes "\<forall>n \<in> set ns. 0 < n" "length (c_escape_enc () bs) \<le> length ns" "\<forall>c \<in> set bs. c_escapable c"
  shows "\<exists>fuel0. \<forall>fuel \<ge> fuel0. \<exists>out.
    mem_filter_read c_escape_encoder () fuel ns bs = Some out \<and>
    mem_filter_read c_escape_decoder () fuel ns out = Some bs"
proof -
  have dec: "c_escape_dec (c_escape_enc () bs) = bs" by (rule c_escape_dec_enc[OF assms(3)])
  have "length bs \<le> length (c_escape_enc () bs)"
    by (induction bs) (auto simp: enc_Cons c_escape_quote_def)
  with dec assms(2) have room: "length (c_escape_dec (c_escape_enc () bs)) \<le> length ns" by simp
  obtain fuel1 where "\<forall>fuel \<ge> fuel1. mem_filter_read c_escape_encoder () fuel ns bs = Some (c_escape_enc () bs)"
    using c_escape_enc_mem.mem_reads[where xdata = "()" and ns = ns and bs = bs] assms(1,2) by auto
  moreover obtain fuel2 where
    "\<forall>fuel \<ge> fuel2. mem_filter_read c_escape_decoder () fuel ns (c_escape_enc () bs) = Some bs"
    using c_escape_dec_mem.mem_reads[where xdata = "()" and ns = ns and bs = "c_escape_enc () bs"]
      assms(1) room by (auto simp: dec)
  ultimately have "\<forall>fuel \<ge> max fuel1 fuel2. \<exists>out.
    mem_filter_read c_escape_encoder () fuel ns bs = Some out \<and>
    mem_filter_read c_escape_decoder () fuel ns out = Some bs" by auto
  then show ?thesis by blast
qed

theorem c_escape_read_round_trip_witness:
  "\<exists>fuel0. \<forall>fuel \<ge> fuel0. \<exists>out.
    mem_filter_read c_escape_encoder () fuel [1, 2, 3] [97, LF] = Some out \<and>
    mem_filter_read c_escape_decoder () fuel [1, 2, 3] out = Some [97, LF]"
proof -
  have "length (c_escape_enc () [97, LF]) \<le> 3" "c_escapable 97 \<and> c_escapable LF" by code_simp+
  then show ?thesis using c_escape_read_round_trip[of "[1, 2, 3]" "[97, LF]"] by simp
qed

text \<open>Percent decoding undoes percent encoding, when \<open>%\<close> itself is among the characters to be
  escaped and the last character of the text is not escaped.\<close>

theorem percent_round_trip:
  assumes "PERCENT \<in> set (percent_alloc argv)" "c \<noteq> NUL" "c \<notin> set (percent_alloc argv)"
    and "length bs + 1 \<le> osize"
  shows "percent_decoder () mu_filter_lastbuf (percent_enc (percent_alloc argv) (bs @ [c])) osize =
    x_ok () (length (percent_enc (percent_alloc argv) (bs @ [c]))) (bs @ [c])"
  using percent_decoder_enc[OF assms(1-3), of "[]" bs osize "[]"] assms
  by (simp add: percent_enc_def percent_quote_def)

theorem percent_round_trip_witness:
  "percent_decoder () mu_filter_lastbuf (percent_enc (percent_alloc [[], [PERCENT]]) ([PERCENT, 10] @ [97])) 3 =
    x_ok () (length (percent_enc (percent_alloc [[], [PERCENT]]) ([PERCENT, 10] @ [97]))) ([PERCENT, 10] @ [97])"
  by (rule percent_round_trip) (simp_all add: percent_alloc_def)

text \<open>The decoder of the double-quote filter reads beyond its input as soon as the input has one
  complete escape: the model answers with the failure that stands for it.\<close>

theorem dq_decoder_reads_beyond:
  assumes "BSLASH \<notin> set pre" "length pre + length post + 1 < osize"
  shows "xres (dq_decoder () mu_filter_xcode (pre @ BSLASH # c # post) osize) = mu_filter_failure \<and>
    xerr (dq_decoder () mu_filter_xcode (pre @ BSLASH # c # post) osize) = OUT_OF_BOUNDS"
  using dq_decoder_escape[OF assms, of c] by (simp add: x_defs)

theorem dq_decoder_reads_beyond_witness:
  "xres (dq_decoder () mu_filter_xcode [97, BSLASH, DQUOTE] 4) = mu_filter_failure \<and>
   xerr (dq_decoder () mu_filter_xcode [97, BSLASH, DQUOTE] 4) = OUT_OF_BOUNDS"
  using dq_decoder_reads_beyond[of "[97]" "[]" 4 DQUOTE] by simp

text \<open>C12. The HEADER filter read from memory delivers the header of a message up to the empty line,
  and nothing of the body.\<close>

theorem header_read_complete:
  assumes "\<forall>n \<in> set ns. 0 < n" "no_blank False (h @ [LF])" "length h + 1 \<le> length ns"
  shows "\<exists>fuel0. \<forall>fuel \<ge> fuel0.
    mem_filter_read hflt_decoder st fuel ns (h @ LF # LF # body) = Some (h @ [LF])"
proof -
  have st: "xst (hflt_decoder st mu_filter_init [] 0) = hflt_initial" by (simp add: x_quiet_def)
  from hflt_dec_mem.mem_reads[where xdata = st and ns = ns and bs = "h @ LF # LF # body"] assms(1,3)
  show ?thesis unfolding st hflt_dec_header[OF assms(2)] by simp
qed

theorem header_read_complete_witness:
  "\<exists>fuel0. \<forall>fuel \<ge> fuel0.
    mem_filter_read hflt_decoder hflt_initial fuel [1, 5] ([97] @ LF # LF # [98]) = Some ([97] @ [LF])"
  by (rule header_read_complete) simp_all

text \<open>C13. One call of the LINELEN encoder with room for its whole result, for a length that is not
  zero, consumes the whole text and writes lines of at most the set length; it does so by inserting
  newlines only: the text is a subsequence of the result, and both are the same without newlines.
  (With less room a line end can be lost where the output buffer ends.)\<close>

theorem linelen_bounded:
  assumes "ll_wf flt" "length (ll_enc (flt\<lparr>ll_cur_len := 0\<rparr>) bs) \<le> osize"
    and "r = ll_encoder (xst (ll_encoder flt mu_filter_init [] 0)) mu_filter_xcode bs osize"
  shows "xres r = mu_filter_ok \<and> xisize r = length bs \<and>
    lines_within (unat (ll_max_len flt)) 0 (xout r) \<and>
    subseq bs (xout r) \<and>
    filter (\<lambda>c. c \<noteq> LF) (xout r) = filter (\<lambda>c. c \<noteq> LF) bs"
proof -
  let ?flt = "flt\<lparr>ll_cur_len := 0\<rparr>"
  obtain flt' where r: "r = x_ok flt' (length bs) (ll_enc ?flt bs)"
    using ll_encoder_whole[OF ll_wf_reset[OF assms(1)], of "[]" bs osize 0] assms(2,3)
    by (auto simp: x_quiet_def)
  have "lines_within (unat (ll_max_len flt)) 0 (ll_enc ?flt bs)"
    using ll_enc_within[OF ll_wf_reset[OF assms(1)], of bs] by simp
  with r show ?thesis by (simp add: x_defs ll_enc_text ll_enc_subseq)
qed

theorem linelen_bounded_witness:
  "lines_within 2 0 (xout (ll_encoder \<lparr>ll_max_len = 2, ll_cur_len = 0\<rparr> mu_filter_xcode [97, 98, LF, 99] 7)) \<and>
   subseq [97, 98, LF, 99] (xout (ll_encoder \<lparr>ll_max_len = 2, ll_cur_len = 0\<rparr> mu_filter_xcode [97, 98, LF, 99] 7))"
  using linelen_bounded[of "\<lparr>ll_max_len = 2, ll_cur_len = 0\<rparr>" "[97, 98, LF, 99]" 7]
  by (simp add: ll_wf_def x_quiet_def)

text \<open>LINECON without line information joins each line that ends in a backslash with the next,
  in one call with enough room.\<close>

theorem linecon_joins:
  assumes "linecon_alloc_state argv = Inr pd" "\<not> lc_line_info pd" "length bs \<le> osize"
  shows "\<exists>pd'. linecon_decoder pd mu_filter_xcode bs osize = x_ok pd' (length bs) (linecon_join False bs)"
proof -
  have "linecon_plain pd" "lc_state pd = linecon_init"
    using assms(1,2) by (auto simp: linecon_alloc_state_def linecon_plain_def Let_def
        split: sum.splits option.splits if_splits)
  then show ?thesis using linecon_decoder_joins[of pd "[]" bs osize 0] assms(3) by simp
qed

theorem linecon_joins_witness:
  "\<exists>pd pd'. linecon_decoder pd mu_filter_xcode [97, BSLASH, LF, 98] 4 =
    x_ok pd' (length [97 :: byte, BSLASH, LF, 98]) [97, 98]"
proof -
  obtain pd where "linecon_alloc_state [''LINECON''] = Inr pd" "\<not> lc_line_info pd"
    by (simp add: linecon_alloc_state_def Let_def)
  moreover have "linecon_join False [97, BSLASH, LF, 98] = [97, 98]" by simp
  ultimately show ?thesis using linecon_joins[of "[''LINECON'']" pd "[97, BSLASH, LF, 98]" 4] by auto
qed

text \<open>C15. The line number LINECON reports advances by the newlines consumed, in any call.\<close>

theorem linecon_counts:
  assumes "r = linecon_decoder pd mu_filter_xcode bs osize" "xres r = mu_filter_ok"
  shows "xisize r \<le> length bs \<and>
    lc_line_number (xst r) = lc_line_number pd + of_nat (count_list (take (xisize r) bs) LF)"
  using linecon_decoder_counts[of 0 pd bs osize "[]"] assms by (simp add: linecon_counted_def)

theorem linecon_counts_witness:
  "\<exists>pd pd'. linecon_decoder pd mu_filter_xcode [LF, BSLASH, LF, 98] 9 =
    x_ok pd' (length [LF, BSLASH, LF, 98]) [LF, 98]
     \<and> lc_line_number pd' = lc_line_number pd + 2"
proof -
  let ?pd = "\<lparr>lc_line_info = False, lc_static = False, lc_continuation = False, lc_state = linecon_init,
    lc_starter = [], lc_line_number = 1, lc_buf = [], lc_replay = 0\<rparr>"
  have "linecon_alloc_state [] = Inr ?pd" by (simp add: linecon_alloc_state_def)
  let ?r = "linecon_decoder ?pd mu_filter_xcode [LF, BSLASH, LF, 98] 9"
  obtain pd' where r: "?r = x_ok pd' (length [LF, BSLASH, LF, 98]) [LF, 98]"
    using linecon_decoder_joins[of ?pd "[]" "[LF, BSLASH, LF, 98]" 9 0] by (auto simp: linecon_plain_def)
  moreover have "xres ?r = mu_filter_ok" "xisize ?r = 4" "xst ?r = pd'"
    unfolding r by (simp_all add: x_defs)
  ultimately show ?thesis using linecon_counts[of ?r ?pd "[LF, BSLASH, LF, 98]" 9] by (intro exI) auto
qed

section \<open>Character classes\<close>

text \<open>C16. The class table marks exactly the tspecials of RFC 2045, the specials of RFC 2822, as atom
  constituents the printable characters that are neither special nor space, and as header name
  constituents letters, digits, hyphen and underscore; printable characters are the graphic ones and
  the space, graphic ones letters, digits and punctuation. (The class of control characters that are
  not white space is not among these; the table has NUL in it, which RFC 2822 has not.)\<close>

theorem ctype_classes:
  "(mu_istspec c \<longleftrightarrow> c \<in> set rfc2045_tspecials) \<and> (mu_isimspc c \<longleftrightarrow> c \<in> set rfc2822_specials) \<and>
   (mu_isimatm c \<longleftrightarrow> mu_isgraph c \<and> \<not> mu_isimspc c) \<and>
   (mu_isheadr c \<longleftrightarrow> mu_isalnum c \<or> c = USCORE \<or> c = 45) \<and>
   (mu_isprint c \<longleftrightarrow> mu_isgraph c \<or> c = SPC) \<and> (mu_isgraph c \<longleftrightarrow> mu_isalnum c \<or> mu_ispunct c)"
proof (intro conjI)
  show "mu_isgraph c \<longleftrightarrow> mu_isalnum c \<or> mu_ispunct c"
    by (rule all_bytesI[of "\<lambda>c. mu_isgraph c \<longleftrightarrow> mu_isalnum c \<or> mu_ispunct c"]) code_simp+
  show "mu_isprint c \<longleftrightarrow> mu_isgraph c \<or> c = SPC"
    by (rule all_bytesI[of "\<lambda>c. mu_isprint c \<longleftrightarrow> mu_isgraph c \<or> c = SPC"]) code_simp+
qed (auto simp: mu_istspec_iff mu_isimspc_iff mu_isimatm_iff mu_isgraph_iff mu_isheadr_iff mu_isalnum_iff)

section \<open>Memory streams\<close>

text \<open>What is written to a memory stream is there: after a write the contents are the old
  contents with the written bytes over them, the stream still fits its block, and seeking back
  and reading returns the bytes.\<close>

theorem memory_write_read:
  assumes "ms_wf mfs" "ms_offset mfs \<le> ms_size mfs" "bs \<noteq> []"
    and "memory_write fill mfs bs = (n, mfs1)" "memory_seek mfs1 (int (ms_offset mfs)) = Inr mfs2"
  shows "n = length bs \<and> ms_wf mfs1 \<and>
    ms_data mfs1 = take (ms_offset mfs) (ms_data mfs) @ bs @ drop (ms_offset mfs + length bs) (ms_data mfs) \<and>
    fst (memory_read mfs2 (length bs)) = bs"
proof -
  note wr = memory_write_data[OF assms(1,2,4)]
  have mfs2: "mfs2 = mfs1\<lparr>ms_offset := ms_offset mfs\<rparr>" using assms(5) by (simp add: memory_seek_def)
  have wf2: "ms_wf mfs2" "ms_data mfs2 = ms_data mfs1"
    using wr by (simp_all add: mfs2 ms_defs split: option.split)
  obtain cs mfs3 where rd: "memory_read mfs2 (length bs) = (cs, mfs3)" by fastforce
  have "length (take (ms_offset mfs) (ms_data mfs)) = ms_offset mfs"
    using assms(1,2) ms_wf_len[of mfs] by simp
  then have "ms_rest mfs2 = bs @ drop (ms_offset mfs + length bs) (ms_data mfs)"
    using wr assms(3) wf2 by (simp add: ms_rest_def mfs2)
  with memory_read_rest(1)[OF wf2(1) rd] have "cs = bs" by simp
  with wr assms(3) rd show ?thesis by simp
qed

theorem memory_write_read_witness:
  "fst (memory_read (snd (memory_write 0 \<lparr>ms_ptr = Some [1, 2, 3], ms_size = 3, ms_offset = 1, ms_eof = False\<rparr> [7, 8, 9])
      \<lparr>ms_offset := 1\<rparr>) 3) = [7, 8, 9]"
proof -
  let ?m = "\<lparr>ms_ptr = Some [1, 2, 3], ms_size = 3, ms_offset = 1, ms_eof = False\<rparr>"
  show ?thesis
    using memory_write_read[of ?m "[7, 8, 9]" 0 "fst (memory_write 0 ?m [7, 8, 9])" "snd (memory_write 0 ?m [7, 8, 9])"
        "snd (memory_write 0 ?m [7, 8, 9])\<lparr>ms_offset := 1\<rparr>"]
    by (simp add: ms_wf_def ms_capacity_def memory_seek_def eval_nat_numeral)
qed

section \<open>Message sets\<close>

text \<open>C18. The quicksort on linked lists sorts by any comparator that decides a linear order, and the
  comparator of message ranges does.\<close>

theorem list_sort_correct:
  "list_qsort compare_msgrange rs = sort rs"
  by (rule list_qsort_sort[OF compare_decides])

text \<open>C19. Aggregation keeps the messages of a set, open ranges included; if all ranges are closed, it
  leaves them in order with at least one message missing between any two.\<close>

theorem msgset_aggregate_normal:
  assumes "\<forall>r \<in> set (mg_list ms). range_ok r" "mg_aggregated ms \<longrightarrow> separated (mg_list ms)"
  shows "mg_msgs (mu_msgset_aggregate ms) = mg_msgs ms \<and>
    ((\<forall>r \<in> set (mg_list ms). range_closed r) \<longrightarrow> separated (mg_list (mu_msgset_aggregate ms)))"
  using aggr_ranges_msgs[OF assms(1)] aggregate_closed(1)[of ms] assms(2)
  by (auto simp: mu_msgset_aggregate_def mg_msgs_def mg_closed_def)

theorem msgset_aggregate_normal_witness:
  "mg_msgs (mu_msgset_aggregate \<lparr>mg_list = [Msgrange 4 6, Msgrange 1 3], mg_mbox = None, mg_mode = 0, mg_aggregated = False\<rparr>)
    = {1..6}"
proof -
  let ?ms = "\<lparr>mg_list = [Msgrange 4 6, Msgrange 1 3], mg_mbox = None, mg_mode = 0, mg_aggregated = False\<rparr>"
  have "mg_msgs ?ms = {4..6} \<union> {1..3}" by (simp add: mg_msgs_def range_msgs_def MU_MSGNO_LAST_def)
  also have "\<dots> = {1..6}" by auto
  finally show ?thesis using msgset_aggregate_normal[of ?ms] by (simp add: range_ok_def)
qed

text \<open>C20. Every message set that is made from a new one by adding closed ranges, removing ranges
  (closed or open), aggregating and clearing, all in the mode of the set, consists of closed ranges;
  when it is marked as aggregated, it is in normal form. Copying, translation and the adding of
  open ranges are not among these steps, nor is a removal up to \<open>SIZE_MAX\<close> from a set that has
  that number, where the program's sum wraps.\<close>

theorem msgset_reachable_normal:
  assumes "msgset_step\<^sup>*\<^sup>* (mu_msgset_create mbox mode) ms"
  shows "(\<forall>r \<in> set (mg_list ms). 1 \<le> msg_beg r \<and> msg_beg r \<le> msg_end r) \<and>
    (mg_aggregated ms \<longrightarrow> separated (mg_list ms))"
  using msgset_reachable_closed[OF assms] by (simp add: mg_closed_def range_closed_def)

theorem msgset_reachable_normal_witness:
  "separated (mg_list (mu_msgset_aggregate (fst (mu_msgset_add_range (mu_msgset_create None 0) 4 2 0))))"
proof -
  let ?ms0 = "mu_msgset_create None 0"
  let ?ms1 = "fst (mu_msgset_add_range ?ms0 4 2 0)"
  have "msgset_step ?ms0 ?ms1"
    by (rule msgset_step.add[of 2 _ 4])
      (simp_all add: mu_msgset_add_range_def mu_msgset_create_def ordered_pair_def MU_MSGNO_LAST_def)
  then have "msgset_step\<^sup>*\<^sup>* ?ms0 (mu_msgset_aggregate ?ms1)"
    using msgset_step.aggregate by (meson rtranclp.rtrancl_into_rtrancl r_into_rtranclp)
  from msgset_reachable_normal[OF this] show ?thesis
    by (simp add: mu_msgset_aggregate_def mu_msgset_add_range_def mu_msgset_create_def ordered_pair_def
        separated_Cons range_closed_def MU_MSGNO_LAST_def)
qed

text \<open>C21. Removing a range from a set of closed ranges removes exactly its messages, except that one
  more may go: the message behind the range, when it is the last of a range of the set that begins
  inside the part removed and is not the first one. The end of the range is not open, and either it
  is below \<open>SIZE_MAX\<close> or all numbers of the set are.\<close>

theorem msgset_sub_exact:
  assumes "mg_closed ms" "mg_list ms \<noteq> []" "e \<noteq> MU_MSGNO_LAST"
    and "max beg e < SIZE_T_MAX \<or> (\<forall>r \<in> set (mg_list ms). msg_end r < SIZE_T_MAX)"
  shows "\<exists>ms'. mu_msgset_sub_range ms beg e (mg_mode ms) = (ms', None) \<and> mg_closed ms' \<and>
    mg_msgs ms' = mg_msgs ms - {min beg e..max beg e} -
      (if \<exists>r \<in> set (tl (mg_list (mu_msgset_aggregate ms))).
            min beg e < msg_beg r \<and> msg_beg r \<le> max beg e \<and> msg_end r = max beg e + 1
       then {max beg e + 1} else {})"
  using sub_range_msgs[OF assms(1-3), of beg] assms(4) unfolding sub_lost_def sub_in_range_def by blast

theorem msgset_sub_exact_witness:
  "\<exists>ms'. mu_msgset_sub_range \<lparr>mg_list = [Msgrange 1 2, Msgrange 5 10], mg_mbox = None, mg_mode = 0, mg_aggregated = True\<rparr> 3 9 0
      = (ms', None) \<and> mg_msgs ms' = {1..2}"
proof -
  let ?ms = "\<lparr>mg_list = [Msgrange 1 2, Msgrange 5 10], mg_mbox = None, mg_mode = 0, mg_aggregated = True\<rparr>"
  have "mg_closed ?ms" by (simp add: mg_closed_def separated_Cons range_closed_def)
  moreover have "mu_msgset_aggregate ?ms = ?ms" by (simp add: mu_msgset_aggregate_def)
  moreover have "mg_msgs ?ms = {1..2} \<union> {5..10}"
    by (simp add: mg_msgs_def range_msgs_def MU_MSGNO_LAST_def)
  moreover have "({1..2} \<union> {5..10}) - {3..9} - {10} = {1..2 :: nat}" by auto
  ultimately show ?thesis using msgset_sub_exact[of ?ms 9 3] by (simp add: MU_MSGNO_LAST_def SIZE_T_MAX_def) blast
qed

text \<open>C22. Negating a set of closed ranges within its mailbox gives the messages that are not in it,
  but for those that stand alone between two messages of the set or between one and an end of
  the mailbox.\<close>

theorem msgset_negate_exact:
  assumes "mg_closed ms" "mg_mode ms = MU_MSGSET_NUM" "mg_mbox ms = Some mbox" "mbx_count mbox = Inr tot"
    and "mg_msgs ms \<subseteq> {1..tot}"
  shows "\<exists>ms' nset. mu_msgset_negate ms = (ms', Inr nset) \<and> mg_msgs ms' = mg_msgs ms \<and>
    mg_msgs nset = {x \<in> {1..tot}. x \<notin> mg_msgs ms \<and>
      \<not> ((x = 1 \<or> x - 1 \<in> mg_msgs ms) \<and> (x + 1 \<in> mg_msgs ms \<or> x = tot))}"
proof -
  have "{x \<in> {1..tot}. x \<notin> mg_msgs ms \<and> \<not> ((x = 1 \<or> x - 1 \<in> mg_msgs ms) \<and> (x + 1 \<in> mg_msgs ms \<or> x = tot))}
      = {1..tot} - mg_msgs ms - lonely tot (mg_msgs ms)" by (auto simp: lonely_def)
  then show ?thesis using negate_msgs[OF assms] by simp
qed

theorem msgset_negate_exact_witness:
  "\<exists>mbox ms' nset. mu_msgset_negate \<lparr>mg_list = [Msgrange 2 3], mg_mbox = Some mbox, mg_mode = 0, mg_aggregated = False\<rparr>
      = (ms', Inr nset) \<and> 1 \<notin> mg_msgs nset \<and> 5 \<in> mg_msgs nset"
proof -
  let ?mbox = "\<lparr>mbx_count = Inr 5, mbx_uidnext = Inr 6, mbx_to_msgno = Inr, mbx_to_uid = Inr\<rparr>"
  let ?ms = "\<lparr>mg_list = [Msgrange 2 3], mg_mbox = Some ?mbox, mg_mode = 0, mg_aggregated = False\<rparr>"
  have "mg_closed ?ms" by (simp add: mg_closed_def range_closed_def)
  moreover have "mg_msgs ?ms = {2..3}" by (simp add: mg_msgs_def range_msgs_def MU_MSGNO_LAST_def)
  ultimately obtain ms' nset where "mu_msgset_negate ?ms = (ms', Inr nset)"
    "mg_msgs nset = {x \<in> {1..5}. x \<notin> {2..3} \<and> \<not> ((x = 1 \<or> x - 1 \<in> {2..3}) \<and> (x + 1 \<in> {2..3} \<or> x = 5))}"
    using msgset_negate_exact[of ?ms ?mbox 5] by (auto simp: mode_defs)
  then have "mu_msgset_negate ?ms = (ms', Inr nset) \<and> 1 \<notin> mg_msgs nset \<and> 5 \<in> mg_msgs nset" by simp
  then show ?thesis by blast
qed

text \<open>C23. After aggregation \<open>mu_msgset_count\<close> counts the messages of a set of closed ranges, modulo the
  range of \<open>size_t\<close>.\<close>

theorem msgset_count_card:
  assumes "mg_closed ms"
  shows "mu_msgset_count (mu_msgset_aggregate ms) = card (mg_msgs ms) mod 2 ^ 64"
  using count_separated[OF aggregate_closed(1)[OF assms], of 0] aggregate_closed(2)[OF assms]
  by (simp add: mu_msgset_count_def mg_msgs_def)

theorem msgset_count_card_witness:
  "mu_msgset_count (mu_msgset_aggregate \<lparr>mg_list = [Msgrange 4 6, Msgrange 5 9], mg_mbox = None, mg_mode = 0, mg_aggregated = False\<rparr>)
    = card {4..9 :: nat} mod 2 ^ 64"
proof -
  have "{4..6} \<union> {5..9} = {4..9 :: nat}" by auto
  then show ?thesis
    using msgset_count_card[of "\<lparr>mg_list = [Msgrange 4 6, Msgrange 5 9], mg_mbox = None, mg_mode = 0, mg_aggregated = False\<rparr>"]
    by (simp add: mg_closed_def range_closed_def mg_msgs_def range_msgs_def MU_MSGNO_LAST_def)
qed

text \<open>\<open>mu_msgset_locate\<close> finds the range a message is in exactly when the message is in the set of
  closed ranges, and says \<open>MU_ERR_NOENT\<close> otherwise.\<close>

theorem msgset_locate_member:
  assumes "mg_closed ms" "n \<noteq> 0"
  shows "case snd (mu_msgset_locate ms n) of
      Inr r \<Rightarrow> n \<in> range_msgs r \<and> n \<in> mg_msgs ms
    | Inl err \<Rightarrow> err = MU_ERR_NOENT \<and> n \<notin> mg_msgs ms"
  using locate_msgs[OF assms] by (auto split: sum.splits)

theorem msgset_locate_member_witness:
  "snd (mu_msgset_locate \<lparr>mg_list = [Msgrange 4 6], mg_mbox = None, mg_mode = 0, mg_aggregated = False\<rparr> 3) = Inl MU_ERR_NOENT"
  using msgset_locate_member[of "\<lparr>mg_list = [Msgrange 4 6], mg_mbox = None, mg_mode = 0, mg_aggregated = False\<rparr>" 3]
  by (auto simp: mg_closed_def range_closed_def mg_msgs_def range_msgs_def MU_MSGNO_LAST_def split: sum.splits)

text \<open>Iterating over a set of closed ranges applies the action to its messages one after the other
  in increasing order, until the action returns an error.\<close>

theorem msgset_foreach_in_order:
  assumes "mg_closed ms"
  shows "snd (mu_msgset_foreach_num ms (mg_mode ms) False act s) =
    list_foreach act (sorted_list_of_set (mg_msgs ms)) s"
  by (rule foreach_num_msgs[OF assms])

theorem msgset_foreach_in_order_witness:
  "snd (mu_msgset_foreach_num \<lparr>mg_list = [Msgrange 5 6, Msgrange 1 1], mg_mbox = None, mg_mode = 0, mg_aggregated = False\<rparr> 0 False
      (\<lambda>n ns. (ns @ [n], None)) []) = list_foreach (\<lambda>n ns. (ns @ [n], None)) (sorted_list_of_set ({5..6} \<union> {1..1})) []"
  using msgset_foreach_in_order[of "\<lparr>mg_list = [Msgrange 5 6, Msgrange 1 1], mg_mbox = None, mg_mode = 0, mg_aggregated = False\<rparr>"
      "\<lambda>n ns. (ns @ [n], None)" "[]"]
  by (simp add: mg_closed_def range_closed_def mg_msgs_def range_msgs_def MU_MSGNO_LAST_def)

text \<open>C26. A message set that is not empty, printed for IMAP and parsed again, without a mailbox to limit
  the numbers, has the same messages, open ranges included. Its numbers fit into an unsigned long.
  (An empty set is printed as \<open>NIL\<close>, which is no message set to the parser.)\<close>

theorem msgset_print_parse:
  assumes "\<forall>r \<in> set (mg_list ms). range_ok r" "mg_list ms \<noteq> []" "mg_aggregated ms \<longrightarrow> separated (mg_list ms)"
    and "\<forall>r \<in> set (mg_list (mu_msgset_aggregate ms)). msg_beg r \<le> ULONG_MAX \<and> msg_end r \<le> ULONG_MAX"
  shows "\<exists>ms'. mu_msgset_parse_imap (mu_msgset_create None mode) mode (snd (mu_stream_msgset_format msgset_fmt_imap ms)) =
      (ms', None, []) \<and> mg_msgs ms' = mg_msgs ms"
proof -
  let ?rs = "mg_list (mu_msgset_aggregate ms)" and ?new = "mu_msgset_create None mode"
  have new: "mg_mbox ?new = None" "mg_mode ?new = mode" "mg_msgs ?new = {}"
    by (simp_all add: mu_msgset_create_def mg_msgs_def)
  have "msgs ?rs = mg_msgs ms" "\<forall>r \<in> set ?rs. range_ok r"
    using aggr_ranges_msgs[OF assms(1)] assms(1) by (auto simp: mu_msgset_aggregate_def mg_msgs_def)
  with print_parse_ranges[of ?rs ?new] assms(2,4) new show ?thesis
    by (auto simp: mu_stream_msgset_format_def aggregate_empty Let_def)
qed

theorem msgset_print_parse_witness:
  "\<exists>ms'. mu_msgset_parse_imap (mu_msgset_create None 0) 0 (snd (mu_stream_msgset_format msgset_fmt_imap
      \<lparr>mg_list = [Msgrange 7 0], mg_mbox = None, mg_mode = 0, mg_aggregated = False\<rparr>)) = (ms', None, []) \<and>
    mg_msgs ms' = {7..}"
  using msgset_print_parse[of "\<lparr>mg_list = [Msgrange 7 0], mg_mbox = None, mg_mode = 0, mg_aggregated = False\<rparr>" 0]
  by (simp add: mu_msgset_aggregate_def range_ok_def mg_msgs_def range_msgs_def MU_MSGNO_LAST_def ULONG_MAX_def)

text \<open>C27. Translating a range of UIDs can lose a message: when the first UID of the range does not exist
  and the next one does, and ends just before the end of the range, the end is taken to be that
  message as well.\<close>

theorem translate_uids_loses:
  assumes "mg_mbox ms = Some mbox" "mbx_to_msgno mbox u = Inl MU_ERR_NOENT" "mbx_to_msgno mbox (u + 1) = Inr n"
    and "u \<noteq> 0"
  shows "translate_pair ms MU_MSGSET_NUM (u, u + 2) = Inr (n, n)"
proof -
  have "trans_up (mailbox_translate mbox MU_MSGSET_NUM) u (u + 2) = Inr (n, u + 2)"
    using assms by (subst trans_up.simps, simp add: mailbox_translate_def)
      (subst trans_up.simps, simp add: mailbox_translate_def)
  then show ?thesis
    using assms by (simp add: translate_pair_def translate_beg_def mailbox_translate_def mode_defs)
qed

theorem translate_uids_loses_witness:
  "\<exists>mbox. mbx_to_msgno mbox 6 = Inr 2 \<and>
    translate_pair (mu_msgset_create (Some mbox) 1) MU_MSGSET_NUM (4, 6) = Inr (1, 1)"
proof -
  let ?mbox = "\<lparr>mbx_count = Inr 2, mbx_uidnext = Inr 7,
    mbx_to_msgno = (\<lambda>u. if u = 5 then Inr 1 else if u = 6 then Inr 2 else Inl MU_ERR_NOENT),
    mbx_to_uid = (\<lambda>n. Inr (n + 4))\<rparr>"
  have "translate_pair (mu_msgset_create (Some ?mbox) 1) MU_MSGSET_NUM (4, 4 + 2) = Inr (1, 1)"
    by (rule translate_uids_loses[of _ ?mbox]) (simp_all add: mu_msgset_create_def)
  then show ?thesis by (intro exI[of _ ?mbox]) simp
qed

section \<open>Base64\<close>

text \<open>C28. Reading a block of memory through the base64 encoder in pieces of any size returns on every
  call and delivers the base64 text of the block in lines of at most 76 characters, the padding of
  the last group included.\<close>

theorem base64_read_complete:
  assumes "\<forall>n \<in> set ns. 0 < n" "length (b64_lines 76 0 (mu_base64_encode bs)) \<le> length ns"
  shows "\<exists>fuel0. \<forall>fuel \<ge> fuel0. \<exists>out.
    mem_filter_read base64_encoder base64_alloc_state fuel ns bs = Some out \<and>
    out = b64_lines 76 0 (mu_base64_encode bs) \<and> b64_short 76 0 out"
proof -
  let ?st = "xst (base64_encoder base64_alloc_state mu_filter_init [] 0)"
  have st: "base64_wf ?st" "base64_enc ?st bs = b64_lines 76 0 (mu_base64_encode bs)"
    by (simp_all add: base64_encoder_quiet base64_alloc_state_def base64_wf_def base64_enc_def b64_pending_def x_defs)
  show ?thesis
    using base64_enc_mem.mem_reads[OF st(1) assms(1), of bs] assms(2) b64_lines_short[OF _ _ mu_base64_encode_no_LF]
    unfolding st(2) by auto
qed

theorem base64_read_complete_witness:
  "\<exists>fuel0. \<forall>fuel \<ge> fuel0. \<exists>out.
    mem_filter_read base64_encoder base64_alloc_state fuel (replicate 5 3) [77, 97] = Some out \<and>
    out = b64_lines 76 0 (mu_base64_encode [77, 97]) \<and> b64_short 76 0 out"
proof -
  have "length (b64_lines 76 0 (mu_base64_encode [77, 97])) \<le> 5" by simp
  then show ?thesis using base64_read_complete[of "replicate 5 3" "[77, 97]"] by simp
qed

text \<open>C29. What \<open>mu_base64_encode\<close> writes for a text that is not empty, \<open>mu_base64_decode\<close> turns back
  into the text, as long as the length of what it is given is an \<open>int\<close>; and so does the base64
  decoder in one call with room for the text and three bytes more, without that bound, also when
  the encoded text is broken into lines of any length.\<close>

theorem base64_round_trip:
  assumes "bs \<noteq> []" "int (length (mu_base64_encode bs)) \<le> INT_MAX" "length bs + 3 < osize"
  shows "mu_base64_decode (mu_base64_encode bs) = Inr bs \<and>
    base64_decoder () mu_filter_lastbuf (b64_lines m 0 (mu_base64_encode bs)) osize =
      x_ok () (length (b64_lines m 0 (mu_base64_encode bs))) bs"
  using assms mu_base64_decode_encode[OF assms(1,2)] base64_decoder_lines[of "[]" bs osize 0 m 0] by simp

theorem base64_round_trip_witness:
  "mu_base64_decode (mu_base64_encode [77, 97]) = Inr [77, 97] \<and>
    base64_decoder () mu_filter_lastbuf (b64_lines 2 0 (mu_base64_encode [77, 97])) 6 =
      x_ok () (length (b64_lines 2 0 (mu_base64_encode [77, 97]))) [77, 97]"
  by (rule base64_round_trip) (simp_all add: INT_MAX_def)

text \<open>C30. The base64 decoder leaves its output buffer: \<open>pad\<close> is not reset after a padded group, so the
  groups that follow \<open>A===\<close> are written one behind the other but counted as nothing, and the test for
  room never holds the loop back.\<close>

theorem base64_decoder_overruns:
  assumes "cmd \<notin> {mu_filter_init, mu_filter_done}" "3 < osize" "osize < 3 * (k + 1)"
  shows "base64_decoder () cmd ([65, EQ_C, EQ_C, EQ_C] @ replicate (4 * k) 65) osize = x_failure () OUT_OF_BOUNDS"
  by (rule base64_decoder_past_buffer[OF assms])

theorem base64_decoder_overruns_witness:
  "base64_decoder () mu_filter_xcode ([65, EQ_C, EQ_C, EQ_C] @ replicate 2732 65) 2048 = x_failure () OUT_OF_BOUNDS"
  using base64_decoder_overruns[of mu_filter_xcode 2048 683] by simp

section \<open>Associative arrays\<close>

text \<open>C31. In every associative array that can be reached, lookup of a name returns, with the data the
  array's map has for the name (in either case, if the array ignores it), or with
  \<open>MU_ERR_NOENT\<close> when it has none.\<close>

theorem assoc_lookup_refines:
  assumes "assoc_step\<^sup>*\<^sup>* (mu_assoc_create icase) a" "0 \<notin> set name"
  shows "mu_assoc_lookup a name =
    Some (case assoc_map a (assoc_key a name) of None \<Rightarrow> Inl MU_ERR_NOENT | Some v \<Rightarrow> Inr v)"
  by (rule lookup_map[OF assoc_reachable_ok[OF assms(1)] assms(2)])

theorem assoc_lookup_refines_witness:
  "\<exists>a :: nat assoc. assoc_step\<^sup>*\<^sup>* (mu_assoc_create False) a \<and>
    mu_assoc_lookup a [98] = Some (Inr (Some 5)) \<and> mu_assoc_lookup a [99] = Some (Inl MU_ERR_NOENT)"
proof -
  obtain a :: "nat assoc" where a: "assoc_step\<^sup>*\<^sup>* (mu_assoc_create False) a" "assoc_map a = [[97] \<mapsto> Some 3, [98] \<mapsto> Some 5]"
    "\<not> ac_icase a" using two_entries[of "[97]" "[98]" "Some 3" "Some 5"] by auto
  have "assoc_key a name = name" for name using a(3) by (simp add: assoc_key_def)
  with a(1,2) assoc_lookup_refines[OF a(1), of "[98]"] assoc_lookup_refines[OF a(1), of "[99]"] show ?thesis
    by (intro exI[of _ a]) simp
qed

text \<open>C32. Installation returns. A name the map has is refused with \<open>MU_ERR_EXISTS\<close> and nothing changes;
  otherwise the map gets the name with its data and the order of the entries gets it at the end,
  also when the table had to grow, unless the largest table is full (\<open>MU_ERR_BUFSPACE\<close>).\<close>

theorem assoc_install_refines:
  assumes "assoc_step\<^sup>*\<^sup>* (mu_assoc_create icase) a" "0 \<notin> set name"
  shows "if assoc_map a (assoc_key a name) \<noteq> None then mu_assoc_install a name v = Some (a, Inl MU_ERR_EXISTS)
    else (\<exists>b. mu_assoc_install a name v = Some (b, Inr ()) \<and> assoc_ok b \<and> ac_icase b = ac_icase a \<and>
        assoc_map b = (assoc_map a)(assoc_key a name \<mapsto> v) \<and> assoc_keys b = assoc_keys a @ [assoc_key a name]) \<or>
      (mu_assoc_install a name v = Some (a, Inl MU_ERR_BUFSPACE) \<and> mu_assoc_count a = assoc_limit)"
  by (rule install_map[OF assoc_reachable_ok[OF assms(1)] assms(2)])

theorem assoc_install_refines_witness:
  "\<exists>a b :: nat assoc. assoc_step\<^sup>*\<^sup>* (mu_assoc_create False) a \<and>
    mu_assoc_install a [97] None = Some (a, Inl MU_ERR_EXISTS) \<and>
    mu_assoc_install a [99] None = Some (b, Inr ()) \<and> assoc_keys b = [[97], [98], [99]]"
proof -
  obtain a :: "nat assoc" where a: "assoc_step\<^sup>*\<^sup>* (mu_assoc_create False) a" "assoc_map a = [[97] \<mapsto> Some 3, [98] \<mapsto> Some 5]"
    "\<not> ac_icase a" "assoc_keys a = [[97], [98]]" using two_entries[of "[97]" "[98]" "Some 3" "Some 5"] by auto
  have key: "assoc_key a name = name" for name using a(3) by (simp add: assoc_key_def)
  have "mu_assoc_count a \<noteq> assoc_limit"
    using arg_cong[OF a(4), of length]
    by (simp add: assoc_keys_def mu_assoc_count_def assoc_limit_def hash_size_at_def max_rehash_def hash_size_def)
  with a(2,4) assoc_install_refines[OF a(1), of "[97]" None] assoc_install_refines[OF a(1), of "[99]" None]
  show ?thesis using a(1) by (auto simp: key)
qed

text \<open>C33. Removal returns: the gap in the table is closed so that every other entry is still found, the
  map loses the name and nothing else, the order of the others stays, and the data goes to the
  destructor once. A name the map does not have gives \<open>MU_ERR_NOENT\<close>.\<close>

theorem assoc_remove_refines:
  assumes "assoc_step\<^sup>*\<^sup>* (mu_assoc_create icase) a" "0 \<notin> set name"
  shows "case assoc_map a (assoc_key a name) of
      None \<Rightarrow> mu_assoc_remove a name = Some (a, Inl MU_ERR_NOENT)
    | Some v \<Rightarrow> \<exists>b. mu_assoc_remove a name = Some (b, Inr ()) \<and> assoc_ok b \<and> ac_icase b = ac_icase a \<and>
        assoc_map b = (assoc_map a)(assoc_key a name := None) \<and>
        assoc_keys b = remove1 (assoc_key a name) (assoc_keys a) \<and>
        ac_freed b = ac_freed a @ (if ac_free a then [v] else [])"
  by (rule remove_map[OF assoc_reachable_ok[OF assms(1)] assms(2)])

theorem assoc_remove_refines_witness:
  "\<exists>a b :: nat assoc. assoc_step\<^sup>*\<^sup>* (mu_assoc_create False) a \<and>
    mu_assoc_remove a [97] = Some (b, Inr ()) \<and> assoc_map b = [[98] \<mapsto> Some 5]"
proof -
  obtain a :: "nat assoc" where a: "assoc_step\<^sup>*\<^sup>* (mu_assoc_create False) a" "assoc_map a = [[97] \<mapsto> Some 3, [98] \<mapsto> Some 5]"
    "\<not> ac_icase a" using two_entries[of "[97]" "[98]" "Some 3" "Some 5"] by auto
  have key: "assoc_key a name = name" for name using a(3) by (simp add: assoc_key_def)
  obtain b where "mu_assoc_remove a [97] = Some (b, Inr ())" "assoc_map b = (assoc_map a)([97] := None)"
    using assoc_remove_refines[OF a(1), of "[97]"] a(2) by (auto simp: key)
  moreover have "(assoc_map a)([97] := None) = [[98] \<mapsto> Some 5]" by (auto simp: a(2) fun_eq_iff)
  ultimately show ?thesis using a(1) by auto
qed

text \<open>C34. An associative array stays well-formed (each cell of the list in the table once, reachable from
  its home slot, no two with one name) in every sequence of operations that come back, the two
  faulty ones \<open>mu_assoc_pull\<close> and \<open>mu_assoc_sweep_unset\<close> included; and lookup, installation,
  removal, pop, shift and the sweep always come back: the probes, the growing of the table and the
  closing of gaps end. \<open>mu_assoc_pull\<close> does when the array pulled into has a table; without one
  it follows a null pointer, and \<open>mu_assoc_sweep_unset\<close> can follow one or leave the table, so
  neither is among those that always come back.\<close>

theorem assoc_operations_return:
  assumes "assoc_step\<^sup>*\<^sup>* (mu_assoc_create icase) a"
  shows "assoc_ok a \<and> assoc_returns a"
  using assoc_reachable_ok[OF assms] assoc_ok_returns by blast

theorem assoc_operations_return_witness:
  "\<exists>a :: nat assoc. mu_assoc_count a = 2 \<and> assoc_returns a"
proof -
  obtain a :: "nat assoc" where a: "assoc_step\<^sup>*\<^sup>* (mu_assoc_create False) a" "assoc_keys a = [[97], [98]]"
    using two_entries[of "[97]" "[98]" "Some 3" "Some 5"] by auto
  have "mu_assoc_count a = 2" using arg_cong[OF a(2), of length] by (simp add: assoc_keys_def mu_assoc_count_def)
  with assoc_operations_return[OF a(1)] show ?thesis by blast
qed

text \<open>C35. Sorting with a comparator that goes by a key is the stable sort by that key, and the map is
  what it was.\<close>

theorem assoc_sort_stable:
  assumes "assoc_step\<^sup>*\<^sup>* (mu_assoc_create icase) a"
    and "compares_by (\<lambda>c c'. cmp (cell_name a c) (cell_data a c) (cell_name a c') (cell_data a c')) key"
  shows "ac_list (mu_assoc_sort_r a (Some cmp)) = sort_key key (ac_list a) \<and>
    assoc_map (mu_assoc_sort_r a (Some cmp)) = assoc_map a \<and> assoc_ok (mu_assoc_sort_r a (Some cmp))"
  using sort_r_ok[OF assoc_reachable_ok[OF assms(1)] assms(2)] by blast

theorem assoc_sort_stable_witness:
  "\<exists>a :: nat assoc. assoc_keys a = [[97, 98], [97]] \<and>
    ac_list (mu_assoc_sort_r a (Some (\<lambda>n d n' d'. int (length n) - int (length n')))) =
      sort_key (\<lambda>c. length (cell_name a c)) (ac_list a)"
proof -
  obtain a :: "nat assoc" where a: "assoc_step\<^sup>*\<^sup>* (mu_assoc_create False) a" "assoc_keys a = [[97, 98], [97]]"
    using two_entries[of "[97, 98]" "[97]" "Some 3" "Some 5"] by auto
  have "compares_by (\<lambda>c c'. int (length (cell_name a c)) - int (length (cell_name a c'))) (\<lambda>c. length (cell_name a c))"
    by (simp add: compares_by_def)
  with assoc_sort_stable[OF a(1), of "\<lambda>n d n' d'. int (length n) - int (length n')" "\<lambda>c. length (cell_name a c)"] a(2)
  show ?thesis by blast
qed

text \<open>C36. The sweep can miss a marked entry: with one in the last slot and one that has wrapped around
  from it to slot 0, removal of the first moves the second into the slot the sweep has just left.\<close>

theorem assoc_sweep_misses:
  assumes "assoc_ok a" "ac_tab a = Some t" "assoc_size a = Suc p" "1 < p"
    and "t ! p = Some c" "ae_mark (ac_cells a c)"
    and "t ! 0 = Some c'" "assoc_home a c' = p" "ae_mark (ac_cells a c')"
    and "\<forall>i. 0 < i \<and> i < p \<longrightarrow> t ! i = None"
  shows "\<exists>b. mu_assoc_sweep a = Some b \<and> c' \<in> set (ac_list b) \<and> ae_mark (ac_cells b c')"
  using sweep_wraps[OF assms(1-8,10)] assms(9) by auto

theorem assoc_sweep_misses_witness:
  "\<exists>b. mu_assoc_sweep wrapped_assoc = Some b \<and> 1 \<in> set (ac_list b) \<and> ae_mark (ac_cells b 1)"
  by (rule assoc_sweep_misses[OF wrapped_ok, of "(replicate 101 None)[36 := Some 0, 0 := Some 1]" 36 0 1])
    (simp_all add: wrapped_homes[unfolded One_nat_def] wrapped_homes nth_list_update, simp_all add: wrapped_assoc_def)

section \<open>Quoted-printable\<close>

text \<open>C37. Reading a block of memory through the quoted-printable encoder (or Q, for message headers) in
  pieces of any size returns on every call, and the decoder turns what is delivered back into the
  block, provided no line of it ends in a blank that the encoder leaves as it is.\<close>

theorem qp_read_round_trip:
  assumes "\<forall>n \<in> set ns. 0 < n" "length (qp_enc specials bs) \<le> length ns"
    and "qp_clean specials False bs" "length bs < osize"
  shows "\<exists>fuel0. \<forall>fuel \<ge> fuel0. \<exists>out.
    mem_filter_read qp_encoder specials fuel ns bs = Some out \<and>
    qp_decoder specials mu_filter_lastbuf out osize = x_ok specials (length out) bs"
proof -
  have st: "xst (qp_encoder specials mu_filter_init [] 0) = specials" by (simp add: x_quiet_def)
  have "qp_decoder specials mu_filter_lastbuf (qp_enc specials bs) osize =
      x_ok specials (length (qp_enc specials bs)) bs"
    using qp_decoder_inverts[of specials "[]" bs "[]" osize _ 0] assms(3,4) by simp
  then show ?thesis
    using qp_enc_mem.mem_reads[where xdata = specials and ns = ns and bs = bs] assms(1,2) unfolding st by auto
qed

theorem qp_read_round_trip_witness:
  "\<exists>fuel0. \<forall>fuel \<ge> fuel0. \<exists>out.
    mem_filter_read qp_encoder alloc_Q fuel (replicate 9 4) [97, SPC, USCORE, 233] = Some out \<and>
    qp_decoder alloc_Q mu_filter_lastbuf out 8 = x_ok alloc_Q (length out) [97, SPC, USCORE, 233]"
proof (rule qp_read_round_trip)
  show "length (qp_enc alloc_Q [97, SPC, USCORE, 233]) \<le> length (replicate 9 4)" by code_simp
  show "qp_clean alloc_Q False [97, SPC, USCORE, 233]" by code_simp
qed simp_all

text \<open>A soft line break makes the quoted-printable decoder read past its input: the two branches
  for it advance over the line end but count one byte too few, the equals sign, so the loop goes on
  for one byte behind the end of the window.\<close>

theorem qp_decoder_soft_break:
  assumes "cmd \<notin> {mu_filter_init, mu_filter_done}"
    and "list_all qp_plain (xs @ ys)" "length (xs @ ys) < osize"
  shows "qp_decoder specials cmd (xs @ [EQ_C, LF] @ ys) osize = x_failure specials OUT_OF_BOUNDS"
  using qp_soft_break_loop[OF assms(2,3) refl] assms(1) by (cases cmd) auto

theorem qp_decoder_soft_break_witness:
  "qp_decoder None mu_filter_xcode ([97, 98] @ [EQ_C, LF] @ [99]) 2048 = x_failure None OUT_OF_BOUNDS"
  by (rule qp_decoder_soft_break) (simp_all add: qp_plain_def ISWS_def)

section \<open>Wildcards of IMAP\<close>

text \<open>C39. \<open>mu_imap_wildmatch\<close> and its case-insensitive form answer 0 exactly for the names the pattern
  matches as RFC 3501 says: a star stands for any string, a percent sign for any string without the
  hierarchy delimiter, which is not NUL. The early end of the search (\<open>WILD_ABORT\<close>) loses no match.
  Excluded are patterns that end in wildcards among which a percent sign follows a star.\<close>

theorem wildmatch_decides:
  assumes "delim \<noteq> NUL" "wild_clean pat"
  shows "(\<not> mu_imap_wildmatch (Some pat) name delim \<longleftrightarrow> wild_matches delim False pat name) \<and>
    (\<not> mu_imap_wildmatch_ci (Some pat) name delim \<longleftrightarrow> wild_matches delim True pat name)"
  using wild_match_correct(1)[OF assms, of _ name]
  by (simp add: mu_imap_wildmatch_def mu_imap_wildmatch_ci_def wild_decides_def)

theorem wildmatch_decides_witness:
  "(\<not> mu_imap_wildmatch (Some [42, 47, 37, 98]) [97, 47, 66, 98] 47 \<longleftrightarrow> wild_matches 47 False [42, 47, 37, 98] [97, 47, 66, 98]) \<and>
    (\<not> mu_imap_wildmatch_ci (Some [42, 47, 37, 98]) [97, 47, 66, 98] 47 \<longleftrightarrow> wild_matches 47 True [42, 47, 37, 98] [97, 47, 66, 98])"
  by (rule wildmatch_decides) simp_all

section \<open>Linked lists\<close>

text \<open>C5. Lists and iterators are used safely: in every heap reached from the empty one by allowed calls
  each list is a circle of its own nodes with the right count, and every allowed call returns
  without going through a reference that is not allocated, out of memory included. Allowed are the
  calls on lists that exist and iterators attached to one, with these exceptions, of which the
  program does not survive all: a list is only cleared while no iterator stands at one of its
  nodes, and only destroyed or merged into another one without iterators; a list that is inserted
  or prepended is not empty and not the list itself; an iterator only moves on, deletes or replaces
  when it has been started, the latter two at an item. Copies of iterators are not among the calls.\<close>

theorem lists_type_safe:
  assumes "list_reachable h" "allowed c h"
  shows "(\<exists>S. heap_wf h S) \<and> (\<exists>h'. run_call c h = Some h' \<and> list_reachable h' \<and> (\<exists>S. heap_wf h' S))"
proof -
  from list_reachable_wf[OF assms(1)] assms run_call_safe list_reachable.step[OF assms]
  obtain S h' where "heap_wf h S" "run_call c h = Some h'" "list_reachable h'" by blast
  with list_reachable_wf[of h'] show ?thesis by blast
qed

theorem lists_type_safe_witness:
  "(\<exists>S. heap_wf (fst (mu_list_create (empty_heap [1, 2, 3]))) S) \<and>
   (\<exists>h'. run_call (List_append 1 7) (fst (mu_list_create (empty_heap [1, 2, 3]))) = Some h' \<and> list_reachable h' \<and>
     (\<exists>S. heap_wf h' S))"
proof (rule lists_type_safe)
  have "list_reachable (empty_heap [1, 2, 3])" by (rule list_reachable.start) simp_all
  then show "list_reachable (fst (mu_list_create (empty_heap [1, 2, 3])))"
    by (rule list_reachable.step[where c = List_create]) simp_all
  show "allowed (List_append 1 7) (fst (mu_list_create (empty_heap [1, 2, 3])))"
    by (simp add: is_list_def mu_list_create_def empty_heap_def calloc_def)
qed

text \<open>C11. The operations on a list are those on the sequence of its items: they return what the
  sequence operation returns, change the items of that list as it does, and leave all other lists
  alone.\<close>

theorem list_operations_refine:
  assumes "heap_wf h S" "S p = Some rs" "hp_pool h \<noteq> []"
    and "xs = map (itm (hp_node h)) rs" "eq = same_item h p" "found = (if list_ex (eq x) xs then None else Some MU_ERR_NOENT)"
  shows "(\<exists>h' rs'. mu_list_append p y h = Some (h', None) \<and> changed h S p rs' (xs @ [y]) h') \<and>
    (\<exists>h' rs'. mu_list_prepend p y h = Some (h', None) \<and> changed h S p rs' (y # xs) h') \<and>
    (\<exists>h' rs'. mu_list_insert p x y before h = Some (h', found) \<and>
      changed h S p rs' (at_first (eq x) (\<lambda>c. if before then [y, c] else [c, y]) xs) h') \<and>
    (\<exists>h' rs'. mu_list_remove p x h = Some (h', found) \<and> changed h S p rs' (at_first (eq x) (\<lambda>_. []) xs) h') \<and>
    (\<exists>h' rs'. mu_list_replace p x y h = Some (h', found) \<and> changed h S p rs' (at_first (eq x) (\<lambda>_. [y]) xs) h') \<and>
    (\<exists>h' rs'. mu_list_remove_nth p n h = Some (h', if n < length xs then None else Some ERANGE) \<and>
      changed h S p rs' (take n xs @ drop (Suc n) xs) h') \<and>
    (\<exists>h' rs'. mu_list_pop p keep h = Some (h', if xs = [] then Inl MU_ERR_NOENT else Inr (last xs)) \<and>
      changed h S p rs' (butlast xs) h') \<and>
    mu_list_get p n h = Some (if n < length xs then Inr (xs ! n) else Inl MU_ERR_NOENT) \<and>
    mu_list_locate p x h = Some (case find (eq x) xs of None \<Rightarrow> Inl MU_ERR_NOENT | Some y \<Rightarrow> Inr y) \<and>
    mu_list_to_array p n h = Some (Inr (take n xs, min n (length xs))) \<and>
    mu_list_count p h = Some (Inr (length xs))"
proof -
  from assms(3) obtain r pool where pool: "hp_pool h = r # pool" by (cases "hp_pool h") auto
  have ex: "list_ex (eq x) xs \<longleftrightarrow> (\<exists>c \<in> set rs. same_item h p x (itm (hp_node h) c))"
    by (auto simp: assms(4,5) list_ex_iff)
  note wf = assms(1,2)
  show ?thesis
    unfolding assms(6) ex unfolding assms(4,5) changed_def
    using mu_list_append_ok[OF wf pool] mu_list_prepend_ok[OF wf pool] mu_list_insert_ok[OF wf pool]
      mu_list_remove_ok[OF wf] mu_list_replace_ok[OF wf] mu_list_remove_nth_ok[OF wf] mu_list_pop_ok[OF wf]
      mu_list_get_nth[OF wf] mu_list_locate_find[OF wf] mu_list_to_array_take[OF wf] mu_list_count_length(1)[OF wf]
    unfolding changed_def by (intro conjI) (simp_all, blast+)
qed

theorem list_operations_refine_witness:
  "\<exists>h' rs'. mu_list_remove 1 7 example_heap = Some (h', None) \<and> changed example_heap [1 \<mapsto> [2, 3]] 1 rs' [8] h'"
proof -
  have pool: "hp_pool example_heap = [4, 5]" "map (itm (hp_node example_heap)) [2, 3] = [7, 8]" by code_simp+
  have same: "same_item example_heap 1 7 7" by code_simp
  show ?thesis
    using list_operations_refine[OF example_heap_wf(1), of 1 "[2, 3]" "[7, 8]" _ _ 7] pool same by (simp; blast)
qed

text \<open>C25. A \<open>foreach\<close> whose action removes the items with a property from the list it is called for
  returns, calls the action once for every item, in order, and leaves exactly the other items: the
  iterator is told of each deletion.\<close>

theorem list_foreach_removes:
  assumes "heap_wf h S" "S p = Some rs" "hp_pool h \<noteq> []"
    and "hp_list h p = Some l" "\<forall>x y. list_comp l y x = 0 \<longleftrightarrow> x = y" "distinct (map (itm (hp_node h)) rs)"
  shows "\<exists>h' S'. mu_list_foreach p (purge P p) (h, []) = Some ((h', map (itm (hp_node h)) rs), None) \<and>
    heap_wf h' S' \<and> contents h' S' = (contents h S)(p \<mapsto> filter (\<lambda>x. \<not> P x) (map (itm (hp_node h)) rs))"
  by (rule mu_list_foreach_purge[OF assms])

theorem list_foreach_removes_witness:
  "\<exists>h' S'. mu_list_foreach 1 (purge (\<lambda>x. x = 7) 1) (example_heap, []) = Some ((h', [7, 8]), None) \<and>
    heap_wf h' S' \<and> contents h' S' = [1 \<mapsto> [8]]"
proof -
  have e: "hp_pool example_heap = [4, 5]" "map (itm (hp_node example_heap)) [2, 3] = [7, 8]"
    "map_option ml_count (hp_list example_heap 1) = Some 2" "map_option (\<lambda>l. ml_comp l = None) (hp_list example_heap 1) = Some True"
    by code_simp+
  from e(3) obtain l where l: "hp_list example_heap 1 = Some l" by auto
  with e(4) have "\<forall>x y. list_comp l y x = 0 \<longleftrightarrow> x = y" by (simp add: list_comp_def list_ptr_comparator_def)
  from list_foreach_removes[OF example_heap_wf(1) _ _ l this, of "[2, 3]" "\<lambda>x. x = 7"] e
  show ?thesis unfolding example_heap_wf(2) by simp
qed

text \<open>C40. \<open>mu_list_prepend_list\<close> destroys the list when the second one is empty, which
  \<open>mu_list_append_list\<close> tests for: with two empty lists the first one's links then go to the second
  and stay there, so no walk along the first list ends, although it counts no items.\<close>

theorem prepend_empty_list_corrupts:
  assumes "heap_wf h S" "S p = Some []" "S q = Some []" "p \<noteq> q" "\<forall>x v. fst (f x v) = None"
  shows "\<exists>h'. mu_list_prepend_list p q h = Some h' \<and> get_next p h' = Some q \<and> get_next q h' = Some q \<and>
    mu_list_count p h' = Some (Inr 0) \<and> mu_list_fold p f v h' = None"
proof -
  obtain h' where h': "mu_list_prepend_list p q h = Some h'" "get_next p h' = Some q" "get_next q h' = Some q"
    "mu_list_count p h' = Some (Inr 0)" using prepend_empty[OF assms(1-4)] by blast
  moreover have "p \<noteq> 0" using heap_wf_null[OF assms(1,2)] by blast
  ultimately show ?thesis using prepend_empty_fold[OF h'(2,3) assms(4) _ assms(5)] by blast
qed

theorem prepend_empty_list_corrupts_witness:
  "\<exists>h'. mu_list_prepend_list 1 2 example_pair = Some h' \<and> get_next 1 h' = Some 2 \<and> get_next 2 h' = Some 2 \<and>
    mu_list_count 1 h' = Some (Inr 0) \<and> mu_list_fold 1 (\<lambda>x n. (None, n + 1)) (0 :: nat) h' = None"
  by (rule prepend_empty_list_corrupts[OF example_pair_wf]) simp_all

section \<open>Strings and file names\<close>

text \<open>C10. A text escaped with a pair of tables is unescaped to itself: for a UTF-8 text, a set of ASCII
  characters with the backslash among them and escapes that are all different. Both calls stay within
  the blocks they allocate.\<close>

theorem c_str_escape_round_trip:
  assumes "utf8_shaped s" "0 \<notin> set s" "ascii_set chr" "BSLASH \<in> set chr"
    and "length xtab = length chr" "distinct xtab" "0 \<notin> set xtab"
  shows "\<exists>e. mu_c_str_escape (Some s) (Some chr) (Some xtab) True = Inr (Some e) \<and>
    mu_c_str_unescape (Some e) (Some chr) (Some xtab) True = Inr (Some s)"
  using c_str_escape_trip[OF assms(1,3,2,5,6,4,7)] by metis

theorem c_str_escape_round_trip_witness:
  "\<exists>e. mu_c_str_escape (Some [97, BSLASH, 0xc3, 0xa4, LF]) (Some [BSLASH, LF]) (Some [BSLASH, 110]) True = Inr (Some e) \<and>
    mu_c_str_unescape (Some e) (Some [BSLASH, LF]) (Some [BSLASH, 110]) True = Inr (Some [97, BSLASH, 0xc3, 0xa4, LF])"
  by (rule c_str_escape_round_trip) (simp_all add: utf8_shaped_def ascii_set_def)

text \<open>C14. The search that ignores case finds the first place where the needle begins, and nothing when there is
  none, for every needle and haystack.\<close>

theorem strcasestr_first_occurrence:
  "mu_c_strcasestr haystack needle = first_occurrence haystack needle"
  by (rule mu_c_strcasestr_first)

text \<open>C17. Which ASCII file names are taken to be safe: those that do not begin with the component \<open>.\<close>
  and have no component \<open>..\<close> after the first. So names that begin with \<open>../\<close> are taken to be safe, against the intent,
  and those that begin with \<open>./\<close> are not.\<close>

theorem file_name_is_safe_decides:
  assumes "\<forall>c\<in>set s. c < 0xc0"
  shows "mu_file_name_is_safe (Some s) \<longleftrightarrow>
    hd (components s) \<noteq> [DOT] \<and> [DOT, DOT] \<notin> set (tl (components s))"
  by (rule mu_file_name_is_safe_components[OF assms])

theorem file_name_is_safe_decides_witness:
  "mu_file_name_is_safe (Some [DOT, DOT, SLASH, 97]) \<and> \<not> mu_file_name_is_safe (Some [97, SLASH, DOT, DOT, SLASH, 98]) \<and>
    \<not> mu_file_name_is_safe (Some [DOT, SLASH, 97])"
  using file_name_is_safe_decides[of "[DOT, DOT, SLASH, 97]"] file_name_is_safe_decides[of "[97, SLASH, DOT, DOT, SLASH, 98]"]
    file_name_is_safe_decides[of "[DOT, SLASH, 97]"] by simp

text \<open>C38. A byte from \<open>0xc0\<close> on hides the character after it from the count that the size of the result is
  computed from: a character to be escaped stays as it is when it is the only one, and with a second one
  the result is larger than its block.\<close>

theorem c_str_escape_overflows:
  assumes "0xc0 \<le> a" "a \<notin> set chr" "q \<in> set chr" "q < 0xc0" "0 \<notin> set chr"
  shows "mu_c_str_escape (Some [a, q]) (Some chr) None True = Inr (Some [a, q]) \<and>
    mu_c_str_escape (Some [a, q, q]) (Some chr) None True = Inl OUT_OF_BOUNDS"
  using mu_c_str_escape_hidden[OF assms] by blast

theorem c_str_escape_overflows_witness:
  "mu_c_str_escape (Some [0xe4, DQUOTE]) (Some [BSLASH, DQUOTE]) None True = Inr (Some [0xe4, DQUOTE]) \<and>
    mu_c_str_escape (Some [0xe4, DQUOTE, DQUOTE]) (Some [BSLASH, DQUOTE]) None True = Inl OUT_OF_BOUNDS"
  by (rule c_str_escape_overflows) simp_all

section \<open>Mail addresses\<close>



text \<open>C24. Merging a list of addresses with another one that is not empty, when every address of both has
  an email and no two of the first have the same (but for case): the result has the addresses of the first
  list, in order, before those of the second whose email was not there yet, so it has the emails of both and
  none twice.\<close>

theorem address_union_merges:
  assumes "list_all has_email a" "list_all has_email b" "b \<noteq> []" "distinct (map email_key a)"
  shows "\<exists>c. mu_address_union user a b = Inr c \<and> prefix (map email_key a) (map email_key c) \<and>
    set (map email_key c) = set (map email_key a) \<union> set (map email_key b) \<and> distinct (map email_key c)"
  by (rule union_keys[OF assms])

theorem address_union_merges_witness:
  "\<exists>c. mu_address_union None (mailboxes [(None, [97], [98])]) (mailboxes [(None, [65], [66]), (None, [99], [100])]) = Inr c \<and>
    prefix (map email_key (mailboxes [(None, [97], [98])])) (map email_key c) \<and>
    set (map email_key c) = set (map email_key (mailboxes [(None, [97], [98])])) \<union>
      set (map email_key (mailboxes [(None, [65], [66]), (None, [99], [100])])) \<and> distinct (map email_key c)"
proof (rule address_union_merges)
  show "list_all has_email (mailboxes [(None, [97], [98])])"
    "list_all has_email (mailboxes [(None, [65], [66]), (None, [99], [100])])" by code_simp+
qed (simp_all add: mailboxes_def)

text \<open>White space after the closing bracket of an address makes the parser reject the list: it skips the
  space, is then at the end, and looks for a comma.\<close>

theorem address_trailing_space:
  assumes "local_ok l" "domain_ok d"
  shows "mu_parse822_address_list no_hints (LT_C # email_of l d @ [GT_C]) = Inr [mailbox_of None l d] \<and>
    mu_parse822_address_list no_hints (LT_C # email_of l d @ [GT_C, SPC]) = Inl MU_ERR_INVALID_EMAIL"
  using trailing_space[OF assms] format_parse[of "[(None, l, d)]"] assms
  by (simp add: mailbox_ok_def name_ok_def mailboxes_def mu_stream_format_address_def format_one_mailbox)

theorem address_trailing_space_witness:
  "mu_parse822_address_list no_hints (LT_C # email_of [97] [98] @ [GT_C]) = Inr [mailbox_of None [97] [98]] \<and>
    mu_parse822_address_list no_hints (LT_C # email_of [97] [98] @ [GT_C, SPC]) = Inl MU_ERR_INVALID_EMAIL"
proof (rule address_trailing_space)
  show "local_ok [97]" "domain_ok [98]" by code_simp+
qed

end
